(* ===== verification/GB_Prelude.thy ===== *)
theory GB_Prelude
  imports Main "HOL-Library.Word" "HOL-Library.Sublist"
begin

text \<open>
  Shared vocabulary of the development: the machine types of the Rust sources, the result
  type with its sequencing operator (the \<open>?\<close> operator of the code), checked and
  saturating unsigned arithmetic, little- and big-endian byte codecs, ASCII classification,
  and printing and parsing of decimal numbers as \<open>to_string\<close> and
  \<open>str::parse\<close> do them. Rust strings are modelled as their UTF-8 bytes
  (\<open>String::len\<close> is \<open>length\<close>); \<open>scalars\<close> decodes them where the code counts or
  classifies characters.
\<close>

named_theorems gb_codec \<open>round trips and lengths of the byte codecs\<close>
named_theorems gb_defs \<open>definitions that component proofs unfold together\<close>

type_synonym u8 = "8 word"
type_synonym u16 = "16 word"
type_synonym u32 = "32 word"
type_synonym u64 = "64 word"
type_synonym i64 = "64 word"
type_synonym usize = nat
type_synonym bytes = "u8 list"
type_synonym ('e, 'a) result = "'e + 'a"

section \<open>Results\<close>

text \<open>\<open>rbind m k\<close> is \<open>k (m?)\<close>: an error returns at once, a value goes on.\<close>

fun rbind :: "('e, 'a) result \<Rightarrow> ('a \<Rightarrow> ('e, 'b) result) \<Rightarrow> ('e, 'b) result" where
  "rbind (Inl e) k = Inl e"
| "rbind (Inr x) k = k x"

definition ok_or :: "'e \<Rightarrow> 'a option \<Rightarrow> ('e, 'a) result" where
  "ok_or e m = (case m of None \<Rightarrow> Inl e | Some x \<Rightarrow> Inr x)"

definition guard_err :: "bool \<Rightarrow> 'e \<Rightarrow> ('e, unit) result" where
  "guard_err c e = (if c then Inl e else Inr ())"

fun for_each :: "('a \<Rightarrow> ('e, unit) result) \<Rightarrow> 'a list \<Rightarrow> ('e, unit) result" where
  "for_each f [] = Inr ()"
| "for_each f (x # xs) = rbind (f x) (\<lambda>_. for_each f xs)"

text \<open>\<open>collect\<close> into a result: the first error wins.\<close>

fun collect_results :: "('e, 'a) result list \<Rightarrow> ('e, 'a list) result" where
  "collect_results [] = Inr []"
| "collect_results (r # rs) = rbind r (\<lambda>x. rbind (collect_results rs) (\<lambda>xs. Inr (x # xs)))"

lemma rbind_cong [fundef_cong]:
  "m = m' \<Longrightarrow> (\<And>x. m' = Inr x \<Longrightarrow> k x = k' x) \<Longrightarrow> rbind m k = rbind m' k'"
  by (cases m') auto

lemma rbind_assoc: "rbind (rbind m f) g = rbind m (\<lambda>x. rbind (f x) g)"
  by (cases m) simp_all

lemma rbind_Inr_iff [simp]: "rbind m k = Inr y \<longleftrightarrow> (\<exists>x. m = Inr x \<and> k x = Inr y)"
  by (cases m) auto

lemma rbind_Inl_iff:
  "rbind m k = Inl e \<longleftrightarrow> m = Inl e \<or> (\<exists>x. m = Inr x \<and> k x = Inl e)"
  by (cases m) auto

lemma ok_or_Inr [simp]: "ok_or e m = Inr x \<longleftrightarrow> m = Some x"
  by (simp add: ok_or_def split: option.splits)

lemma ok_or_simps [simp]: "ok_or e None = Inl e" "ok_or e (Some x) = Inr x"
  by (simp_all add: ok_or_def)

lemma guard_err_Inr [simp]: "guard_err c e = Inr u \<longleftrightarrow> \<not> c"
  by (simp add: guard_err_def)

lemma guard_err_Inl [simp]: "guard_err c e = Inl e' \<longleftrightarrow> c \<and> e' = e"
  by (auto simp: guard_err_def)

lemma guard_err_simps [simp]: "guard_err True e = Inl e" "guard_err False e = Inr ()"
  by (simp_all add: guard_err_def)

lemma for_each_Inr: "for_each f xs = Inr u \<longleftrightarrow> (\<forall>x\<in>set xs. f x = Inr ())"
  by (induction xs) auto

section \<open>Unsigned arithmetic\<close>

text \<open>\<open>checked_add\<close> and \<open>saturating_add\<close>, \<open>saturating_mul\<close>, \<open>saturating_sub\<close> of an
  unsigned integer type.\<close>

definition checked_add :: "'a::len word \<Rightarrow> 'a word \<Rightarrow> 'a word option" where
  "checked_add a b = (if unat a + unat b < 2 ^ LENGTH('a) then Some (a + b) else None)"

definition saturating_add :: "'a::len word \<Rightarrow> 'a word \<Rightarrow> 'a word" where
  "saturating_add a b = (if unat a + unat b < 2 ^ LENGTH('a) then a + b else - 1)"

definition saturating_mul :: "'a::len word \<Rightarrow> 'a word \<Rightarrow> 'a word" where
  "saturating_mul a b = (if unat a * unat b < 2 ^ LENGTH('a) then a * b else - 1)"

definition saturating_sub :: "'a::len word \<Rightarrow> 'a word \<Rightarrow> 'a word" where
  "saturating_sub a b = (if b \<le> a then a - b else 0)"

lemma unat_saturating_sub: "unat (saturating_sub a b) = unat a - unat b"
  by (auto simp: saturating_sub_def word_le_nat_alt unat_sub_if')

lemma unat_less_exp: "unat (w :: 'a::len word) < 2 ^ LENGTH('a)"
  by (rule unsigned_less)

lemma unat_add_no_wrap:
  "unat a + unat b < 2 ^ LENGTH('a) \<Longrightarrow> unat (a + b :: 'a::len word) = unat a + unat b"
  by (simp add: unat_word_ariths)

lemma checked_add_Some:
  "checked_add a b = Some c \<Longrightarrow> unat c = unat a + unat b"
  by (auto simp: checked_add_def unat_add_no_wrap split: if_splits)

lemma checked_add_Some_iff:
  "checked_add a b = Some c \<longleftrightarrow> unat c = unat a + unat b"
proof
  assume eq: "unat c = unat a + unat b"
  then have lt: "unat a + unat b < 2 ^ LENGTH('a)"
    using unat_less_exp [of c] by simp
  have "unat c = unat (a + b)"
    using eq unat_add_no_wrap [OF lt] by simp
  then have "c = a + b" by (simp add: word_unat_eq_iff)
  with lt show "checked_add a b = Some c" by (simp add: checked_add_def)
qed (rule checked_add_Some)

lemma unat_saturating_add:
  "unat (saturating_add a b :: 'a::len word) = min (unat a + unat b) (2 ^ LENGTH('a) - 1)"
  by (auto simp: saturating_add_def unat_add_no_wrap unsigned_minus_1_eq_mask
      mask_eq_exp_minus_1 min_def)

lemma saturating_add_mono: "unat a \<le> unat (saturating_add a b :: 'a::len word)"
proof -
  have "unat a \<le> 2 ^ LENGTH('a) - 1" using unat_less_exp [of a] by linarith
  then show ?thesis by (simp add: unat_saturating_add)
qed

section \<open>Little- and big-endian bytes\<close>

fun to_le :: "nat \<Rightarrow> nat \<Rightarrow> bytes" where
  "to_le 0 x = []"
| "to_le (Suc n) x = of_nat (x mod 256) # to_le n (x div 256)"

fun from_le :: "bytes \<Rightarrow> nat" where
  "from_le [] = 0"
| "from_le (b # bs) = unat b + 256 * from_le bs"

definition u16_to_le :: "u16 \<Rightarrow> bytes" where "u16_to_le w = to_le 2 (unat w)"
definition u32_to_le :: "u32 \<Rightarrow> bytes" where "u32_to_le w = to_le 4 (unat w)"
definition u64_to_le :: "u64 \<Rightarrow> bytes" where "u64_to_le w = to_le 8 (unat w)"
definition u32_from_le :: "bytes \<Rightarrow> u32" where "u32_from_le bs = of_nat (from_le bs)"
definition u64_from_le :: "bytes \<Rightarrow> u64" where "u64_from_le bs = of_nat (from_le bs)"
definition u32_to_be :: "u32 \<Rightarrow> bytes" where "u32_to_be w = rev (to_le 4 (unat w))"
definition u64_to_be :: "u64 \<Rightarrow> bytes" where "u64_to_be w = rev (to_le 8 (unat w))"

lemma length_to_le [simp]: "length (to_le n x) = n"
  by (induction n arbitrary: x) auto

lemma to_le_numeral [simp]:
  "to_le (numeral k) x = of_nat (x mod 256) # to_le (pred_numeral k) (x div 256)"
  by (simp only: numeral_eq_Suc [of k] to_le.simps)

lemma from_le_to_le: "from_le (to_le n x) = x mod 256 ^ n"
proof (induction n arbitrary: x)
  case (Suc n)
  then show ?case
    by (simp add: unat_of_nat mod_mult2_eq add.commute)
qed simp

lemma to_le_inj: "x < 256 ^ n \<Longrightarrow> y < 256 ^ n \<Longrightarrow> to_le n x = to_le n y \<Longrightarrow> x = y"
  by (metis from_le_to_le mod_less)

lemma length_int_bytes [simp, gb_codec]:
  "length (u16_to_le w) = 2" "length (u32_to_le v) = 4" "length (u64_to_le z) = 8"
  "length (u32_to_be v) = 4" "length (u64_to_be z) = 8"
  by (simp_all add: u16_to_le_def u32_to_le_def u64_to_le_def u32_to_be_def u64_to_be_def
      del: to_le_numeral)

lemma u32_from_to_le [simp, gb_codec]: "u32_from_le (u32_to_le w) = w"
proof -
  have "unat w < 256 ^ 4" using unat_less_exp [of w] by simp
  then show ?thesis by (simp add: u32_from_le_def u32_to_le_def from_le_to_le del: to_le_numeral)
qed

lemma u64_from_to_le [simp, gb_codec]: "u64_from_le (u64_to_le w) = w"
proof -
  have "unat w < 256 ^ 8" using unat_less_exp [of w] by simp
  then show ?thesis by (simp add: u64_from_le_def u64_to_le_def from_le_to_le del: to_le_numeral)
qed

lemma from_le_bound: "from_le bs < 256 ^ length bs"
proof (induction bs)
  case (Cons b bs)
  have "unat b < 256" using unat_less_exp [of b] by simp
  moreover have "from_le bs + 1 \<le> 256 ^ length bs" using Cons by simp
  then have "256 * (from_le bs + 1) \<le> 256 * 256 ^ length bs" by (rule mult_le_mono2)
  ultimately show ?case by simp
qed simp

lemma to_le_from_le: "to_le (length bs) (from_le bs) = bs"
proof (induction bs)
  case (Cons b bs)
  have "unat b < 256" using unat_less_exp [of b] by simp
  then show ?case using Cons by (simp add: mod_mult_self2 div_mult_self2)
qed simp

lemma u32_to_from_le [gb_codec]: "length bs = 4 \<Longrightarrow> u32_to_le (u32_from_le bs) = bs"
proof -
  assume l: "length bs = 4"
  then have "from_le bs < 2 ^ 32" using from_le_bound [of bs] by simp
  then show ?thesis using to_le_from_le [of bs] l
    by (simp add: u32_to_le_def u32_from_le_def unat_of_nat del: to_le_numeral)
qed

lemma u64_to_from_le [gb_codec]: "length bs = 8 \<Longrightarrow> u64_to_le (u64_from_le bs) = bs"
proof -
  assume l: "length bs = 8"
  then have "from_le bs < 2 ^ 64" using from_le_bound [of bs] by simp
  then show ?thesis using to_le_from_le [of bs] l
    by (simp add: u64_to_le_def u64_from_le_def unat_of_nat del: to_le_numeral)
qed

lemma u32_to_be_inj [simp]: "u32_to_be v = u32_to_be w \<longleftrightarrow> v = w"
proof
  assume "u32_to_be v = u32_to_be w"
  then have "u32_to_le v = u32_to_le w" by (simp add: u32_to_be_def u32_to_le_def del: to_le_numeral)
  then show "v = w" by (metis u32_from_to_le)
qed simp

lemma u64_to_be_inj [simp]: "u64_to_be v = u64_to_be w \<longleftrightarrow> v = w"
proof
  assume "u64_to_be v = u64_to_be w"
  then have "u64_to_le v = u64_to_le w" by (simp add: u64_to_be_def u64_to_le_def del: to_le_numeral)
  then show "v = w" by (metis u64_from_to_le)
qed simp

section \<open>Slices\<close>

text \<open>\<open>subslice i j xs\<close> is \<open>&xs[i..j]\<close>; the callers check the bounds the code checks.\<close>

definition subslice :: "nat \<Rightarrow> nat \<Rightarrow> 'a list \<Rightarrow> 'a list" where
  "subslice i j xs = take (j - i) (drop i xs)"

lemma subslice_append_skip [simp]:
  "length xs \<le> i \<Longrightarrow> subslice i j (xs @ ys) = subslice (i - length xs) (j - length xs) ys"
  by (simp add: subslice_def)

lemma subslice_append_prefix: "j \<le> length xs \<Longrightarrow> subslice i j (xs @ ys) = subslice i j xs"
proof (cases "i \<le> length xs")
  case False
  assume "j \<le> length xs"
  with False show ?thesis by (simp add: subslice_def)
qed (simp add: subslice_def)

lemma subslice_all [simp]: "length xs \<le> j \<Longrightarrow> subslice 0 j xs = xs"
  by (simp add: subslice_def)

lemma length_subslice: "j \<le> length xs \<Longrightarrow> i \<le> j \<Longrightarrow> length (subslice i j xs) = j - i"
  by (simp add: subslice_def)

lemma subslice_join: "i \<le> j \<Longrightarrow> j \<le> k \<Longrightarrow> subslice i j xs @ subslice j k xs = subslice i k xs"
proof -
  assume "i \<le> j" "j \<le> k"
  then have "k - i = (j - i) + (k - j)" and "drop (j - i) (drop i xs) = drop j xs"
    by (auto simp: add.commute)
  then show ?thesis by (simp add: subslice_def take_add)
qed

definition strip_prefix :: "'a list \<Rightarrow> 'a list \<Rightarrow> 'a list option" where
  "strip_prefix p xs = (if take (length p) xs = p then Some (drop (length p) xs) else None)"

definition strip_suffix :: "'a list \<Rightarrow> 'a list \<Rightarrow> 'a list option" where
  "strip_suffix p xs = map_option rev (strip_prefix (rev p) (rev xs))"

definition starts_with :: "'a list \<Rightarrow> 'a list \<Rightarrow> bool" where
  "starts_with xs p \<longleftrightarrow> take (length p) xs = p"

lemma strip_prefix_append [simp]: "strip_prefix p (p @ xs) = Some xs"
  by (simp add: strip_prefix_def)

lemma strip_prefix_Some: "strip_prefix p xs = Some ys \<longleftrightarrow> xs = p @ ys"
  by (auto simp: strip_prefix_def) (metis append_take_drop_id)

lemma strip_suffix_Some: "strip_suffix p xs = Some ys \<longleftrightarrow> xs = ys @ p"
proof -
  have "strip_suffix p xs = Some ys \<longleftrightarrow> rev xs = rev p @ rev ys"
    by (auto simp: strip_suffix_def strip_prefix_Some)
  also have "\<dots> \<longleftrightarrow> xs = ys @ p"
    by (metis rev_append rev_rev_ident)
  finally show ?thesis .
qed

lemma strip_suffix_append [simp]: "strip_suffix p (xs @ p) = Some xs"
  by (simp add: strip_suffix_Some)

lemma starts_with_iff: "starts_with xs p \<longleftrightarrow> (\<exists>ys. xs = p @ ys)"
  unfolding starts_with_def by (metis append_take_drop_id append_eq_conv_conj)

section \<open>Characters\<close>

definition code :: "char \<Rightarrow> nat" where
  "code c = of_char c"

definition is_ascii_digit :: "char \<Rightarrow> bool" where
  "is_ascii_digit c \<longleftrightarrow> 48 \<le> code c \<and> code c \<le> 57"

definition is_ascii_lowercase :: "char \<Rightarrow> bool" where
  "is_ascii_lowercase c \<longleftrightarrow> 97 \<le> code c \<and> code c \<le> 122"

definition is_ascii_uppercase :: "char \<Rightarrow> bool" where
  "is_ascii_uppercase c \<longleftrightarrow> 65 \<le> code c \<and> code c \<le> 90"

definition is_ascii_alphabetic :: "char \<Rightarrow> bool" where
  "is_ascii_alphabetic c \<longleftrightarrow> is_ascii_lowercase c \<or> is_ascii_uppercase c"

definition is_ascii_alphanumeric :: "char \<Rightarrow> bool" where
  "is_ascii_alphanumeric c \<longleftrightarrow> is_ascii_alphabetic c \<or> is_ascii_digit c"

definition is_ascii_hexdigit :: "char \<Rightarrow> bool" where
  "is_ascii_hexdigit c \<longleftrightarrow>
     is_ascii_digit c \<or> (97 \<le> code c \<and> code c \<le> 102) \<or> (65 \<le> code c \<and> code c \<le> 70)"

definition to_ascii_lowercase :: "string \<Rightarrow> string" where
  "to_ascii_lowercase s =
     map (\<lambda>c. if is_ascii_uppercase c then char_of (code c + 32) else c) s"

lemmas ascii_defs = code_def is_ascii_digit_def is_ascii_lowercase_def is_ascii_uppercase_def
  is_ascii_alphabetic_def is_ascii_alphanumeric_def is_ascii_hexdigit_def

text \<open>\<open>as_bytes\<close> of a string.\<close>

definition bytes_of :: "string \<Rightarrow> bytes" where
  "bytes_of s = map of_char s"

lemma bytes_of_inj [simp]: "bytes_of s = bytes_of t \<longleftrightarrow> s = t"
proof -
  have "c = d" if "(of_char c :: u8) = of_char d" for c d :: char
  proof -
    have "unat (of_nat (of_char c) :: u8) = unat (of_nat (of_char d) :: u8)"
      using that by (simp add: of_nat_of_char)
    then show "c = d" by (simp add: unsigned_of_nat take_bit_eq_mod)
  qed
  then have "inj (of_char :: char \<Rightarrow> u8)" by (rule injI)
  then show ?thesis by (simp add: bytes_of_def inj_map_eq_map)
qed

text \<open>A string is its UTF-8 bytes. \<open>char_chunks\<close> splits it into its encoded characters and
  \<open>scalars\<close> gives their code points; both are what \<open>str::chars\<close> yields on the well-formed
  UTF-8 every Rust string is.\<close>

definition utf8_extra :: "char \<Rightarrow> nat" where
  "utf8_extra c = (if code c < 192 then 0 else if code c < 224 then 1
     else if code c < 240 then 2 else 3)"

function char_chunks :: "string \<Rightarrow> string list" where
  "char_chunks [] = []"
| "char_chunks (c # cs) =
     (c # take (utf8_extra c) cs) # char_chunks (drop (utf8_extra c) cs)"
  by pat_completeness auto
termination by (relation "measure length") auto

fun scalar_of :: "string \<Rightarrow> nat" where
  "scalar_of [] = 0"
| "scalar_of [a] = code a"
| "scalar_of [a, b] = (code a - 192) * 64 + (code b - 128)"
| "scalar_of [a, b, c] = ((code a - 224) * 64 + (code b - 128)) * 64 + (code c - 128)"
| "scalar_of (a # b # c # d # _) =
     (((code a - 240) * 64 + (code b - 128)) * 64 + (code c - 128)) * 64 + (code d - 128)"

definition scalars :: "string \<Rightarrow> nat list" where
  "scalars s = map scalar_of (char_chunks s)"

text \<open>\<open>char::is_whitespace\<close>: the Unicode property White_Space.\<close>

definition is_whitespace :: "nat \<Rightarrow> bool" where
  "is_whitespace n \<longleftrightarrow> (9 \<le> n \<and> n \<le> 13) \<or> n = 32 \<or> n = 133 \<or> n = 160 \<or> n = 5760
     \<or> (8192 \<le> n \<and> n \<le> 8202) \<or> n = 8232 \<or> n = 8233 \<or> n = 8239 \<or> n = 8287 \<or> n = 12288"

definition trim :: "string \<Rightarrow> string" where
  "trim s = (let ws = \<lambda>ch. is_whitespace (scalar_of ch) in
     concat (rev (dropWhile ws (rev (dropWhile ws (char_chunks s))))))"

lemma concat_char_chunks [simp]: "concat (char_chunks s) = s"
  by (induction s rule: char_chunks.induct) auto

lemma char_chunks_nonempty: "ch \<in> set (char_chunks s) \<Longrightarrow> ch \<noteq> []"
  by (induction s rule: char_chunks.induct) auto

lemma char_chunks_ascii: "\<forall>c\<in>set s. code c < 128 \<Longrightarrow> char_chunks s = map (\<lambda>c. [c]) s"
  by (induction s) (auto simp: utf8_extra_def)

lemma concat_singletons: "concat (map (\<lambda>c. [c]) xs) = xs"
  by (induction xs) auto

lemma trim_ascii_id:
  assumes "\<forall>c\<in>set s. code c < 128 \<and> \<not> is_whitespace (code c)"
  shows "trim s = s"
proof -
  have chunks: "char_chunks s = map (\<lambda>c. [c]) s"
    using assms by (intro char_chunks_ascii) auto
  have keep: "dropWhile (\<lambda>ch. is_whitespace (scalar_of ch)) (map (\<lambda>c. [c]) xs) = map (\<lambda>c. [c]) xs"
    if "set xs \<subseteq> set s" for xs
    using that assms by (cases xs) auto
  show ?thesis
    by (simp add: trim_def chunks keep rev_map concat_singletons)
qed

text \<open>\<open>str::from_utf8\<close> on raw bytes: the well-formed byte sequences of RFC 3629.\<close>

definition in_range :: "nat \<Rightarrow> nat \<Rightarrow> u8 \<Rightarrow> bool" where
  "in_range lo hi b \<longleftrightarrow> lo \<le> unat b \<and> unat b \<le> hi"

definition utf8_len :: "bytes \<Rightarrow> nat option" where
  "utf8_len bs = (case bs of
       [] \<Rightarrow> None
     | a # rest \<Rightarrow>
         if in_range 0 127 a then Some 1
         else (case rest of
           [] \<Rightarrow> None
         | b # rest' \<Rightarrow>
             if in_range 194 223 a \<and> in_range 128 191 b then Some 2
             else (case rest' of
               [] \<Rightarrow> None
             | c # rest'' \<Rightarrow>
                 if in_range 128 191 c \<and>
                    (a = 224 \<and> in_range 160 191 b \<or> a = 237 \<and> in_range 128 159 b
                     \<or> a \<noteq> 224 \<and> a \<noteq> 237 \<and> in_range 225 239 a \<and> in_range 128 191 b)
                 then Some 3
                 else (case rest'' of
                   [] \<Rightarrow> None
                 | d # _ \<Rightarrow>
                     if in_range 128 191 c \<and> in_range 128 191 d \<and>
                        (a = 240 \<and> in_range 144 191 b \<or> in_range 241 243 a \<and> in_range 128 191 b
                         \<or> a = 244 \<and> in_range 128 143 b)
                     then Some 4 else None))))"

function valid_utf8 :: "bytes \<Rightarrow> bool" where
  "valid_utf8 bs \<longleftrightarrow> bs = [] \<or>
     (case utf8_len bs of None \<Rightarrow> False | Some n \<Rightarrow> valid_utf8 (drop n bs))"
  by pat_completeness auto
termination
  by (relation "measure length")
     (auto simp: utf8_len_def split: list.splits if_splits)

declare valid_utf8.simps [simp del]

section \<open>Decimal numbers\<close>

definition digit_char :: "nat \<Rightarrow> char" where
  "digit_char d = char_of (48 + d)"

definition digit_val :: "char \<Rightarrow> nat" where
  "digit_val c = code c - 48"

text \<open>\<open>dec n\<close> is \<open>n.to_string()\<close> of an unsigned integer.\<close>

fun dec :: "nat \<Rightarrow> string" where
  "dec n = (if n < 10 then [digit_char n] else dec (n div 10) @ [digit_char (n mod 10)])"

declare dec.simps [simp del]

definition digits_val :: "string \<Rightarrow> nat" where
  "digits_val s = foldl (\<lambda>acc c. acc * 10 + digit_val c) 0 s"

text \<open>\<open>str::parse\<close> for an unsigned type with \<open>bound\<close> values: an optional plus sign, then at
  least one digit; an out-of-range number is an error.\<close>

definition strip_plus :: "string \<Rightarrow> string" where
  "strip_plus s = (case s of c # cs \<Rightarrow> if c = CHR ''+'' then cs else s | [] \<Rightarrow> [])"

definition parse_unsigned :: "nat \<Rightarrow> string \<Rightarrow> nat option" where
  "parse_unsigned bound s =
     (let ds = strip_plus s in
      if ds = [] \<or> \<not> list_all is_ascii_digit ds then None
      else if digits_val ds < bound then Some (digits_val ds) else None)"

lemma digit_char_props [simp]:
  assumes "d < 10"
  shows "code (digit_char d) = 48 + d" "is_ascii_digit (digit_char d)" "digit_val (digit_char d) = d"
proof -
  have "code (digit_char d) = (48 + d) mod 256"
    by (simp add: digit_char_def code_def)
  with assms show "code (digit_char d) = 48 + d" by simp
  then show "is_ascii_digit (digit_char d)" "digit_val (digit_char d) = d"
    using assms by (simp_all add: is_ascii_digit_def digit_val_def)
qed

lemma digit_char_of_digit: "is_ascii_digit c \<Longrightarrow> digit_char (digit_val c) = c"
  by (simp add: digit_char_def digit_val_def is_ascii_digit_def code_def)

lemma digit_val_less: "is_ascii_digit c \<Longrightarrow> digit_val c < 10"
  by (auto simp: digit_val_def is_ascii_digit_def)

lemma dec_nonempty [simp]: "dec n \<noteq> []"
  by (subst dec.simps) simp

lemma dec_digits: "list_all is_ascii_digit (dec n)"
proof (induction n rule: dec.induct)
  case (1 n)
  then show ?case by (subst dec.simps) simp
qed

lemma digits_val_snoc: "digits_val (s @ [c]) = digits_val s * 10 + digit_val c"
  by (simp add: digits_val_def)

lemma digits_val_dec [simp]: "digits_val (dec n) = n"
proof (induction n rule: dec.induct)
  case (1 n)
  show ?case
  proof (cases "n < 10")
    case True
    then show ?thesis by (subst dec.simps) (simp add: digits_val_def)
  next
    case False
    with 1 show ?thesis by (subst dec.simps) (simp add: digits_val_snoc)
  qed
qed

lemma dec_inj [simp]: "dec m = dec n \<longleftrightarrow> m = n"
  by (metis digits_val_dec)

lemma dec_no_plus: "strip_plus (dec n) = dec n"
proof (cases "dec n")
  case (Cons c cs)
  with dec_digits [of n] have "is_ascii_digit c" by simp
  then have "c \<noteq> CHR ''+''" by (auto simp: is_ascii_digit_def code_def)
  with Cons show ?thesis by (simp add: strip_plus_def)
qed simp

lemma parse_unsigned_dec [simp]:
  "parse_unsigned b (dec n) = (if n < b then Some n else None)"
  by (simp add: parse_unsigned_def dec_no_plus dec_digits)

lemma parse_unsigned_less: "parse_unsigned b s = Some n \<Longrightarrow> n < b"
  by (auto simp: parse_unsigned_def Let_def split: if_splits)

text \<open>The check \<open>parsed.to_string() == text\<close> leaves exactly the canonical decimals.\<close>

lemma parse_canonical:
  "parse_unsigned b s = Some n \<and> dec n = s \<longleftrightarrow> s = dec n \<and> n < b"
  by (auto dest: parse_unsigned_less)

lemma digit_char_zero [simp]: "digit_char 0 = CHR ''0''"
  by code_simp

lemma dec_zero [simp]: "dec 0 = ''0''"
  by (simp add: dec.simps)

lemma dec_digits_val:
  assumes "list_all is_ascii_digit s" "s \<noteq> []" "length s = 1 \<or> hd s \<noteq> CHR ''0''"
  shows "dec (digits_val s) = s"
  using assms
proof (induction s rule: rev_induct)
  case (snoc c s)
  have c: "is_ascii_digit c" "digit_val c < 10" using snoc.prems digit_val_less by auto
  show ?case
  proof (cases "s = []")
    case True
    then show ?thesis using c digit_char_of_digit [of c]
      by (subst dec.simps) (simp add: digits_val_def)
  next
    case False
    then have h: "hd s \<noteq> CHR ''0''" "list_all is_ascii_digit s" using snoc.prems by auto
    have IH: "dec (digits_val s) = s" using snoc.IH h False by simp
    have "digits_val s \<noteq> 0"
    proof
      assume "digits_val s = 0"
      with IH have "s = dec 0" by simp
      then show False using h(1) by simp
    qed
    then show ?thesis using c IH digit_char_of_digit [of c]
      by (subst dec.simps) (simp add: digits_val_snoc)
  qed
qed simp

lemma dec_hd: "hd (dec n) = CHR ''0'' \<longleftrightarrow> n = 0"
proof (induction n rule: dec.induct)
  case (1 n)
  show ?case
  proof (cases "n < 10")
    case True
    have "code (digit_char n) = 48 + n" using True by simp
    moreover have "code (CHR ''0'') = 48" by (simp add: code_def)
    ultimately have "digit_char n = CHR ''0'' \<longleftrightarrow> n = 0" by auto
    then show ?thesis using True by (subst dec.simps) simp
  next
    case False
    then show ?thesis using 1 by (subst dec.simps) simp
  qed
qed

end
