(* ===== verification/GB_Journal_Format.thy ===== *)
theory GB_Journal_Format
  imports GB_Prelude
begin

text \<open>
  The framed journal codec (\<open>src/src/lib.rs\<close>): frames, the active-file header, the frame
  walker that recovery uses, and sealed segments with their integrity footer. CRC32C, SHA-256
  and the LZ4 frame codec are third-party crates: they are the fields of a \<open>codec_ops\<close>
  record that every definition takes as an argument.
\<close>

section \<open>Third-party codecs\<close>

text \<open>\<open>lz4_encode\<close> is one write to the frame encoder, \<open>lz4_encode_stream\<close> the chunked copy of a
  file through it: the encoder may cut its blocks differently.\<close>

record codec_ops =
  crc32c :: "bytes \<Rightarrow> u32"
  crc32c_append :: "u32 \<Rightarrow> bytes \<Rightarrow> u32"
  sha256_digest :: "bytes \<Rightarrow> bytes"
  lz4_encode :: "bytes \<Rightarrow> bytes option"
  lz4_encode_stream :: "bytes \<Rightarrow> bytes option"
  lz4_decode :: "bytes \<Rightarrow> bytes option"

section \<open>Format constants\<close>

definition ACTIVE_MAGIC :: bytes where "ACTIVE_MAGIC = [71, 87, 65, 49]"
definition SEG_MAGIC :: bytes where "SEG_MAGIC = [71, 83, 71, 49]"
definition JOURNAL_FORMAT_VERSION :: u16 where "JOURNAL_FORMAT_VERSION = 1"
definition ACTIVE_HEADER_LEN :: usize where "ACTIVE_HEADER_LEN = 14"
definition FRAME_HEADER_LEN :: usize where "FRAME_HEADER_LEN = 16"
definition SEG_HEADER_LEN :: usize where "SEG_HEADER_LEN = 28"
definition SEG_FOOTER_LEN :: usize where "SEG_FOOTER_LEN = 44"
definition MAX_JOURNAL_FRAME_PAYLOAD_BYTES :: usize where
  "MAX_JOURNAL_FRAME_PAYLOAD_BYTES = 64 * 1024 * 1024"
definition MAX_JOURNAL_SEGMENT_BODY_BYTES :: nat where
  "MAX_JOURNAL_SEGMENT_BODY_BYTES = 128 * 1024 * 1024"
definition MAX_JOURNAL_SEGMENT_FILE_BYTES :: nat where
  "MAX_JOURNAL_SEGMENT_FILE_BYTES =
     MAX_JOURNAL_SEGMENT_BODY_BYTES + (SEG_HEADER_LEN + SEG_FOOTER_LEN)"

definition SEG_KIND_HISTORY :: u8 where "SEG_KIND_HISTORY = 1"
definition SEG_KIND_BASE :: u8 where "SEG_KIND_BASE = 2"
definition SEG_KIND_LEGACY_JSONL :: u8 where "SEG_KIND_LEGACY_JSONL = 3"
definition CODEC_NONE :: u8 where "CODEC_NONE = 0"
definition CODEC_LZ4 :: u8 where "CODEC_LZ4 = 2"

lemmas journal_consts = ACTIVE_MAGIC_def SEG_MAGIC_def JOURNAL_FORMAT_VERSION_def
  ACTIVE_HEADER_LEN_def FRAME_HEADER_LEN_def SEG_HEADER_LEN_def SEG_FOOTER_LEN_def
  MAX_JOURNAL_FRAME_PAYLOAD_BYTES_def MAX_JOURNAL_SEGMENT_BODY_BYTES_def
  MAX_JOURNAL_SEGMENT_FILE_BYTES_def SEG_KIND_HISTORY_def SEG_KIND_BASE_def
  SEG_KIND_LEGACY_JSONL_def CODEC_NONE_def CODEC_LZ4_def

section \<open>LZ4 wrappers\<close>

definition lz4_frame_compress :: "codec_ops \<Rightarrow> bytes \<Rightarrow> bytes option" where
  "lz4_frame_compress K body = lz4_encode K body"

text \<open>The decoder is read through a reader limited to one byte more than the bound, so an
  over-long body is noticed without expanding it.\<close>

definition lz4_frame_decompress_bounded :: "codec_ops \<Rightarrow> bytes \<Rightarrow> usize \<Rightarrow> bytes option" where
  "lz4_frame_decompress_bounded K compressed max_output_bytes =
     (case lz4_decode K compressed of
        None \<Rightarrow> None
      | Some all \<Rightarrow>
          let out = take (max_output_bytes + 1) all in
          if length out > max_output_bytes then None else Some out)"

section \<open>Frames\<close>

definition frame_crc :: "codec_ops \<Rightarrow> u64 \<Rightarrow> bytes \<Rightarrow> u32" where
  "frame_crc K seq payload = crc32c_append K (crc32c K (u64_to_le seq)) payload"

definition encode_frame :: "codec_ops \<Rightarrow> bytes \<Rightarrow> u64 \<Rightarrow> bytes \<Rightarrow> bytes" where
  "encode_frame K out seq payload =
     out @ u32_to_le (of_nat (length payload)) @ u64_to_le seq
         @ u32_to_le (frame_crc K seq payload) @ payload"

definition active_header :: "u64 \<Rightarrow> bytes" where
  "active_header first_seq =
     ACTIVE_MAGIC @ u16_to_le JOURNAL_FORMAT_VERSION @ u64_to_le first_seq"

text \<open>The callback is a state transformer: it is applied to every valid frame in order.\<close>

function walk_frames ::
  "codec_ops \<Rightarrow> bytes \<Rightarrow> usize \<Rightarrow> (u64 \<Rightarrow> bytes \<Rightarrow> 's \<Rightarrow> 's) \<Rightarrow> 's \<Rightarrow> usize \<times> 's" where
  "walk_frames K bs off f s =
     (if off + FRAME_HEADER_LEN > length bs then (off, s)
      else
        let len = unat (u32_from_le (subslice off (off + 4) bs));
            seq = u64_from_le (subslice (off + 4) (off + 12) bs);
            crc = u32_from_le (subslice (off + 12) (off + 16) bs);
            ps = off + FRAME_HEADER_LEN
        in if len > MAX_JOURNAL_FRAME_PAYLOAD_BYTES \<or> ps + len > length bs then (off, s)
           else let payload = subslice ps (ps + len) bs in
             if frame_crc K seq payload \<noteq> crc then (off, s)
             else walk_frames K bs (ps + len) f (f seq payload s))"
  by pat_completeness auto
termination
  by (relation "measure (\<lambda>(K, bs, off, f, s). length bs - off)") (auto simp: FRAME_HEADER_LEN_def)

declare walk_frames.simps [simp del]

section \<open>Sealed segments\<close>

record segment_info =
  seg_path :: string
  seg_kind :: u8
  seg_min :: u64
  seg_max :: u64

text \<open>A file argument is the content the open would read, \<open>None\<close> when opening fails.\<close>

definition read_segment_header :: "string \<Rightarrow> bytes option \<Rightarrow> segment_info option" where
  "read_segment_header p content =
     (case content of
        None \<Rightarrow> None
      | Some bs \<Rightarrow>
          if length bs < SEG_HEADER_LEN then None
          else let h = take SEG_HEADER_LEN bs in
            if subslice 0 4 h \<noteq> SEG_MAGIC then None
            else Some \<lparr>seg_path = p, seg_kind = h ! 6, seg_min = u64_from_le (subslice 8 16 h),
                        seg_max = u64_from_le (subslice 16 24 h)\<rparr>)"

datatype journal_error =
    Io_Error
  | Preflight_File_Limit nat nat
  | Preflight_Body_Limit nat nat

definition read_journal_source_bounded ::
  "bytes option \<Rightarrow> nat \<Rightarrow> (journal_error, bytes) result" where
  "read_journal_source_bounded content max_bytes =
     (case content of
        None \<Rightarrow> Inl Io_Error
      | Some bs \<Rightarrow>
          if length bs > max_bytes then Inl (Preflight_File_Limit (length bs) max_bytes)
          else Inr (take (max_bytes + 1) bs))"

definition decode_segment_body :: "codec_ops \<Rightarrow> u8 \<Rightarrow> bytes \<Rightarrow> usize \<Rightarrow> bytes option" where
  "decode_segment_body K codec compressed body_len =
     (if codec = CODEC_LZ4 then lz4_frame_decompress_bounded K compressed body_len
      else if codec = CODEC_NONE \<and> length compressed = body_len then Some compressed else None)"

definition read_segment_body_with_limits ::
  "codec_ops \<Rightarrow> bytes option \<Rightarrow> nat \<Rightarrow> nat \<Rightarrow> (journal_error, (u8 \<times> bytes) option) result" where
  "read_segment_body_with_limits K content max_file_bytes max_body_bytes =
     rbind (ok_or Io_Error content) (\<lambda>meta.
     rbind (guard_err (length meta > max_file_bytes)
              (Preflight_File_Limit (length meta) max_file_bytes)) (\<lambda>_.
     rbind (read_journal_source_bounded content max_file_bytes) (\<lambda>bs.
       if length bs < SEG_HEADER_LEN + SEG_FOOTER_LEN \<or> subslice 0 4 bs \<noteq> SEG_MAGIC then Inr None
       else
         let knd = bs ! 6;
             codec = bs ! 7;
             footer_start = length bs - SEG_FOOTER_LEN;
             sha_expected = subslice footer_start (footer_start + 32) bs;
             body_len = u64_from_le (subslice (footer_start + 32) (footer_start + 40) bs)
         in if unat body_len > max_body_bytes
            then Inl (Preflight_Body_Limit (unat body_len) max_body_bytes)
            else if unat body_len > MAX_JOURNAL_SEGMENT_BODY_BYTES then Inr None
            else
              let crc_expected = u32_from_le (subslice (footer_start + 40) (footer_start + 44) bs);
                  crc_input = subslice 0 SEG_HEADER_LEN bs @ sha_expected @ u64_to_le body_len
              in if crc32c K crc_input \<noteq> crc_expected then Inr None
                 else
                   let compressed = subslice SEG_HEADER_LEN footer_start bs
                   in case decode_segment_body K codec compressed (unat body_len) of
                        None \<Rightarrow> Inr None
                      | Some body \<Rightarrow>
                          if length body \<noteq> unat body_len \<or> sha256_digest K body \<noteq> sha_expected
                          then Inr None else Inr (Some (knd, body)))))"

definition read_segment_body :: "codec_ops \<Rightarrow> bytes option \<Rightarrow> (u8 \<times> bytes) option" where
  "read_segment_body K content =
     (case read_segment_body_with_limits K content
             MAX_JOURNAL_SEGMENT_FILE_BYTES MAX_JOURNAL_SEGMENT_BODY_BYTES of
        Inl _ \<Rightarrow> None | Inr r \<Rightarrow> r)"

text \<open>The bytes \<open>write_segment\<close> puts into the temporary file and renames; \<open>None\<close> when the
  compressor fails.\<close>

definition segment_header :: "u8 \<Rightarrow> u8 \<Rightarrow> u64 \<Rightarrow> u64 \<Rightarrow> u32 \<Rightarrow> bytes" where
  "segment_header knd codec mn mx frame_count =
     SEG_MAGIC @ u16_to_le JOURNAL_FORMAT_VERSION @ [knd] @ [codec] @ u64_to_le mn @ u64_to_le mx
       @ u32_to_le frame_count"

definition segment_layout :: "codec_ops \<Rightarrow> bytes \<Rightarrow> bytes \<Rightarrow> bytes \<Rightarrow> bytes" where
  "segment_layout K header compressed body =
     (let sha = sha256_digest K body;
          crc = crc32c K (header @ sha @ u64_to_le (of_nat (length body)))
      in header @ compressed @ sha @ u64_to_le (of_nat (length body)) @ u32_to_le crc)"

definition segment_file_bytes ::
  "codec_ops \<Rightarrow> u8 \<Rightarrow> u8 \<Rightarrow> u64 \<Rightarrow> u64 \<Rightarrow> u32 \<Rightarrow> bytes \<Rightarrow> bytes option" where
  "segment_file_bytes K knd codec mn mx frame_count body =
     map_option (\<lambda>compressed.
         segment_layout K (segment_header knd codec mn mx frame_count) compressed body)
       (if codec = CODEC_LZ4 then lz4_frame_compress K body else Some body)"

text \<open>The segment \<open>migrate_legacy_wal\<close> streams out of the legacy log.\<close>

definition legacy_segment_bytes :: "codec_ops \<Rightarrow> bytes \<Rightarrow> bytes option" where
  "legacy_segment_bytes K body =
     map_option (\<lambda>compressed.
         segment_layout K (segment_header SEG_KIND_LEGACY_JSONL CODEC_LZ4 0 0 0) compressed body)
       (lz4_encode_stream K body)"

section \<open>The frame walker as a parser\<close>

text \<open>One frame at the front of a byte string: what one turn of the walker's loop accepts.\<close>

definition next_frame :: "codec_ops \<Rightarrow> bytes \<Rightarrow> (u64 \<times> bytes) option" where
  "next_frame K bs =
     (if length bs < FRAME_HEADER_LEN then None
      else
        let len = unat (u32_from_le (subslice 0 4 bs));
            seq = u64_from_le (subslice 4 12 bs);
            crc = u32_from_le (subslice 12 16 bs)
        in if len > MAX_JOURNAL_FRAME_PAYLOAD_BYTES \<or> FRAME_HEADER_LEN + len > length bs then None
           else let payload = subslice FRAME_HEADER_LEN (FRAME_HEADER_LEN + len) bs in
             if frame_crc K seq payload \<noteq> crc then None else Some (seq, payload))"

definition encode_frames :: "codec_ops \<Rightarrow> (u64 \<times> bytes) list \<Rightarrow> bytes" where
  "encode_frames K fs = concat (map (\<lambda>(seq, payload). encode_frame K [] seq payload) fs)"

definition frame_ok :: "u64 \<times> bytes \<Rightarrow> bool" where
  "frame_ok fr \<longleftrightarrow> length (snd fr) \<le> MAX_JOURNAL_FRAME_PAYLOAD_BYTES"

lemma encode_frames_simps [simp]:
  "encode_frames K [] = []"
  "encode_frames K ((q, p) # fs) = encode_frame K [] q p @ encode_frames K fs"
  "encode_frames K (fs @ gs) = encode_frames K fs @ encode_frames K gs"
  by (simp_all add: encode_frames_def)

lemma encode_frame_append: "encode_frame K out q p = out @ encode_frame K [] q p"
  by (simp add: encode_frame_def)

lemma length_encode_frame [simp]:
  "length (encode_frame K out q p) = length out + FRAME_HEADER_LEN + length p"
  by (simp add: encode_frame_def FRAME_HEADER_LEN_def)

lemma subslice_drop: "subslice (off + i) (off + j) bs = subslice i j (drop off bs)"
  by (simp add: subslice_def add.commute)

lemma walk_frames_step:
  assumes "off \<le> length bs"
  shows "walk_frames K bs off f s =
    (case next_frame K (drop off bs) of
       None \<Rightarrow> (off, s)
     | Some (q, p) \<Rightarrow> walk_frames K bs (off + FRAME_HEADER_LEN + length p) f (f q p s))"
proof -
  have short: "off + FRAME_HEADER_LEN > length bs \<longleftrightarrow> length (drop off bs) < FRAME_HEADER_LEN"
    and fits: "\<And>n. off + FRAME_HEADER_LEN + n > length bs
        \<longleftrightarrow> FRAME_HEADER_LEN + n > length (drop off bs)"
    using assms by auto
  have slices: "subslice off (off + 4) bs = subslice 0 4 (drop off bs)"
      "\<And>i j. subslice (off + i) (off + j) bs = subslice i j (drop off bs)"
      "\<And>n. subslice (off + FRAME_HEADER_LEN) (off + FRAME_HEADER_LEN + n) bs
        = subslice FRAME_HEADER_LEN (FRAME_HEADER_LEN + n) (drop off bs)"
    using subslice_drop [of off 0 4 bs] subslice_drop [of off _ _ bs] by (simp_all add: add.assoc)
  have len: "FRAME_HEADER_LEN + n \<le> length (drop off bs) \<Longrightarrow>
      length (subslice FRAME_HEADER_LEN (FRAME_HEADER_LEN + n) (drop off bs)) = n" for n
    by (simp add: subslice_def)
  show ?thesis
    by (subst walk_frames.simps)
       (auto simp: next_frame_def short fits slices len Let_def not_less simp del: length_drop)
qed

lemma next_frame_encode:
  assumes "frame_ok (q, p)"
  shows "next_frame K (encode_frame K [] q p @ rest) = Some (q, p)"
proof -
  have small: "unat (of_nat (length p) :: u32) = length p"
    using assms by (simp add: frame_ok_def unat_of_nat MAX_JOURNAL_FRAME_PAYLOAD_BYTES_def)
  have parts: "subslice 0 4 (encode_frame K [] q p @ rest) = u32_to_le (of_nat (length p))"
      "subslice 4 12 (encode_frame K [] q p @ rest) = u64_to_le q"
      "subslice 12 16 (encode_frame K [] q p @ rest) = u32_to_le (frame_crc K q p)"
      "subslice 16 (16 + length p) (encode_frame K [] q p @ rest) = p"
    by (simp_all add: encode_frame_def subslice_def)
  show ?thesis
    using assms by (simp add: next_frame_def parts small frame_ok_def FRAME_HEADER_LEN_def)
qed

lemma next_frame_torn:
  assumes "strict_prefix t (encode_frame K [] q p)" and "length p < 2 ^ 32"
  shows "next_frame K t = None"
proof (cases "length t < FRAME_HEADER_LEN")
  case False
  from assms(1) obtain z where z: "encode_frame K [] q p = t @ z" and "z \<noteq> []"
    by (auto elim: strict_prefixE')
  then have shorter: "length t < FRAME_HEADER_LEN + length p"
    using length_encode_frame [of K "[]" q p] by (cases z) auto
  have "subslice 0 4 (encode_frame K [] q p) = u32_to_le (of_nat (length p))"
    by (simp add: encode_frame_def subslice_def)
  moreover have "subslice 0 4 (encode_frame K [] q p) = subslice 0 4 t"
    using z False by (simp add: subslice_def FRAME_HEADER_LEN_def)
  ultimately have "unat (u32_from_le (subslice 0 4 t)) = length p"
    using assms(2) by (simp add: unat_of_nat)
  with shorter show ?thesis by (simp add: next_frame_def Let_def)
qed (simp add: next_frame_def)

lemma next_frame_SomeD:
  assumes "next_frame K bs = Some (q, p)"
  shows "frame_ok (q, p)" and "take (FRAME_HEADER_LEN + length p) bs = encode_frame K [] q p"
proof -
  let ?len = "unat (u32_from_le (subslice 0 4 bs))"
  from assms have b: "FRAME_HEADER_LEN \<le> length bs" "?len \<le> MAX_JOURNAL_FRAME_PAYLOAD_BYTES"
      "FRAME_HEADER_LEN + ?len \<le> length bs"
    and q: "q = u64_from_le (subslice 4 12 bs)" and p: "p = subslice FRAME_HEADER_LEN (FRAME_HEADER_LEN + ?len) bs"
    and crc: "frame_crc K q p = u32_from_le (subslice 12 16 bs)"
    by (auto simp: next_frame_def Let_def split: if_splits)
  from b p have lp: "length p = ?len" by (simp add: subslice_def)
  then show "frame_ok (q, p)" using b by (simp add: frame_ok_def)
  have lens: "length (subslice 0 4 bs) = 4" "length (subslice 4 12 bs) = 8" "length (subslice 12 16 bs) = 4"
    using b by (simp_all add: subslice_def FRAME_HEADER_LEN_def)
  have "take (FRAME_HEADER_LEN + length p) bs = subslice 0 4 bs @ subslice 4 12 bs @ subslice 12 16 bs @ p"
    using subslice_join [of 0 4 12 bs] subslice_join [of 0 12 16 bs]
      subslice_join [of 0 16 "16 + ?len" bs] lp p
    by (simp add: FRAME_HEADER_LEN_def subslice_def flip: append_assoc)
  also have "\<dots> = encode_frame K [] q p"
    using lens crc lp q by (simp add: encode_frame_def u32_to_from_le u64_to_from_le)
  finally show "take (FRAME_HEADER_LEN + length p) bs = encode_frame K [] q p" .
qed

function parse_frames :: "codec_ops \<Rightarrow> bytes \<Rightarrow> (u64 \<times> bytes) list" where
  "parse_frames K bs =
     (case next_frame K bs of
        None \<Rightarrow> []
      | Some (q, p) \<Rightarrow> (q, p) # parse_frames K (drop (FRAME_HEADER_LEN + length p) bs))"
  by pat_completeness auto
termination
proof (relation "measure (\<lambda>(K, bs). length bs)")
  fix K :: codec_ops and bs x q p
  assume "next_frame K bs = Some x" and "(q, p) = x"
  then have "FRAME_HEADER_LEN \<le> length bs"
    by (auto simp: next_frame_def Let_def split: if_splits)
  then show "((K, drop (FRAME_HEADER_LEN + length p) bs), (K, bs)) \<in> measure (\<lambda>(K, bs). length bs)"
    by (auto simp: FRAME_HEADER_LEN_def)
qed simp

declare parse_frames.simps [simp del]

lemma parse_frames_None: "next_frame K bs = None \<Longrightarrow> parse_frames K bs = []"
  by (simp add: parse_frames.simps [of K bs])

lemma parse_frames_Some:
  "next_frame K bs = Some (q, p) \<Longrightarrow>
     parse_frames K bs = (q, p) # parse_frames K (drop (FRAME_HEADER_LEN + length p) bs)"
  by (simp add: parse_frames.simps [of K bs])

lemma parse_frames_split:
  "\<exists>rest. bs = encode_frames K (parse_frames K bs) @ rest \<and> next_frame K rest = None
     \<and> list_all frame_ok (parse_frames K bs)"
proof (induction K bs rule: parse_frames.induct)
  case (1 K bs)
  show ?case
  proof (cases "next_frame K bs")
    case None
    then show ?thesis by (simp add: parse_frames.simps [of K bs])
  next
    case (Some fr)
    obtain q p where fr: "fr = (q, p)" by (cases fr)
    let ?tl = "drop (FRAME_HEADER_LEN + length p) bs"
    from 1 [OF Some fr [symmetric]] obtain rest where
      ih: "?tl = encode_frames K (parse_frames K ?tl) @ rest" "next_frame K rest = None"
        "list_all frame_ok (parse_frames K ?tl)" by blast
    note hd = next_frame_SomeD [OF Some [unfolded fr]]
    have "bs = encode_frame K [] q p @ ?tl"
      using hd(2) by (metis append_take_drop_id)
    with ih hd(1) Some fr show ?thesis
      by (auto simp: parse_frames.simps [of K bs] intro!: exI [of _ rest])
  qed
qed

lemma parse_frames_encode:
  assumes "list_all frame_ok fs" and "next_frame K t = None"
  shows "parse_frames K (encode_frames K fs @ t) = fs"
  using assms
proof (induction fs)
  case Nil
  then show ?case by (simp add: parse_frames.simps)
next
  case (Cons fr fs)
  obtain q p where fr: "fr = (q, p)" by (cases fr)
  with Cons.prems have "next_frame K (encode_frames K (fr # fs) @ t) = Some (q, p)"
    by (simp add: next_frame_encode)
  moreover have "drop (FRAME_HEADER_LEN + length p) (encode_frames K (fr # fs) @ t)
      = encode_frames K fs @ t"
    by (simp add: fr)
  ultimately show ?case
    using Cons fr by (simp add: parse_frames_Some)
qed

lemma walk_frames_parse:
  assumes "off \<le> length bs"
  shows "walk_frames K bs off f s =
    (off + length (encode_frames K (parse_frames K (drop off bs))),
     fold (\<lambda>(q, p). f q p) (parse_frames K (drop off bs)) s)"
  using assms
proof (induction K "drop off bs" arbitrary: off s rule: parse_frames.induct)
  case (1 K)
  show ?case
  proof (cases "next_frame K (drop off bs)")
    case None
    then show ?thesis
      using walk_frames_step [OF 1(2), of K f s] by (simp add: parse_frames_None)
  next
    case (Some fr)
    obtain q p where fr: "fr = (q, p)" by (cases fr)
    let ?o = "off + FRAME_HEADER_LEN + length p"
    have "take (FRAME_HEADER_LEN + length p) (drop off bs) = encode_frame K [] q p"
      using next_frame_SomeD(2) [OF Some [unfolded fr]] .
    then have "length (take (FRAME_HEADER_LEN + length p) (drop off bs))
        = FRAME_HEADER_LEN + length p"
      by simp
    then have le: "?o \<le> length bs" using 1(2) by (simp add: min_def split: if_splits)
    have tl: "drop (FRAME_HEADER_LEN + length p) (drop off bs) = drop ?o bs"
      by (simp add: add.commute add.left_commute)
    note ih = 1(1) [OF Some fr [symmetric] tl le]
    have "walk_frames K bs off f s = walk_frames K bs ?o f (f q p s)"
      using walk_frames_step [OF 1(2), of K f s] Some fr by simp
    then show ?thesis
      using parse_frames_Some [OF Some [unfolded fr]] ih tl by (simp add: add.assoc)
  qed
qed

lemma walk_frames_encoded:
  assumes "list_all frame_ok fs" and "next_frame K t = None"
  shows "walk_frames K (pre @ encode_frames K fs @ t) (length pre) f s =
    (length pre + length (encode_frames K fs), fold (\<lambda>(q, p). f q p) fs s)"
  using walk_frames_parse [of "length pre" "pre @ encode_frames K fs @ t" K f s]
    parse_frames_encode [OF assms] by simp

lemma length_active_header [simp]: "length (active_header n) = ACTIVE_HEADER_LEN"
  by (simp add: active_header_def journal_consts)

lemma active_header_magic [simp]: "subslice 0 4 (active_header n @ xs) = ACTIVE_MAGIC"
  by (simp add: active_header_def journal_consts subslice_def)

section \<open>Properties of frames\<close>

text \<open>C3: After a crash in the middle of an append, walking the active file yields exactly the
  frames written before, in order and with their payloads unchanged, and stops at the first byte of
  the torn frame; nothing is assumed of the checksum.\<close>

theorem walk_frames_torn_tail:
  assumes "list_all frame_ok fs"
    and "strict_prefix t (encode_frame K [] q p)" and "length p < 2 ^ 32"
  shows "walk_frames K (active_header n @ encode_frames K fs @ t) ACTIVE_HEADER_LEN f s =
    (ACTIVE_HEADER_LEN + length (encode_frames K fs), fold (\<lambda>(q, p). f q p) fs s)"
  using walk_frames_encoded [OF assms(1) next_frame_torn [OF assms(2,3)], of "active_header n"]
  by simp

definition null_codec :: codec_ops where
  "null_codec = \<lparr>crc32c = (\<lambda>bs. 0), crc32c_append = (\<lambda>c bs. of_nat (length bs)),
     sha256_digest = (\<lambda>bs. replicate 32 0), lz4_encode = Some, lz4_encode_stream = Some,
     lz4_decode = Some\<rparr>"

theorem walk_frames_torn_tail_witness:
  "walk_frames null_codec
     (active_header 1 @ encode_frames null_codec [(1, [10, 20])] @ [1, 0, 0])
     ACTIVE_HEADER_LEN (\<lambda>q p acc. acc @ [(q, p)]) [] = (ACTIVE_HEADER_LEN + 18, [(1, [10, 20])])"
proof -
  have ok: "list_all frame_ok [(1, [10, 20])]"
    by (simp add: frame_ok_def MAX_JOURNAL_FRAME_PAYLOAD_BYTES_def)
  have torn: "strict_prefix [1, 0, 0] (encode_frame null_codec [] 2 [7])"
    by (simp add: encode_frame_def u32_to_le_def strict_prefix_def)
  show ?thesis
    using walk_frames_torn_tail [OF ok torn, of 1 "\<lambda>q p acc. acc @ [(q, p)]" "[]"]
    by (simp add: FRAME_HEADER_LEN_def)
qed

text \<open>A frame whose payload exceeds the reader's bound is never delivered, although the writer
  encodes it without a check: the walker stops in front of it, so recovery takes the frame and
  everything behind it for a torn tail.\<close>

theorem oversized_frame_is_lost:
  assumes "list_all frame_ok fs"
    and "MAX_JOURNAL_FRAME_PAYLOAD_BYTES < length p" and "length p < 2 ^ 32"
  shows "walk_frames K (active_header n @ encode_frames K fs @ encode_frame K [] q p @ rest)
      ACTIVE_HEADER_LEN f s =
    (ACTIVE_HEADER_LEN + length (encode_frames K fs), fold (\<lambda>(q, p). f q p) fs s)"
proof -
  have "subslice 0 4 (encode_frame K [] q p @ rest) = u32_to_le (of_nat (length p))"
    by (simp add: encode_frame_def subslice_def)
  then have "next_frame K (encode_frame K [] q p @ rest) = None"
    using assms(2,3) by (simp add: next_frame_def Let_def unat_of_nat)
  from walk_frames_encoded [OF assms(1) this, of "active_header n"] show ?thesis by simp
qed

theorem oversized_frame_is_lost_witness:
  "walk_frames null_codec
     (active_header 1 @ encode_frames null_codec []
        @ encode_frame null_codec [] 1 (replicate (64 * 1024 * 1024 + 1) 65) @ [])
     ACTIVE_HEADER_LEN (\<lambda>q p n. Suc n) 0 = (ACTIVE_HEADER_LEN, 0)"
  using oversized_frame_is_lost [of "[]" "replicate (64 * 1024 * 1024 + 1) 65" null_codec 1 1 "[]"
      "\<lambda>q p n. Suc n" 0]
  by (simp add: MAX_JOURNAL_FRAME_PAYLOAD_BYTES_def)

section \<open>Properties of segments\<close>

text \<open>What the code relies on of the third-party codecs: an LZ4 frame decodes to what was
  encoded, and a SHA-256 digest has 32 bytes.\<close>

definition codec_laws :: "codec_ops \<Rightarrow> bool" where
  "codec_laws K \<longleftrightarrow>
     (\<forall>body c. lz4_encode K body = Some c \<longrightarrow> lz4_decode K c = Some body)
     \<and> (\<forall>body c. lz4_encode_stream K body = Some c \<longrightarrow> lz4_decode K c = Some body)
     \<and> (\<forall>body. length (sha256_digest K body) = 32)"

lemma length_segment_header [simp]: "length (segment_header k c mn mx n) = SEG_HEADER_LEN"
  by (simp add: segment_header_def journal_consts)

lemma segment_header_fields:
  "subslice 0 4 (segment_header k c mn mx n @ xs) = SEG_MAGIC"
  "(segment_header k c mn mx n @ xs) ! 6 = k"
  "(segment_header k c mn mx n @ xs) ! 7 = c"
  "subslice 8 16 (segment_header k c mn mx n @ xs) = u64_to_le mn"
  "subslice 16 24 (segment_header k c mn mx n @ xs) = u64_to_le mx"
  by (simp_all add: segment_header_def journal_consts subslice_def u16_to_le_def)

lemma segment_footer_fields:
  assumes "length sha = 32" and "length h = SEG_HEADER_LEN"
    and "bs = h @ c @ sha @ u64_to_le l @ u32_to_le crc"
  shows "length bs = SEG_HEADER_LEN + length c + SEG_FOOTER_LEN"
    and "subslice (SEG_HEADER_LEN + length c) (SEG_HEADER_LEN + length c + 32) bs = sha"
    and "subslice (SEG_HEADER_LEN + length c + 32) (SEG_HEADER_LEN + length c + 40) bs = u64_to_le l"
    and "subslice (SEG_HEADER_LEN + length c + 40) (SEG_HEADER_LEN + length c + 44) bs = u32_to_le crc"
    and "subslice SEG_HEADER_LEN (SEG_HEADER_LEN + length c) bs = c"
    and "subslice 0 SEG_HEADER_LEN bs = h"
  using assms by (simp_all add: subslice_def SEG_FOOTER_LEN_def)

text \<open>\<open>sealed K k codec body c\<close>: the writer's codec turned the body into \<open>c\<close>.\<close>

definition sealed :: "codec_ops \<Rightarrow> u8 \<Rightarrow> bytes \<Rightarrow> bytes \<Rightarrow> bool" where
  "sealed K codec body c \<longleftrightarrow>
     (if codec = CODEC_LZ4 then lz4_decode K c = Some body else codec = CODEC_NONE \<and> c = body)"

lemma segment_file_bytes_SomeD:
  assumes "segment_file_bytes K k codec mn mx n body = Some content" and "codec_laws K"
    and "codec = CODEC_LZ4 \<or> codec = CODEC_NONE"
  obtains c where "content = segment_layout K (segment_header k codec mn mx n) c body"
    and "sealed K codec body c"
  using assms
  by (auto simp: segment_file_bytes_def codec_laws_def lz4_frame_compress_def sealed_def
      split: if_splits)

lemma legacy_segment_bytes_SomeD:
  assumes "legacy_segment_bytes K body = Some content" and "codec_laws K"
  obtains c where
    "content = segment_layout K (segment_header SEG_KIND_LEGACY_JSONL CODEC_LZ4 0 0 0) c body"
    and "sealed K CODEC_LZ4 body c"
  using assms by (auto simp: legacy_segment_bytes_def codec_laws_def sealed_def)

lemma read_written_segment:
  assumes content: "content = segment_layout K (segment_header k codec mn mx n) c body"
    and sealed: "sealed K codec body c" and laws: "codec_laws K"
    and small: "length body < 2 ^ 64" and fits: "length content \<le> max_file"
  shows "read_segment_body_with_limits K (Some content) max_file max_body =
    (if length body > max_body then Inl (Preflight_Body_Limit (length body) max_body)
     else if length body > MAX_JOURNAL_SEGMENT_BODY_BYTES then Inr None
     else Inr (Some (k, body)))"
proof -
  let ?h = "segment_header k codec mn mx n" and ?sha = "sha256_digest K body"
  have sha: "length ?sha = 32" using laws by (simp add: codec_laws_def)
  note ff = segment_footer_fields [OF sha length_segment_header content [unfolded segment_layout_def Let_def]]
  have hf: "subslice 0 4 content = SEG_MAGIC" "content ! 6 = k" "content ! 7 = codec"
    by (simp_all add: content segment_layout_def Let_def segment_header_fields)
  have start: "length content - SEG_FOOTER_LEN = SEG_HEADER_LEN + length c"
    using ff(1) by simp
  have big: "\<not> length content < SEG_HEADER_LEN + SEG_FOOTER_LEN" using ff(1) by simp
  have len: "unat (of_nat (length body) :: u64) = length body"
    using small by (simp add: unat_of_nat)
  have body: "decode_segment_body K codec c (length body) = Some body"
    using sealed
    by (auto simp: sealed_def decode_segment_body_def lz4_frame_decompress_bounded_def journal_consts
        split: if_splits)
  have src: "read_journal_source_bounded (Some content) max_file = Inr content"
    using fits by (simp add: read_journal_source_bounded_def)
  show ?thesis
    using fits big
    by (simp add: read_segment_body_with_limits_def src start ff hf len body Let_def)
qed

lemma read_sealed_body:
  assumes "content = segment_layout K (segment_header k codec mn mx n) c body"
    and "sealed K codec body c" and "codec_laws K"
    and small: "length body \<le> MAX_JOURNAL_SEGMENT_BODY_BYTES"
    and fits: "length content \<le> MAX_JOURNAL_SEGMENT_FILE_BYTES"
  shows "read_segment_body K (Some content) = Some (k, body)"
proof -
  have "length body < 2 ^ 64" using small by (simp add: MAX_JOURNAL_SEGMENT_BODY_BYTES_def)
  with read_written_segment [OF assms(1-3) _ fits, of MAX_JOURNAL_SEGMENT_BODY_BYTES] small
  show ?thesis by (simp add: read_segment_body_def)
qed

lemma read_oversized_body:
  assumes "content = segment_layout K (segment_header k codec mn mx n) c body"
    and "sealed K codec body c" and "codec_laws K"
    and "MAX_JOURNAL_SEGMENT_BODY_BYTES < length body" and "length body < 2 ^ 64"
  shows "read_segment_body K (Some content) = None"
proof (cases "length content \<le> MAX_JOURNAL_SEGMENT_FILE_BYTES")
  case True
  from read_written_segment [OF assms(1-3,5) True, of MAX_JOURNAL_SEGMENT_BODY_BYTES] assms(4)
  show ?thesis by (simp add: read_segment_body_def)
qed (simp add: read_segment_body_def read_segment_body_with_limits_def)

lemma read_sealed_header:
  assumes "content = segment_layout K (segment_header k codec mn mx n) c body"
  shows "read_segment_header p (Some content)
        = Some \<lparr>seg_path = p, seg_kind = k, seg_min = mn, seg_max = mx\<rparr>"
  using assms segment_header_fields [of k codec mn mx n "[]"]
  by (simp add: read_segment_header_def segment_layout_def Let_def)

text \<open>C20: A sealed segment reads back exactly: header fields, kind and body, whichever codec the
  writer used, as long as body and file stay within the reader's bounds.\<close>

theorem segment_round_trip:
  assumes "segment_file_bytes K k codec mn mx n body = Some content" and "codec_laws K"
    and "codec = CODEC_LZ4 \<or> codec = CODEC_NONE"
    and "length body \<le> MAX_JOURNAL_SEGMENT_BODY_BYTES"
    and "length content \<le> MAX_JOURNAL_SEGMENT_FILE_BYTES"
  shows "read_segment_body K (Some content) = Some (k, body)
    \<and> read_segment_header p (Some content)
        = Some \<lparr>seg_path = p, seg_kind = k, seg_min = mn, seg_max = mx\<rparr>"
  using segment_file_bytes_SomeD [OF assms(1-3)] read_sealed_body [OF _ _ assms(2,4,5)]
    read_sealed_header by metis

lemma null_codec_laws: "codec_laws null_codec"
  by (simp add: codec_laws_def null_codec_def)

theorem segment_round_trip_witness:
  "\<exists>content. segment_file_bytes null_codec SEG_KIND_HISTORY CODEC_LZ4 3 4 2 [1, 2, 3] = Some content
     \<and> read_segment_body null_codec (Some content) = Some (SEG_KIND_HISTORY, [1, 2, 3])"
proof -
  obtain content where f: "segment_file_bytes null_codec SEG_KIND_HISTORY CODEC_LZ4 3 4 2 [1, 2, 3]
      = Some content"
    by (simp add: segment_file_bytes_def lz4_frame_compress_def null_codec_def)
  then have "length content = 75"
    by (auto simp: segment_file_bytes_def segment_layout_def lz4_frame_compress_def null_codec_def
        journal_consts Let_def)
  with f show ?thesis
    using segment_round_trip [OF f null_codec_laws, of "''J''"] by (simp add: journal_consts)
qed

end
