(* ===== verification/GB_Journal_Store.thy ===== *)
theory GB_Journal_Store
  imports GB_Journal_Format "HOL-Library.Product_Lexorder"
begin

text \<open>
  The journal directory of a database (\<open>src/src/lib.rs\<close>): recovery hygiene at open, the
  segment listing, sealing, folding to a base segment, the recovery scan and the writer thread.
  The directory is the record \<open>journal_fs\<close>. Sealing and folding are given as the list of file
  operations they issue, in the order of the code, so that a crash is a prefix of that list.
\<close>

section \<open>The directory and its atomic operations\<close>

text \<open>The files of \<open>journal/\<close>, \<open>wal/active.gwal\<close> and the pre-migration \<open>genesis-graph.wal\<close>.\<close>

record journal_fs =
  seg_files :: "(string \<times> bytes) list"
  active_file :: "bytes option"
  legacy_file :: "bytes option"

datatype fs_op =
    Create_Seg string bytes
  | Rename_Seg string string
  | Remove_Seg string
  | Set_Active bytes
  | Remove_Legacy

fun exec_op :: "fs_op \<Rightarrow> journal_fs \<Rightarrow> journal_fs" where
  "exec_op (Create_Seg p bs) fs =
     fs\<lparr>seg_files := filter (\<lambda>(q, _). q \<noteq> p) (seg_files fs) @ [(p, bs)]\<rparr>"
| "exec_op (Rename_Seg a b) fs =
     (case map_of (seg_files fs) a of
        None \<Rightarrow> fs
      | Some bs \<Rightarrow>
          fs\<lparr>seg_files := filter (\<lambda>(q, _). q \<noteq> a \<and> q \<noteq> b) (seg_files fs) @ [(b, bs)]\<rparr>)"
| "exec_op (Remove_Seg p) fs = fs\<lparr>seg_files := filter (\<lambda>(q, _). q \<noteq> p) (seg_files fs)\<rparr>"
| "exec_op (Set_Active bs) fs = fs\<lparr>active_file := Some bs\<rparr>"
| "exec_op Remove_Legacy fs = fs\<lparr>legacy_file := None\<rparr>"

definition exec_ops :: "fs_op list \<Rightarrow> journal_fs \<Rightarrow> journal_fs" where
  "exec_ops ops fs = fold exec_op ops fs"

text \<open>\<open>Path::extension\<close>: what follows the last dot, if something stands before it.\<close>

definition extension :: "string \<Rightarrow> string option" where
  "extension p =
     (case dropWhile (\<lambda>c. c \<noteq> CHR ''.'') (rev p) of
        [] \<Rightarrow> None
      | _ # stem \<Rightarrow>
          if stem = [] then None else Some (rev (takeWhile (\<lambda>c. c \<noteq> CHR ''.'') (rev p))))"

definition is_gseg :: "string \<Rightarrow> bool" where
  "is_gseg p \<longleftrightarrow> extension p = Some ''gseg''"

definition seg_name :: "char \<Rightarrow> u64 \<Rightarrow> string" where
  "seg_name letter seq =
     letter # (let d = dec (unat seq) in replicate (12 - length d) (CHR ''0'') @ d) @ ''.gseg''"

definition tmp_name :: "string \<Rightarrow> string" where
  "tmp_name final_path = final_path @ ''.tmp''"

section \<open>Hygiene at open\<close>

definition journal_cleanup :: "journal_fs \<Rightarrow> journal_fs" where
  "journal_cleanup fs =
     fs\<lparr>seg_files := filter (\<lambda>(p, _). extension p \<noteq> Some ''tmp'') (seg_files fs)\<rparr>"

definition journal_truncate_torn_active :: "codec_ops \<Rightarrow> bytes option \<Rightarrow> bytes option" where
  "journal_truncate_torn_active K active =
     (case active of
        None \<Rightarrow> None
      | Some bs \<Rightarrow>
          let valid_end =
            (if length bs < ACTIVE_HEADER_LEN \<or> subslice 0 4 bs \<noteq> ACTIVE_MAGIC then 0
             else fst (walk_frames K bs ACTIVE_HEADER_LEN (\<lambda>_ _ u. u) ()))
          in Some (if valid_end < length bs then take valid_end bs else bs))"

definition journal_list_segments :: "journal_fs \<Rightarrow> segment_info list" where
  "journal_list_segments fs =
     sort_key (\<lambda>s. (unat (seg_min s), unat (seg_max s)))
       (List.map_filter
          (\<lambda>(p, bs). if is_gseg p then read_segment_header p (Some bs) else None)
          (seg_files fs))"

text \<open>\<open>base_frontier\<close> and \<open>history_horizon\<close> of the code: the highest base segment, or 0.\<close>

definition history_horizon :: "journal_fs \<Rightarrow> u64" where
  "history_horizon fs =
     fold max (map seg_max (filter (\<lambda>s. seg_kind s = SEG_KIND_BASE) (journal_list_segments fs))) 0"

function overlap_loop ::
  "codec_ops \<Rightarrow> bytes \<Rightarrow> u64 \<Rightarrow> usize \<Rightarrow> bytes \<Rightarrow> bool \<Rightarrow> bytes \<times> bool" where
  "overlap_loop K bs base_frontier off replacement removed_overlap =
     (if \<not> off + FRAME_HEADER_LEN \<le> length bs then (replacement, removed_overlap)
      else
        let len = unat (u32_from_le (subslice off (off + 4) bs));
            seq = u64_from_le (subslice (off + 4) (off + 12) bs);
            crc = u32_from_le (subslice (off + 12) (off + 16) bs);
            payload_start = off + FRAME_HEADER_LEN;
            fin = payload_start + len
        in if len > MAX_JOURNAL_FRAME_PAYLOAD_BYTES \<or> fin > length bs
           then (replacement, removed_overlap)
           else if frame_crc K seq (subslice payload_start fin bs) \<noteq> crc
           then (replacement, removed_overlap)
           else if seq \<le> base_frontier then overlap_loop K bs base_frontier fin replacement True
           else overlap_loop K bs base_frontier fin
                  (replacement @ subslice off fin bs) removed_overlap)"
  by pat_completeness auto
termination
  by (relation "measure (\<lambda>(K, bs, b, off, r, x). length bs - off)") (auto simp: FRAME_HEADER_LEN_def)

declare overlap_loop.simps [simp del]

definition journal_truncate_active_overlap :: "codec_ops \<Rightarrow> journal_fs \<Rightarrow> journal_fs" where
  "journal_truncate_active_overlap K fs =
     (let base_frontier = history_horizon fs in
      if base_frontier = 0 then fs
      else case active_file fs of
        None \<Rightarrow> fs
      | Some bs \<Rightarrow>
          if length bs < ACTIVE_HEADER_LEN \<or> subslice 0 4 bs \<noteq> ACTIVE_MAGIC then fs
          else case overlap_loop K bs base_frontier ACTIVE_HEADER_LEN
                      (active_header (saturating_add base_frontier 1)) False of
            (replacement, removed_overlap) \<Rightarrow>
              if removed_overlap then fs\<lparr>active_file := Some replacement\<rparr> else fs)"

definition journal_max_seq :: "codec_ops \<Rightarrow> journal_fs \<Rightarrow> u64" where
  "journal_max_seq K fs =
     (let max_seq = fold max (map seg_max (journal_list_segments fs)) 0 in
      case active_file fs of
        None \<Rightarrow> max_seq
      | Some bs \<Rightarrow>
          if length bs \<ge> ACTIVE_HEADER_LEN \<and> subslice 0 4 bs = ACTIVE_MAGIC
          then snd (walk_frames K bs ACTIVE_HEADER_LEN (\<lambda>seq _ m. if seq > m then seq else m) max_seq)
          else max_seq)"

text \<open>One-way migration of the legacy log into segment 0; \<open>None\<close> when compressing it fails.\<close>

definition migrate_legacy_wal :: "codec_ops \<Rightarrow> journal_fs \<Rightarrow> bytes \<Rightarrow> fs_op list option" where
  "migrate_legacy_wal K fs legacy =
     (let final_path = seg_name (CHR ''J'') 0 in
      map_option (\<lambda>content.
          [Create_Seg (tmp_name final_path) content]
          @ (if map_of (seg_files fs) final_path \<noteq> None then [Remove_Seg final_path] else [])
          @ [Rename_Seg (tmp_name final_path) final_path, Remove_Legacy])
        (legacy_segment_bytes K legacy))"

text \<open>The journal steps of a writable open, in its order, and the first sequence number the
  writer thread hands out. \<open>None\<close>: the open fails.\<close>

definition migrate_step :: "codec_ops \<Rightarrow> journal_fs \<Rightarrow> journal_fs option" where
  "migrate_step K fs =
     (case legacy_file fs of
        None \<Rightarrow> Some fs
      | Some legacy \<Rightarrow> map_option (\<lambda>ops. exec_ops ops fs) (migrate_legacy_wal K fs legacy))"

definition journal_recover :: "codec_ops \<Rightarrow> journal_fs \<Rightarrow> journal_fs option" where
  "journal_recover K fs =
     map_option (\<lambda>fs1.
         journal_truncate_active_overlap K
           (fs1\<lparr>active_file := journal_truncate_torn_active K (active_file fs1)\<rparr>))
       (migrate_step K (journal_cleanup fs))"

definition initial_next_seq :: "codec_ops \<Rightarrow> journal_fs \<Rightarrow> u64" where
  "initial_next_seq K fs = journal_max_seq K fs + 1"

text \<open>\<open>slice::split\<close> on the newline byte.\<close>

fun split_lines :: "bytes \<Rightarrow> bytes list" where
  "split_lines [] = [[]]"
| "split_lines (b # bs) =
     (if b = 10 then [] # split_lines bs
      else case split_lines bs of l # ls \<Rightarrow> (b # l) # ls | [] \<Rightarrow> [[b]])"

section \<open>Writer-thread helpers\<close>

definition journal_open_active :: "bytes option \<Rightarrow> u64 \<Rightarrow> bytes" where
  "journal_open_active active next_seq =
     (case active of
        None \<Rightarrow> active_header next_seq
      | Some bs \<Rightarrow> if length bs = 0 then active_header next_seq else bs)"

definition write_segment_ops :: "string \<Rightarrow> bytes \<Rightarrow> fs_op list" where
  "write_segment_ops final_path content =
     [Create_Seg (tmp_name final_path) content, Rename_Seg (tmp_name final_path) final_path]"

text \<open>The reset opens a second, truncating handle before the old buffered writer is dropped, and
  dropping a buffered writer flushes what it still holds: \<open>stale\<close> is what arrives that way, and
  the header is then written over the first bytes of the file.\<close>

definition journal_reset_active :: "u64 \<Rightarrow> bytes \<Rightarrow> fs_op list" where
  "journal_reset_active next_seq stale =
     [Set_Active [], Set_Active stale,
      Set_Active (active_header next_seq @ drop ACTIVE_HEADER_LEN stale)]"

text \<open>The operations a seal issues and the flag it returns.\<close>

definition journal_seal_active ::
  "codec_ops \<Rightarrow> journal_fs \<Rightarrow> bytes \<Rightarrow> u64 \<Rightarrow> fs_op list \<times> bool" where
  "journal_seal_active K fs stale next_seq =
     (case active_file fs of
        None \<Rightarrow> ([], False)
      | Some bs \<Rightarrow>
          if length bs \<le> ACTIVE_HEADER_LEN \<or> subslice 0 4 bs \<noteq> ACTIVE_MAGIC then ([], True)
          else case walk_frames K bs ACTIVE_HEADER_LEN
                      (\<lambda>seq _ (mn, mx, count). (min mn seq, max mx seq, count + 1))
                      (- 1 :: u64, 0 :: u64, 0 :: u32) of
            (valid_end, (mn, mx, count)) \<Rightarrow>
              if count = 0 then ([], True)
              else case segment_file_bytes K SEG_KIND_HISTORY CODEC_LZ4 mn mx count
                          (subslice ACTIVE_HEADER_LEN valid_end bs) of
                None \<Rightarrow> ([], False)
              | Some content \<Rightarrow>
                  (write_segment_ops (seg_name (CHR ''J'') mn) content
                     @ journal_reset_active next_seq stale, True))"

definition fold_body :: "codec_ops \<Rightarrow> bytes \<Rightarrow> u64 \<Rightarrow> bytes \<times> u32" where
  "fold_body K payload_lines frontier_seq =
     foldl (\<lambda>(body, count) line.
         if line = [] then (body, count) else (encode_frame K body frontier_seq line, count + 1))
       ([], 0) (split_lines payload_lines)"

text \<open>\<open>rm_ok\<close> tells which removals succeed: their errors are ignored.\<close>

definition journal_fold ::
  "codec_ops \<Rightarrow> journal_fs \<Rightarrow> bytes \<Rightarrow> (string \<Rightarrow> bool) \<Rightarrow> bytes \<Rightarrow> u64 \<Rightarrow> u64 \<Rightarrow> fs_op list \<times> bool" where
  "journal_fold K fs stale rm_ok payload_lines frontier_seq next_seq =
     (case fold_body K payload_lines frontier_seq of
        (body, count) \<Rightarrow>
          let seg_path = seg_name (CHR ''B'') frontier_seq in
          case segment_file_bytes K SEG_KIND_BASE CODEC_LZ4 frontier_seq frontier_seq count body of
            None \<Rightarrow> ([], False)
          | Some content \<Rightarrow>
              (write_segment_ops seg_path content
                 @ map (\<lambda>(p, _). Remove_Seg p)
                     (filter (\<lambda>(p, _). p \<noteq> seg_path \<and> is_gseg p \<and> rm_ok p) (seg_files fs))
                 @ journal_reset_active next_seq stale, True))"

section \<open>The recovery scan\<close>

datatype journal_event_origin = Origin_Legacy | Origin_History | Origin_Base | Origin_Active

text \<open>\<open>scan_journal\<close> without an authorization budget: the frames handed to the callback, in
  order. \<open>decode\<close> is the deserializer of signed events.\<close>

definition after_cursor :: "u64 option \<Rightarrow> u64 \<Rightarrow> bool" where
  "after_cursor from_seq seq = (case from_seq of None \<Rightarrow> True | Some cursor \<Rightarrow> seq > cursor)"

text \<open>\<open>BufRead::lines\<close> up to the first error: pieces end at a newline, which is removed together
  with a carriage return in front of it; an empty rest is no line; invalid UTF-8 is an error.\<close>

definition strip_cr :: "bytes \<Rightarrow> bytes" where
  "strip_cr l = (if l \<noteq> [] \<and> last l = 13 then butlast l else l)"

definition buf_lines :: "bytes \<Rightarrow> bytes list" where
  "buf_lines bs = (let ls = split_lines bs in
     takeWhile valid_utf8 (map strip_cr (butlast ls) @ (if last ls = [] then [] else [last ls])))"

definition scan_legacy ::
  "(bytes \<Rightarrow> 'ev option) \<Rightarrow> bytes option \<Rightarrow> (u64 \<times> journal_event_origin \<times> 'ev) list" where
  "scan_legacy decode legacy =
     (case legacy of
        None \<Rightarrow> []
      | Some bs \<Rightarrow>
          List.map_filter (\<lambda>line. map_option (\<lambda>ev. (0, Origin_Legacy, ev)) (decode line))
            (buf_lines bs))"

definition emit_lines ::
  "(bytes \<Rightarrow> 'ev option) \<Rightarrow> bytes list \<Rightarrow> (u64 \<times> journal_event_origin \<times> 'ev) list" where
  "emit_lines decode ls =
     List.map_filter (\<lambda>line. if line = [] then None
        else map_option (\<lambda>ev. (0, Origin_Legacy, ev)) (decode line)) ls"

definition emit_frames ::
  "codec_ops \<Rightarrow> (bytes \<Rightarrow> 'ev option) \<Rightarrow> journal_event_origin \<Rightarrow> (u64 \<Rightarrow> bool) \<Rightarrow> bytes \<Rightarrow> usize
     \<Rightarrow> (u64 \<times> journal_event_origin \<times> 'ev) list" where
  "emit_frames K decode origin keep bs start =
     snd (walk_frames K bs start
       (\<lambda>seq payload out. if keep seq then
          (case decode payload of None \<Rightarrow> out | Some ev \<Rightarrow> out @ [(seq, origin, ev)]) else out) [])"

definition scan_segment ::
  "codec_ops \<Rightarrow> (bytes \<Rightarrow> 'ev option) \<Rightarrow> journal_fs \<Rightarrow> u64 option \<Rightarrow> bool \<Rightarrow> segment_info
     \<Rightarrow> (u64 \<times> journal_event_origin \<times> 'ev) list" where
  "scan_segment K decode fs from_seq include_legacy seg =
     (let body = map_option snd (read_segment_body K (map_of (seg_files fs) (seg_path seg))) in
      if seg_kind seg = SEG_KIND_LEGACY_JSONL then
        (if include_legacy then
           (case body of None \<Rightarrow> [] | Some b \<Rightarrow> emit_lines decode (split_lines b))
         else [])
      else if \<not> after_cursor from_seq (seg_max seg) then []
      else case body of
        None \<Rightarrow> []
      | Some b \<Rightarrow> emit_frames K decode
          (if seg_kind seg = SEG_KIND_BASE then Origin_Base else Origin_History)
          (after_cursor from_seq) b 0)"

definition scan_journal ::
  "codec_ops \<Rightarrow> (bytes \<Rightarrow> 'ev option) \<Rightarrow> journal_fs \<Rightarrow> u64 option \<Rightarrow> bool
     \<Rightarrow> (u64 \<times> journal_event_origin \<times> 'ev) list" where
  "scan_journal K decode fs from_seq include_legacy =
     (if include_legacy then scan_legacy decode (legacy_file fs) else [])
     @ concat (map (scan_segment K decode fs from_seq include_legacy) (journal_list_segments fs))
     @ (case active_file fs of
          None \<Rightarrow> []
        | Some bs \<Rightarrow>
            if length bs > ACTIVE_HEADER_LEN \<and> subslice 0 4 bs = ACTIVE_MAGIC
            then emit_frames K decode Origin_Active
                   (\<lambda>seq. seq > history_horizon fs \<and> after_cursor from_seq seq) bs ACTIVE_HEADER_LEN
            else [])"

section \<open>Scanning as parsing\<close>

definition keep_event ::
  "(bytes \<Rightarrow> 'ev option) \<Rightarrow> journal_event_origin \<Rightarrow> (u64 \<Rightarrow> bool) \<Rightarrow> u64 \<times> bytes
     \<Rightarrow> (u64 \<times> journal_event_origin \<times> 'ev) option" where
  "keep_event decode origin keep fr =
     (if keep (fst fr) then map_option (\<lambda>ev. (fst fr, origin, ev)) (decode (snd fr)) else None)"

lemma map_filter_simps' [simp]:
  "List.map_filter f [] = []"
  "List.map_filter f (x # xs) =
     (case f x of None \<Rightarrow> List.map_filter f xs | Some y \<Rightarrow> y # List.map_filter f xs)"
  by (simp_all add: List.map_filter_def split: option.split)

lemma map_filter_append' [simp]:
  "List.map_filter f (xs @ ys) = List.map_filter f xs @ List.map_filter f ys"
  by (induction xs) (auto split: option.split)

lemma map_filter_absorb:
  "(\<And>x. x \<in> set xs \<Longrightarrow> \<not> P x \<Longrightarrow> f x = None) \<Longrightarrow>
     List.map_filter f (filter P xs) = List.map_filter f xs"
  by (induction xs) (auto split: option.split)

lemma fold_emit:
  "fold (\<lambda>(q, p) out. if keep q then
      (case decode p of None \<Rightarrow> out | Some ev \<Rightarrow> out @ [(q, origin, ev)]) else out) frs acc
   = acc @ List.map_filter (keep_event decode origin keep) frs"
  by (induction frs arbitrary: acc) (auto simp: keep_event_def split: option.split)

lemma emit_frames_parse:
  assumes "start \<le> length bs"
  shows "emit_frames K decode origin keep bs start =
    List.map_filter (keep_event decode origin keep) (parse_frames K (drop start bs))"
  unfolding emit_frames_def walk_frames_parse [OF assms]
  using fold_emit [where keep = keep and decode = decode and origin = origin
      and frs = "parse_frames K (drop start bs)" and acc = "[]"]
  by (simp add: case_prod_unfold)

section \<open>Hygiene keeps every event\<close>

lemma parse_frames_prefix_clean:
  "parse_frames K (encode_frames K (parse_frames K bs)) = parse_frames K bs"
proof -
  have "next_frame K [] = None" by (simp add: next_frame_def FRAME_HEADER_LEN_def)
  with parse_frames_split [of bs K] show ?thesis
    using parse_frames_encode [of "parse_frames K bs" K "[]"] by auto
qed

lemma truncate_torn_active_eq:
  assumes "ACTIVE_HEADER_LEN \<le> length bs" and "subslice 0 4 bs = ACTIVE_MAGIC"
  shows "journal_truncate_torn_active K (Some bs) =
    Some (take ACTIVE_HEADER_LEN bs @ encode_frames K (parse_frames K (drop ACTIVE_HEADER_LEN bs)))"
proof -
  obtain fs rest where fs: "parse_frames K (drop ACTIVE_HEADER_LEN bs) = fs"
    and rest: "drop ACTIVE_HEADER_LEN bs = encode_frames K fs @ rest"
    using parse_frames_split [of "drop ACTIVE_HEADER_LEN bs" K] by blast
  let ?n = "ACTIVE_HEADER_LEN + length (encode_frames K fs)"
  have tk: "take ?n bs = take ACTIVE_HEADER_LEN bs @ encode_frames K fs"
    by (simp add: take_add rest)
  have "length bs - ACTIVE_HEADER_LEN = length (encode_frames K fs) + length rest"
    using arg_cong [OF rest, of length] by simp
  then have "?n \<le> length bs" using assms(1) by linarith
  then have "(if ?n < length bs then take ?n bs else bs) = take ?n bs" by auto
  then show ?thesis
    using assms by (simp add: journal_truncate_torn_active_def walk_frames_parse fs tk)
qed

lemma overlap_loop_parse:
  assumes "off \<le> length bs"
  shows "overlap_loop K bs b off r x =
    (r @ encode_frames K (filter (\<lambda>fr. fst fr > b) (parse_frames K (drop off bs))),
     x \<or> (\<exists>fr\<in>set (parse_frames K (drop off bs)). fst fr \<le> b))"
  using assms
proof (induction K "drop off bs" arbitrary: off r x rule: parse_frames.induct)
  case (1 K)
  let ?d = "drop off bs"
  have slices: "subslice off (off + 4) bs = subslice 0 4 ?d"
      "\<And>i j. subslice (off + i) (off + j) bs = subslice i j ?d"
      "\<And>n. subslice (off + FRAME_HEADER_LEN) (off + FRAME_HEADER_LEN + n) bs
        = subslice FRAME_HEADER_LEN (FRAME_HEADER_LEN + n) ?d"
      "\<And>n. subslice off (off + FRAME_HEADER_LEN + n) bs = take (FRAME_HEADER_LEN + n) ?d"
    using subslice_drop [of off 0 4 bs] subslice_drop [of off _ _ bs]
    by (simp_all add: add.assoc) (simp add: subslice_def)
  have fits: "\<And>n. off + FRAME_HEADER_LEN + n > length bs \<longleftrightarrow> FRAME_HEADER_LEN + n > length ?d"
      "\<not> off + FRAME_HEADER_LEN \<le> length bs \<longleftrightarrow> length ?d < FRAME_HEADER_LEN"
    using 1(2) by auto
  have len: "FRAME_HEADER_LEN + n \<le> length ?d \<Longrightarrow>
      length (subslice FRAME_HEADER_LEN (FRAME_HEADER_LEN + n) ?d) = n" for n
    by (simp add: subslice_def)
  have step: "overlap_loop K bs b off r x =
    (case next_frame K ?d of None \<Rightarrow> (r, x)
     | Some (q, p) \<Rightarrow>
         if q \<le> b then overlap_loop K bs b (off + FRAME_HEADER_LEN + length p) r True
         else overlap_loop K bs b (off + FRAME_HEADER_LEN + length p)
                (r @ take (FRAME_HEADER_LEN + length p) ?d) x)"
    by (subst overlap_loop.simps)
       (auto simp: next_frame_def slices fits len Let_def not_less simp del: length_drop)
  show ?case
  proof (cases "next_frame K ?d")
    case None
    with step show ?thesis by (simp add: parse_frames_None)
  next
    case (Some fr)
    obtain q p where fr: "fr = (q, p)" by (cases fr)
    let ?o = "off + FRAME_HEADER_LEN + length p"
    note enc = next_frame_SomeD(2) [OF Some [unfolded fr]]
    then have "length (take (FRAME_HEADER_LEN + length p) ?d) = FRAME_HEADER_LEN + length p"
      by simp
    then have le: "?o \<le> length bs" using 1(2) by (simp add: min_def split: if_splits)
    have tl: "drop (FRAME_HEADER_LEN + length p) ?d = drop ?o bs"
      by (simp add: add.commute add.left_commute)
    note ih = 1(1) [OF Some fr [symmetric] tl le]
    show ?thesis
      using step Some fr ih enc parse_frames_Some [OF Some [unfolded fr]] tl
      by (auto simp: not_le)
  qed
qed

definition active_ok :: "bytes \<Rightarrow> bool" where
  "active_ok bs \<longleftrightarrow> ACTIVE_HEADER_LEN \<le> length bs \<and> subslice 0 4 bs = ACTIVE_MAGIC"

definition active_frames :: "codec_ops \<Rightarrow> bytes option \<Rightarrow> (u64 \<times> bytes) list" where
  "active_frames K active =
     (case active of None \<Rightarrow> []
      | Some bs \<Rightarrow> if active_ok bs then parse_frames K (drop ACTIVE_HEADER_LEN bs) else [])"

lemma next_frame_Nil [simp]: "next_frame K [] = None"
  by (simp add: next_frame_def FRAME_HEADER_LEN_def)

lemma parse_frames_Nil [simp]: "parse_frames K [] = []"
  by (simp add: parse_frames_None)

lemma scan_active:
  "(case active_file fs of
      None \<Rightarrow> []
    | Some bs \<Rightarrow>
        if length bs > ACTIVE_HEADER_LEN \<and> subslice 0 4 bs = ACTIVE_MAGIC
        then emit_frames K decode Origin_Active keep bs ACTIVE_HEADER_LEN else [])
   = List.map_filter (keep_event decode Origin_Active keep) (active_frames K (active_file fs))"
proof (cases "active_file fs")
  case (Some bs)
  then show ?thesis
    by (cases "length bs = ACTIVE_HEADER_LEN")
       (auto simp: active_frames_def active_ok_def emit_frames_parse)
qed (simp add: active_frames_def)

lemma active_frames_header [simp]:
  "list_all frame_ok frs \<Longrightarrow>
     active_frames K (Some (active_header n @ encode_frames K frs)) = frs"
  using parse_frames_encode [of frs K "[]"]
  by (simp add: active_frames_def active_ok_def)

lemma active_frames_truncate_torn:
  "active_frames K (journal_truncate_torn_active K active) = active_frames K active"
proof (cases active)
  case (Some bs)
  show ?thesis
  proof (cases "active_ok bs")
    case True
    then have "ACTIVE_HEADER_LEN \<le> length bs" "subslice 0 4 bs = ACTIVE_MAGIC"
      by (simp_all add: active_ok_def)
    moreover from this have "active_ok (take ACTIVE_HEADER_LEN bs @ encode_frames K frs)" for frs
      by (simp add: active_ok_def subslice_def ACTIVE_HEADER_LEN_def)
    ultimately show ?thesis
      using True Some by (simp add: active_frames_def truncate_torn_active_eq parse_frames_prefix_clean)
  next
    case False
    moreover from this have "\<not> active_ok []" by (simp add: active_ok_def journal_consts)
    ultimately show ?thesis
      using Some by (auto simp: active_frames_def journal_truncate_torn_active_def active_ok_def not_le)
  qed
qed (simp add: journal_truncate_torn_active_def)

lemma horizon_active [simp]: "history_horizon (fs\<lparr>active_file := a\<rparr>) = history_horizon fs"
  and segments_active [simp]:
    "journal_list_segments (fs\<lparr>active_file := a\<rparr>) = journal_list_segments fs"
  by (simp_all add: history_horizon_def journal_list_segments_def)

lemma truncate_overlap_frame [simp]:
  "seg_files (journal_truncate_active_overlap K fs) = seg_files fs"
  "legacy_file (journal_truncate_active_overlap K fs) = legacy_file fs"
  by (auto simp: journal_truncate_active_overlap_def Let_def split: option.split prod.split)

lemma filter_frames_ok: "list_all frame_ok (filter P (parse_frames K bs))"
  using parse_frames_split [of bs K] by (auto simp: list_all_iff)

lemma active_frames_overlap:
  "active_frames K (active_file (journal_truncate_active_overlap K fs)) =
     (if history_horizon fs = 0 then active_frames K (active_file fs)
      else filter (\<lambda>fr. fst fr > history_horizon fs) (active_frames K (active_file fs)))"
proof (cases "active_file fs")
  case (Some bs)
  show ?thesis
  proof (cases "active_ok bs")
    case True
    let ?b = "history_horizon fs" and ?frs = "parse_frames K (drop ACTIVE_HEADER_LEN bs)"
    have "filter (\<lambda>fr. fst fr > ?b) ?frs = ?frs" if "\<not> (\<exists>fr\<in>set ?frs. fst fr \<le> ?b)"
      using that by (auto simp: filter_id_conv not_le)
    with True Some show ?thesis
      by (auto simp: journal_truncate_active_overlap_def overlap_loop_parse active_ok_def
          active_frames_def [of K "Some bs"] filter_frames_ok not_less Let_def)
  qed (auto simp: Some journal_truncate_active_overlap_def active_frames_def active_ok_def Let_def)
qed (simp add: journal_truncate_active_overlap_def active_frames_def)

lemma map_of_filter_key:
  "map_of (filter (\<lambda>(k, _). P k) xs) k = (if P k then map_of xs k else None)"
  by (induction xs) auto

lemma segments_cong:
  "seg_files fs = seg_files fs' \<Longrightarrow> journal_list_segments fs = journal_list_segments fs'"
  by (simp add: journal_list_segments_def)

lemma segments_cleanup: "journal_list_segments (journal_cleanup fs) = journal_list_segments fs"
  unfolding journal_list_segments_def journal_cleanup_def
  by (simp, subst map_filter_absorb) (auto simp: is_gseg_def)

lemma segment_path_gseg: "seg \<in> set (journal_list_segments fs) \<Longrightarrow> is_gseg (seg_path seg)"
  by (auto simp: journal_list_segments_def List.map_filter_def read_segment_header_def Let_def
      split: if_splits option.splits)

lemma scan_segment_cong:
  assumes "map_of (seg_files fs) (seg_path seg) = map_of (seg_files fs') (seg_path seg)"
  shows "scan_segment K decode fs from_seq leg seg = scan_segment K decode fs' from_seq leg seg"
  using assms by (simp add: scan_segment_def)

lemma scan_segments_cleanup:
  "map (scan_segment K decode (journal_cleanup fs) from_seq leg) (journal_list_segments fs)
   = map (scan_segment K decode fs from_seq leg) (journal_list_segments fs)"
proof (rule map_cong [OF refl])
  fix seg assume "seg \<in> set (journal_list_segments fs)"
  from segment_path_gseg [OF this] have "extension (seg_path seg) \<noteq> Some ''tmp''"
    by (simp add: is_gseg_def)
  then show "scan_segment K decode (journal_cleanup fs) from_seq leg seg
      = scan_segment K decode fs from_seq leg seg"
    by (intro scan_segment_cong) (simp add: journal_cleanup_def map_of_filter_key)
qed

lemma hygiene_preserves_scan:
  "scan_journal K decode
     (journal_truncate_active_overlap K
        (fs\<lparr>active_file := journal_truncate_torn_active K (active_file fs)\<rparr>)) from_seq leg
   = scan_journal K decode fs from_seq leg"
proof -
  let ?t = "fs\<lparr>active_file := journal_truncate_torn_active K (active_file fs)\<rparr>"
  let ?r = "journal_truncate_active_overlap K ?t"
  let ?keep = "\<lambda>seq. seq > history_horizon fs \<and> after_cursor from_seq seq"
  have segs: "journal_list_segments ?r = journal_list_segments fs"
    using segments_cong [of ?r ?t] by simp
  then have hor: "history_horizon ?r = history_horizon fs"
    by (simp add: history_horizon_def)
  have seg_events: "map (scan_segment K decode ?r from_seq leg) (journal_list_segments fs)
      = map (scan_segment K decode fs from_seq leg) (journal_list_segments fs)"
    by (intro map_cong refl scan_segment_cong) simp
  have "active_frames K (active_file ?t) = active_frames K (active_file fs)"
    by (simp add: active_frames_truncate_torn)
  then have "List.map_filter (keep_event decode Origin_Active ?keep) (active_frames K (active_file ?r))
      = List.map_filter (keep_event decode Origin_Active ?keep) (active_frames K (active_file fs))"
    unfolding active_frames_overlap horizon_active
    by (simp, intro impI map_filter_absorb) (auto simp: keep_event_def)
  then show ?thesis
    unfolding scan_journal_def scan_active segs hor seg_events by simp
qed

lemma cleanup_frame [simp]:
  "active_file (journal_cleanup fs) = active_file fs"
  "legacy_file (journal_cleanup fs) = legacy_file fs"
  by (simp_all add: journal_cleanup_def)

lemma horizon_cleanup [simp]: "history_horizon (journal_cleanup fs) = history_horizon fs"
  by (simp add: history_horizon_def segments_cleanup)

lemma cleanup_preserves_scan:
  "scan_journal K decode (journal_cleanup fs) from_seq leg = scan_journal K decode fs from_seq leg"
  unfolding scan_journal_def horizon_cleanup cleanup_frame segments_cleanup scan_segments_cleanup ..

text \<open>C5: The journal hygiene of a writable open (dropping temporary files, cutting a torn tail,
  dropping active frames a base segment already covers) never changes what recovery reads: the open
  succeeds and the scan yields the same events, origins and sequence numbers before and after.\<close>

theorem journal_recover_preserves_scan:
  assumes "legacy_file fs = None"
  shows "\<exists>fs'. journal_recover K fs = Some fs'
    \<and> scan_journal K decode fs' from_seq leg = scan_journal K decode fs from_seq leg"
  using assms hygiene_preserves_scan [of K decode "journal_cleanup fs" from_seq leg]
  by (simp add: journal_recover_def migrate_step_def cleanup_preserves_scan)

theorem journal_recover_preserves_scan_witness:
  "\<exists>fs'. journal_recover null_codec \<lparr>seg_files = [(''x.tmp'', [1])], active_file = Some (active_header 1 @ [7]),
       legacy_file = None\<rparr> = Some fs'
    \<and> scan_journal null_codec Some fs' None True =
        scan_journal null_codec Some \<lparr>seg_files = [(''x.tmp'', [1])],
          active_file = Some (active_header 1 @ [7]), legacy_file = None\<rparr> None True"
  by (rule journal_recover_preserves_scan) simp

end
