(* ===== verification/GB_Journal_Rotation.thy ===== *)
theory GB_Journal_Rotation
  imports GB_Journal_Store
begin

text \<open>
  Migration, sealing and folding of the journal: what recovery reads after each of their file
  operations, that is after a crash at any point, and what it reads when they complete.
\<close>

section \<open>Names\<close>

lemma extension_gseg [simp]: "x \<noteq> [] \<Longrightarrow> extension (x @ ''.gseg'') = Some ''gseg''"
  by (simp add: extension_def)

lemma extension_tmp [simp]: "x \<noteq> [] \<Longrightarrow> extension (x @ ''.tmp'') = Some ''tmp''"
  by (simp add: extension_def)

lemma is_gseg_seg_name [simp]: "is_gseg (seg_name c n)"
proof -
  have "seg_name c n = (c # (let d = dec (unat n) in replicate (12 - length d) (CHR ''0'') @ d)) @ ''.gseg''"
    by (simp add: seg_name_def)
  then show ?thesis unfolding is_gseg_def by (simp only: extension_gseg list.distinct simp_thms)
qed

lemma not_gseg_tmp [simp]: "p \<noteq> [] \<Longrightarrow> \<not> is_gseg (tmp_name p)"
  by (simp add: is_gseg_def tmp_name_def)

lemma seg_name_nonempty [simp]: "seg_name c n \<noteq> []"
  by (simp add: seg_name_def)

lemma tmp_name_neq [simp]: "tmp_name p \<noteq> p" "p \<noteq> tmp_name p"
  by (simp_all add: tmp_name_def)

section \<open>Installing a segment\<close>

lemma exec_ops_simps [simp]:
  "exec_ops [] fs = fs"
  "exec_ops (op # ops) fs = exec_ops ops (exec_op op fs)"
  "exec_ops (xs @ ys) fs = exec_ops ys (exec_ops xs fs)"
  by (simp_all add: exec_ops_def)

definition install :: "string \<Rightarrow> bytes \<Rightarrow> journal_fs \<Rightarrow> journal_fs" where
  "install p content fs =
     fs\<lparr>seg_files := filter (\<lambda>(q, _). q \<noteq> tmp_name p \<and> q \<noteq> p) (seg_files fs) @ [(p, content)]\<rparr>"

lemma install_frame [simp]:
  "active_file (install p c fs) = active_file fs" "legacy_file (install p c fs) = legacy_file fs"
  by (simp_all add: install_def)

lemma map_of_filter_out: "map_of (filter (\<lambda>(q, _). q \<noteq> k) xs) k = None"
  by (induction xs) auto

lemma exec_rename:
  assumes "seg_files g = filter (\<lambda>(q, _). P q \<and> q \<noteq> tmp_name p) xs @ [(tmp_name p, c)]"
  shows "exec_op (Rename_Seg (tmp_name p) p) g =
    g\<lparr>seg_files := filter (\<lambda>(q, _). P q \<and> q \<noteq> tmp_name p \<and> q \<noteq> p) xs @ [(p, c)]\<rparr>"
proof -
  have "map_of (filter (\<lambda>(q, _). P q \<and> q \<noteq> tmp_name p) xs) (tmp_name p) = None"
    by (simp add: map_of_filter_key [where P = "\<lambda>q. P q \<and> q \<noteq> tmp_name p"])
  then show ?thesis using assms by (simp add: map_add_def case_prod_unfold conj_ac)
qed

lemma exec_write_segment: "exec_ops (write_segment_ops p c) fs = install p c fs"
proof -
  let ?g = "exec_op (Create_Seg (tmp_name p) c) fs"
  have "exec_op (Rename_Seg (tmp_name p) p) ?g = install p c fs"
    by (subst exec_rename [of _ "\<lambda>_. True" p "seg_files fs" c]) (simp_all add: install_def)
  then show ?thesis by (simp add: write_segment_ops_def)
qed

abbreviation seg_key :: "segment_info \<Rightarrow> nat \<times> nat" where
  "seg_key s \<equiv> (unat (seg_min s), unat (seg_max s))"

definition headers :: "(string \<times> bytes) list \<Rightarrow> segment_info list" where
  "headers = List.map_filter
     (\<lambda>(p, bs). if is_gseg p then read_segment_header p (Some bs) else None)"

lemma journal_list_segments_headers:
  "journal_list_segments fs = sort_key seg_key (headers (seg_files fs))"
  by (simp add: journal_list_segments_def headers_def)

lemma headers_append [simp]: "headers (xs @ ys) = headers xs @ headers ys"
  by (simp add: headers_def)

lemma headers_Nil [simp]: "headers [] = []"
  by (simp add: headers_def)

lemma in_headers:
  "i \<in> set (headers xs) \<longleftrightarrow>
     (\<exists>p bs. (p, bs) \<in> set xs \<and> is_gseg p \<and> read_segment_header p (Some bs) = Some i)"
  by (induction xs) (auto simp: headers_def split: option.splits if_splits, blast)

lemma headers_drop_tmp:
  "p \<noteq> [] \<Longrightarrow> headers (filter (\<lambda>(q, _). q \<noteq> tmp_name p \<and> P q) xs) = headers (filter (\<lambda>(q, _). P q) xs)"
  unfolding headers_def
  using map_filter_absorb [of "filter (\<lambda>(q, _). P q) xs" "\<lambda>(q, _). q \<noteq> tmp_name p"
      "\<lambda>(p, bs). if is_gseg p then read_segment_header p (Some bs) else None"]
  by (auto simp: case_prod_unfold conj_commute)

lemma segments_install:
  assumes "is_gseg p" and "p \<noteq> []" and "read_segment_header p (Some c) = Some info"
  shows "journal_list_segments (install p c fs) =
    sort_key seg_key (headers (filter (\<lambda>(q, _). q \<noteq> p) (seg_files fs)) @ [info])"
  using assms headers_drop_tmp [of p "\<lambda>q. q \<noteq> p"]
  by (simp add: journal_list_segments_headers install_def) (simp add: headers_def)

lemma sort_key_snoc_min:
  "(\<And>y. y \<in> set xs \<Longrightarrow> f x < f y) \<Longrightarrow> sort_key f (xs @ [x]) = x # sort_key f xs"
  for f :: "'a \<Rightarrow> 'b::linorder"
proof (induction xs)
  case (Cons a xs)
  have "\<not> f a \<le> f x" using Cons.prems [of a] by simp
  then show ?case using Cons by simp
qed simp

lemma insort_key_snoc: "f y \<le> f x \<Longrightarrow> insort_key f y (zs @ [x]) = insort_key f y zs @ [x]"
  by (induction zs) auto

lemma sort_key_snoc_max:
  "(\<And>y. y \<in> set xs \<Longrightarrow> f y \<le> f x) \<Longrightarrow> sort_key f (xs @ [x]) = sort_key f xs @ [x]"
  for f :: "'a \<Rightarrow> 'b::linorder"
  by (induction xs) (auto simp: insort_key_snoc)

lemma map_of_install: "q \<noteq> tmp_name p \<Longrightarrow>
  map_of (seg_files (install p c fs)) q = (if q = p then Some c else map_of (seg_files fs) q)"
  by (simp add: install_def map_add_def map_of_filter_key [where P = "\<lambda>q. q \<noteq> tmp_name p \<and> q \<noteq> p"]
      split: option.split)

lemma scan_segments_install:
  assumes "\<And>s. s \<in> set segs \<Longrightarrow> is_gseg (seg_path s) \<and> seg_path s \<noteq> p" and "p \<noteq> []"
  shows "map (scan_segment K decode (install p c fs) from_seq leg) segs
    = map (scan_segment K decode fs from_seq leg) segs"
proof (rule map_cong [OF refl])
  fix s assume "s \<in> set segs"
  then have "seg_path s \<noteq> p" "seg_path s \<noteq> tmp_name p" using assms by force+
  then show "scan_segment K decode (install p c fs) from_seq leg s
      = scan_segment K decode fs from_seq leg s"
    by (intro scan_segment_cong) (simp add: map_of_install)
qed

lemma segment_path_in:
  "s \<in> set (journal_list_segments fs) \<Longrightarrow>
     is_gseg (seg_path s) \<and> (\<exists>bs. (seg_path s, bs) \<in> set (seg_files fs))"
  by (auto simp: journal_list_segments_headers in_headers read_segment_header_def Let_def
      split: if_splits)

lemma filter_absent: "map_of xs p = None \<Longrightarrow> filter (\<lambda>(q, _). q \<noteq> p) xs = xs"
  by (induction xs) (auto split: if_splits)

text \<open>Installing a segment under a fresh name whose range lies below, or above, every other.\<close>

lemma segments_install_below:
  assumes "is_gseg p" and "p \<noteq> []" and "read_segment_header p (Some c) = Some info"
    and "map_of (seg_files fs) p = None"
    and "\<And>s. s \<in> set (journal_list_segments fs) \<Longrightarrow> seg_key info < seg_key s"
  shows "journal_list_segments (install p c fs) = info # journal_list_segments fs"
  unfolding segments_install [OF assms(1-3)] filter_absent [OF assms(4)]
  using assms(5) by (simp only: journal_list_segments_headers set_sort sort_key_snoc_min)

lemma segments_install_above:
  assumes "is_gseg p" and "p \<noteq> []" and "read_segment_header p (Some c) = Some info"
    and "map_of (seg_files fs) p = None"
    and "\<And>s. s \<in> set (journal_list_segments fs) \<Longrightarrow> seg_key s \<le> seg_key info"
  shows "journal_list_segments (install p c fs) = journal_list_segments fs @ [info]"
  unfolding segments_install [OF assms(1-3)] filter_absent [OF assms(4)]
  using assms(5) by (simp only: journal_list_segments_headers set_sort sort_key_snoc_max)

section \<open>Migrating the legacy log\<close>

lemma utf8_len_snoc_cr:
  assumes "l \<noteq> []" and "utf8_len (l @ [13]) = Some n"
  shows "utf8_len l = Some n \<and> n \<le> length l"
proof -
  have no_cont: "\<not> in_range 128 191 13" "\<not> in_range 160 191 13" "\<not> in_range 144 191 13"
    "\<not> in_range 128 159 13" "\<not> in_range 128 143 13"
    by (simp_all add: in_range_def)
  consider a where "l = [a]" | a b where "l = [a, b]" | a b c where "l = [a, b, c]"
    | a b c d r where "l = a # b # c # d # r"
    using assms(1) by (metis neq_Nil_conv)
  then show ?thesis
    using assms(2) no_cont by cases (auto simp: utf8_len_def split: if_splits)
qed

lemma valid_utf8_snoc_cr: "valid_utf8 (l @ [13]) \<Longrightarrow> valid_utf8 l"
proof (induction l rule: length_induct)
  case (1 l)
  show ?case
  proof (cases "l = []")
    case False
    with "1.prems" obtain n where n: "utf8_len (l @ [13]) = Some n" "valid_utf8 (drop n (l @ [13]))"
      by (subst (asm) valid_utf8.simps) (auto split: option.splits)
    note l = utf8_len_snoc_cr [OF False n(1)]
    then have "n \<noteq> 0" by (auto simp: utf8_len_def split: list.splits if_splits)
    with l n(2) "1.IH" False have "valid_utf8 (drop n l)" by simp
    with l show ?thesis by (subst valid_utf8.simps) simp
  qed (simp add: valid_utf8.simps)
qed

lemma strip_cr_cases: "l = strip_cr l \<or> l = strip_cr l @ [13]"
  by (simp add: strip_cr_def) (metis append_butlast_last_id)

lemma valid_utf8_strip_cr: "valid_utf8 l \<Longrightarrow> valid_utf8 (strip_cr l)"
  using strip_cr_cases [of l] valid_utf8_snoc_cr by metis

lemma split_lines_nonempty [simp]: "split_lines bs \<noteq> []"
  by (induction bs) (auto split: list.split)

text \<open>What the code relies on of the event deserializer: nothing is decoded from an empty line,
  and white space behind a JSON value is insignificant.\<close>

definition decode_laws :: "(bytes \<Rightarrow> 'ev option) \<Rightarrow> bool" where
  "decode_laws decode \<longleftrightarrow> decode [] = None \<and> (\<forall>l. decode (l @ [13]) = decode l)"

lemma decode_strip_cr: "decode_laws decode \<Longrightarrow> decode (strip_cr l) = decode l"
  using strip_cr_cases [of l] by (metis decode_laws_def)

lemma emit_lines_map_filter:
  "decode_laws decode \<Longrightarrow> emit_lines decode ls =
     List.map_filter (\<lambda>line. map_option (\<lambda>ev. (0, Origin_Legacy, ev)) (decode line)) ls"
  by (induction ls) (auto simp: emit_lines_def decode_laws_def split: option.split)

lemma map_filter_map: "List.map_filter f (map g xs) = List.map_filter (f \<circ> g) xs"
  by (simp add: List.map_filter_def comp_def filter_map)

lemma scan_legacy_lines:
  assumes "decode_laws decode" and "list_all valid_utf8 (split_lines bs)"
  shows "scan_legacy decode (Some bs) = emit_lines decode (split_lines bs)"
proof -
  obtain ls l where ls: "split_lines bs = ls @ [l]"
    by (metis split_lines_nonempty rev_exhaust)
  with assms(2) have ok: "list_all valid_utf8 (map strip_cr ls)" "valid_utf8 l"
    by (auto simp: list_all_iff valid_utf8_strip_cr)
  then have "buf_lines bs = map strip_cr ls @ (if l = [] then [] else [l])"
    by (simp add: buf_lines_def ls list_all_iff takeWhile_eq_all_conv)
  then show ?thesis
    using assms(1)
    by (simp add: scan_legacy_def emit_lines_map_filter ls map_filter_map comp_def decode_strip_cr)
       (simp add: decode_laws_def)
qed

lemma exec_migrate:
  assumes "migrate_legacy_wal K fs legacy = Some ops" and "legacy_segment_bytes K legacy = Some content"
  shows "exec_ops ops fs = install (seg_name (CHR ''J'') 0) content fs\<lparr>legacy_file := None\<rparr>"
proof -
  let ?p = "seg_name (CHR ''J'') 0"
  let ?g = "exec_op (Create_Seg (tmp_name ?p) content) fs"
  let ?h = "exec_op (Remove_Seg ?p) ?g"
  have g: "exec_op (Rename_Seg (tmp_name ?p) ?p) ?g = install ?p content fs"
    using exec_write_segment [of ?p content fs] by (simp only: write_segment_ops_def exec_ops_simps)
  have "seg_files ?h = filter (\<lambda>(q, _). q \<noteq> ?p \<and> q \<noteq> tmp_name ?p) (seg_files fs) @ [(tmp_name ?p, content)]"
    by (simp add: case_prod_unfold conj_commute)
  from exec_rename [OF this]
  have h: "exec_op (Rename_Seg (tmp_name ?p) ?p) ?h = install ?p content fs"
    by (simp add: install_def case_prod_unfold conj_ac)
  show ?thesis
    using assms g h by (auto simp: migrate_legacy_wal_def Let_def simp del: exec_op.simps(1-3))
qed

lemma scan_drop_legacy:
  "scan_journal K decode (fs\<lparr>legacy_file := None\<rparr>) from_seq leg =
     concat (map (scan_segment K decode fs from_seq leg) (journal_list_segments fs))
     @ List.map_filter (keep_event decode Origin_Active
         (\<lambda>seq. seq > history_horizon fs \<and> after_cursor from_seq seq)) (active_frames K (active_file fs))"
proof -
  have segs: "journal_list_segments (fs\<lparr>legacy_file := None\<rparr>) = journal_list_segments fs"
    by (simp add: journal_list_segments_def)
  have hor: "history_horizon (fs\<lparr>legacy_file := None\<rparr>) = history_horizon fs"
    by (simp add: history_horizon_def segs)
  have "scan_segment K decode (fs\<lparr>legacy_file := None\<rparr>) from_seq b
      = scan_segment K decode fs from_seq b" for b
    by (rule ext, rule scan_segment_cong) simp
  then show ?thesis
    unfolding scan_journal_def scan_active segs hor by (simp add: scan_legacy_def)
qed

lemma scan_journal_eq:
  "scan_journal K decode fs from_seq leg =
     (if leg then scan_legacy decode (legacy_file fs) else [])
     @ scan_journal K decode (fs\<lparr>legacy_file := None\<rparr>) from_seq leg"
  unfolding scan_drop_legacy unfolding scan_journal_def scan_active by simp

lemma scan_migrated:
  assumes mig: "migrate_legacy_wal K fs legacy = Some ops" and laws: "codec_laws K"
    and fresh: "map_of (seg_files fs) (seg_name (CHR ''J'') 0) = None"
    and above: "\<forall>s\<in>set (journal_list_segments fs). 0 < seg_min s"
  obtains c content where
    "content = segment_layout K (segment_header SEG_KIND_LEGACY_JSONL CODEC_LZ4 0 0 0) c legacy"
    and "sealed K CODEC_LZ4 legacy c"
    and "legacy_segment_bytes K legacy = Some content"
    and "scan_journal K decode (exec_ops ops fs) from_seq leg =
      (if leg then (case read_segment_body K (Some content) of None \<Rightarrow> []
         | Some kb \<Rightarrow> emit_lines decode (split_lines (snd kb))) else [])
      @ scan_journal K decode (fs\<lparr>legacy_file := None\<rparr>) from_seq leg"
proof -
  let ?p = "seg_name (CHR ''J'') 0"
  from mig obtain content where c: "legacy_segment_bytes K legacy = Some content"
    by (auto simp: migrate_legacy_wal_def Let_def)
  from legacy_segment_bytes_SomeD [OF c laws] obtain z where
    content: "content = segment_layout K (segment_header SEG_KIND_LEGACY_JSONL CODEC_LZ4 0 0 0) z legacy"
    and z: "sealed K CODEC_LZ4 legacy z" by blast
  let ?info = "\<lparr>seg_path = ?p, seg_kind = SEG_KIND_LEGACY_JSONL, seg_min = 0, seg_max = 0\<rparr>"
  let ?fs = "install ?p content fs"
  note hdr = read_sealed_header [OF content, of ?p]
  have segs: "journal_list_segments ?fs = ?info # journal_list_segments fs"
    using above by (intro segments_install_below [OF _ _ hdr fresh]) (auto simp: word_less_nat_alt)
  have hor: "history_horizon ?fs = history_horizon fs"
    by (simp add: history_horizon_def segs SEG_KIND_LEGACY_JSONL_def SEG_KIND_BASE_def)
  have others: "map (scan_segment K decode ?fs from_seq leg) (journal_list_segments fs)
      = map (scan_segment K decode fs from_seq leg) (journal_list_segments fs)"
    using segment_path_in fresh by (intro scan_segments_install) (force simp: map_of_eq_None_iff)+
  have this_seg: "scan_segment K decode ?fs from_seq leg ?info = (if leg then
      (case read_segment_body K (Some content) of None \<Rightarrow> []
         | Some kb \<Rightarrow> emit_lines decode (split_lines (snd kb))) else [])"
    by (simp add: scan_segment_def map_of_install split: option.split)
  show thesis
    by (rule that [OF content z c])
       (simp add: exec_migrate [OF mig c] scan_drop_legacy segs hor others this_seg)
qed

text \<open>C21: Migrating a legacy log into segment 0 is lossless for recovery: with a log within the
  reader's bounds, no segment 0 yet and every stamped segment above it, the scan after the migration
  yields exactly the events it yielded from the log in place.\<close>

theorem migrate_legacy_preserves_scan:
  assumes "legacy_file fs = Some legacy" and "migrate_legacy_wal K fs legacy = Some ops"
    and "codec_laws K" and "decode_laws decode"
    and "map_of (seg_files fs) (seg_name (CHR ''J'') 0) = None"
    and "\<forall>s\<in>set (journal_list_segments fs). 0 < seg_min s"
    and "list_all valid_utf8 (split_lines legacy)"
    and "length legacy \<le> MAX_JOURNAL_SEGMENT_BODY_BYTES"
    and "\<forall>content. legacy_segment_bytes K legacy = Some content
           \<longrightarrow> length content \<le> MAX_JOURNAL_SEGMENT_FILE_BYTES"
  shows "scan_journal K decode (exec_ops ops fs) from_seq leg = scan_journal K decode fs from_seq leg"
proof -
  from scan_migrated [OF assms(2,3,5,6)] obtain c content where
    content: "content = segment_layout K (segment_header SEG_KIND_LEGACY_JSONL CODEC_LZ4 0 0 0) c legacy"
    and c: "sealed K CODEC_LZ4 legacy c" and lsb: "legacy_segment_bytes K legacy = Some content"
    and scan: "scan_journal K decode (exec_ops ops fs) from_seq leg =
      (if leg then (case read_segment_body K (Some content) of None \<Rightarrow> []
         | Some kb \<Rightarrow> emit_lines decode (split_lines (snd kb))) else [])
      @ scan_journal K decode (fs\<lparr>legacy_file := None\<rparr>) from_seq leg"
    by blast
  have "read_segment_body K (Some content) = Some (SEG_KIND_LEGACY_JSONL, legacy)"
    using read_sealed_body [OF content c assms(3,8)] assms(9) lsb by blast
  then show ?thesis
    using scan scan_legacy_lines [OF assms(4,7)] assms(1)
    by (subst scan_journal_eq) simp
qed

lemma no_segments [simp]: "seg_files fs = [] \<Longrightarrow> journal_list_segments fs = []"
  by (simp add: journal_list_segments_headers)

theorem migrate_legacy_preserves_scan_witness:
  "\<exists>ops. migrate_legacy_wal null_codec
        \<lparr>seg_files = [], active_file = None, legacy_file = Some [65, 13, 10, 66]\<rparr> [65, 13, 10, 66] = Some ops
     \<and> scan_journal null_codec (\<lambda>l. if 65 \<in> set l then Some True else None)
          (exec_ops ops \<lparr>seg_files = [], active_file = None, legacy_file = Some [65, 13, 10, 66]\<rparr>) None True
       = scan_journal null_codec (\<lambda>l. if 65 \<in> set l then Some True else None)
          \<lparr>seg_files = [], active_file = None, legacy_file = Some [65, 13, 10, 66]\<rparr> None True"
proof -
  let ?fs = "\<lparr>seg_files = [], active_file = None, legacy_file = Some [65, 13, 10, 66]\<rparr>"
  let ?d = "\<lambda>l::bytes. if 65 \<in> set l then Some True else None"
  obtain ops where m: "migrate_legacy_wal null_codec ?fs [65, 13, 10, 66] = Some ops"
    by (simp add: migrate_legacy_wal_def legacy_segment_bytes_def null_codec_def Let_def)
  have d: "decode_laws ?d" by (simp add: decode_laws_def)
  have u: "list_all valid_utf8 (split_lines [65, 13, 10, 66])"
    by (simp add: valid_utf8.simps utf8_len_def in_range_def)
  have "\<forall>content. legacy_segment_bytes null_codec [65, 13, 10, 66] = Some content
      \<longrightarrow> length content \<le> MAX_JOURNAL_SEGMENT_FILE_BYTES"
    by (auto simp: legacy_segment_bytes_def null_codec_def segment_layout_def Let_def journal_consts)
  from migrate_legacy_preserves_scan [OF _ m null_codec_laws d _ _ u _ this, of None True] m
  show ?thesis by (simp add: MAX_JOURNAL_SEGMENT_BODY_BYTES_def)
qed

text \<open>C29: A legacy log larger than the reader's segment bound is lost by its own migration: segment 0
  is written, the log is removed, and every later scan reads what it would read without the log.\<close>

theorem migrate_oversized_legacy_is_lost:
  assumes "legacy_file fs = Some legacy" and "migrate_legacy_wal K fs legacy = Some ops"
    and "codec_laws K"
    and "map_of (seg_files fs) (seg_name (CHR ''J'') 0) = None"
    and "\<forall>s\<in>set (journal_list_segments fs). 0 < seg_min s"
    and "MAX_JOURNAL_SEGMENT_BODY_BYTES < length legacy" and "length legacy < 2 ^ 64"
  shows "legacy_file (exec_ops ops fs) = None
    \<and> scan_journal K decode (exec_ops ops fs) from_seq leg =
        scan_journal K decode (fs\<lparr>legacy_file := None\<rparr>) from_seq leg"
proof -
  from scan_migrated [OF assms(2-5)] obtain c content where
    content: "content = segment_layout K (segment_header SEG_KIND_LEGACY_JSONL CODEC_LZ4 0 0 0) c legacy"
    and c: "sealed K CODEC_LZ4 legacy c" and lsb: "legacy_segment_bytes K legacy = Some content"
    and scan: "scan_journal K decode (exec_ops ops fs) from_seq leg =
      (if leg then (case read_segment_body K (Some content) of None \<Rightarrow> []
         | Some kb \<Rightarrow> emit_lines decode (split_lines (snd kb))) else [])
      @ scan_journal K decode (fs\<lparr>legacy_file := None\<rparr>) from_seq leg"
    by blast
  from read_oversized_body [OF content c assms(3,6,7)] scan exec_migrate [OF assms(2) lsb]
  show ?thesis by simp
qed

theorem migrate_oversized_legacy_is_lost_witness:
  "\<exists>ops. migrate_legacy_wal null_codec
        \<lparr>seg_files = [], active_file = None, legacy_file = Some (replicate (128 * 1024 * 1024 + 1) 65)\<rparr>
        (replicate (128 * 1024 * 1024 + 1) 65) = Some ops
     \<and> scan_journal null_codec Some
         (exec_ops ops \<lparr>seg_files = [], active_file = None,
            legacy_file = Some (replicate (128 * 1024 * 1024 + 1) 65)\<rparr>) None True = []"
proof -
  let ?big = "replicate (128 * 1024 * 1024 + 1) (65 :: u8)"
  let ?fs = "\<lparr>seg_files = [], active_file = None, legacy_file = Some ?big\<rparr>"
  obtain ops where m: "migrate_legacy_wal null_codec ?fs ?big = Some ops"
    by (simp add: migrate_legacy_wal_def legacy_segment_bytes_def null_codec_def Let_def)
  have "scan_journal null_codec Some (?fs\<lparr>legacy_file := None\<rparr>) None True = []"
    by (simp only: scan_drop_legacy) (simp add: active_frames_def)
  with migrate_oversized_legacy_is_lost [OF _ m null_codec_laws, of Some None True] m show ?thesis
    by (simp add: MAX_JOURNAL_SEGMENT_BODY_BYTES_def)
qed

section \<open>Folding to a base segment\<close>

definition payload_frames :: "u64 \<Rightarrow> bytes \<Rightarrow> (u64 \<times> bytes) list" where
  "payload_frames frontier payload_lines =
     map (\<lambda>l. (frontier, l)) (filter (\<lambda>l. l \<noteq> []) (split_lines payload_lines))"

definition base_events ::
  "(bytes \<Rightarrow> 'ev option) \<Rightarrow> u64 \<Rightarrow> bytes \<Rightarrow> (u64 \<times> journal_event_origin \<times> 'ev) list" where
  "base_events decode frontier payload_lines =
     List.map_filter (keep_event decode Origin_Base (\<lambda>_. True)) (payload_frames frontier payload_lines)"

lemma fold_body_acc:
  "foldl (\<lambda>(body, count) line.
       if line = [] then (body, count) else (encode_frame K body q line, count + 1)) (b, n) ls
   = (b @ encode_frames K (map (\<lambda>l. (q, l)) (filter (\<lambda>l. l \<noteq> []) ls)),
      n + of_nat (length (filter (\<lambda>l. l \<noteq> []) ls)))"
proof (induction ls arbitrary: b n)
  case (Cons l ls)
  show ?case
    using Cons [of b n] Cons [of "encode_frame K b q l" "n + 1"] encode_frame_append [of K b q l]
    by (cases "l = []") (simp_all add: add.assoc)
qed simp

lemma fold_body_eq:
  "fold_body K pl q = (encode_frames K (payload_frames q pl), of_nat (length (payload_frames q pl)))"
  by (simp add: fold_body_def fold_body_acc payload_frames_def)

lemma exec_removes:
  "exec_ops (map (\<lambda>(p, _). Remove_Seg p) xs) g =
     g\<lparr>seg_files := filter (\<lambda>(q, _). q \<notin> fst ` set xs) (seg_files g)\<rparr>"
  by (induction xs arbitrary: g) (auto simp: case_prod_unfold conj_commute)

fun op_keeps :: "string \<Rightarrow> fs_op \<Rightarrow> bool" where
  "op_keeps p (Remove_Seg q) \<longleftrightarrow> q \<noteq> p"
| "op_keeps p (Set_Active bs) \<longleftrightarrow> True"
| "op_keeps p _ \<longleftrightarrow> False"

lemma exec_ops_keep:
  "list_all (op_keeps p) ops \<Longrightarrow> map_of (seg_files (exec_ops ops g)) p = map_of (seg_files g) p"
proof (induction ops arbitrary: g)
  case (Cons op ops)
  then have "map_of (seg_files (exec_op op g)) p = map_of (seg_files g) p"
    by (cases op) (auto simp: map_of_filter_key [where P = "\<lambda>q. q \<noteq> _"])
  with Cons show ?case by simp
qed simp

lemma segment_listed:
  assumes "map_of (seg_files g) p = Some content" and "is_gseg p"
    and "read_segment_header p (Some content) = Some info"
  shows "info \<in> set (journal_list_segments g)"
  using assms by (auto simp: journal_list_segments_headers in_headers dest: map_of_SomeD)

lemma fold_max_ge_start: "(m :: 'a::linorder) \<le> fold max ys m"
  by (induction ys arbitrary: m) (auto intro: order.trans [OF max.cobounded2])

lemma fold_max_ge: "(y :: 'a::linorder) \<in> set ys \<Longrightarrow> y \<le> fold max ys m"
  by (induction ys arbitrary: m) (auto intro: order.trans [OF max.cobounded1 fold_max_ge_start])

lemma horizon_ge:
  "s \<in> set (journal_list_segments g) \<Longrightarrow> seg_kind s = SEG_KIND_BASE \<Longrightarrow> seg_max s \<le> history_horizon g"
  unfolding history_horizon_def by (rule fold_max_ge) auto

text \<open>The fold's segment is readable and holds the payload.\<close>

definition fold_fits :: "codec_ops \<Rightarrow> bytes \<Rightarrow> u64 \<Rightarrow> bool" where
  "fold_fits K pl q \<longleftrightarrow>
     (let (body, count) = fold_body K pl q in
      length body \<le> MAX_JOURNAL_SEGMENT_BODY_BYTES
      \<and> list_all frame_ok (payload_frames q pl)
      \<and> (case segment_file_bytes K SEG_KIND_BASE CODEC_LZ4 q q count body of
           None \<Rightarrow> True | Some content \<Rightarrow> length content \<le> MAX_JOURNAL_SEGMENT_FILE_BYTES))"

lemma journal_fold_ops:
  assumes "journal_fold K fs stale rm_ok pl q nx = (ops, True)" and "codec_laws K"
  obtains content c where
    "ops = write_segment_ops (seg_name (CHR ''B'') q) content
       @ map (\<lambda>(p, _). Remove_Seg p)
           (filter (\<lambda>(p, _). p \<noteq> seg_name (CHR ''B'') q \<and> is_gseg p \<and> rm_ok p) (seg_files fs))
       @ journal_reset_active nx stale"
    and "segment_file_bytes K SEG_KIND_BASE CODEC_LZ4 q q
           (of_nat (length (payload_frames q pl))) (encode_frames K (payload_frames q pl)) = Some content"
    and "content = segment_layout K
           (segment_header SEG_KIND_BASE CODEC_LZ4 q q (of_nat (length (payload_frames q pl))))
           c (encode_frames K (payload_frames q pl))"
    and "sealed K CODEC_LZ4 (encode_frames K (payload_frames q pl)) c"
proof -
  from assms(1) obtain content where
    f: "segment_file_bytes K SEG_KIND_BASE CODEC_LZ4 q q
           (of_nat (length (payload_frames q pl))) (encode_frames K (payload_frames q pl)) = Some content"
    and ops: "ops = write_segment_ops (seg_name (CHR ''B'') q) content
       @ map (\<lambda>(p, _). Remove_Seg p)
           (filter (\<lambda>(p, _). p \<noteq> seg_name (CHR ''B'') q \<and> is_gseg p \<and> rm_ok p) (seg_files fs))
       @ journal_reset_active nx stale"
    by (auto simp: journal_fold_def fold_body_eq Let_def split: option.splits)
  from segment_file_bytes_SomeD [OF f assms(2)] that [OF ops f] show thesis by blast
qed

lemma base_segment_scan:
  assumes "map_of (seg_files g) p = Some content" and "is_gseg p" and "codec_laws K"
    and content: "content = segment_layout K (segment_header SEG_KIND_BASE CODEC_LZ4 q q n) c
      (encode_frames K (payload_frames q pl))"
    and "sealed K CODEC_LZ4 (encode_frames K (payload_frames q pl)) c"
    and "length (encode_frames K (payload_frames q pl)) \<le> MAX_JOURNAL_SEGMENT_BODY_BYTES"
    and "length content \<le> MAX_JOURNAL_SEGMENT_FILE_BYTES"
    and ok: "list_all frame_ok (payload_frames q pl)"
  shows "scan_segment K decode g None leg
      \<lparr>seg_path = p, seg_kind = SEG_KIND_BASE, seg_min = q, seg_max = q\<rparr> = base_events decode q pl"
proof -
  note body = read_sealed_body [OF content assms(5,3,6,7)]
  have parse: "parse_frames K (encode_frames K (payload_frames q pl)) = payload_frames q pl"
    using parse_frames_encode [OF ok, of K "[]"] by simp
  have all: "after_cursor None = (\<lambda>_. True)"
    by (simp add: after_cursor_def fun_eq_iff)
  show ?thesis
    by (simp add: scan_segment_def assms(1) body emit_frames_parse parse base_events_def all SEG_KIND_BASE_def SEG_KIND_LEGACY_JSONL_def)
qed

lemma take_fold_ops:
  "2 \<le> n \<Longrightarrow> exec_ops (take n (write_segment_ops p c @ rest)) fs =
     exec_ops (take (n - 2) rest) (install p c fs)"
proof -
  assume "2 \<le> n"
  then have "take n (write_segment_ops p c @ rest) = write_segment_ops p c @ take (n - 2) rest"
    by (simp add: write_segment_ops_def take_Cons' numeral_2_eq_2)
  then show ?thesis by (simp only: exec_ops_simps exec_write_segment)
qed

lemma scan_segments_cong:
  assumes "journal_list_segments g = journal_list_segments h"
    and "\<And>s. s \<in> set (journal_list_segments h) \<Longrightarrow>
      map_of (seg_files g) (seg_path s) = map_of (seg_files h) (seg_path s)"
    and "active_file g = active_file h" and "legacy_file g = legacy_file h"
  shows "scan_journal K decode g from_seq leg = scan_journal K decode h from_seq leg"
proof -
  have hor: "history_horizon g = history_horizon h" by (simp add: history_horizon_def assms(1))
  have seg: "map (scan_segment K decode g from_seq leg) (journal_list_segments h)
      = map (scan_segment K decode h from_seq leg) (journal_list_segments h)"
    using assms(2) by (intro map_cong refl scan_segment_cong) auto
  show ?thesis unfolding scan_journal_def hor assms(1,3,4) seg ..
qed

lemma scan_create_tmp:
  assumes "p \<noteq> []"
  shows "scan_journal K decode (exec_op (Create_Seg (tmp_name p) c) fs) from_seq leg
    = scan_journal K decode fs from_seq leg"
proof (rule scan_segments_cong)
  let ?g = "exec_op (Create_Seg (tmp_name p) c) fs"
  show "journal_list_segments ?g = journal_list_segments fs"
    using headers_drop_tmp [OF assms, of "\<lambda>_. True"] assms
    by (simp add: journal_list_segments_headers) (simp add: headers_def)
  fix s assume "s \<in> set (journal_list_segments fs)"
  then have "seg_path s \<noteq> tmp_name p" using segment_path_in assms by force
  then show "map_of (seg_files ?g) (seg_path s) = map_of (seg_files fs) (seg_path s)"
    by (simp add: map_add_def map_of_filter_key split: option.split)
qed simp_all

lemma scan_before_rename:
  "n < 2 \<Longrightarrow> p \<noteq> [] \<Longrightarrow>
     scan_journal K decode (exec_ops (take n (write_segment_ops p c @ rest)) fs) from_seq leg
   = scan_journal K decode fs from_seq leg"
proof -
  assume "n < 2" and p: "p \<noteq> []"
  then consider "n = 0" | "n = 1" by linarith
  then show ?thesis
    using scan_create_tmp [OF p] by cases (simp_all add: write_segment_ops_def)
qed

lemma fold_rest_keeps:
  "list_all (op_keeps p) (take k
     (map (\<lambda>(r, _). Remove_Seg r) (filter (\<lambda>(r, _). r \<noteq> p \<and> is_gseg r \<and> rm_ok r) xs)
      @ journal_reset_active nx stale))"
  by (auto simp: list_all_iff journal_reset_active_def dest!: in_set_takeD)

lemma fold_after_rename:
  assumes "journal_fold K fs stale rm_ok pl q nx = (ops, True)" and "codec_laws K" and n: "2 \<le> n"
  obtains content c where
    "segment_file_bytes K SEG_KIND_BASE CODEC_LZ4 q q
       (of_nat (length (payload_frames q pl))) (encode_frames K (payload_frames q pl)) = Some content"
    and "content = segment_layout K
           (segment_header SEG_KIND_BASE CODEC_LZ4 q q (of_nat (length (payload_frames q pl))))
           c (encode_frames K (payload_frames q pl))"
    and "sealed K CODEC_LZ4 (encode_frames K (payload_frames q pl)) c"
    and "map_of (seg_files (exec_ops (take n ops) fs)) (seg_name (CHR ''B'') q) = Some content"
    and "\<lparr>seg_path = seg_name (CHR ''B'') q, seg_kind = SEG_KIND_BASE, seg_min = q, seg_max = q\<rparr>
           \<in> set (journal_list_segments (exec_ops (take n ops) fs))"
    and "q \<le> history_horizon (exec_ops (take n ops) fs)"
proof -
  let ?p = "seg_name (CHR ''B'') q" and ?g = "exec_ops (take n ops) fs"
  let ?info = "\<lparr>seg_path = ?p, seg_kind = SEG_KIND_BASE, seg_min = q, seg_max = q\<rparr>"
  from journal_fold_ops [OF assms(1,2)] obtain content c where
    ops: "ops = write_segment_ops ?p content
       @ map (\<lambda>(p, _). Remove_Seg p)
           (filter (\<lambda>(p, _). p \<noteq> ?p \<and> is_gseg p \<and> rm_ok p) (seg_files fs))
       @ journal_reset_active nx stale"
    and sfb: "segment_file_bytes K SEG_KIND_BASE CODEC_LZ4 q q
           (of_nat (length (payload_frames q pl))) (encode_frames K (payload_frames q pl)) = Some content"
    and content: "content = segment_layout K
           (segment_header SEG_KIND_BASE CODEC_LZ4 q q (of_nat (length (payload_frames q pl))))
           c (encode_frames K (payload_frames q pl))"
    and c: "sealed K CODEC_LZ4 (encode_frames K (payload_frames q pl)) c" by blast
  have at: "map_of (seg_files ?g) ?p = Some content"
    unfolding ops take_fold_ops [OF n] exec_ops_keep [OF fold_rest_keeps] by (simp add: map_of_install)
  have listed: "?info \<in> set (journal_list_segments ?g)"
    by (rule segment_listed [OF at is_gseg_seg_name read_sealed_header [OF content]])
  have "q \<le> history_horizon ?g" using horizon_ge [OF listed] by simp
  then show thesis by (rule that [OF sfb content c at listed])
qed

text \<open>C4: A fold that crashes after any number of its file operations leaves a journal recovery can
  use: up to the rename the scan is unchanged, and from the rename on the scan delivers every folded
  event as a base event and the horizon has reached the frontier.\<close>

theorem journal_fold_crash_safe:
  assumes "journal_fold K fs stale rm_ok pl q nx = (ops, True)" and "codec_laws K"
    and "fold_fits K pl q"
  shows "(n < 2 \<longrightarrow> scan_journal K decode (exec_ops (take n ops) fs) from_seq leg
            = scan_journal K decode fs from_seq leg)
    \<and> (2 \<le> n \<longrightarrow> set (base_events decode q pl)
            \<subseteq> set (scan_journal K decode (exec_ops (take n ops) fs) None leg)
          \<and> q \<le> history_horizon (exec_ops (take n ops) fs))"
proof (intro conjI impI)
  let ?p = "seg_name (CHR ''B'') q" and ?g = "exec_ops (take n ops) fs"
  show "scan_journal K decode ?g from_seq leg = scan_journal K decode fs from_seq leg" if "n < 2"
  proof (rule journal_fold_ops [OF assms(1,2)])
    fix content c assume "ops = write_segment_ops ?p content
       @ map (\<lambda>(p, _). Remove_Seg p)
           (filter (\<lambda>(p, _). p \<noteq> ?p \<and> is_gseg p \<and> rm_ok p) (seg_files fs))
       @ journal_reset_active nx stale"
    then show ?thesis by (simp only: scan_before_rename [OF that seg_name_nonempty])
  qed
  assume n: "2 \<le> n"
  from fold_after_rename [OF assms(1,2) n] obtain content c where
    sfb: "segment_file_bytes K SEG_KIND_BASE CODEC_LZ4 q q
           (of_nat (length (payload_frames q pl))) (encode_frames K (payload_frames q pl)) = Some content"
    and content: "content = segment_layout K
           (segment_header SEG_KIND_BASE CODEC_LZ4 q q (of_nat (length (payload_frames q pl))))
           c (encode_frames K (payload_frames q pl))"
    and c: "sealed K CODEC_LZ4 (encode_frames K (payload_frames q pl)) c"
    and at: "map_of (seg_files ?g) ?p = Some content"
    and listed: "\<lparr>seg_path = ?p, seg_kind = SEG_KIND_BASE, seg_min = q, seg_max = q\<rparr>
           \<in> set (journal_list_segments ?g)"
    and hor: "q \<le> history_horizon ?g" by blast
  from hor show "q \<le> history_horizon ?g" .
  from assms(3) sfb have fits: "length (encode_frames K (payload_frames q pl)) \<le> MAX_JOURNAL_SEGMENT_BODY_BYTES"
    "length content \<le> MAX_JOURNAL_SEGMENT_FILE_BYTES" "list_all frame_ok (payload_frames q pl)"
    by (simp_all add: fold_fits_def fold_body_eq)
  show "set (base_events decode q pl) \<subseteq> set (scan_journal K decode ?g None leg)"
    using listed base_segment_scan [OF at is_gseg_seg_name assms(2) content c fits, of decode leg]
    by (force simp: scan_journal_def)
qed

theorem journal_fold_crash_safe_witness:
  "\<exists>ops. journal_fold null_codec \<lparr>seg_files = [], active_file = None, legacy_file = None\<rparr> []
        (\<lambda>_. True) [65, 10, 66] 5 6 = (ops, True)
     \<and> {(5, Origin_Base, [65]), (5, Origin_Base, [66])} \<subseteq>
          set (scan_journal null_codec Some (exec_ops (take 3 ops)
            \<lparr>seg_files = [], active_file = None, legacy_file = None\<rparr>) None True)"
proof -
  let ?fs = "\<lparr>seg_files = [], active_file = None, legacy_file = None\<rparr>"
  obtain ops where f: "journal_fold null_codec ?fs [] (\<lambda>_. True) [65, 10, 66] 5 6 = (ops, True)"
    by (simp add: journal_fold_def fold_body_def segment_file_bytes_def lz4_frame_compress_def
        null_codec_def)
  have "fold_fits null_codec [65, 10, 66] 5"
    by (simp add: fold_fits_def fold_body_eq payload_frames_def frame_ok_def segment_file_bytes_def
        segment_layout_def lz4_frame_compress_def null_codec_def journal_consts Let_def)
  from journal_fold_crash_safe [OF f null_codec_laws this, of 3 Some None True] f show ?thesis
    by (simp add: base_events_def payload_frames_def keep_event_def)
qed

text \<open>The state a completed fold leaves when every removal succeeded and the writer's buffer was
  empty: the base segment is the only one.\<close>

lemma headers_gseg: "headers xs = headers (filter (\<lambda>(q, _). is_gseg q) xs)"
  unfolding headers_def by (rule map_filter_absorb [symmetric]) auto

lemma fold_complete_fs:
  assumes "ops = write_segment_ops p content
       @ map (\<lambda>(r, _). Remove_Seg r) (filter (\<lambda>(r, _). r \<noteq> p \<and> is_gseg r) (seg_files fs))
       @ journal_reset_active nx []"
    and "is_gseg p" and "read_segment_header p (Some content) = Some info"
  shows "journal_list_segments (exec_ops ops fs) = [info]"
    and "map_of (seg_files (exec_ops ops fs)) p = Some content"
    and "active_file (exec_ops ops fs) = Some (active_header nx)"
    and "legacy_file (exec_ops ops fs) = legacy_file fs"
proof -
  let ?g = "exec_ops ops fs"
  let ?rm = "fst ` set (filter (\<lambda>(r, _). r \<noteq> p \<and> is_gseg r) (seg_files fs))"
  have g: "?g = install p content fs\<lparr>seg_files := filter (\<lambda>(q, _). q \<notin> ?rm)
      (seg_files (install p content fs)), active_file := Some (active_header nx)\<rparr>"
    unfolding assms(1) exec_ops_simps exec_write_segment exec_removes by (simp add: journal_reset_active_def)
  then show "active_file ?g = Some (active_header nx)" "legacy_file ?g = legacy_file fs" by simp_all
  have none: "filter (\<lambda>(q, _). is_gseg q) (filter (\<lambda>(q, _). q \<notin> ?rm)
      (filter (\<lambda>(q, _). q \<noteq> tmp_name p \<and> q \<noteq> p) (seg_files fs))) = []"
    by (force simp: filter_empty_conv image_iff)
  have files: "seg_files ?g = filter (\<lambda>(q, _). q \<notin> ?rm)
      (filter (\<lambda>(q, _). q \<noteq> tmp_name p \<and> q \<noteq> p) (seg_files fs)) @ [(p, content)]"
    unfolding g by (auto simp: install_def)
  show "journal_list_segments ?g = [info]"
    unfolding journal_list_segments_headers files headers_append
    using assms(2,3) by (subst headers_gseg, subst none) (simp add: headers_def)
  have "map_of (filter (\<lambda>(q, _). q \<notin> ?rm)
      (filter (\<lambda>(q, _). q \<noteq> tmp_name p \<and> q \<noteq> p) (seg_files fs))) p = None"
    by (auto simp: map_of_eq_None_iff)
  then show "map_of (seg_files ?g) p = Some content" unfolding files by (simp add: map_add_def)
qed

lemma fold_complete:
  assumes "journal_fold K fs [] (\<lambda>_. True) pl q nx = (ops, True)" and "codec_laws K"
  obtains content c where
    "segment_file_bytes K SEG_KIND_BASE CODEC_LZ4 q q
       (of_nat (length (payload_frames q pl))) (encode_frames K (payload_frames q pl)) = Some content"
    and "content = segment_layout K
           (segment_header SEG_KIND_BASE CODEC_LZ4 q q (of_nat (length (payload_frames q pl))))
           c (encode_frames K (payload_frames q pl))"
    and "sealed K CODEC_LZ4 (encode_frames K (payload_frames q pl)) c"
    and "map_of (seg_files (exec_ops ops fs)) (seg_name (CHR ''B'') q) = Some content"
    and "scan_journal K decode (exec_ops ops fs) from_seq leg =
      (if leg then scan_legacy decode (legacy_file fs) else [])
      @ scan_segment K decode (exec_ops ops fs) from_seq leg \<lparr>seg_path = seg_name (CHR ''B'') q,
          seg_kind = SEG_KIND_BASE, seg_min = q, seg_max = q\<rparr>"
proof -
  let ?p = "seg_name (CHR ''B'') q"
  from journal_fold_ops [OF assms] obtain content c where
    "ops = write_segment_ops ?p content
       @ map (\<lambda>(p, _). Remove_Seg p) (filter (\<lambda>(p, _). p \<noteq> ?p \<and> is_gseg p \<and> True) (seg_files fs))
       @ journal_reset_active nx []"
    and sfb: "segment_file_bytes K SEG_KIND_BASE CODEC_LZ4 q q
       (of_nat (length (payload_frames q pl))) (encode_frames K (payload_frames q pl)) = Some content"
    and content: "content = segment_layout K
           (segment_header SEG_KIND_BASE CODEC_LZ4 q q (of_nat (length (payload_frames q pl))))
           c (encode_frames K (payload_frames q pl))"
    and c: "sealed K CODEC_LZ4 (encode_frames K (payload_frames q pl)) c" by blast
  note ops = this(1) [unfolded simp_thms]
  note st = fold_complete_fs [OF ops is_gseg_seg_name read_sealed_header [OF content]]
  show thesis
    by (rule that [OF sfb content c st(2)])
       (simp add: scan_journal_def scan_active st active_frames_header [of "[]", simplified])
qed

text \<open>C30: A completed fold is acknowledged even when its body exceeds what the segment reader accepts;
  then the older segments and the active frames are gone, the base segment is unreadable, and
  recovery reads nothing but what is left of a legacy log.\<close>

theorem oversized_fold_loses_the_journal:
  assumes "journal_fold K fs [] (\<lambda>_. True) pl q nx = (ops, True)" and "codec_laws K"
    and "MAX_JOURNAL_SEGMENT_BODY_BYTES < length (fst (fold_body K pl q))"
    and "length (fst (fold_body K pl q)) < 2 ^ 64" and "legacy_file fs = None"
  shows "scan_journal K decode (exec_ops ops fs) from_seq leg = []"
proof -
  from fold_complete [OF assms(1,2)] obtain content c where
    content: "content = segment_layout K
           (segment_header SEG_KIND_BASE CODEC_LZ4 q q (of_nat (length (payload_frames q pl))))
           c (encode_frames K (payload_frames q pl))"
    and c: "sealed K CODEC_LZ4 (encode_frames K (payload_frames q pl)) c"
    and at: "map_of (seg_files (exec_ops ops fs)) (seg_name (CHR ''B'') q) = Some content"
    and scan: "scan_journal K decode (exec_ops ops fs) from_seq leg =
      (if leg then scan_legacy decode (legacy_file fs) else [])
      @ scan_segment K decode (exec_ops ops fs) from_seq leg \<lparr>seg_path = seg_name (CHR ''B'') q,
          seg_kind = SEG_KIND_BASE, seg_min = q, seg_max = q\<rparr>" by blast
  have "read_segment_body K (Some content) = None"
    using assms(3,4) by (intro read_oversized_body [OF content c assms(2)]) (simp_all add: fold_body_eq)
  with assms(5) show ?thesis by (simp add: scan scan_segment_def at scan_legacy_def)
qed

text \<open>C19: A completed fold leaves exactly the folded live state: the scan delivers the events of
  the payload in order, as base events at the frontier, and nothing else.\<close>

theorem journal_fold_complete:
  assumes "journal_fold K fs [] (\<lambda>_. True) pl q nx = (ops, True)" and "codec_laws K"
    and "fold_fits K pl q" and "legacy_file fs = None"
  shows "scan_journal K decode (exec_ops ops fs) None leg = base_events decode q pl"
proof -
  from fold_complete [OF assms(1,2)] obtain content c where
    sfb: "segment_file_bytes K SEG_KIND_BASE CODEC_LZ4 q q
           (of_nat (length (payload_frames q pl))) (encode_frames K (payload_frames q pl)) = Some content"
    and content: "content = segment_layout K
           (segment_header SEG_KIND_BASE CODEC_LZ4 q q (of_nat (length (payload_frames q pl))))
           c (encode_frames K (payload_frames q pl))"
    and c: "sealed K CODEC_LZ4 (encode_frames K (payload_frames q pl)) c"
    and at: "map_of (seg_files (exec_ops ops fs)) (seg_name (CHR ''B'') q) = Some content"
    and scan: "scan_journal K decode (exec_ops ops fs) None leg =
      (if leg then scan_legacy decode (legacy_file fs) else [])
      @ scan_segment K decode (exec_ops ops fs) None leg \<lparr>seg_path = seg_name (CHR ''B'') q,
          seg_kind = SEG_KIND_BASE, seg_min = q, seg_max = q\<rparr>" by blast
  from assms(3) sfb have fits: "length (encode_frames K (payload_frames q pl)) \<le> MAX_JOURNAL_SEGMENT_BODY_BYTES"
    "length content \<le> MAX_JOURNAL_SEGMENT_FILE_BYTES" "list_all frame_ok (payload_frames q pl)"
    by (simp_all add: fold_fits_def fold_body_eq)
  show ?thesis
    unfolding scan base_segment_scan [OF at is_gseg_seg_name assms(2) content c fits]
    using assms(4) by (simp add: scan_legacy_def)
qed

theorem journal_fold_complete_witness:
  "\<exists>ops. journal_fold null_codec \<lparr>seg_files = [], active_file = None, legacy_file = None\<rparr> []
        (\<lambda>_. True) [65, 10, 66] 5 6 = (ops, True)
     \<and> scan_journal null_codec Some (exec_ops ops
          \<lparr>seg_files = [], active_file = None, legacy_file = None\<rparr>) None True
        = [(5, Origin_Base, [65]), (5, Origin_Base, [66])]"
proof -
  let ?fs = "\<lparr>seg_files = [], active_file = None, legacy_file = None\<rparr>"
  obtain ops where f: "journal_fold null_codec ?fs [] (\<lambda>_. True) [65, 10, 66] 5 6 = (ops, True)"
    by (simp add: journal_fold_def fold_body_def segment_file_bytes_def lz4_frame_compress_def
        null_codec_def)
  have "fold_fits null_codec [65, 10, 66] 5"
    by (simp add: fold_fits_def fold_body_eq payload_frames_def frame_ok_def segment_file_bytes_def
        segment_layout_def lz4_frame_compress_def null_codec_def journal_consts Let_def)
  from journal_fold_complete [OF f null_codec_laws this, of Some True] f show ?thesis
    by (simp add: base_events_def payload_frames_def keep_event_def)
qed

lemma split_lines_replicate: "b \<noteq> 10 \<Longrightarrow> split_lines (replicate n b) = [replicate n b]"
  by (induction n) auto

theorem oversized_fold_loses_the_journal_witness:
  "\<exists>ops. journal_fold null_codec \<lparr>seg_files = [], active_file = None, legacy_file = None\<rparr> []
        (\<lambda>_. True) (replicate (128 * 1024 * 1024) 65) 5 6 = (ops, True)
     \<and> scan_journal null_codec Some (exec_ops ops
          \<lparr>seg_files = [], active_file = None, legacy_file = None\<rparr>) None True = []"
proof -
  let ?fs = "\<lparr>seg_files = [], active_file = None, legacy_file = None\<rparr>"
  let ?big = "replicate (128 * 1024 * 1024) (65 :: u8)"
  obtain ops where f: "journal_fold null_codec ?fs [] (\<lambda>_. True) ?big 5 6 = (ops, True)"
    by (simp add: journal_fold_def segment_file_bytes_def lz4_frame_compress_def
        null_codec_def case_prod_unfold)
  have "length (fst (fold_body null_codec ?big 5)) = 16 + 128 * 1024 * 1024"
    unfolding fold_body_eq payload_frames_def
    by (subst split_lines_replicate) (simp_all add: FRAME_HEADER_LEN_def)
  with oversized_fold_loses_the_journal [OF f null_codec_laws, of Some None True] f show ?thesis
    by (simp add: MAX_JOURNAL_SEGMENT_BODY_BYTES_def)
qed

section \<open>Sequence numbers\<close>

lemma fold_if_max:
  "fold (\<lambda>p m. if m < fst p then fst p else m) frs (m :: u64) = fold max (map fst frs) m"
proof (induction frs arbitrary: m)
  case (Cons fr frs)
  have "(if m < fst fr then fst fr else m) = max (fst fr) m" by (auto simp: max_def)
  then show ?case using Cons by simp
qed simp

lemma journal_max_seq_eq:
  "journal_max_seq K fs = fold max (map fst (active_frames K (active_file fs)))
     (fold max (map seg_max (journal_list_segments fs)) 0)"
proof (cases "active_file fs")
  case (Some bs)
  then show ?thesis
    using walk_frames_parse [of ACTIVE_HEADER_LEN bs K "\<lambda>seq _ m. if seq > m then seq else m"]
    by (simp add: journal_max_seq_def active_frames_def active_ok_def case_prod_unfold fold_if_max Let_def)
qed (simp add: journal_max_seq_def active_frames_def)

text \<open>C27: The first sequence number a writer hands out after an open is above every sequence number
  that a segment header or a valid active frame carries, as long as the counter is not exhausted.\<close>

theorem initial_next_seq_is_fresh:
  assumes "journal_max_seq K fs \<noteq> - 1"
  shows "(\<forall>s\<in>set (journal_list_segments fs). seg_max s < initial_next_seq K fs)
    \<and> (\<forall>fr\<in>set (active_frames K (active_file fs)). fst fr < initial_next_seq K fs)"
proof -
  have "unat (journal_max_seq K fs) \<noteq> 2 ^ 64 - 1"
    using assms by (auto simp: word_unat_eq_iff unsigned_minus_1_eq_mask mask_eq_exp_minus_1)
  then have "unat (journal_max_seq K fs) + 1 < 2 ^ 64"
    using unat_less_exp [of "journal_max_seq K fs"] by simp
  then have "unat (initial_next_seq K fs) = unat (journal_max_seq K fs) + 1"
    using unat_add_no_wrap [of "journal_max_seq K fs" 1] by (simp add: initial_next_seq_def)
  then have lt: "q \<le> journal_max_seq K fs \<Longrightarrow> q < initial_next_seq K fs" for q
    by (simp add: word_less_nat_alt word_le_nat_alt)
  show ?thesis
  proof (intro conjI ballI lt)
    fix s assume "s \<in> set (journal_list_segments fs)"
    then have "seg_max s \<le> fold max (map seg_max (journal_list_segments fs)) 0"
      by (intro fold_max_ge) simp
    then show "seg_max s \<le> journal_max_seq K fs"
      unfolding journal_max_seq_eq by (rule order.trans [OF _ fold_max_ge_start])
  next
    fix fr assume "fr \<in> set (active_frames K (active_file fs))"
    then show "fst fr \<le> journal_max_seq K fs" unfolding journal_max_seq_eq by (intro fold_max_ge) simp
  qed
qed

theorem initial_next_seq_is_fresh_witness:
  "7 < initial_next_seq null_codec \<lparr>seg_files = [],
     active_file = Some (active_header 1 @ encode_frames null_codec [(7, [1])]), legacy_file = None\<rparr>"
proof -
  let ?fs = "\<lparr>seg_files = [], active_file = Some (active_header 1 @ encode_frames null_codec [(7, [1])]),
    legacy_file = None\<rparr>"
  have "list_all frame_ok [(7, [1])]" by (simp add: frame_ok_def MAX_JOURNAL_FRAME_PAYLOAD_BYTES_def)
  note fr = active_frames_header [OF this, of null_codec 1]
  have "journal_max_seq null_codec ?fs = 7"
    using fr by (simp add: journal_max_seq_eq del: active_frames_header)
  then show ?thesis using initial_next_seq_is_fresh [of null_codec ?fs] fr by simp
qed

end
