(* ===== verification/GB_Journal_Writer.thy ===== *)
theory GB_Journal_Writer
  imports GB_Journal_Rotation
begin

text \<open>
  The journal writer thread (\<open>src/src/lib.rs\<close>, the closure spawned by \<open>open\<close>): group commit of
  appends, the poisoned state, and the checkpoints it executes. The buffered file writer is modelled
  with its buffer: every write and flush has an outcome that says whether it succeeded and how many
  of the pending bytes reached the file. A message carries the signed event; \<open>ser\<close> is its
  serializer, and an acknowledgement is the event with the sequence number or \<open>None\<close>.
\<close>

section \<open>The buffered writer\<close>

record wal_writer =
  w_fs :: journal_fs
  w_buf :: bytes
  w_next :: u64
  w_poisoned :: bool

type_synonym io = "bool \<times> nat"

definition disk :: "wal_writer \<Rightarrow> bytes" where
  "disk w = (case active_file (w_fs w) of None \<Rightarrow> [] | Some bs \<Rightarrow> bs)"

definition set_disk :: "bytes \<Rightarrow> wal_writer \<Rightarrow> wal_writer" where
  "set_disk bs w = w\<lparr>w_fs := (w_fs w)\<lparr>active_file := Some bs\<rparr>\<rparr>"

text \<open>\<open>BufWriter::write_all\<close>: the bytes queue up behind the buffer; some of them reach the file.
  After a failure the buffer keeps what it held and did not write.\<close>

definition write_all :: "io \<Rightarrow> bytes \<Rightarrow> wal_writer \<Rightarrow> bool \<times> wal_writer" where
  "write_all outcome bs w =
     (case outcome of (ok, k) \<Rightarrow>
        (ok, (set_disk (disk w @ take k (w_buf w @ bs)) w)
               \<lparr>w_buf := drop k (if ok then w_buf w @ bs else w_buf w)\<rparr>))"

definition flush :: "io \<Rightarrow> wal_writer \<Rightarrow> bool \<times> wal_writer" where
  "flush outcome w =
     (case outcome of (ok, k) \<Rightarrow>
        let n = (if ok then length (w_buf w) else k) in
        (ok, (set_disk (disk w @ take n (w_buf w)) w)\<lparr>w_buf := drop n (w_buf w)\<rparr>))"

section \<open>Group commit\<close>

datatype 'ev wal_msg = Append 'ev | Checkpoint bytes u64

type_synonym 'ev acks = "('ev \<times> u64 option) list"
type_synonym 'ev batch_state = "wal_writer \<times> bool \<times> ('ev \<times> u64) list \<times> 'ev acks"

text \<open>One event of a batch. \<open>io n\<close> is the outcome of the write of the \<open>n\<close>-th frame.\<close>

definition append_event ::
  "codec_ops \<Rightarrow> ('ev \<Rightarrow> bytes option) \<Rightarrow> (nat \<Rightarrow> io) \<Rightarrow> 'ev \<Rightarrow> 'ev batch_state \<Rightarrow> 'ev batch_state" where
  "append_event K ser io ev st =
     (case st of (w, io_ok, batch, acks) \<Rightarrow>
        if \<not> io_ok then (w, io_ok, batch, acks @ [(ev, None)])
        else case ser ev of
          None \<Rightarrow> (w, io_ok, batch, acks @ [(ev, None)])
        | Some json \<Rightarrow>
            let seq = w_next w in
            case write_all (io (length batch)) (encode_frame K [] seq json) (w\<lparr>w_next := seq + 1\<rparr>) of
              (ok, w') \<Rightarrow> (w', ok, batch @ [(ev, seq)], acks))"

text \<open>The micro-batch loop; \<open>turns\<close> is how many turns the clock allows.\<close>

fun drain ::
  "codec_ops \<Rightarrow> ('ev \<Rightarrow> bytes option) \<Rightarrow> (nat \<Rightarrow> io) \<Rightarrow> nat \<Rightarrow> 'ev wal_msg list \<Rightarrow> 'ev batch_state
     \<Rightarrow> 'ev batch_state \<times> (bytes \<times> u64) option \<times> 'ev wal_msg list" where
  "drain K ser io 0 q st = (st, None, q)"
| "drain K ser io (Suc turns) q st =
     (if 1024 \<le> length (fst (snd (snd st))) then (st, None, q)
      else case q of
        [] \<Rightarrow> (st, None, [])
      | Append ev # q' \<Rightarrow> drain K ser io turns q' (append_event K ser io ev st)
      | Checkpoint lines frontier # q' \<Rightarrow> (st, Some (lines, frontier), q'))"

definition commit_batch :: "io \<Rightarrow> bool \<Rightarrow> 'ev batch_state \<Rightarrow> wal_writer \<times> 'ev acks" where
  "commit_batch flush_io sync_ok st =
     (case st of (w, io_ok, batch, acks) \<Rightarrow>
        case (if io_ok then flush flush_io w else (False, w)) of
          (flushed, w1) \<Rightarrow>
            let ok = io_ok \<and> flushed \<and> sync_ok;
                w2 = (if \<not> ok \<and> batch \<noteq> [] then w1\<lparr>w_poisoned := True\<rparr> else w1)
            in (w2, acks @ map (\<lambda>(ev, seq). (ev, if ok then Some seq else None)) batch))"

section \<open>Rotation\<close>

text \<open>Outcomes inside a seal or fold: the flush in front, how much of a left-over buffer the dropped
  writer still flushes, which removals succeed, how many file operations were done, the last sync.\<close>

record rot_io =
  rot_flush :: io
  rot_stale :: nat
  rot_rm :: "string \<Rightarrow> bool"
  rot_steps :: nat
  rot_sync :: bool

definition rotate :: "rot_io \<Rightarrow> fs_op list \<Rightarrow> wal_writer \<Rightarrow> wal_writer" where
  "rotate r ops w =
     w\<lparr>w_fs := exec_ops (take (rot_steps r) ops) (w_fs w),
       w_buf := (if length ops < rot_steps r + 3 \<and> ops \<noteq> [] then [] else w_buf w)\<rparr>"

definition fold_turn ::
  "codec_ops \<Rightarrow> rot_io \<Rightarrow> bytes \<Rightarrow> u64 \<Rightarrow> wal_writer \<Rightarrow> wal_writer \<times> bool" where
  "fold_turn K r payload_lines frontier w =
     (let w1 = snd (flush (rot_flush r) w) in
      case journal_fold K (w_fs w1) (take (rot_stale r) (w_buf w1)) (rot_rm r) payload_lines frontier
             (w_next w1) of
        (ops, made) \<Rightarrow>
          let ok = made \<and> length ops \<le> rot_steps r \<and> rot_sync r;
              w2 = rotate r ops w1
          in (if ok then w2\<lparr>w_poisoned := False\<rparr> else w2, ok))"

definition seal_turn :: "codec_ops \<Rightarrow> rot_io \<Rightarrow> wal_writer \<Rightarrow> wal_writer" where
  "seal_turn K r w =
     (let w1 = snd (flush (rot_flush r) w) in
      rotate r (fst (journal_seal_active K (w_fs w1) (take (rot_stale r) (w_buf w1)) (w_next w1))) w1)"

text \<open>One turn of the receive loop: an append with its micro-batch, or a checkpoint.\<close>

definition batch_turn ::
  "codec_ops \<Rightarrow> ('ev \<Rightarrow> bytes option) \<Rightarrow> (nat \<Rightarrow> io) \<Rightarrow> nat \<Rightarrow> io \<Rightarrow> bool \<Rightarrow> 'ev \<Rightarrow> 'ev wal_msg list
     \<Rightarrow> wal_writer \<Rightarrow> wal_writer \<times> 'ev acks \<times> (bytes \<times> u64) option \<times> 'ev wal_msg list" where
  "batch_turn K ser io turns flush_io sync_ok ev q w =
     (case drain K ser io turns q (append_event K ser io ev (w, \<not> w_poisoned w, [], [])) of
        (st, pending, q') \<Rightarrow>
          case commit_batch flush_io sync_ok st of (w1, acks) \<Rightarrow> (w1, acks, pending, q'))"

definition append_turn ::
  "codec_ops \<Rightarrow> ('ev \<Rightarrow> bytes option) \<Rightarrow> nat \<Rightarrow> (nat \<Rightarrow> io) \<Rightarrow> nat \<Rightarrow> io \<Rightarrow> bool \<Rightarrow> rot_io \<Rightarrow> 'ev
     \<Rightarrow> 'ev wal_msg list \<Rightarrow> wal_writer \<Rightarrow> wal_writer \<times> 'ev acks \<times> bool option \<times> 'ev wal_msg list" where
  "append_turn K ser seal_threshold io turns flush_io sync_ok r ev q w =
     (case batch_turn K ser io turns flush_io sync_ok ev q w of
        (w1, acks, Some (lines, frontier), q') \<Rightarrow>
          (case fold_turn K r lines frontier w1 of (w2, ok) \<Rightarrow> (w2, acks, Some ok, q'))
      | (w1, acks, None, q') \<Rightarrow>
          (if length (disk w1) > seal_threshold then seal_turn K r w1 else w1, acks, None, q'))"

section \<open>The byte stream of a batch\<close>

lemma disk_set_disk [simp]: "disk (set_disk bs w) = bs"
  by (simp add: disk_def set_disk_def)

lemma disk_frame [simp]:
  "disk (w\<lparr>w_buf := b\<rparr>) = disk w" "disk (w\<lparr>w_next := n\<rparr>) = disk w" "disk (w\<lparr>w_poisoned := x\<rparr>) = disk w"
  by (simp_all add: disk_def)

lemma set_disk_frame [simp]:
  "w_buf (set_disk bs w) = w_buf w" "w_next (set_disk bs w) = w_next w"
  "w_poisoned (set_disk bs w) = w_poisoned w" "active_file (w_fs (set_disk bs w)) = Some bs"
  by (simp_all add: set_disk_def)

definition batch_frames :: "('ev \<Rightarrow> bytes option) \<Rightarrow> ('ev \<times> u64) list \<Rightarrow> (u64 \<times> bytes) list" where
  "batch_frames ser batch = map (\<lambda>(ev, seq). (seq, the (ser ev))) batch"

text \<open>While no write failed, file and buffer together hold what was there before and the frames of
  the batch; in any case the file only grows. Refused events are never acknowledged.\<close>

definition batch_inv ::
  "codec_ops \<Rightarrow> ('ev \<Rightarrow> bytes option) \<Rightarrow> bool \<Rightarrow> bytes \<Rightarrow> 'ev batch_state \<Rightarrow> bool" where
  "batch_inv K ser poisoned start st \<longleftrightarrow>
     (case st of (w, io_ok, batch, acks) \<Rightarrow>
        w_poisoned w = poisoned \<and> (poisoned \<longrightarrow> \<not> io_ok) \<and> prefix start (disk w)
        \<and> active_file (w_fs w) \<noteq> None \<and> (\<not> io_ok \<longrightarrow> poisoned \<or> batch \<noteq> [])
        \<and> (io_ok \<longrightarrow> disk w @ w_buf w = start @ encode_frames K (batch_frames ser batch))
        \<and> (\<forall>(ev, seq)\<in>set batch. ser ev \<noteq> None)
        \<and> (\<forall>(ev, a)\<in>set acks. a = None))"

lemma encode_frames_append [simp]:
  "encode_frames K (xs @ ys) = encode_frames K xs @ encode_frames K ys"
  by (simp add: encode_frames_def)

lemma append_event_inv:
  assumes "batch_inv K ser poisoned start st"
  shows "batch_inv K ser poisoned start (append_event K ser io ev st)"
proof -
  obtain w io_ok batch acks where st: "st = (w, io_ok, batch, acks)" by (cases st)
  obtain ok k where o: "io (length batch) = (ok, k)" by (cases "io (length batch)")
  show ?thesis
  proof (cases "io_ok \<and> ser ev \<noteq> None")
    case True
    then obtain json where j: "ser ev = Some json" "io_ok" by auto
    let ?f = "encode_frame K [] (w_next w) json"
    have "disk w @ w_buf w = start @ encode_frames K (batch_frames ser batch)"
      using assms j by (simp add: batch_inv_def st)
    then have "(disk w @ w_buf w) @ ?f
        = start @ encode_frames K (batch_frames ser (batch @ [(ev, w_next w)]))"
      using j by (simp add: batch_frames_def)
    moreover have "(disk w @ take k (w_buf w @ ?f)) @ drop k (w_buf w @ ?f) = (disk w @ w_buf w) @ ?f"
      by (simp del: take_append drop_append)
    ultimately show ?thesis
      using assms j
      by (auto simp: append_event_def batch_inv_def st o write_all_def Let_def prefix_def
          simp del: take_append drop_append)
  qed (use assms in \<open>auto simp: append_event_def batch_inv_def st\<close>)
qed

lemma drain_inv:
  "batch_inv K ser poisoned start st \<Longrightarrow> batch_inv K ser poisoned start (fst (drain K ser io turns q st))"
  by (induction K ser io turns q st rule: drain.induct)
     (auto simp: append_event_inv split: list.split wal_msg.split)

section \<open>The writer's invariant\<close>

text \<open>The active file starts with whole frames; if the writer is not poisoned it consists of them
  and the buffer is empty.\<close>

definition writer_inv :: "codec_ops \<Rightarrow> (u64 \<times> bytes) list \<Rightarrow> wal_writer \<Rightarrow> bool" where
  "writer_inv K frs w \<longleftrightarrow>
     (\<exists>n rest. active_file (w_fs w) = Some (active_header n @ encode_frames K frs @ rest)
        \<and> list_all frame_ok frs \<and> (\<not> w_poisoned w \<longrightarrow> rest = [] \<and> w_buf w = []))"

lemma parse_frames_append:
  "list_all frame_ok frs \<Longrightarrow> parse_frames K (encode_frames K frs @ rest) = frs @ parse_frames K rest"
proof (induction frs)
  case (Cons fr frs)
  obtain q p where fr: "fr = (q, p)" by (cases fr)
  have "next_frame K (encode_frame K [] q p @ (encode_frames K frs @ rest)) = Some (q, p)"
    using Cons.prems fr by (intro next_frame_encode) simp
  from parse_frames_Some [OF this] Cons fr show ?case by simp
qed simp

lemma writer_inv_frames:
  assumes "writer_inv K frs w"
  shows "\<exists>more. active_frames K (active_file (w_fs w)) = frs @ more \<and> (\<not> w_poisoned w \<longrightarrow> more = [])"
  using assms parse_frames_append [of frs K "[]"]
  by (auto simp: writer_inv_def active_frames_def active_ok_def parse_frames_append)

lemma writer_inv_start:
  assumes "writer_inv K frs w"
  shows "batch_inv K ser (w_poisoned w) (disk w) (w, \<not> w_poisoned w, [], [])"
  using assms
  by (auto simp: writer_inv_def batch_inv_def batch_frames_def disk_def)

lemma active_file_disk: "active_file (w_fs w) \<noteq> None \<Longrightarrow> active_file (w_fs w) = Some (disk w)"
  by (auto simp: disk_def)

lemma flush_disk:
  assumes "flush fio w = (ok, w1)" and "active_file (w_fs w) \<noteq> None"
  shows "prefix (disk w) (disk w1)" and "active_file (w_fs w1) = Some (disk w1)"
    and "disk w1 @ w_buf w1 = disk w @ w_buf w" and "ok \<Longrightarrow> w_buf w1 = []"
    and "w_poisoned w1 = w_poisoned w"
  using assms by (auto simp: flush_def Let_def set_disk_def disk_def split: prod.splits if_splits)

text \<open>Payloads within the reader's bound, and a deserializer that inverts the serializer.\<close>

definition ser_bounded :: "('ev \<Rightarrow> bytes option) \<Rightarrow> bool" where
  "ser_bounded ser \<longleftrightarrow> (\<forall>ev j. ser ev = Some j \<longrightarrow> length j \<le> MAX_JOURNAL_FRAME_PAYLOAD_BYTES)"

definition ser_decodes :: "('ev \<Rightarrow> bytes option) \<Rightarrow> (bytes \<Rightarrow> 'ev option) \<Rightarrow> bool" where
  "ser_decodes ser decode \<longleftrightarrow> (\<forall>ev j. ser ev = Some j \<longrightarrow> decode j = Some ev)"

lemma frame_ok_batch:
  assumes "ser_bounded ser"
    and "\<forall>(ev, seq)\<in>set batch. ser ev \<noteq> None"
  shows "list_all frame_ok (batch_frames ser batch)"
  using assms by (fastforce simp: batch_frames_def list_all_iff frame_ok_def ser_bounded_def)

lemma commit_batch_durable:
  assumes inv: "writer_inv K frs w" and st: "batch_inv K ser (w_poisoned w) (disk w) st"
    and sizes: "ser_bounded ser"
    and commit: "commit_batch fio sync_ok st = (w', acks)"
  shows "\<exists>new. writer_inv K (frs @ new) w'
    \<and> (\<forall>ev seq. (ev, Some seq) \<in> set acks \<longrightarrow> (\<exists>j. ser ev = Some j \<and> (seq, j) \<in> set new))
    \<and> (w_poisoned w \<longrightarrow> (\<forall>(ev, a)\<in>set acks. a = None))"
proof -
  obtain v io_ok batch acks0 where s: "st = (v, io_ok, batch, acks0)" by (cases st)
  obtain n rest where act: "active_file (w_fs w) = Some (active_header n @ encode_frames K frs @ rest)"
    and frs: "list_all frame_ok frs" and clean: "\<not> w_poisoned w \<Longrightarrow> rest = [] \<and> w_buf w = []"
    using inv by (auto simp: writer_inv_def)
  then have start: "disk w = active_header n @ encode_frames K frs @ rest" by (simp add: disk_def)
  have bi: "w_poisoned v = w_poisoned w" "w_poisoned w \<Longrightarrow> \<not> io_ok" "prefix (disk w) (disk v)"
    "active_file (w_fs v) \<noteq> None"
    "io_ok \<Longrightarrow> disk v @ w_buf v = disk w @ encode_frames K (batch_frames ser batch)"
    "\<forall>(ev, seq)\<in>set batch. ser ev \<noteq> None" "\<forall>(ev, a)\<in>set acks0. a = None"
    "\<not> io_ok \<Longrightarrow> w_poisoned w \<or> batch \<noteq> []"
    using st by (auto simp: batch_inv_def s)
  obtain flushed w1 where f: "(if io_ok then flush fio v else (False, v)) = (flushed, w1)"
    by (cases "if io_ok then flush fio v else (False, v)")
  define ok where "ok \<longleftrightarrow> io_ok \<and> flushed \<and> sync_ok"
  have w': "w' = (if \<not> ok \<and> batch \<noteq> [] then w1\<lparr>w_poisoned := True\<rparr> else w1)"
    and acks: "acks = acks0 @ map (\<lambda>(ev, seq). (ev, if ok then Some seq else None)) batch"
    using commit f by (auto simp: commit_batch_def s ok_def Let_def)
  have w1: "prefix (disk w) (disk w1)" "active_file (w_fs w1) = Some (disk w1)"
    "io_ok \<Longrightarrow> disk w1 @ w_buf w1 = disk w @ encode_frames K (batch_frames ser batch)"
    "ok \<Longrightarrow> w_buf w1 = []" "w_poisoned w1 = w_poisoned w"
    using f bi flush_disk [OF _ bi(4), of fio] active_file_disk [OF bi(4)]
    by (auto simp: ok_def split: if_splits intro: prefix_order.trans)
  show ?thesis
  proof (cases ok)
    case True
    then have "io_ok" "\<not> w_poisoned w" using bi(2) by (auto simp: ok_def)
    then have "writer_inv K (frs @ batch_frames ser batch) w'"
      using w' w1 True clean start frs frame_ok_batch [OF sizes bi(6)] by (auto simp: writer_inv_def)
    moreover have "\<exists>j. ser ev = Some j \<and> (seq, j) \<in> set (batch_frames ser batch)"
      if "(ev, Some seq) \<in> set acks" for ev seq
    proof -
      from that acks bi(7) have "(ev, seq) \<in> set batch" by (auto split: if_splits)
      with bi(6) show ?thesis by (force simp: batch_frames_def)
    qed
    ultimately show ?thesis using \<open>\<not> w_poisoned w\<close> by blast
  next
    case False
    from w1(1) start obtain more where
      more: "disk w1 = active_header n @ encode_frames K frs @ rest @ more"
      by (auto simp: prefix_def)
    have "rest @ more = [] \<and> w_buf w1 = []" if np: "\<not> w_poisoned w'"
    proof -
      from np w' w1(5) False have b: "batch = []" "\<not> w_poisoned w" by (auto split: if_splits)
      with bi(8) have "io_ok" by blast
      from w1(3) [OF this] more start clean [OF b(2)] b(1) show ?thesis
        by (simp add: batch_frames_def)
    qed
    then have "writer_inv K frs w'"
      using w' w1(2) frs more by (auto simp: writer_inv_def)
    then show ?thesis using acks False bi(7) by (intro exI [of _ "[]"]) auto
  qed
qed

lemma batch_turn_durable:
  assumes "writer_inv K frs w" and "batch_turn K ser io turns fio sync_ok ev q w = (w', acks, pending, q')"
    and "ser_bounded ser"
  shows "\<exists>new. writer_inv K (frs @ new) w'
    \<and> (\<forall>ev seq. (ev, Some seq) \<in> set acks \<longrightarrow> (\<exists>j. ser ev = Some j \<and> (seq, j) \<in> set new))
    \<and> (w_poisoned w \<longrightarrow> (\<forall>(ev, a)\<in>set acks. a = None))"
proof -
  let ?st = "fst (drain K ser io turns q (append_event K ser io ev (w, \<not> w_poisoned w, [], [])))"
  have "batch_inv K ser (w_poisoned w) (disk w) ?st"
    by (intro drain_inv append_event_inv writer_inv_start [OF assms(1)])
  moreover have "commit_batch fio sync_ok ?st = (w', acks)"
    using assms(2) by (auto simp: batch_turn_def split: prod.splits)
  ultimately show ?thesis by (intro commit_batch_durable [OF assms(1) _ assms(3)]) auto
qed

section \<open>What recovery can read\<close>

definition seg_frames :: "codec_ops \<Rightarrow> journal_fs \<Rightarrow> segment_info \<Rightarrow> (u64 \<times> bytes) list" where
  "seg_frames K fs s =
     (if seg_kind s = SEG_KIND_LEGACY_JSONL then []
      else case read_segment_body K (map_of (seg_files fs) (seg_path s)) of
        None \<Rightarrow> [] | Some kb \<Rightarrow> parse_frames K (snd kb))"

definition all_frames :: "codec_ops \<Rightarrow> journal_fs \<Rightarrow> (u64 \<times> bytes) set" where
  "all_frames K fs =
     (\<Union>s\<in>set (journal_list_segments fs). set (seg_frames K fs s))
     \<union> set (active_frames K (active_file fs))"

definition recoverable :: "codec_ops \<Rightarrow> journal_fs \<Rightarrow> u64 \<times> bytes \<Rightarrow> bool" where
  "recoverable K fs fr \<longleftrightarrow> fr \<in> all_frames K fs \<or> fst fr \<le> history_horizon fs"

lemma recoverable_delivered:
  assumes "recoverable K fs (seq, j)" and "decode j = Some ev"
  shows "seq \<le> history_horizon fs \<or> (\<exists>origin. (seq, origin, ev) \<in> set (scan_journal K decode fs None leg))"
proof -
  have keep: "(seq, o', ev) \<in> set (List.map_filter (keep_event decode o' P) frs)"
    if "(seq, j) \<in> set frs" "P seq" for frs P o'
    using that assms(2) by (force simp: List.map_filter_def keep_event_def)
  consider "seq \<le> history_horizon fs"
    | s where "s \<in> set (journal_list_segments fs)" "(seq, j) \<in> set (seg_frames K fs s)"
    | "(seq, j) \<in> set (active_frames K (active_file fs))" "seq > history_horizon fs"
    using assms(1) unfolding recoverable_def all_frames_def by (cases "seq \<le> history_horizon fs") auto
  then show ?thesis
  proof cases
    case (2 s)
    let ?o = "if seg_kind s = SEG_KIND_BASE then Origin_Base else Origin_History"
    from 2(2) obtain kb where "seg_kind s \<noteq> SEG_KIND_LEGACY_JSONL"
      "read_segment_body K (map_of (seg_files fs) (seg_path s)) = Some kb"
      "(seq, j) \<in> set (parse_frames K (snd kb))"
      by (cases "read_segment_body K (map_of (seg_files fs) (seg_path s))")
         (auto simp: seg_frames_def split: if_splits)
    then have "(seq, ?o, ev) \<in> set (scan_segment K decode fs None leg s)"
      using keep [of "parse_frames K (snd kb)" "after_cursor None" ?o]
      by (simp add: scan_segment_def emit_frames_parse after_cursor_def)
    with 2(1) show ?thesis by (force simp: scan_journal_def)
  next
    case 3
    with keep show ?thesis
      unfolding scan_journal_def scan_active
      by (intro disjI2 exI [of _ Origin_Active]) (simp add: after_cursor_def)
  qed simp
qed

lemma fold_max_in: "fold max ys (m :: 'a::linorder) \<in> insert m (set ys)"
proof (induction ys arbitrary: m)
  case (Cons y ys)
  then show ?case using Cons [of "max y m"] by (auto simp: max_def split: if_splits)
qed simp

lemma horizon_mono:
  assumes "\<And>s. s \<in> set (journal_list_segments fs) \<Longrightarrow> s \<in> set (journal_list_segments g)"
  shows "history_horizon fs \<le> history_horizon g"
proof -
  have "history_horizon fs \<in> insert 0 (seg_max ` {s \<in> set (journal_list_segments fs). seg_kind s = SEG_KIND_BASE})"
    using fold_max_in [of "map seg_max (filter (\<lambda>s. seg_kind s = SEG_KIND_BASE) (journal_list_segments fs))" 0]
    by (auto simp: history_horizon_def)
  then show ?thesis using assms horizon_ge by (auto simp: image_iff)
qed

lemma recoverable_mono:
  assumes "recoverable K fs fr"
    and "\<And>s. s \<in> set (journal_list_segments fs) \<Longrightarrow> s \<in> set (journal_list_segments g)
           \<and> map_of (seg_files g) (seg_path s) = map_of (seg_files fs) (seg_path s)"
    and "set (active_frames K (active_file fs)) \<subseteq> all_frames K g"
  shows "recoverable K g fr"
proof -
  have "set (seg_frames K fs s) \<subseteq> all_frames K g" if "s \<in> set (journal_list_segments fs)" for s
  proof -
    have "seg_frames K fs s = seg_frames K g s" using assms(2) [OF that] by (simp add: seg_frames_def)
    then show ?thesis using assms(2) [OF that] by (auto simp: all_frames_def)
  qed
  moreover have "history_horizon fs \<le> history_horizon g"
    using assms(2) by (intro horizon_mono) blast
  ultimately show ?thesis
    using assms(1,3) by (auto simp: recoverable_def all_frames_def [of K fs])
qed

section \<open>Sealing and folding keep what was acknowledged\<close>

lemma fold_seal_stats:
  "fold (\<lambda>(q, p) (mn, mx, count). (min mn q, max mx q, count + 1)) frs (a, b, c :: u32) =
     (fold (\<lambda>q m. min m q) (map fst frs) a, fold (\<lambda>q m. max m q) (map fst frs) b, c + of_nat (length frs))"
  by (induction frs arbitrary: a b c) auto

definition seal_min :: "(u64 \<times> bytes) list \<Rightarrow> u64" where
  "seal_min frs = fold (\<lambda>q m. min m q) (map fst frs) (- 1)"

definition seal_max :: "(u64 \<times> bytes) list \<Rightarrow> u64" where
  "seal_max frs = fold (\<lambda>q m. max m q) (map fst frs) 0"

definition seal_content :: "codec_ops \<Rightarrow> (u64 \<times> bytes) list \<Rightarrow> bytes option" where
  "seal_content K frs = segment_file_bytes K SEG_KIND_HISTORY CODEC_LZ4 (seal_min frs) (seal_max frs)
     (of_nat (length frs)) (encode_frames K frs)"

lemma length_encode_frames_ge: "16 * length frs \<le> length (encode_frames K frs)"
  by (induction frs) (auto simp: FRAME_HEADER_LEN_def)

lemma seal_ops:
  assumes "active_file fs = Some bs" and "active_ok bs"
    and "frs = active_frames K (active_file fs)"
    and "length (encode_frames K frs) \<le> MAX_JOURNAL_SEGMENT_BODY_BYTES"
  shows "journal_seal_active K fs stale nx =
    (if frs = [] then ([], True)
     else case seal_content K frs of
       None \<Rightarrow> ([], False)
     | Some content \<Rightarrow> (write_segment_ops (seg_name (CHR ''J'') (seal_min frs)) content
         @ journal_reset_active nx stale, True))"
proof -
  have frs: "parse_frames K (drop ACTIVE_HEADER_LEN bs) = frs"
    using assms by (simp add: active_frames_def)
  have ok: "ACTIVE_HEADER_LEN \<le> length bs" "subslice 0 4 bs = ACTIVE_MAGIC"
    using assms(2) by (simp_all add: active_ok_def)
  obtain rest where rest: "drop ACTIVE_HEADER_LEN bs = encode_frames K frs @ rest"
    using parse_frames_split [of "drop ACTIVE_HEADER_LEN bs" K] frs by auto
  have short: "frs = []" if "length bs = ACTIVE_HEADER_LEN" using that frs by simp
  have walk: "walk_frames K bs ACTIVE_HEADER_LEN
      (\<lambda>seq _ (mn, mx, count). (min mn seq, max mx seq, count + 1)) (- 1 :: u64, 0 :: u64, 0 :: u32)
    = (ACTIVE_HEADER_LEN + length (encode_frames K frs), (seal_min frs, seal_max frs, of_nat (length frs)))"
    using fold_seal_stats [of frs "- 1" 0 0]
    by (simp add: walk_frames_parse [OF ok(1)] frs seal_min_def seal_max_def case_prod_unfold)
  have body: "subslice ACTIVE_HEADER_LEN (ACTIVE_HEADER_LEN + length (encode_frames K frs)) bs
      = encode_frames K frs"
    by (simp add: subslice_def rest)
  have "length frs < 2 ^ 32"
    using assms(4) length_encode_frames_ge [of frs K] by (simp add: MAX_JOURNAL_SEGMENT_BODY_BYTES_def)
  then have "unat (of_nat (length frs) :: u32) = length frs" by (simp add: unat_of_nat)
  then have count: "(of_nat (length frs) :: u32) = 0 \<longleftrightarrow> frs = []"
    by (auto simp: word_unat_eq_iff)
  show ?thesis
    using ok short unfolding journal_seal_active_def
    by (auto simp: assms(1) walk body count seal_content_def Let_def)
qed

definition seal_fits :: "codec_ops \<Rightarrow> journal_fs \<Rightarrow> bool" where
  "seal_fits K fs \<longleftrightarrow>
     (let frs = active_frames K (active_file fs) in
      length (encode_frames K frs) \<le> MAX_JOURNAL_SEGMENT_BODY_BYTES
      \<and> map_of (seg_files fs) (seg_name (CHR ''J'') (seal_min frs)) = None
      \<and> (case seal_content K frs of
           None \<Rightarrow> True | Some content \<Rightarrow> length content \<le> MAX_JOURNAL_SEGMENT_FILE_BYTES))"

lemma listed_install:
  assumes "is_gseg p" "p \<noteq> []" "read_segment_header p (Some c) = Some info"
    and "map_of (seg_files fs) p = None"
  shows "set (journal_list_segments (install p c fs)) = insert info (set (journal_list_segments fs))"
  unfolding segments_install [OF assms(1-3)] filter_absent [OF assms(4)]
  by (simp add: journal_list_segments_headers)

lemma map_of_install_listed:
  assumes "map_of (seg_files fs) p = None" "p \<noteq> []" "s \<in> set (journal_list_segments fs)"
  shows "map_of (seg_files (install p c fs)) (seg_path s) = map_of (seg_files fs) (seg_path s)"
proof -
  have "seg_path s \<noteq> tmp_name p" "seg_path s \<noteq> p"
    using segment_path_in [OF assms(3)] assms(1,2) not_gseg_tmp [of p] by (auto simp: map_of_eq_None_iff) force
  then show ?thesis by (simp add: map_of_install)
qed

lemma recoverable_create_tmp:
  assumes "recoverable K fs fr" and "p \<noteq> []"
  shows "recoverable K (exec_op (Create_Seg (tmp_name p) c) fs) fr"
proof (rule recoverable_mono [OF assms(1)])
  let ?g = "exec_op (Create_Seg (tmp_name p) c) fs"
  fix s assume s: "s \<in> set (journal_list_segments fs)"
  have "journal_list_segments ?g = journal_list_segments fs"
    using headers_drop_tmp [OF assms(2), of "\<lambda>_. True"] assms(2)
    by (simp add: journal_list_segments_headers) (simp add: headers_def)
  moreover have "seg_path s \<noteq> tmp_name p" using segment_path_in [OF s] not_gseg_tmp [OF assms(2)] by metis
  ultimately show "s \<in> set (journal_list_segments ?g)
      \<and> map_of (seg_files ?g) (seg_path s) = map_of (seg_files fs) (seg_path s)"
    using s by (simp add: map_add_def map_of_filter_key split: option.split)
qed (simp add: all_frames_def)

lemma seal_installed:
  assumes "codec_laws K" and "frs = active_frames K (active_file fs)"
    and "seal_content K frs = Some content" and "seal_fits K fs" and "list_all frame_ok frs"
    and "g = install (seg_name (CHR ''J'') (seal_min frs)) content fs\<lparr>active_file := a\<rparr>"
    and "recoverable K fs fr"
  shows "recoverable K g fr"
proof (rule recoverable_mono [OF assms(7)])
  let ?p = "seg_name (CHR ''J'') (seal_min frs)"
  let ?info = "\<lparr>seg_path = ?p, seg_kind = SEG_KIND_HISTORY, seg_min = seal_min frs, seg_max = seal_max frs\<rparr>"
  have fits: "length (encode_frames K frs) \<le> MAX_JOURNAL_SEGMENT_BODY_BYTES"
    "map_of (seg_files fs) ?p = None" "length content \<le> MAX_JOURNAL_SEGMENT_FILE_BYTES"
    using assms(2,3,4) by (simp_all add: seal_fits_def Let_def)
  obtain c where content: "content = segment_layout K (segment_header SEG_KIND_HISTORY CODEC_LZ4
      (seal_min frs) (seal_max frs) (of_nat (length frs))) c (encode_frames K frs)"
    and c: "sealed K CODEC_LZ4 (encode_frames K frs) c"
    using segment_file_bytes_SomeD [OF assms(3) [unfolded seal_content_def] assms(1)] by blast
  note hdr = read_sealed_header [OF content, of ?p]
  note listed = listed_install [OF _ _ hdr fits(2)]
  have segs: "journal_list_segments g = journal_list_segments (install ?p content fs)"
    and files: "seg_files g = seg_files (install ?p content fs)"
    using assms(6) by (simp_all add: journal_list_segments_def)
  show "s \<in> set (journal_list_segments g)
      \<and> map_of (seg_files g) (seg_path s) = map_of (seg_files fs) (seg_path s)"
    if "s \<in> set (journal_list_segments fs)" for s
    using that map_of_install_listed [OF fits(2) _ that] by (simp add: segs files listed)
  have "seg_frames K g ?info = frs"
    using read_sealed_body [OF content c assms(1) fits(1,3)] parse_frames_append [OF assms(5), of K "[]"]
    by (simp add: seg_frames_def files map_of_install SEG_KIND_HISTORY_def SEG_KIND_LEGACY_JSONL_def)
  moreover have "?info \<in> set (journal_list_segments g)" by (simp add: segs listed)
  ultimately show "set (active_frames K (active_file fs)) \<subseteq> all_frames K g"
    using assms(2) by (force simp: all_frames_def)
qed

section \<open>Growth of the active file\<close>

definition grows :: "wal_writer \<Rightarrow> wal_writer \<Rightarrow> bool" where
  "grows w w' \<longleftrightarrow> (\<exists>bs. w_fs w' = (w_fs w)\<lparr>active_file := Some (disk w @ bs)\<rparr>)"

lemma grows_refl: "active_file (w_fs w) \<noteq> None \<Longrightarrow> grows w w"
  by (auto simp: grows_def disk_def intro: exI [of _ "[]"])

lemma grows_trans: "grows u v \<Longrightarrow> grows v w \<Longrightarrow> grows u w"
  by (auto simp: grows_def disk_def)

lemma grows_io:
  "grows w (snd (write_all outcome bs w))" "grows w (snd (flush outcome w))"
  by (auto simp: grows_def write_all_def flush_def set_disk_def Let_def split: prod.split)

lemma grows_ignores [simp]:
  "grows (w\<lparr>w_next := n\<rparr>) v \<longleftrightarrow> grows w v" "grows w (v\<lparr>w_poisoned := x\<rparr>) \<longleftrightarrow> grows w v"
  by (simp_all add: grows_def)

lemma append_event_grows:
  "active_file (w_fs (fst st)) \<noteq> None \<Longrightarrow> grows (fst st) (fst (append_event K ser io ev st))"
proof (cases st)
  case (fields w io_ok batch acks)
  assume act: "active_file (w_fs (fst st)) \<noteq> None"
  have "grows w (snd (write_all out f (w\<lparr>w_next := n\<rparr>)))" for out f n
    using grows_io(1) [of "w\<lparr>w_next := n\<rparr>" out f] by simp
  moreover have "fst (append_event K ser io ev st) = (if io_ok \<and> ser ev \<noteq> None
      then snd (write_all (io (length batch)) (encode_frame K [] (w_next w) (the (ser ev)))
        (w\<lparr>w_next := w_next w + 1\<rparr>)) else w)"
    by (auto simp: append_event_def fields Let_def split: option.split prod.split)
  ultimately show ?thesis using act grows_refl fields by auto
qed

lemma grows_active: "grows w w' \<Longrightarrow> active_file (w_fs w') \<noteq> None"
  by (auto simp: grows_def)

lemma drain_grows:
  "active_file (w_fs (fst st)) \<noteq> None \<Longrightarrow> grows (fst st) (fst (fst (drain K ser io turns q st)))"
proof (induction K ser io turns q st rule: drain.induct)
  case (2 K ser io turns q st)
  show ?case
    using 2 append_event_grows [OF 2(2)] grows_trans grows_active grows_refl
    by (auto split: list.split wal_msg.split) blast+
qed (simp add: grows_refl)

lemma batch_turn_grows:
  assumes "active_file (w_fs w) \<noteq> None"
    and "batch_turn K ser io turns fio sync_ok ev q w = (w', acks, pending, q')"
  shows "grows w w'"
proof -
  let ?a = "append_event K ser io ev (w, \<not> w_poisoned w, [], [])"
  let ?st = "fst (drain K ser io turns q ?a)"
  have a: "grows w (fst ?a)" using append_event_grows [of "(w, \<not> w_poisoned w, [], [])"] assms(1) by simp
  have "grows w (fst ?st)"
    using grows_trans [OF a drain_grows [OF grows_active [OF a]]] .
  moreover have "grows (fst ?st) w'"
  proof -
    have "w' = fst (commit_batch fio sync_ok ?st)"
      using assms(2) by (auto simp: batch_turn_def split: prod.splits)
    then show ?thesis
      using grows_io(2) [of "fst ?st" fio] grows_refl [OF grows_active [OF calculation]]
      by (cases ?st) (auto simp: commit_batch_def Let_def split: prod.splits if_splits)
  qed
  ultimately show ?thesis by (rule grows_trans)
qed

lemma active_frames_grow:
  assumes "active_ok bs"
  shows "set (active_frames K (Some bs)) \<subseteq> set (active_frames K (Some (bs @ extra)))"
proof -
  obtain frs rest where frs: "parse_frames K (drop ACTIVE_HEADER_LEN bs) = frs" "list_all frame_ok frs"
    and rest: "drop ACTIVE_HEADER_LEN bs = encode_frames K frs @ rest"
    using parse_frames_split [of "drop ACTIVE_HEADER_LEN bs" K] by blast
  have "active_ok (bs @ extra)"
    using assms by (simp add: active_ok_def subslice_append_prefix ACTIVE_HEADER_LEN_def)
  moreover have "drop ACTIVE_HEADER_LEN (bs @ extra) = encode_frames K frs @ (rest @ extra)"
    using rest assms by (simp add: active_ok_def)
  ultimately show ?thesis
    using assms frs by (simp add: active_frames_def parse_frames_append)
qed

lemma recoverable_grows:
  assumes "grows w w'" and "active_ok (disk w)" and "active_file (w_fs w) \<noteq> None"
    and "recoverable K (w_fs w) fr"
  shows "recoverable K (w_fs w') fr"
proof (rule recoverable_mono [OF assms(4)])
  from assms(1) obtain bs where bs: "w_fs w' = (w_fs w)\<lparr>active_file := Some (disk w @ bs)\<rparr>"
    by (auto simp: grows_def)
  show "s \<in> set (journal_list_segments (w_fs w'))
      \<and> map_of (seg_files (w_fs w')) (seg_path s) = map_of (seg_files (w_fs w)) (seg_path s)"
    if "s \<in> set (journal_list_segments (w_fs w))" for s
    using that by (simp add: bs)
  show "set (active_frames K (active_file (w_fs w))) \<subseteq> all_frames K (w_fs w')"
    using active_frames_grow [OF assms(2), of K bs] active_file_disk [OF assms(3)]
    by (auto simp: bs all_frames_def)
qed

section \<open>Rotation under the invariant\<close>

lemma writer_inv_active:
  assumes "writer_inv K frs w"
  shows "active_ok (disk w)" and "active_file (w_fs w) = Some (disk w)"
    and "active_file (w_fs w) \<noteq> None"
proof -
  obtain n rest where "active_file (w_fs w) = Some (active_header n @ encode_frames K frs @ rest)"
    using assms by (auto simp: writer_inv_def)
  moreover have "active_ok (active_header n @ xs)" for xs by (simp add: active_ok_def)
  ultimately show "active_ok (disk w)" "active_file (w_fs w) = Some (disk w)" "active_file (w_fs w) \<noteq> None"
    by (simp_all add: disk_def)
qed

lemma flush_inv:
  assumes "writer_inv K frs w"
  shows "writer_inv K frs (snd (flush outcome w))"
proof -
  obtain ok w1 where f: "flush outcome w = (ok, w1)" by (cases "flush outcome w")
  note d = flush_disk [OF f writer_inv_active(3) [OF assms]]
  obtain extra where e: "disk w1 = disk w @ extra" using d(1) by (auto simp: prefix_def)
  have "extra = [] \<and> w_buf w1 = []" if "w_buf w = []" using d(3) that e by simp
  then show ?thesis
    using assms d(2,5) e f by (auto simp: writer_inv_def disk_def)
qed

text \<open>A rotation behaves when the flush in front succeeded and it did not stop between the
  truncation of the active file and its new header.\<close>

definition rot_atomic :: "rot_io \<Rightarrow> fs_op list \<Rightarrow> bool" where
  "rot_atomic r ops \<longleftrightarrow> fst (rot_flush r)
     \<and> (rot_steps r + 3 \<le> length ops \<or> length ops \<le> rot_steps r)"

lemma flushed_empty: "fst outcome \<Longrightarrow> w_buf (snd (flush outcome w)) = []"
  by (auto simp: flush_def Let_def split: prod.split)

lemma header_only_inv:
  "active_file (w_fs w) = Some (active_header n) \<Longrightarrow> w_buf w = [] \<Longrightarrow> writer_inv K [] w"
  unfolding writer_inv_def by (intro exI [of _ n] exI [of _ "[]"]) simp

lemma exec_ops_active_same:
  assumes "list_all (\<lambda>op. \<forall>bs. op \<noteq> Set_Active bs) ops"
  shows "active_file (exec_ops ops fs) = active_file fs"
  using assms
proof (induction ops arbitrary: fs)
  case (Cons op ops)
  then have "active_file (exec_op op fs) = active_file fs" by (cases op) (auto split: option.split)
  with Cons show ?case by simp
qed simp

lemma rotate_inv:
  assumes inv: "writer_inv K frs w" and buf: "w_buf w = []"
    and ops: "ops = pre @ journal_reset_active nx [] \<or> ops = []"
    and pre: "list_all (\<lambda>op. \<forall>bs. op \<noteq> Set_Active bs) pre"
    and at: "rot_steps r + 3 \<le> length ops \<or> length ops \<le> rot_steps r"
  shows "\<exists>frs'. writer_inv K frs' (rotate r ops w)
    \<and> (ops \<noteq> [] \<longrightarrow> length ops \<le> rot_steps r \<longrightarrow> (\<forall>x. writer_inv K frs' ((rotate r ops w)\<lparr>w_poisoned := x\<rparr>)))"
proof -
  let ?n = "rot_steps r"
  consider "ops = []" | "ops = pre @ journal_reset_active nx []" "length ops \<le> ?n"
    | "ops = pre @ journal_reset_active nx []" "?n + 3 \<le> length ops"
    using ops at by blast
  then show ?thesis
  proof cases
    case 1
    then have "rotate r ops w = w" using buf by (simp add: rotate_def)
    with inv 1 show ?thesis by auto
  next
    case 2
    then have "active_file (w_fs (rotate r ops w)) = Some (active_header nx)" "w_buf (rotate r ops w) = []"
      by (simp_all add: rotate_def journal_reset_active_def)
    then show ?thesis by (intro exI [of _ "[]"]) (simp add: header_only_inv)
  next
    case 3
    then have "take ?n ops = take ?n pre" by (simp add: journal_reset_active_def)
    moreover have "list_all (\<lambda>op. \<forall>bs. op \<noteq> Set_Active bs) (take ?n pre)"
      using pre by (auto simp: list_all_iff dest: in_set_takeD)
    ultimately have "active_file (w_fs (rotate r ops w)) = active_file (w_fs w)"
      using exec_ops_active_same by (simp add: rotate_def)
    moreover have "w_buf (rotate r ops w) = w_buf w" "w_poisoned (rotate r ops w) = w_poisoned w"
      using buf by (simp_all add: rotate_def)
    ultimately have "writer_inv K frs (rotate r ops w)" using inv by (simp add: writer_inv_def)
    moreover have "\<not> length ops \<le> ?n" using 3 by simp
    ultimately show ?thesis by blast
  qed
qed

definition seal_ok :: "codec_ops \<Rightarrow> rot_io \<Rightarrow> wal_writer \<Rightarrow> bool" where
  "seal_ok K r w \<longleftrightarrow>
     (let w1 = snd (flush (rot_flush r) w) in
      seal_fits K (w_fs w1)
      \<and> rot_atomic r (fst (journal_seal_active K (w_fs w1) (take (rot_stale r) (w_buf w1)) (w_next w1))))"

definition fold_ok :: "codec_ops \<Rightarrow> rot_io \<Rightarrow> bytes \<Rightarrow> u64 \<Rightarrow> ('ev \<times> u64) list \<Rightarrow> wal_writer \<Rightarrow> bool" where
  "fold_ok K r pl frontier acked w \<longleftrightarrow>
     (let w1 = snd (flush (rot_flush r) w) in
      (\<forall>(ev, seq)\<in>set acked. seq \<le> frontier) \<and> fold_fits K pl frontier
      \<and> rot_atomic r (fst (journal_fold K (w_fs w1) (take (rot_stale r) (w_buf w1)) (rot_rm r) pl
            frontier (w_next w1))))"

lemma seal_prefix_recoverable:
  assumes laws: "codec_laws K" and frs: "frs = active_frames K (active_file fs)"
    and c: "seal_content K frs = Some content" and fits: "seal_fits K fs"
    and frs_ok: "list_all frame_ok frs" and rec: "recoverable K fs fr"
    and ops: "ops = write_segment_ops (seg_name (CHR ''J'') (seal_min frs)) content @ journal_reset_active nx []"
    and at: "n + 3 \<le> length ops \<or> length ops \<le> n"
  shows "recoverable K (exec_ops (take n ops) fs) fr"
proof -
  let ?p = "seg_name (CHR ''J'') (seal_min frs)"
  have sealed: "recoverable K (install ?p content fs\<lparr>active_file := a\<rparr>) fr" for a
    by (rule seal_installed [OF laws frs c fits frs_ok refl rec])
  have len: "length ops = 5" by (simp add: ops write_segment_ops_def journal_reset_active_def)
  with at consider "n = 0" | "n = 1" | "n = 2" | "5 \<le> n" by linarith
  then show ?thesis
  proof cases
    case 2
    then show ?thesis
      using recoverable_create_tmp [OF rec, of ?p content] by (simp add: ops write_segment_ops_def)
  next
    case 3
    have "(install ?p content fs)\<lparr>active_file := active_file fs\<rparr> = install ?p content fs"
      by (simp add: install_def)
    with 3 sealed [of "active_file fs"] show ?thesis by (simp only: ops take_fold_ops) simp
  next
    case 4
    with sealed [of "Some (active_header nx)"] show ?thesis
      using len by (simp add: ops exec_write_segment journal_reset_active_def del: take_append)
  qed (use rec in simp)
qed

lemma seal_turn_inv:
  assumes laws: "codec_laws K" and inv: "writer_inv K frs0 w" and ok: "seal_ok K r w"
  shows "(\<exists>frs'. writer_inv K frs' (seal_turn K r w))
    \<and> (\<forall>fr. recoverable K (w_fs w) fr \<longrightarrow> recoverable K (w_fs (seal_turn K r w)) fr)"
proof -
  define w1 where "w1 = snd (flush (rot_flush r) w)"
  define frs where "frs = active_frames K (active_file (w_fs w1))"
  have inv1: "writer_inv K frs0 w1" unfolding w1_def by (rule flush_inv [OF inv])
  note act = writer_inv_active [OF inv1]
  have fl: "fst (rot_flush r)" and fits: "seal_fits K (w_fs w1)"
    using ok by (simp_all add: seal_ok_def w1_def Let_def rot_atomic_def)
  then have buf: "w_buf w1 = []" by (simp add: w1_def flushed_empty)
  have size: "length (encode_frames K frs) \<le> MAX_JOURNAL_SEGMENT_BODY_BYTES"
    using fits by (simp add: seal_fits_def frs_def Let_def)
  define ops where "ops = fst (journal_seal_active K (w_fs w1) [] (w_next w1))"
  have turn: "seal_turn K r w = rotate r ops w1"
    and at: "rot_steps r + 3 \<le> length ops \<or> length ops \<le> rot_steps r"
    using ok by (simp_all add: seal_turn_def seal_ok_def w1_def [symmetric] buf ops_def Let_def rot_atomic_def)
  have ops_eq: "ops = [] \<or> (\<exists>content. seal_content K frs = Some content
      \<and> ops = write_segment_ops (seg_name (CHR ''J'') (seal_min frs)) content @ journal_reset_active (w_next w1) [])"
    unfolding ops_def using seal_ops [OF act(2,1) frs_def size] by (auto split: option.splits)
  have frs_ok: "list_all frame_ok frs"
    using filter_frames_ok [of "\<lambda>_. True" K] by (simp add: frs_def active_frames_def split: option.split)
  have "recoverable K (w_fs (rotate r ops w1)) fr" if "recoverable K (w_fs w) fr" for fr
  proof -
    have "recoverable K (w_fs w1) fr"
      using recoverable_grows [OF grows_io(2) writer_inv_active(1,3) [OF inv] that] by (simp add: w1_def)
    then have "recoverable K (exec_ops (take (rot_steps r) ops) (w_fs w1)) fr"
      using ops_eq
      by (elim disjE exE conjE) (simp, intro seal_prefix_recoverable [OF laws frs_def _ fits frs_ok _ _ at])
    then show ?thesis by (simp add: rotate_def)
  qed
  moreover have "\<exists>frs'. writer_inv K frs' (rotate r ops w1)"
    using ops_eq rotate_inv [OF inv1 buf _ _ at, of "write_segment_ops _ _" "w_next w1"]
    by (fastforce simp: write_segment_ops_def)
  ultimately show ?thesis by (simp add: turn)
qed

lemma fold_prefix_recoverable:
  assumes "journal_fold K fs stale rm_ok pl q nx = (ops, made)" and "codec_laws K"
    and "recoverable K fs fr" and "fst fr \<le> q"
  shows "recoverable K (exec_ops (take n ops) fs) fr"
proof (cases made)
  case True
  with assms(1) have f: "journal_fold K fs stale rm_ok pl q nx = (ops, True)" by simp
  show ?thesis
  proof (cases "2 \<le> n")
    case True
    from fold_after_rename [OF f assms(2) True] have "q \<le> history_horizon (exec_ops (take n ops) fs)" by blast
    with assms(4) show ?thesis unfolding recoverable_def by (blast intro: order.trans)
  next
    case False
    then consider "n = 0" | "n = 1" by linarith
    then show ?thesis
    proof cases
      case 2
      show ?thesis
        by (rule journal_fold_ops [OF f assms(2)])
           (use recoverable_create_tmp [OF assms(3) seg_name_nonempty] 2 in
            \<open>simp add: write_segment_ops_def\<close>)
    qed (use assms(3) in simp)
  qed
next
  case False
  then have "ops = []"
    using assms(1) by (auto simp: journal_fold_def Let_def split: prod.splits option.splits)
  then show ?thesis using assms(3) by simp
qed

lemma fold_turn_inv:
  assumes laws: "codec_laws K" and inv: "writer_inv K frs0 w" and ok: "fold_ok K r pl q acked w"
    and turn: "fold_turn K r pl q w = (w', acked_fold)"
  shows "(\<exists>frs'. writer_inv K frs' w')
    \<and> (\<forall>fr. recoverable K (w_fs w) fr \<longrightarrow> fst fr \<le> q \<longrightarrow> recoverable K (w_fs w') fr)"
proof -
  define w1 where "w1 = snd (flush (rot_flush r) w)"
  have inv1: "writer_inv K frs0 w1" unfolding w1_def by (rule flush_inv [OF inv])
  have "fst (rot_flush r)" using ok by (simp add: fold_ok_def Let_def rot_atomic_def)
  then have buf: "w_buf w1 = []" by (simp add: w1_def flushed_empty)
  obtain ops made where f: "journal_fold K (w_fs w1) [] (rot_rm r) pl q (w_next w1) = (ops, made)"
    by (cases "journal_fold K (w_fs w1) [] (rot_rm r) pl q (w_next w1)")
  have at: "rot_steps r + 3 \<le> length ops \<or> length ops \<le> rot_steps r"
    using ok f by (simp add: fold_ok_def w1_def [symmetric] buf Let_def rot_atomic_def)
  have w': "w' = (if acked_fold then (rotate r ops w1)\<lparr>w_poisoned := False\<rparr> else rotate r ops w1)"
    and fin: "acked_fold \<longleftrightarrow> made \<and> length ops \<le> rot_steps r \<and> rot_sync r"
    using turn f by (auto simp: fold_turn_def w1_def [symmetric] buf Let_def)
  have ops: "ops = [] \<and> \<not> made \<or> (\<exists>pre. ops = pre @ journal_reset_active (w_next w1) []
      \<and> list_all (\<lambda>op. \<forall>bs. op \<noteq> Set_Active bs) pre \<and> ops \<noteq> [])"
    using f by (auto simp: journal_fold_def Let_def write_segment_ops_def list_all_iff
        split: prod.splits option.splits)
  have "\<exists>frs'. writer_inv K frs' (rotate r ops w1) \<and> (ops \<noteq> [] \<longrightarrow> length ops \<le> rot_steps r \<longrightarrow>
      (\<forall>x. writer_inv K frs' ((rotate r ops w1)\<lparr>w_poisoned := x\<rparr>)))"
    using ops rotate_inv [OF inv1 buf _ _ at] inv1 by (elim disjE exE conjE) (auto simp: rotate_def)
  then have "\<exists>frs'. writer_inv K frs' w'" using w' fin ops by auto
  moreover have "recoverable K (w_fs w') fr" if "recoverable K (w_fs w) fr" "fst fr \<le> q" for fr
  proof -
    have "recoverable K (w_fs w1) fr"
      using recoverable_grows [OF grows_io(2) writer_inv_active(1,3) [OF inv] that(1)] by (simp add: w1_def)
    from fold_prefix_recoverable [OF f laws this that(2)] show ?thesis
      by (simp add: w' rotate_def)
  qed
  ultimately show ?thesis by blast
qed

section \<open>Runs of the writer thread\<close>

definition acked_of :: "'ev acks \<Rightarrow> ('ev \<times> u64) list" where
  "acked_of acks = List.map_filter (\<lambda>(ev, a). map_option (Pair ev) a) acks"

definition rotation_ok ::
  "codec_ops \<Rightarrow> nat \<Rightarrow> rot_io \<Rightarrow> (bytes \<times> u64) option \<Rightarrow> ('ev \<times> u64) list \<Rightarrow> wal_writer \<Rightarrow> bool" where
  "rotation_ok K seal_threshold r pending acked w1 \<longleftrightarrow>
     (case pending of
        Some (lines, frontier) \<Rightarrow> fold_ok K r lines frontier acked w1
      | None \<Rightarrow> length (disk w1) > seal_threshold \<longrightarrow> seal_ok K r w1)"

text \<open>\<open>wal_reach K ser thr w acked\<close>: some run of the receive loop from a clean active file ends with
  the writer in state \<open>w\<close>, having acknowledged the events \<open>acked\<close>. Writes and flushes of appends
  fail in any way; a checkpoint's frontier covers what was acknowledged (its sender holds the commit
  lock).\<close>

inductive wal_reach ::
  "codec_ops \<Rightarrow> ('ev \<Rightarrow> bytes option) \<Rightarrow> nat \<Rightarrow> wal_writer \<Rightarrow> ('ev \<times> u64) list \<Rightarrow> bool"
  for K ser thr where
  start: "writer_inv K frs w \<Longrightarrow> \<not> w_poisoned w \<Longrightarrow> wal_reach K ser thr w []"
| append: "wal_reach K ser thr w acked \<Longrightarrow>
    batch_turn K ser io turns fio sync_ok ev q w = (w1, acks, pending, q1) \<Longrightarrow>
    rotation_ok K thr r pending (acked @ acked_of acks) w1 \<Longrightarrow>
    append_turn K ser thr io turns fio sync_ok r ev q w = (w', acks', ck, q') \<Longrightarrow>
    wal_reach K ser thr w' (acked @ acked_of acks')"
| checkpoint: "wal_reach K ser thr w acked \<Longrightarrow> fold_ok K r lines frontier acked w \<Longrightarrow>
    fold_turn K r lines frontier w = (w', ok) \<Longrightarrow> wal_reach K ser thr w' acked"

lemma acked_of_iff: "(ev, seq) \<in> set (acked_of acks) \<longleftrightarrow> (ev, Some seq) \<in> set acks"
  by (induction acks) (auto simp: acked_of_def split: option.splits)

definition acked_safe :: "codec_ops \<Rightarrow> ('ev \<Rightarrow> bytes option) \<Rightarrow> wal_writer \<Rightarrow> ('ev \<times> u64) list \<Rightarrow> bool" where
  "acked_safe K ser w acked \<longleftrightarrow>
     (\<forall>(ev, seq)\<in>set acked. \<exists>j. ser ev = Some j \<and> recoverable K (w_fs w) (seq, j))"

lemma fold_keeps_acked:
  assumes "codec_laws K" "writer_inv K frs w" "acked_safe K ser w acked"
    and "fold_ok K r pl q acked w" "fold_turn K r pl q w = (w', ok)"
  shows "(\<exists>frs'. writer_inv K frs' w') \<and> acked_safe K ser w' acked"
proof -
  have "\<forall>(ev, seq)\<in>set acked. seq \<le> q" using assms(4) by (simp add: fold_ok_def Let_def)
  with fold_turn_inv [OF assms(1,2,4,5)] assms(3) show ?thesis
    by (fastforce simp: acked_safe_def)
qed

lemma batch_keeps_acked:
  assumes "writer_inv K frs w" "acked_safe K ser w acked"
    and "batch_turn K ser io turns fio sync_ok ev q w = (w1, acks, pending, q1)"
    and "ser_bounded ser"
  shows "(\<exists>frs'. writer_inv K frs' w1) \<and> acked_safe K ser w1 (acked @ acked_of acks)"
proof -
  obtain new where inv: "writer_inv K (frs @ new) w1"
    and new: "\<And>ev seq. (ev, Some seq) \<in> set acks \<Longrightarrow> \<exists>j. ser ev = Some j \<and> (seq, j) \<in> set new"
    using batch_turn_durable [OF assms(1,3,4)] by blast
  have "recoverable K (w_fs w1) fr" if "recoverable K (w_fs w) fr" for fr
    using recoverable_grows [OF batch_turn_grows [OF _ assms(3)] writer_inv_active(1,3) [OF assms(1)] that]
      writer_inv_active(3) [OF assms(1)] by blast
  moreover have "recoverable K (w_fs w1) fr" if "fr \<in> set new" for fr
    using writer_inv_frames [OF inv] that by (auto simp: recoverable_def all_frames_def)
  ultimately have "acked_safe K ser w1 (acked @ acked_of acks)"
    using assms(2) new by (fastforce simp: acked_safe_def acked_of_iff)
  with inv show ?thesis by blast
qed

lemma reach_safe:
  assumes "wal_reach K ser thr w acked" and "codec_laws K"
    and "ser_bounded ser"
  shows "(\<exists>frs. writer_inv K frs w) \<and> acked_safe K ser w acked"
  using assms(1)
proof (induction rule: wal_reach.induct)
  case (append w acked io turns fio sync_ok ev q w1 acks pending q1 r w' acks' ck q')
  obtain frs1 where b: "writer_inv K frs1 w1" "acked_safe K ser w1 (acked @ acked_of acks)"
    using append.IH batch_keeps_acked [OF _ _ append.hyps(2) assms(3)] by blast
  show ?case
  proof (cases pending)
    case None
    then have "acks' = acks" "w' = (if length (disk w1) > thr then seal_turn K r w1 else w1)"
      using append.hyps(2,4) by (auto simp: append_turn_def)
    then show ?thesis
      using b append.hyps(3) None seal_turn_inv [OF assms(2) b(1), of r]
      by (fastforce simp: rotation_ok_def acked_safe_def)
  next
    case (Some pf)
    obtain lines frontier where pf: "pf = (lines, frontier)" by (cases pf)
    obtain w2 ok where f: "fold_turn K r lines frontier w1 = (w2, ok)"
      by (cases "fold_turn K r lines frontier w1")
    have "acks' = acks" "w' = w2"
      using append.hyps(2,4) Some pf f by (auto simp: append_turn_def)
    then show ?thesis
      using fold_keeps_acked [OF assms(2) b _ f] append.hyps(3) Some pf by (simp add: rotation_ok_def)
  qed
next
  case (checkpoint w acked r lines frontier w' ok)
  then show ?case using fold_keeps_acked [OF assms(2)] by blast
qed (auto simp: acked_safe_def)


definition demo_ser :: "bytes \<Rightarrow> bytes option" where
  "demo_ser l = (if length l \<le> 8 then Some l else None)"

definition demo_writer :: wal_writer where
  "demo_writer = \<lparr>w_fs = \<lparr>seg_files = [], active_file = Some (active_header 1), legacy_file = None\<rparr>,
     w_buf = [], w_next = 1, w_poisoned = False\<rparr>"


section \<open>A reset that stops half way\<close>

lemma frame_is_no_header:
  assumes "length j \<le> MAX_JOURNAL_FRAME_PAYLOAD_BYTES"
  shows "\<not> active_ok (encode_frame K [] q j @ rest)"
proof
  assume "active_ok (encode_frame K [] q j @ rest)"
  then have "u32_to_le (of_nat (length j)) = ACTIVE_MAGIC"
    by (simp add: active_ok_def encode_frame_def subslice_def)
  then have "u32_from_le ACTIVE_MAGIC = of_nat (length j)" by (metis u32_from_to_le)
  moreover have "u32_from_le ACTIVE_MAGIC = 826365767"
    by (simp add: u32_from_le_def ACTIVE_MAGIC_def)
  ultimately have "unat (of_nat (length j) :: u32) = 826365767" by (simp add: flip: word_unat_eq_iff)
  then show False
    using assms by (simp add: unat_of_nat MAX_JOURNAL_FRAME_PAYLOAD_BYTES_def)
qed

lemma not_active_ok:
  assumes "\<not> active_ok bs"
  shows "active_frames K (Some bs) = []" and "journal_truncate_torn_active K (Some bs) = Some []"
proof -
  from assms have "length bs < ACTIVE_HEADER_LEN \<or> subslice 0 4 bs \<noteq> ACTIVE_MAGIC"
    by (auto simp: active_ok_def)
  then show "journal_truncate_torn_active K (Some bs) = Some []"
    by (cases bs) (simp_all add: journal_truncate_torn_active_def)
  show "active_frames K (Some bs) = []" using assms by (simp add: active_frames_def)
qed

lemma journal_fold_made:
  assumes "journal_fold K fs stale rm_ok pl q nx = (ops, True)"
  obtains pre where "ops = pre @ journal_reset_active nx stale"
  using assms by (auto simp: journal_fold_def Let_def split: prod.splits option.splits)

text \<open>C28: When a fold truncates the active file and then fails to write the new header, it reports
  failure but the writer stays in service: the next append is acknowledged with a sequence number
  although it lands in a file without header, of which recovery keeps nothing.\<close>

theorem ack_after_failed_reset_is_lost:
  assumes "\<not> w_poisoned w" and "rot_flush r = (True, 0)"
    and "journal_fold K (w_fs (snd (flush (True, 0) w))) [] (rot_rm r) pl q (w_next w) = (ops, True)"
    and "rot_steps r + 2 = length ops"
    and "ser ev = Some j" and "length j \<le> MAX_JOURNAL_FRAME_PAYLOAD_BYTES"
    and "fold_turn K r pl q w = (w1, ok)"
    and "batch_turn K ser (\<lambda>_. (True, k)) 0 (True, 0) True ev [] w1 = (w2, acks, pending, q')"
  shows "\<not> ok \<and> acks = [(ev, Some (w_next w))]
    \<and> active_frames K (active_file (w_fs w2)) = []
    \<and> journal_truncate_torn_active K (active_file (w_fs w2)) = Some []"
proof -
  let ?v = "snd (flush (True, 0) w)"
  have v: "w_buf ?v = []" "w_next ?v = w_next w" "\<not> w_poisoned ?v"
    using assms(1) by (simp_all add: flush_def)
  obtain pre where ops: "ops = pre @ journal_reset_active (w_next w) []"
    using journal_fold_made [OF assms(3)] by blast
  then have steps: "take (rot_steps r) ops = pre @ [Set_Active []]"
    using assms(4) by (simp add: journal_reset_active_def)
  have w1: "w1 = rotate r ops ?v" "\<not> ok"
    using assms(2,3,4,7) v by (auto simp: fold_turn_def Let_def)
  have "w_fs w1 = exec_ops (pre @ [Set_Active []]) (w_fs ?v)"
    by (simp only: w1 rotate_def steps) simp
  then have "disk w1 = []" by (simp add: disk_def)
  moreover have "w_buf w1 = []" "w_next w1 = w_next w" "\<not> w_poisoned w1"
    using v by (simp_all add: w1 rotate_def)
  ultimately have empty: "disk w1 = []" "w_buf w1 = []" "w_next w1 = w_next w" "\<not> w_poisoned w1"
    by simp_all
  let ?f = "encode_frame K [] (w_next w) j"
  have "active_file (w_fs w2) = Some ?f" "acks = [(ev, Some (w_next w))]"
    using assms(5,8) empty
    by (auto simp: batch_turn_def append_event_def commit_batch_def write_all_def flush_def Let_def)
  moreover have "\<not> active_ok ?f" using frame_is_no_header [OF assms(6), of K "w_next w" "[]"] by simp
  ultimately show ?thesis using w1(2) by (simp add: not_active_ok)
qed

theorem ack_after_failed_reset_is_lost_witness:
  "\<exists>w1 w2. fold_turn null_codec \<lparr>rot_flush = (True, 0), rot_stale = 0, rot_rm = (\<lambda>_. True),
        rot_steps = 3, rot_sync = True\<rparr> [65] 0 demo_writer = (w1, False)
     \<and> batch_turn null_codec demo_ser (\<lambda>_. (True, 0)) 0 (True, 0) True [66] [] w1
        = (w2, [([66], Some 1)], None, [])
     \<and> active_frames null_codec (active_file (w_fs w2)) = []"
proof -
  let ?r = "\<lparr>rot_flush = (True, 0), rot_stale = 0, rot_rm = (\<lambda>_. True :: bool),
        rot_steps = 3, rot_sync = True\<rparr>"
  obtain ops where f: "journal_fold null_codec (w_fs (snd (flush (True, 0) demo_writer))) []
      (\<lambda>_. True) [65] 0 1 = (ops, True)" and len: "length ops = 5"
    by (simp add: journal_fold_def fold_body_def segment_file_bytes_def lz4_frame_compress_def
        null_codec_def flush_def demo_writer_def set_disk_def disk_def write_segment_ops_def
        journal_reset_active_def Let_def)
  obtain w1 ok where t: "fold_turn null_codec ?r [65] 0 demo_writer = (w1, ok)"
    by (cases "fold_turn null_codec ?r [65] 0 demo_writer")
  obtain w2 acks pending q' where b: "batch_turn null_codec demo_ser (\<lambda>_. (True, 0)) 0 (True, 0) True
      [66] [] w1 = (w2, acks, pending, q')"
    by (cases "batch_turn null_codec demo_ser (\<lambda>_. (True, 0)) 0 (True, 0) True [66] [] w1")
  have "pending = None \<and> q' = []" using b by (auto simp: batch_turn_def split: prod.splits)
  with ack_after_failed_reset_is_lost [OF _ _ _ _ _ _ t b, of ops "[66]"] f len t b show ?thesis
    by (simp add: demo_writer_def demo_ser_def MAX_JOURNAL_FRAME_PAYLOAD_BYTES_def)
qed

end
