(* ===== verification/GB_Writer_Loop.thy ===== *)
theory GB_Writer_Loop
  imports GB_Journal_Writer "HOL-Library.Multiset"
begin

text \<open>
  The receive loop of the journal writer thread (\<open>src/src/lib.rs\<close>) over the messages it is sent: turns of
  \<open>GB_Journal_Writer\<close>, each with its own outcomes, until no message is left. A message that has not arrived when
  a batch drains the channel is one the batch's number of turns does not reach.
\<close>

section \<open>The loop\<close>

record turn_io =
  tn_writes :: "nat \<Rightarrow> io"
  tn_turns :: nat
  tn_flush :: io
  tn_sync :: bool
  tn_rotation :: rot_io

lemma drain_consumes: "drain K ser io turns q st = (st', pending, q') \<Longrightarrow> length q' \<le> length q"
proof (induction turns arbitrary: q st)
  case (Suc turns)
  show ?case
  proof (cases q)
    case (Cons m rest)
    then show ?thesis 
      using Suc.prems Suc.IH [of rest "append_event K ser io (case m of Append ev \<Rightarrow> ev) st"] by (cases m) (auto split: if_splits)
  qed (use Suc.prems in \<open>auto split: if_splits\<close>)
qed simp

lemma append_turn_consumes: "append_turn K ser thr io turns fio sync r ev q w = (w', acks, fold_ack, q') \<Longrightarrow> length q' \<le> length q"
  by (auto simp: append_turn_def batch_turn_def split: prod.splits option.splits dest: drain_consumes)

function writer_loop ::
  "codec_ops \<Rightarrow> ('ev \<Rightarrow> bytes option) \<Rightarrow> nat \<Rightarrow> (nat \<Rightarrow> turn_io) \<Rightarrow> nat \<Rightarrow> 'ev wal_msg list \<Rightarrow> wal_writer \<Rightarrow> wal_writer \<times> 'ev acks \<times> bool list" where
  "writer_loop K ser seal_threshold outcomes n [] w = (w, [], [])"
| "writer_loop K ser seal_threshold outcomes n (Append ev # q) w =
     (let t = outcomes n in
      case append_turn K ser seal_threshold (tn_writes t) (tn_turns t) (tn_flush t) (tn_sync t) (tn_rotation t) ev q w of
        (w1, acks, fold_ack, q1) \<Rightarrow>
          (case writer_loop K ser seal_threshold outcomes (Suc n) q1 w1 of
             (w2, acks2, folds) \<Rightarrow> (w2, acks @ acks2, (case fold_ack of Some ok \<Rightarrow> ok # folds | None \<Rightarrow> folds))))"
| "writer_loop K ser seal_threshold outcomes n (Checkpoint lines frontier # q) w =
     (case fold_turn K (tn_rotation (outcomes n)) lines frontier w of
        (w1, ok) \<Rightarrow>
          (case writer_loop K ser seal_threshold outcomes (Suc n) q w1 of (w2, acks2, folds) \<Rightarrow> (w2, acks2, ok # folds)))"
  by pat_completeness auto
termination
proof (relation "measure (\<lambda>(K, ser, thr, outcomes, n, q, w). length q)", goal_cases)
  case (2 K ser thr outcomes n ev q w t w1 r1 acks r2 fold_ack q1)
  then show ?case using append_turn_consumes [OF 2(2) [symmetric, folded 2(3,4)]] by simp
qed simp_all

section \<open>What a turn answers\<close>

fun appends :: "'ev wal_msg list \<Rightarrow> 'ev list" where
  "appends [] = []"
| "appends (Append ev # q) = ev # appends q"
| "appends (Checkpoint _ _ # q) = appends q"

fun checkpoints :: "'ev wal_msg list \<Rightarrow> nat" where
  "checkpoints [] = 0"
| "checkpoints (Append _ # q) = checkpoints q"
| "checkpoints (Checkpoint _ _ # q) = Suc (checkpoints q)"

definition taken :: "'ev batch_state \<Rightarrow> 'ev list" where
  "taken st = map fst (snd (snd (snd st))) @ map fst (fst (snd (snd st)))"

lemma append_event_taken: "mset (taken (append_event K ser io ev st)) = add_mset ev (mset (taken st))"
  by (cases st) (auto simp: append_event_def taken_def Let_def split: option.splits prod.splits)

lemma drain_taken:
  "drain K ser io turns q st = (st', pending, q') \<Longrightarrow>
     mset (taken st') + mset (appends q') = mset (taken st) + mset (appends q)
     \<and> checkpoints q = checkpoints q' + (case pending of Some _ \<Rightarrow> 1 | None \<Rightarrow> 0)"
proof (induction turns arbitrary: q st)
  case (Suc turns)
  show ?case
  proof (cases "1024 \<le> length (fst (snd (snd st)))")
    case False
    then show ?thesis
    proof (cases q)
      case (Cons m rest)
      then show ?thesis using Suc False append_event_taken [of K ser io _ st] by (cases m) auto
    qed (use Suc False in auto)
  qed (use Suc in auto)
qed auto

lemma commit_batch_taken: "commit_batch fio sync st = (w, acks) \<Longrightarrow> map fst acks = taken st"
  by (cases st) (auto simp: commit_batch_def taken_def Let_def split: prod.splits)

lemma append_turn_answers:
  assumes "append_turn K ser thr io turns fio sync r ev q w = (w', acks, fold_ack, q')"
  shows "mset (map fst acks) + mset (appends q') = add_mset ev (mset (appends q))"
    "checkpoints q = checkpoints q' + (case fold_ack of Some _ \<Rightarrow> 1 | None \<Rightarrow> 0)"
proof -
  obtain st pending w1 where d: "drain K ser io turns q (append_event K ser io ev (w, \<not> w_poisoned w, [], [])) = (st, pending, q')"
    "commit_batch fio sync st = (w1, acks)" "(fold_ack = None) = (pending = None)"
    using assms by (auto simp: append_turn_def batch_turn_def split: prod.splits option.splits)
  show "mset (map fst acks) + mset (appends q') = add_mset ev (mset (appends q))"
    using drain_taken [OF d(1)] append_event_taken [of K ser io ev "(w, \<not> w_poisoned w, [], [])"] commit_batch_taken [OF d(2)]
    by (simp add: taken_def)
  show "checkpoints q = checkpoints q' + (case fold_ack of Some _ \<Rightarrow> 1 | None \<Rightarrow> 0)"
    using drain_taken [OF d(1)] d(3) by (auto split: option.splits)
qed

lemma writer_loop_answers:
  "writer_loop K ser thr outcomes n q w = (w', acks, folds) \<Longrightarrow> mset (map fst acks) = mset (appends q) \<and> length folds = checkpoints q"
proof (induction K ser thr outcomes n q w arbitrary: w' acks folds rule: writer_loop.induct)
  case (2 K ser thr outcomes n ev q w)
  let ?t = "outcomes n"
  obtain w1 acks1 fold_ack q1 where turn: "append_turn K ser thr (tn_writes ?t) (tn_turns ?t) (tn_flush ?t) (tn_sync ?t) (tn_rotation ?t) ev q w = (w1, acks1, fold_ack, q1)"
    by (metis prod_cases4)
  obtain w2 acks2 folds2 where rest: "writer_loop K ser thr outcomes (Suc n) q1 w1 = (w2, acks2, folds2)" by (metis prod_cases3)
  have "mset (map fst acks2) = mset (appends q1) \<and> length folds2 = checkpoints q1"
    using "2.IH" [OF refl turn [symmetric] refl refl rest] .
  then show ?case using "2.prems" append_turn_answers [OF turn] by (auto simp: turn rest split: option.splits)
next
  case (3 K ser thr outcomes n lines frontier q w)
  then show ?case by (auto split: prod.splits)
qed auto

section \<open>A healthy device\<close>

definition turn_healthy :: "turn_io \<Rightarrow> bool" where
  "turn_healthy t \<longleftrightarrow> (\<forall>i. fst (tn_writes t i)) \<and> fst (tn_flush t) \<and> tn_sync t"

fun with_seqs :: "u64 \<Rightarrow> 'ev list \<Rightarrow> ('ev \<times> u64) list" where
  "with_seqs s [] = []"
| "with_seqs s (ev # evs) = (ev, s) # with_seqs (s + 1) evs"

definition all_acked :: "u64 \<Rightarrow> 'ev list \<Rightarrow> 'ev acks" where
  "all_acked s evs = map (\<lambda>(ev, seq). (ev, Some seq)) (with_seqs s evs)"

lemma with_seqs_append [simp]: "with_seqs s (xs @ ys) = with_seqs s xs @ with_seqs (s + of_nat (length xs)) ys"
  by (induction xs arbitrary: s) (simp_all add: algebra_simps)

definition batch_healthy :: "u64 \<Rightarrow> 'ev list \<Rightarrow> 'ev batch_state \<Rightarrow> bool" where
  "batch_healthy s evs st \<longleftrightarrow> (\<exists>w. st = (w, True, with_seqs s evs, []) \<and> w_next w = s + of_nat (length evs) \<and> \<not> w_poisoned w)"

lemma append_event_healthy:
  assumes "batch_healthy s evs st" "ser ev \<noteq> None" "\<forall>i. fst (io i)"
  shows "batch_healthy s (evs @ [ev]) (append_event K ser io ev st)"
proof -
  obtain w json where w: "st = (w, True, with_seqs s evs, [])" "w_next w = s + of_nat (length evs)" "\<not> w_poisoned w" "ser ev = Some json"
    using assms(1,2) by (auto simp: batch_healthy_def)
  obtain k where "io (length (with_seqs s evs)) = (True, k)" using assms(3) by (metis prod.collapse)
  then show ?thesis by (simp add: append_event_def write_all_def w Let_def batch_healthy_def set_disk_def algebra_simps)
qed

lemma drain_healthy:
  assumes "\<forall>i. fst (io i)"
  shows "drain K ser io turns q st = (st', pending, q') \<Longrightarrow> batch_healthy s evs st \<Longrightarrow> list_all (\<lambda>ev. ser ev \<noteq> None) (appends q)
    \<Longrightarrow> \<exists>new. appends q = new @ appends q' \<and> batch_healthy s (evs @ new) st'"
proof (induction turns arbitrary: q st evs)
  case (Suc turns)
  show ?case
  proof (cases "1024 \<le> length (fst (snd (snd st)))")
    case False
    show ?thesis
    proof (cases q)
      case (Cons m rest)
      then show ?thesis
      proof (cases m)
        case (Append ev)
        have "batch_healthy s (evs @ [ev]) (append_event K ser io ev st)"
          using Suc.prems(2,3) by (intro append_event_healthy assms) (simp_all add: Cons Append)
        then show ?thesis using Suc.IH [of rest "append_event K ser io ev st" "evs @ [ev]"] Suc.prems False by (auto simp: Cons Append)
      qed (use Suc.prems False in auto)
    qed (use Suc.prems False in auto)
  qed (use Suc.prems in auto)
qed auto

lemma commit_batch_healthy:
  assumes "batch_healthy s evs st" "fst fio" "sync" "commit_batch fio sync st = (w, acks)"
  shows "acks = all_acked s evs \<and> w_next w = s + of_nat (length evs) \<and> \<not> w_poisoned w"
  using assms by (auto simp: batch_healthy_def commit_batch_def all_acked_def flush_def set_disk_def Let_def split: prod.splits)

lemma rotations_keep_numbers:
  "w_next (fst (fold_turn K r lines frontier w)) = w_next w" "\<not> w_poisoned w \<Longrightarrow> \<not> w_poisoned (fst (fold_turn K r lines frontier w))"
  "w_next (seal_turn K r w) = w_next w" "w_poisoned (seal_turn K r w) = w_poisoned w"
  by (auto simp: fold_turn_def seal_turn_def rotate_def flush_def set_disk_def Let_def split: prod.splits)

lemma append_turn_healthy:
  assumes "append_turn K ser thr io turns fio sync r ev q w = (w', acks, fold_ack, q')"
    and "\<not> w_poisoned w" "\<forall>i. fst (io i)" "fst fio" "sync" "list_all (\<lambda>ev. ser ev \<noteq> None) (ev # appends q)"
  shows "\<exists>new. appends q = new @ appends q' \<and> acks = all_acked (w_next w) (ev # new)
    \<and> w_next w' = w_next w + of_nat (length (ev # new)) \<and> \<not> w_poisoned w'"
proof -
  obtain st pending w1 where d: "drain K ser io turns q (append_event K ser io ev (w, \<not> w_poisoned w, [], [])) = (st, pending, q')"
    "commit_batch fio sync st = (w1, acks)"
    and w': "w' = w1 \<or> w' = seal_turn K r w1 \<or> (\<exists>lines frontier. w' = fst (fold_turn K r lines frontier w1))"
    using assms(1) by (auto simp: append_turn_def batch_turn_def split: prod.splits option.splits if_splits) (metis fst_conv)+
  have "batch_healthy (w_next w) [] (w, \<not> w_poisoned w, [], [])" using assms(2) by (simp add: batch_healthy_def)
  from append_event_healthy [OF this, of ser ev io K] assms(3,6)
  have "batch_healthy (w_next w) [ev] (append_event K ser io ev (w, \<not> w_poisoned w, [], []))" by simp
  from drain_healthy [OF assms(3) d(1) this] assms(6)
  obtain new where new: "appends q = new @ appends q'" "batch_healthy (w_next w) (ev # new) st" by auto
  then show ?thesis
    using commit_batch_healthy [OF new(2) assms(4,5) d(2)] w' rotations_keep_numbers by (intro exI [of _ new]) (auto simp del: length_Cons)
qed

lemma all_acked_append: "all_acked s (xs @ ys) = all_acked s xs @ all_acked (s + of_nat (length xs)) ys"
  by (simp add: all_acked_def)

lemma writer_loop_healthy:
  "writer_loop K ser thr outcomes n q w = (w', acks, folds) \<Longrightarrow> \<not> w_poisoned w \<Longrightarrow> (\<And>i. turn_healthy (outcomes i))
     \<Longrightarrow> list_all (\<lambda>ev. ser ev \<noteq> None) (appends q) \<Longrightarrow> acks = all_acked (w_next w) (appends q)"
proof (induction K ser thr outcomes n q w arbitrary: w' acks folds rule: writer_loop.induct)
  case (2 K ser thr outcomes n ev q w)
  let ?t = "outcomes n"
  obtain w1 acks1 fold_ack q1 where turn: "append_turn K ser thr (tn_writes ?t) (tn_turns ?t) (tn_flush ?t) (tn_sync ?t) (tn_rotation ?t) ev q w = (w1, acks1, fold_ack, q1)"
    by (metis prod_cases4)
  obtain w2 acks2 folds2 where rest: "writer_loop K ser thr outcomes (Suc n) q1 w1 = (w2, acks2, folds2)" by (metis prod_cases3)
  have t: "\<forall>i. fst (tn_writes ?t i)" "fst (tn_flush ?t)" "tn_sync ?t" using "2.prems"(3) [of n] by (simp_all add: turn_healthy_def)
  obtain new where new: "appends q = new @ appends q1" "acks1 = all_acked (w_next w) (ev # new)"
    "w_next w1 = w_next w + of_nat (length (ev # new))" "\<not> w_poisoned w1"
    using append_turn_healthy [OF turn "2.prems"(2) t] "2.prems"(4) by auto
  have "acks2 = all_acked (w_next w1) (appends q1)"
    using "2.IH" [OF refl turn [symmetric] refl refl rest new(4) "2.prems"(3)] "2.prems"(4) new(1) by simp
  moreover have "acks = acks1 @ acks2" using "2.prems"(1) by (simp add: turn rest)
  moreover have "appends (Append ev # q) = (ev # new) @ appends q1" by (simp add: new(1))
  ultimately show ?case using new(2,3) all_acked_append [of "w_next w" "ev # new" "appends q1"] by (simp del: length_Cons append_Cons)
next
  case (3 K ser thr outcomes n lines frontier q w)
  obtain w1 ok where turn: "fold_turn K (tn_rotation (outcomes n)) lines frontier w = (w1, ok)" by (metis prod.exhaust)
  obtain w2 acks2 folds2 where rest: "writer_loop K ser thr outcomes (Suc n) q w1 = (w2, acks2, folds2)" by (metis prod_cases3)
  have "acks2 = all_acked (w_next w1) (appends q)" "w_next w1 = w_next w"
    using "3.IH" [OF turn [symmetric] rest _ "3.prems"(3)] "3.prems"(2,4)
      rotations_keep_numbers(1,2) [where K = K and r = "tn_rotation (outcomes n)" and lines = lines and frontier = frontier and w = w] by (simp_all add: turn)
  then show ?case using "3.prems"(1) by (simp add: turn rest)
qed (simp add: all_acked_def)

section \<open>Properties\<close>

text \<open>C2 Every request is answered. Whatever fails, the receive loop works off the messages it is sent, answering every
  append and every checkpoint exactly once. On a writer that is not poisoned, with writes, flushes and
  syncs that succeed and events that serialize, every append is answered with its sequence number, in
  the order of arrival and counting up from the next number, whatever the outcome of the rotations in between.\<close>

theorem every_request_is_answered:
  "case writer_loop K ser seal_threshold outcomes n q w of
     (_, acks, folds) \<Rightarrow> mset (map fst acks) = mset (appends q) \<and> length folds = checkpoints q
       \<and> (\<not> w_poisoned w \<and> (\<forall>i. turn_healthy (outcomes i)) \<and> list_all (\<lambda>ev. ser ev \<noteq> None) (appends q)
            \<longrightarrow> acks = all_acked (w_next w) (appends q))"
proof -
  obtain w' acks folds where run: "writer_loop K ser seal_threshold outcomes n q w = (w', acks, folds)" by (metis prod_cases3)
  show ?thesis using writer_loop_answers [OF run] writer_loop_healthy [OF run] by (simp add: run)
qed

definition healthy_turn :: turn_io where
  "healthy_turn = \<lparr>tn_writes = (\<lambda>_. (True, 0)), tn_turns = 8, tn_flush = (True, 0), tn_sync = True,
     tn_rotation = \<lparr>rot_flush = (True, 0), rot_stale = 0, rot_rm = (\<lambda>_. True), rot_steps = 0, rot_sync = False\<rparr>\<rparr>"

theorem every_request_is_answered_witness:
  "fst (snd (writer_loop null_codec demo_ser 1000 (\<lambda>_. healthy_turn) 0 [Append [65], Checkpoint [] 0, Append [65]] demo_writer))
     = [([65], Some 1), ([65], Some 2)]"
proof -
  let ?q = "[Append [65], Checkpoint [] 0, Append [65]]"
  have "\<not> w_poisoned demo_writer" "turn_healthy healthy_turn" "list_all (\<lambda>ev. demo_ser ev \<noteq> None) (appends ?q)" "w_next demo_writer = 1"
    by (simp_all add: demo_writer_def healthy_turn_def turn_healthy_def demo_ser_def)
  then show ?thesis
    using every_request_is_answered [where K = null_codec and ser = demo_ser and seal_threshold = 1000
        and outcomes = "\<lambda>_. healthy_turn" and n = 0 and q = ?q and w = demo_writer]
    by (auto simp: all_acked_def split: prod.splits)
qed

end
