(* ===== verification/GB_Retention.thy ===== *)
theory GB_Retention
  imports GB_Prelude
begin

text \<open>
  The journal retention profile (\<open>RetentionProfile\<close> of \<open>src/src/lib.rs\<close>): parsing the open
  option, printing it back, what it retains, the seal threshold it derives, and the checkpoint
  decision of \<open>save_state_checkpoint\<close>.
\<close>

definition ACTIVE_SEAL_THRESHOLD :: u64 where
  "ACTIVE_SEAL_THRESHOLD = 64 * 1024 * 1024"

datatype retention_profile = Full | Budget u64 | FrontierOnly

datatype retention_error = Invalid_Budget string | Unrecognized_Profile string

definition parse_u64 :: "string \<Rightarrow> u64 option" where
  "parse_u64 s = map_option of_nat (parse_unsigned (2 ^ 64) s)"

definition parse :: "string option \<Rightarrow> (retention_error, retention_profile) result" where
  "parse raw_opt =
     (case raw_opt of
        None \<Rightarrow> Inr FrontierOnly
      | Some raw \<Rightarrow>
          let v = to_ascii_lowercase (trim raw) in
          if v = [] \<or> v = ''frontier_only'' then Inr FrontierOnly
          else if v = ''full'' then Inr Full
          else case strip_prefix ''budget:'' v of
            Some bytes \<Rightarrow>
              (case parse_u64 bytes of
                 Some n \<Rightarrow> if n > 0 then Inr (Budget n) else Inl (Invalid_Budget raw)
               | None \<Rightarrow> Inl (Invalid_Budget raw))
          | None \<Rightarrow> Inl (Unrecognized_Profile raw))"

fun as_str :: "retention_profile \<Rightarrow> string" where
  "as_str Full = ''full''"
| "as_str FrontierOnly = ''frontier_only''"
| "as_str (Budget n) = ''budget:'' @ dec (unat n)"

fun tx_time_retention :: "retention_profile \<Rightarrow> string" where
  "tx_time_retention Full = ''full''"
| "tx_time_retention (Budget n) = ''windowed''"
| "tx_time_retention FrontierOnly = ''none''"

definition clamp :: "'a::linorder \<Rightarrow> 'a \<Rightarrow> 'a \<Rightarrow> 'a" where
  "clamp x lo hi = (if x < lo then lo else if x > hi then hi else x)"

fun seal_threshold :: "retention_profile \<Rightarrow> u64" where
  "seal_threshold (Budget n) = clamp (n div 4) (64 * 1024) ACTIVE_SEAL_THRESHOLD"
| "seal_threshold _ = ACTIVE_SEAL_THRESHOLD"

text \<open>Whether a checkpoint folds; \<open>sealed_history_bytes\<close> is the size of the sealed segments.\<close>

fun should_fold :: "retention_profile \<Rightarrow> u64 \<Rightarrow> bool" where
  "should_fold FrontierOnly sealed_history_bytes = True"
| "should_fold Full sealed_history_bytes = False"
| "should_fold (Budget n) sealed_history_bytes = (sealed_history_bytes > n)"

section \<open>Properties\<close>

lemma digit_plain: "is_ascii_digit c \<Longrightarrow> code c < 128 \<and> \<not> is_whitespace (code c)"
  by (auto simp: is_ascii_digit_def is_whitespace_def)

lemma lowercase_digits: "list_all is_ascii_digit s \<Longrightarrow> to_ascii_lowercase s = s"
  by (induction s) (auto simp: to_ascii_lowercase_def is_ascii_digit_def is_ascii_uppercase_def)

lemma budget_text:
  "trim (''budget:'' @ dec n) = ''budget:'' @ dec n"
  "to_ascii_lowercase (''budget:'' @ dec n) = ''budget:'' @ dec n"
proof -
  have "\<forall>c\<in>set (''budget:'' @ dec n). code c < 128 \<and> \<not> is_whitespace (code c)"
    using dec_digits [of n] digit_plain
    by (auto simp: list_all_iff code_def is_whitespace_def)
  then show "trim (''budget:'' @ dec n) = ''budget:'' @ dec n" by (rule trim_ascii_id)
  have "to_ascii_lowercase (''budget:'' @ dec n) = to_ascii_lowercase ''budget:'' @ to_ascii_lowercase (dec n)"
    by (simp add: to_ascii_lowercase_def)
  also have "to_ascii_lowercase ''budget:'' = ''budget:''"
    by (simp add: to_ascii_lowercase_def is_ascii_uppercase_def code_def)
  finally show "to_ascii_lowercase (''budget:'' @ dec n) = ''budget:'' @ dec n"
    using lowercase_digits [OF dec_digits] by simp
qed

lemma trim_literals:
  "trim ''full'' = ''full''" "trim ''frontier_only'' = ''frontier_only''"
  by (rule trim_ascii_id, simp add: code_def is_whitespace_def)+

lemma parse_budget: "parse (Some (''budget:'' @ dec (unat n))) =
  (if n > 0 then Inr (Budget n) else Inl (Invalid_Budget (''budget:'' @ dec (unat n))))"
proof -
  have "strip_prefix ''budget:'' (''budget:'' @ dec (unat n)) = Some (dec (unat n))"
    by (rule strip_prefix_append)
  moreover have "parse_u64 (dec (unat n)) = Some n"
    using unat_less_exp [of n] by (simp add: parse_u64_def)
  ultimately show ?thesis
    unfolding parse_def option.case Let_def budget_text by simp
qed

text \<open>Printing a profile and parsing it back gives the same profile, for every profile the
  parser can produce; a printed budget of zero is refused.\<close>

theorem retention_round_trip:
  "parse (Some (as_str p)) = (if p = Budget 0 then Inl (Invalid_Budget (as_str p)) else Inr p)"
proof (cases p)
  case (Budget n)
  then show ?thesis using parse_budget [of n] by (auto simp: word_neq_0_conv)
next
  case Full
  then show ?thesis
    by (simp add: parse_def trim_literals to_ascii_lowercase_def is_ascii_uppercase_def code_def)
next
  case FrontierOnly
  then show ?thesis
    by (simp add: parse_def trim_literals to_ascii_lowercase_def is_ascii_uppercase_def code_def)
qed

text \<open>The seal threshold stays between 64 KiB and 64 MiB for every profile, and for a budget
  inside that window it is a quarter of the budget, so sealed history can reach the budget.\<close>

theorem seal_threshold_bounds:
  "64 * 1024 \<le> unat (seal_threshold p) \<and> unat (seal_threshold p) \<le> 64 * 1024 * 1024
   \<and> (p = Budget n \<longrightarrow> 256 * 1024 \<le> unat n \<longrightarrow> 4 * unat (seal_threshold p) \<le> unat n)"
proof (cases p)
  case (Budget m)
  have q: "unat (m div 4) = unat m div 4" for m :: u64 by (simp add: unat_div)
  show ?thesis
    unfolding Budget seal_threshold.simps clamp_def
    by (auto simp: ACTIVE_SEAL_THRESHOLD_def word_less_nat_alt q not_less)
qed (auto simp: ACTIVE_SEAL_THRESHOLD_def)

theorem seal_threshold_bounds_witness:
  "4 * unat (seal_threshold (Budget 1048576)) \<le> unat (1048576 :: u64)"
  using seal_threshold_bounds [of "Budget 1048576" 1048576] by simp

end
