(* ===== verification/GB_Base64.thy ===== *)
theory GB_Base64
  imports GB_Prelude
begin

text \<open>
  Compacted signatures (\<open>src/src/lib.rs\<close>): the base64 codec, the tagged encoding of a signature
  in signed events, and the compressed envelopes the compactor stores in the signature field. A
  Rust string is given here by its bytes. The LZ4 block codec and the JSON decoder of the envelope
  are parameters.
\<close>

unbundle bit_operations_syntax

section \<open>Base64\<close>

definition TABLE :: bytes where
  "TABLE = bytes_of ''ABCDEFGHIJKLMNOPQRSTUVWXYZabcdefghijklmnopqrstuvwxyz0123456789+/''"

definition encode_chunk :: "u8 \<Rightarrow> u8 option \<Rightarrow> u8 option \<Rightarrow> bytes" where
  "encode_chunk first second third =
     [TABLE ! unat (drop_bit 2 first),
      TABLE ! unat (push_bit 4 (first AND 3) OR drop_bit 4 (case second of None \<Rightarrow> 0 | Some b \<Rightarrow> b)),
      (case second of
         Some b \<Rightarrow> TABLE ! unat (push_bit 2 (b AND 15) OR drop_bit 6 (case third of None \<Rightarrow> 0 | Some c \<Rightarrow> c))
       | None \<Rightarrow> 61),
      (case third of Some c \<Rightarrow> TABLE ! unat (c AND 63) | None \<Rightarrow> 61)]"

fun encode_base64 :: "bytes \<Rightarrow> bytes" where
  "encode_base64 [] = []"
| "encode_base64 [a] = encode_chunk a None None"
| "encode_base64 [a, b] = encode_chunk a (Some b) None"
| "encode_base64 (a # b # c # rest) = encode_chunk a (Some b) (Some c) @ encode_base64 rest"

definition base64_value :: "u8 \<Rightarrow> u8 option" where
  "base64_value byte =
     (if 65 \<le> byte \<and> byte \<le> 90 then Some (byte - 65)
      else if 97 \<le> byte \<and> byte \<le> 122 then Some (byte - 97 + 26)
      else if 48 \<le> byte \<and> byte \<le> 57 then Some (byte - 48 + 52)
      else if byte = 43 then Some 62
      else if byte = 47 then Some 63
      else None)"

text \<open>One turn of the decoding loop: the bytes it pushes.\<close>

definition decode_chunk :: "bool \<Rightarrow> u8 \<Rightarrow> u8 \<Rightarrow> u8 \<Rightarrow> u8 \<Rightarrow> bytes option" where
  "decode_chunk final_chunk c0 c1 c2 c3 =
     (case base64_value c0 of None \<Rightarrow> None | Some a \<Rightarrow>
      case base64_value c1 of None \<Rightarrow> None | Some b \<Rightarrow>
        let out1 = push_bit 2 a OR drop_bit 4 b in
        (case (if c2 = 61 \<and> c3 = 61 \<and> final_chunk \<and> b AND 15 = 0 then Some [out1]
               else if c2 = 61 then None
               else if c3 = 61 \<and> final_chunk then
                 (case base64_value c2 of None \<Rightarrow> None | Some c \<Rightarrow>
                    if c AND 3 \<noteq> 0 then None else Some [out1, push_bit 4 b OR drop_bit 2 c])
               else
                 (case base64_value c2 of None \<Rightarrow> None | Some c \<Rightarrow>
                  case base64_value c3 of None \<Rightarrow> None | Some d \<Rightarrow>
                    Some [out1, push_bit 4 b OR drop_bit 2 c, push_bit 6 c OR d])) of
           None \<Rightarrow> None
         | Some out \<Rightarrow> if \<not> final_chunk \<and> (c2 = 61 \<or> c3 = 61) then None else Some out))"

fun decode_chunks :: "bytes \<Rightarrow> bytes option" where
  "decode_chunks (c0 # c1 # c2 # c3 # rest) =
     (case decode_chunk (rest = []) c0 c1 c2 c3 of None \<Rightarrow> None
      | Some out \<Rightarrow> map_option (\<lambda>more. out @ more) (decode_chunks rest))"
| "decode_chunks _ = Some []"

definition decode_base64 :: "bytes \<Rightarrow> bytes option" where
  "decode_base64 input = (if length input mod 4 \<noteq> 0 then None else decode_chunks input)"

section \<open>Signature strings and envelopes\<close>

definition COMPACTED_MASTER_PROOF_MAGIC :: bytes where
  "COMPACTED_MASTER_PROOF_MAGIC = bytes_of ''GB-COMPACTED-MASTER-PROOF-V1'' @ [0]"
definition COMPACTED_MASTER_PROOF_V2_MAGIC :: bytes where
  "COMPACTED_MASTER_PROOF_V2_MAGIC = bytes_of ''GB-COMPACTED-MASTER-PROOF-V2'' @ [0]"
definition COMPACTED_BASE_EVENT_MAGIC :: bytes where
  "COMPACTED_BASE_EVENT_MAGIC = bytes_of ''GB-COMPACTED-BASE-EVENT-V1'' @ [0]"
definition COMPACTED_BASE_EVENT_V2_MAGIC :: bytes where
  "COMPACTED_BASE_EVENT_V2_MAGIC = bytes_of ''GB-COMPACTED-BASE-EVENT-V2'' @ [0]"
definition COMPACTED_REVISION_CHECKPOINT_MAGIC :: bytes where
  "COMPACTED_REVISION_CHECKPOINT_MAGIC = bytes_of ''GB-COMPACTED-REVISION-CHECKPOINT-V1'' @ [0]"
definition COMPACTED_REVISION_CHECKPOINT_V2_MAGIC :: bytes where
  "COMPACTED_REVISION_CHECKPOINT_V2_MAGIC = bytes_of ''GB-COMPACTED-REVISION-CHECKPOINT-V2'' @ [0]"

definition is_compacted_signature :: "bytes \<Rightarrow> bool" where
  "is_compacted_signature bs \<longleftrightarrow>
     starts_with bs COMPACTED_MASTER_PROOF_MAGIC
     \<or> starts_with bs COMPACTED_MASTER_PROOF_V2_MAGIC
     \<or> starts_with bs COMPACTED_BASE_EVENT_MAGIC
     \<or> starts_with bs COMPACTED_BASE_EVENT_V2_MAGIC
     \<or> starts_with bs COMPACTED_REVISION_CHECKPOINT_MAGIC
     \<or> starts_with bs COMPACTED_REVISION_CHECKPOINT_V2_MAGIC"

datatype wire_signature = Sig_Str bytes | Sig_Seq bytes

datatype signature_error =
    Unsupported_Signature_Encoding
  | Invalid_Compacted_Base64
  | Base64_Reserved

definition serialize_signature :: "bytes \<Rightarrow> wire_signature" where
  "serialize_signature signature =
     (if is_compacted_signature signature
      then Sig_Str (bytes_of ''b64:'' @ encode_base64 signature)
      else Sig_Seq signature)"

definition deserialize_signature :: "wire_signature \<Rightarrow> (signature_error, bytes) result" where
  "deserialize_signature w =
     (case w of
        Sig_Seq bs \<Rightarrow> Inr bs
      | Sig_Str s \<Rightarrow>
          rbind (ok_or Unsupported_Signature_Encoding (strip_prefix (bytes_of ''b64:'') s)) (\<lambda>encoded.
          rbind (ok_or Invalid_Compacted_Base64 (decode_base64 encoded)) (\<lambda>bs.
            if \<not> is_compacted_signature bs then Inl Base64_Reserved else Inr bs)))"

datatype envelope_error = Compaction_Proof_Too_Large

definition encode_compacted_envelope_json ::
  "(bytes \<Rightarrow> bytes) \<Rightarrow> bytes \<Rightarrow> bytes \<Rightarrow> usize \<Rightarrow> (envelope_error, bytes) result" where
  "encode_compacted_envelope_json compress_prepend_size magic json max_uncompressed_bytes =
     (if length json > max_uncompressed_bytes then Inl Compaction_Proof_Too_Large
      else
        let compressed = compress_prepend_size json in
        if length compressed > max_uncompressed_bytes + 4 then Inl Compaction_Proof_Too_Large
        else Inr (magic @ compressed))"

definition decode_compacted_envelope ::
  "(bytes \<Rightarrow> bytes option) \<Rightarrow> (bytes \<Rightarrow> 't option) \<Rightarrow> bytes \<Rightarrow> bytes \<Rightarrow> bytes \<Rightarrow> usize
     \<Rightarrow> (u32 \<times> 't) option" where
  "decode_compacted_envelope decompress_size_prepended from_slice signature v1_magic v2_magic
       max_uncompressed_bytes =
     (case
        (case strip_prefix v1_magic signature of
           Some payload \<Rightarrow>
             if payload = [] \<or> length payload > max_uncompressed_bytes then None else Some (1, payload)
         | None \<Rightarrow>
             (case strip_prefix v2_magic signature of
                None \<Rightarrow> None
              | Some compressed \<Rightarrow>
                  if length compressed < 4 \<or> length compressed > max_uncompressed_bytes + 4 then None
                  else
                    let declared_size = unat (u32_from_le (take 4 compressed)) in
                    if declared_size = 0 \<or> declared_size > max_uncompressed_bytes then None
                    else
                      (case decompress_size_prepended compressed of
                         None \<Rightarrow> None
                       | Some payload \<Rightarrow>
                           if length payload \<noteq> declared_size then None else Some (2, payload)))) of
        None \<Rightarrow> None
      | Some (version, payload) \<Rightarrow> map_option (Pair version) (from_slice payload))"

section \<open>The alphabet\<close>

lemma base64_value_table: "i < 64 \<Longrightarrow> base64_value (TABLE ! i) = Some (of_nat i)"
proof -
  have "list_all (\<lambda>i. base64_value (TABLE ! i) = Some (of_nat i)) [0..<64]"
    by code_simp
  then show "i < 64 \<Longrightarrow> base64_value (TABLE ! i) = Some (of_nat i)"
    by (simp add: list_all_iff)
qed

lemma base64_value_unat:
  assumes "base64_value b = Some v"
  shows "unat v =
      (if 65 \<le> unat b \<and> unat b \<le> 90 then unat b - 65
       else if 97 \<le> unat b \<and> unat b \<le> 122 then unat b - 97 + 26
       else if 48 \<le> unat b \<and> unat b \<le> 57 then unat b - 48 + 52
       else if unat b = 43 then 62 else 63)"
    and "65 \<le> unat b \<and> unat b \<le> 90 \<or> 97 \<le> unat b \<and> unat b \<le> 122
      \<or> 48 \<le> unat b \<and> unat b \<le> 57 \<or> unat b = 43 \<or> unat b = 47"
  using assms
  by (auto simp: base64_value_def word_le_nat_alt unat_sub_if' unat_plus_if' word_unat_eq_iff
      split: if_splits)

lemma base64_value_inj: "base64_value b = Some v \<Longrightarrow> base64_value b' = Some v \<Longrightarrow> b = b'"
  using base64_value_unat [of b v] base64_value_unat [of b' v]
  by (simp add: word_unat_eq_iff split: if_splits)

lemma base64_table_value:
  assumes "base64_value b = Some v"
  shows "unat v < 64 \<and> TABLE ! unat v = b"
proof -
  have lt: "unat v < 64" using base64_value_unat [OF assms] by (auto split: if_splits)
  then have "base64_value (TABLE ! unat v) = Some v" using base64_value_table [of "unat v"] by simp
  with assms base64_value_inj lt show ?thesis by blast
qed

section \<open>Bit identities\<close>

lemma small_masks: "(3 :: u8) = mask 2" "(15 :: u8) = mask 4" "(63 :: u8) = mask 6"
  by (simp_all add: mask_eq_exp_minus_1)

lemma byte_bit_out: "8 \<le> n \<Longrightarrow> \<not> bit (b :: u8) n"
  using bit_imp_le_length [of b n] by auto

lemma byte_eqI:
  fixes a b :: u8
  assumes "bit a 0 = bit b 0" "bit a 1 = bit b 1" "bit a 2 = bit b 2" "bit a 3 = bit b 3"
    "bit a 4 = bit b 4" "bit a 5 = bit b 5" "bit a 6 = bit b 6" "bit a 7 = bit b 7"
  shows "a = b"
proof (rule bit_word_eqI)
  fix n assume "n < LENGTH(8)"
  then have "n \<in> {0, 1, 2, 3, 4, 5, 6, 7}" by auto
  with assms show "bit a n \<longleftrightarrow> bit b n" by auto
qed

lemma lt64_bits: "unat (v :: u8) < 64 \<longleftrightarrow> \<not> bit v 6 \<and> \<not> bit v 7"
proof -
  have "unat v < 64 \<longleftrightarrow> take_bit 6 v = v"
    by (simp add: word_unat_eq_iff unsigned_take_bit_eq take_bit_nat_eq_self_iff)
  also have "\<dots> \<longleftrightarrow> \<not> bit v 6 \<and> \<not> bit v 7"
  proof
    assume "take_bit 6 v = v"
    then have "bit v n \<longleftrightarrow> n < 6 \<and> bit v n" for n by (metis bit_take_bit_iff)
    from this [of 6] this [of 7] show "\<not> bit v 6 \<and> \<not> bit v 7" by simp
  next
    assume "\<not> bit v 6 \<and> \<not> bit v 7"
    then show "take_bit 6 v = v" by (intro byte_eqI) (simp_all add: bit_take_bit_iff)
  qed
  finally show ?thesis .
qed

lemmas sextet_simps = small_masks bit_simps byte_bit_out

lemma encode_sextets:
  fixes a b c :: u8
  shows "unat (drop_bit 2 a) < 64" "unat (push_bit 4 (a AND 3) OR drop_bit 4 b) < 64"
    "unat (push_bit 2 (b AND 15) OR drop_bit 6 c) < 64" "unat (c AND 63) < 64"
  by (simp_all add: lt64_bits sextet_simps)

lemma sextets_join:
  fixes a b c :: u8
  shows "push_bit 2 (drop_bit 2 a) OR drop_bit 4 (push_bit 4 (a AND 3) OR drop_bit 4 b) = a"
    "push_bit 4 (push_bit 4 (a AND 3) OR drop_bit 4 b)
       OR drop_bit 2 (push_bit 2 (b AND 15) OR drop_bit 6 c) = b"
    "push_bit 6 (push_bit 2 (b AND 15) OR drop_bit 6 c) OR (c AND 63) = c"
  by (rule byte_eqI; simp add: sextet_simps)+

lemma sextets_tail:
  fixes a b :: u8
  shows "(push_bit 4 (a AND 3) OR drop_bit 4 0) AND 15 = 0"
    "(push_bit 2 (b AND 15) OR drop_bit 6 0) AND 3 = 0"
  by (rule byte_eqI; simp add: sextet_simps)+

lemma sextets_split:
  fixes a b c d :: u8
  assumes "unat a < 64" "unat b < 64" "unat c < 64" "unat d < 64"
  shows "drop_bit 2 (push_bit 2 a OR drop_bit 4 b) = a"
    "push_bit 4 ((push_bit 2 a OR drop_bit 4 b) AND 3) OR drop_bit 4 (push_bit 4 b OR drop_bit 2 c) = b"
    "push_bit 2 ((push_bit 4 b OR drop_bit 2 c) AND 15) OR drop_bit 6 (push_bit 6 c OR d) = c"
    "(push_bit 6 c OR d) AND 63 = d"
    "b AND 15 = 0 \<Longrightarrow> push_bit 4 ((push_bit 2 a OR drop_bit 4 b) AND 3) OR drop_bit 4 0 = b"
    "c AND 3 = 0 \<Longrightarrow> push_bit 2 ((push_bit 4 b OR drop_bit 2 c) AND 15) OR drop_bit 6 0 = c"
proof -
  note z = assms [unfolded lt64_bits]
  show "drop_bit 2 (push_bit 2 a OR drop_bit 4 b) = a"
    "push_bit 4 ((push_bit 2 a OR drop_bit 4 b) AND 3) OR drop_bit 4 (push_bit 4 b OR drop_bit 2 c) = b"
    "push_bit 2 ((push_bit 4 b OR drop_bit 2 c) AND 15) OR drop_bit 6 (push_bit 6 c OR d) = c"
    "(push_bit 6 c OR d) AND 63 = d"
    by (rule byte_eqI; use z in \<open>simp add: sextet_simps\<close>)+
  have low: "\<not> bit x n" if "x AND mask k = 0" "n < k" "k \<le> 8" for x :: u8 and n k
  proof -
    have "\<not> bit (x AND mask k) n" using that(1) by simp
    with that(2,3) show ?thesis by (simp add: bit_simps)
  qed
  show "push_bit 4 ((push_bit 2 a OR drop_bit 4 b) AND 3) OR drop_bit 4 0 = b" if "b AND 15 = 0"
    by (rule byte_eqI; use z that low [of b 4] in \<open>simp add: sextet_simps\<close>)
  show "push_bit 2 ((push_bit 4 b OR drop_bit 2 c) AND 15) OR drop_bit 6 0 = c" if "c AND 3 = 0"
    by (rule byte_eqI; use z that low [of c 2] in \<open>simp add: sextet_simps\<close>)
qed

section \<open>Round trips\<close>

lemma value_table_of: "unat v < 64 \<Longrightarrow> base64_value (TABLE ! unat v) = Some v"
  using base64_value_table [of "unat v"] by simp

lemma table_not_pad:
  fixes v :: u8
  assumes "unat v < 64"
  shows "TABLE ! unat v \<noteq> 61"
proof
  assume "TABLE ! unat v = 61"
  with value_table_of [OF assms] have "base64_value 61 = Some v" by simp
  then show False by (simp add: base64_value_def)
qed

lemma encode_values:
  fixes a b c :: u8
  shows "base64_value (TABLE ! unat (drop_bit 2 a)) = Some (drop_bit 2 a)"
    "base64_value (TABLE ! unat (push_bit 4 (a AND 3) OR drop_bit 4 b)) = Some (push_bit 4 (a AND 3) OR drop_bit 4 b)"
    "base64_value (TABLE ! unat (push_bit 2 (b AND 15) OR drop_bit 6 c)) = Some (push_bit 2 (b AND 15) OR drop_bit 6 c)"
    "base64_value (TABLE ! unat (c AND 63)) = Some (c AND 63)"
    "TABLE ! unat (push_bit 2 (b AND 15) OR drop_bit 6 c) \<noteq> 61" "TABLE ! unat (c AND 63) \<noteq> 61"
  by (intro value_table_of table_not_pad encode_sextets)+

lemma decode_encode_chunk:
  "encode_chunk a (Some b) (Some c) = [c0, c1, c2, c3] \<Longrightarrow> decode_chunk fin c0 c1 c2 c3 = Some [a, b, c]"
  "encode_chunk a (Some b) None = [c0, c1, c2, c3] \<Longrightarrow> decode_chunk True c0 c1 c2 c3 = Some [a, b]"
  "encode_chunk a None None = [c0, c1, c2, c3] \<Longrightarrow> decode_chunk True c0 c1 c2 c3 = Some [a]"
  using sextets_join(1) [of a b] sextets_join(2) [of a b c] sextets_join(3) [of b c]
    sextets_join(2) [of a b 0] sextets_join(1) [of a 0] encode_values(1) [of a] encode_values(2) [of a b]
    encode_values(2) [of a 0] encode_values(3,5) [of b c] encode_values(3,5) [of b 0]
    encode_values(4,6) [of c] sextets_tail
  by (auto simp: decode_chunk_def encode_chunk_def)

lemma encode_chunk_four: obtains c0 c1 c2 c3 where "encode_chunk a b c = [c0, c1, c2, c3]"
  by (simp add: encode_chunk_def)

lemma encode_base64_Nil_iff [simp]: "encode_base64 x = [] \<longleftrightarrow> x = []"
  by (cases x rule: encode_base64.cases) (auto simp: encode_chunk_def)

lemma decode_chunks_encode:
  "decode_chunks (encode_base64 x) = Some x \<and> length (encode_base64 x) mod 4 = 0"
proof (induction x rule: encode_base64.induct)
  case (2 a)
  obtain c0 c1 c2 c3 where e: "encode_chunk a None None = [c0, c1, c2, c3]" by (rule encode_chunk_four)
  then show ?case using decode_encode_chunk(3) [OF e] by simp
next
  case (3 a b)
  obtain c0 c1 c2 c3 where e: "encode_chunk a (Some b) None = [c0, c1, c2, c3]" by (rule encode_chunk_four)
  then show ?case using decode_encode_chunk(2) [OF e] by simp
next
  case (4 a b c rest)
  obtain c0 c1 c2 c3 where e: "encode_chunk a (Some b) (Some c) = [c0, c1, c2, c3]" by (rule encode_chunk_four)
  then show ?case using 4 decode_encode_chunk(1) [OF e] by (simp add: mod_Suc)
qed simp

text \<open>Decoding inverts encoding for every byte string.\<close>

theorem decode_encode_base64: "decode_base64 (encode_base64 x) = Some x"
  using decode_chunks_encode [of x] by (simp add: decode_base64_def)

lemma decode_chunk_cases:
  assumes "decode_chunk fin c0 c1 c2 c3 = Some out"
  shows "(\<exists>x y z. out = [x, y, z] \<and> encode_chunk x (Some y) (Some z) = [c0, c1, c2, c3])
    \<or> fin \<and> (\<exists>x y. out = [x, y] \<and> encode_chunk x (Some y) None = [c0, c1, c2, c3])
    \<or> fin \<and> (\<exists>x. out = [x] \<and> encode_chunk x None None = [c0, c1, c2, c3])"
proof -
  from assms obtain a b where ab: "base64_value c0 = Some a" "base64_value c1 = Some b"
    by (auto simp: decode_chunk_def split: option.splits)
  note t = base64_table_value [OF ab(1)] base64_table_value [OF ab(2)]
  consider (one) "c2 = 61" "c3 = 61" "fin" "b AND 15 = 0" "out = [push_bit 2 a OR drop_bit 4 b]"
    | (two) c where "c2 \<noteq> 61" "c3 = 61" "fin" "base64_value c2 = Some c" "c AND 3 = 0"
        "out = [push_bit 2 a OR drop_bit 4 b, push_bit 4 b OR drop_bit 2 c]"
    | (three) c d where "base64_value c2 = Some c" "base64_value c3 = Some d"
        "out = [push_bit 2 a OR drop_bit 4 b, push_bit 4 b OR drop_bit 2 c, push_bit 6 c OR d]"
    using assms ab by (auto simp: decode_chunk_def Let_def split: option.splits if_splits)
  then show ?thesis
  proof cases
    case one
    with t sextets_split(1,5) [of a b a a] show ?thesis by (simp add: encode_chunk_def)
  next
    case (two c)
    with t base64_table_value [OF two(4)] sextets_split(1,2,6) [of a b c a] show ?thesis
      by (simp add: encode_chunk_def)
  next
    case (three c d)
    with t base64_table_value [OF three(1)] base64_table_value [OF three(2)] sextets_split [of a b c d]
    show ?thesis by (simp add: encode_chunk_def)
  qed
qed

lemma decode_chunks_canonical:
  "decode_chunks s = Some x \<Longrightarrow> length s mod 4 = 0 \<Longrightarrow> encode_base64 x = s"
proof (induction s arbitrary: x rule: decode_chunks.induct)
  case (1 c0 c1 c2 c3 rest)
  then obtain out xs where o: "decode_chunk (rest = []) c0 c1 c2 c3 = Some out"
    and xs: "decode_chunks rest = Some xs" and x: "x = out @ xs"
    by (auto split: option.splits)
  have "encode_base64 xs = rest" using 1 o xs by simp
  moreover have "xs = []" if "rest = []" using xs that by simp
  ultimately show ?case using decode_chunk_cases [OF o] x by auto
qed (simp_all add: mod_Suc split: if_splits)

text \<open>C25: The decoder accepts only canonical text: whatever it decodes re-encodes to the very
  same string, so a compacted signature has exactly one textual form.\<close>

theorem base64_is_canonical: "decode_base64 s = Some x \<Longrightarrow> encode_base64 x = s"
  using decode_chunks_canonical by (auto simp: decode_base64_def split: if_splits)

theorem base64_is_canonical_witness:
  "encode_base64 [77, 97] = bytes_of ''TWE=''"
proof (rule base64_is_canonical)
  show "decode_base64 (bytes_of ''TWE='') = Some [77, 97]" by code_simp
qed

text \<open>A signature of any content survives serialization and deserialization, and a string in
  a serialized signature is accepted only if it is exactly what serializing the decoded signature
  gives: there is no second textual form of a compacted signature.\<close>

theorem signature_serde_round_trip:
  "deserialize_signature (serialize_signature sig) = Inr sig
   \<and> (deserialize_signature (Sig_Str s) = Inr x \<longrightarrow> serialize_signature x = Sig_Str s)"
proof
  have "decode_base64 (encode_base64 y) = Some y" for y
    using decode_chunks_encode [of y] by (simp add: decode_base64_def)
  then show "deserialize_signature (serialize_signature sig) = Inr sig"
    by (simp add: deserialize_signature_def serialize_signature_def)
  have canonical: "decode_base64 e = Some x \<Longrightarrow> encode_base64 x = e" for e
    using decode_chunks_canonical by (auto simp: decode_base64_def split: if_splits)
  show "deserialize_signature (Sig_Str s) = Inr x \<longrightarrow> serialize_signature x = Sig_Str s"
    by (auto simp: deserialize_signature_def serialize_signature_def strip_prefix_Some
        split: if_splits dest!: canonical)
qed

theorem signature_serde_round_trip_witness:
  "\<exists>s. serialize_signature COMPACTED_BASE_EVENT_MAGIC = Sig_Str s
     \<and> deserialize_signature (Sig_Str s) = Inr COMPACTED_BASE_EVENT_MAGIC"
proof -
  have "is_compacted_signature COMPACTED_BASE_EVENT_MAGIC"
    by (simp add: is_compacted_signature_def starts_with_def)
  then obtain s where s: "serialize_signature COMPACTED_BASE_EVENT_MAGIC = Sig_Str s"
    by (simp add: serialize_signature_def)
  have "deserialize_signature (serialize_signature COMPACTED_BASE_EVENT_MAGIC) = Inr COMPACTED_BASE_EVENT_MAGIC"
    using signature_serde_round_trip by blast
  with s show ?thesis by simp
qed

text \<open>What the code relies on of the LZ4 block codec: the frame starts with the length in four
  little-endian bytes, and decompression inverts compression.\<close>

definition block_laws :: "(bytes \<Rightarrow> bytes) \<Rightarrow> (bytes \<Rightarrow> bytes option) \<Rightarrow> bool" where
  "block_laws compress decompress \<longleftrightarrow>
     (\<forall>j. length j < 2 ^ 32 \<longrightarrow> take 4 (compress j) = u32_to_le (of_nat (length j))
        \<and> 4 \<le> length (compress j) \<and> decompress (compress j) = Some j)"

text \<open>An envelope the compactor encodes under a version-2 magic decodes to version 2 and the
  encoded value, whenever encoding did not refuse it for its size.\<close>

theorem compacted_envelope_round_trip:
  assumes "block_laws compress decompress"
    and "encode_compacted_envelope_json compress v2 json max_bytes = Inr sig"
    and "length v1 = length v2" and "v1 \<noteq> v2"
    and "json \<noteq> []" and "max_bytes < 2 ^ 32" and "from_slice json = Some t"
  shows "decode_compacted_envelope decompress from_slice sig v1 v2 max_bytes = Some (2, t)"
proof -
  from assms(2) have sig: "sig = v2 @ compress json" and max: "length json \<le> max_bytes"
      "length (compress json) \<le> max_bytes + 4"
    by (auto simp: encode_compacted_envelope_json_def Let_def split: if_splits)
  have small: "length json < 2 ^ 32" using max(1) assms(6) by simp
  with assms(1) have laws: "take 4 (compress json) = u32_to_le (of_nat (length json))"
    "4 \<le> length (compress json)" "decompress (compress json) = Some json"
    by (auto simp: block_laws_def)
  have "strip_prefix v1 sig = None" using assms(3,4) by (simp add: strip_prefix_def sig)
  moreover have "unat (of_nat (length json) :: u32) = length json"
    using small by (simp add: unat_of_nat)
  ultimately show ?thesis
    using max laws assms(5,7) by (simp add: decode_compacted_envelope_def sig not_less)
qed

definition toy_compress :: "bytes \<Rightarrow> bytes" where
  "toy_compress j = u32_to_le (of_nat (length j)) @ j"

definition toy_decompress :: "bytes \<Rightarrow> bytes option" where
  "toy_decompress c = Some (drop 4 c)"

theorem compacted_envelope_round_trip_witness:
  "\<exists>sig. encode_compacted_envelope_json toy_compress COMPACTED_BASE_EVENT_V2_MAGIC [123, 125] 100 = Inr sig
     \<and> decode_compacted_envelope toy_decompress Some sig COMPACTED_BASE_EVENT_MAGIC
          COMPACTED_BASE_EVENT_V2_MAGIC 100 = Some (2, [123, 125])"
proof -
  have laws: "block_laws toy_compress toy_decompress"
    by (simp add: block_laws_def toy_compress_def toy_decompress_def)
  obtain sig where e: "encode_compacted_envelope_json toy_compress COMPACTED_BASE_EVENT_V2_MAGIC [123, 125] 100 = Inr sig"
    by (simp add: encode_compacted_envelope_json_def toy_compress_def)
  have "length COMPACTED_BASE_EVENT_MAGIC = length COMPACTED_BASE_EVENT_V2_MAGIC"
    "COMPACTED_BASE_EVENT_MAGIC \<noteq> COMPACTED_BASE_EVENT_V2_MAGIC"
    by (code_simp, code_simp)
  from compacted_envelope_round_trip [OF laws e this, of Some] e show ?thesis by simp
qed

end
