(* ===== verification/GB_Access.thy ===== *)
theory GB_Access
  imports GB_Prelude
begin

text \<open>
  Access policy, published generations and read leases of the storage engine
  (\<open>src/src/lib.rs\<close>). The part of \<open>Storage\<close> they share is the record \<open>store\<close>; an operation
  returns the store it leaves together with its result, so that the effects of failing calls are
  visible. The outcome of the journal append, the snapshot digest of a checkpoint, the RFC 3339
  parser and the clock are arguments. Errors are their reason texts.
\<close>

section \<open>Types\<close>

datatype access_policy_mode = Disabled | Enforced

datatype access_action = Read | Write | ManagePolicy

datatype access_resource =
    Namespace string
  | Node string
  | Edge string
  | Collection string
  | Table string string
  | Annotation string

record access_context = ac_principal :: string  ac_namespace :: string

record access_grant =
  grant_principal :: string
  grant_action :: access_action
  grant_resource :: access_resource

record access_policy =
  pol_revision :: u64
  pol_mode :: access_policy_mode
  pol_grants :: "access_grant list"

record generation_info =
  generation_id :: u64
  wal_frontier :: u64
  publication_seq :: u64
  txn_frontier :: u64
  gen_history_horizon :: u64
  acl_revision :: u64
  component_manifest_sha256 :: string

record generation_published_event = gp_version :: u32  gp_generation :: generation_info

record access_policy_changed_event =
  pc_version :: u32
  pc_expected_revision :: u64
  pc_policy :: access_policy
  pc_actor :: access_context
  pc_folded :: bool

record temporal_read = tr_as_of :: "string option"  tr_tx_as_of :: "u64 option"

record read_lease =
  lease_owner_token :: string
  lease_generation :: generation_info
  lease_expires_at :: nat
  lease_fencing_epoch :: u64
  lease_access :: access_context
  lease_temporal :: temporal_read

record store =
  st_owner_token :: string
  st_read_only :: bool
  st_schema_version :: u32
  st_recovery_required :: bool
  st_commit_sequence :: u64
  st_txn_frontier :: u64
  st_fencing_epoch :: u64
  st_access_policy :: access_policy
  st_published_generation :: "generation_info option"

definition SCHEMA_VERSION :: u32 where "SCHEMA_VERSION = 6"

section \<open>Guards and the append\<close>

definition ensure_readable :: "store \<Rightarrow> (string, unit) result" where
  "ensure_readable s = guard_err (st_recovery_required s)
     ''RECOVERY_REQUIRED: reopen database before reading, writing or checkpointing''"

definition ensure_writable :: "store \<Rightarrow> (string, unit) result" where
  "ensure_writable s = rbind (ensure_readable s) (\<lambda>_. guard_err (st_read_only s) ''read-only'')"

definition durable_apply_error :: "store \<Rightarrow> u64 \<Rightarrow> string \<Rightarrow> store \<times> string" where
  "durable_apply_error s seq err =
     (s\<lparr>st_recovery_required := True\<rparr>,
      ''DURABLE_COMMIT_APPLY_FAILED: commit_sequence='' @ dec (unat seq) @ ''; reopen required; '' @ err)"

text \<open>What the writer thread answers: the channel is gone, the acknowledgement failed, or a frame
  number.\<close>

datatype wal_outcome = Wal_Disconnected | Wal_Failed | Wal_Acked u64

definition append_wal_event :: "wal_outcome \<Rightarrow> store \<Rightarrow> store \<times> (string, u64) result" where
  "append_wal_event outcome s =
     (case outcome of
        Wal_Disconnected \<Rightarrow> (s, Inl ''wal disconnected'')
      | Wal_Failed \<Rightarrow>
          (s\<lparr>st_recovery_required := True\<rparr>,
           Inl ''COMMIT_OUTCOME_UNKNOWN: WAL acknowledgement failed; reopen required'')
      | Wal_Acked seq \<Rightarrow> (s\<lparr>st_commit_sequence := max (st_commit_sequence s) seq\<rparr>, Inr seq))"

section \<open>Policy decisions\<close>

definition default_access_policy :: access_policy where
  "default_access_policy = \<lparr>pol_revision = 0, pol_mode = Disabled, pol_grants = []\<rparr>"

definition validate_temporal_read :: "(string \<Rightarrow> string option) \<Rightarrow> temporal_read \<Rightarrow> (string, unit) result" where
  "validate_temporal_read rfc3339_error temporal =
     (case tr_as_of temporal of
        None \<Rightarrow> Inr ()
      | Some as_of \<Rightarrow>
          (case rfc3339_error as_of of
             None \<Rightarrow> Inr ()
           | Some e \<Rightarrow> Inl (''TEMPORAL_INVALID: as_of is not RFC3339: '' @ e)))"

definition require_unscoped_read :: "store \<Rightarrow> (string, unit) result" where
  "require_unscoped_read s =
     guard_err (pol_mode (st_access_policy s) = Enforced) ''ACCESS_CONTEXT_REQUIRED''"

definition grant_matches :: "access_policy \<Rightarrow> access_context \<Rightarrow> access_action \<Rightarrow> access_resource \<Rightarrow> bool" where
  "grant_matches policy access action resource \<longleftrightarrow>
     list_ex (\<lambda>g. grant_principal g = ac_principal access \<and> grant_action g = action
                \<and> grant_resource g = resource) (pol_grants policy)"

definition authorize_namespace_read :: "store \<Rightarrow> access_context \<Rightarrow> string \<Rightarrow> (string, unit) result" where
  "authorize_namespace_read s access ns =
     (if pol_mode (st_access_policy s) = Disabled then Inr ()
      else if ac_namespace access \<noteq> ns
              \<or> \<not> grant_matches (st_access_policy s) access Read (Namespace ns)
      then Inl ''ACCESS_DENIED'' else Inr ())"

definition authorize_default_composed_read :: "store \<Rightarrow> access_context \<Rightarrow> (string, unit) result" where
  "authorize_default_composed_read s access = authorize_namespace_read s access ''default''"

definition authorize_node_read :: "store \<Rightarrow> access_context \<Rightarrow> string \<Rightarrow> (string, unit) result" where
  "authorize_node_read s access i =
     (if pol_mode (st_access_policy s) = Disabled then Inr ()
      else if ac_namespace access \<noteq> ''default'' then Inl ''ACCESS_DENIED''
      else if grant_matches (st_access_policy s) access Read (Namespace ''default'')
              \<or> grant_matches (st_access_policy s) access Read (Node i)
      then Inr () else Inl ''ACCESS_DENIED'')"

text \<open>Of a relational query only the namespace, the table and the joined tables matter here.\<close>

record relational_query = rq_namespace :: string  rq_table :: string  rq_join_tables :: "string list"

definition authorize_relational_read ::
  "store \<Rightarrow> access_context \<Rightarrow> relational_query \<Rightarrow> (string, unit) result" where
  "authorize_relational_read s access q =
     (if pol_mode (st_access_policy s) = Disabled then Inr ()
      else if ac_namespace access \<noteq> rq_namespace q then Inl ''ACCESS_DENIED''
      else if grant_matches (st_access_policy s) access Read (Namespace (rq_namespace q)) then Inr ()
      else if list_all (\<lambda>t. grant_matches (st_access_policy s) access Read (Table (rq_namespace q) t))
                (rq_table q # rq_join_tables q)
      then Inr () else Inl ''ACCESS_DENIED'')"

definition authorize_annotation_namespace_read ::
  "store \<Rightarrow> access_context \<Rightarrow> string \<Rightarrow> (string, unit) result" where
  "authorize_annotation_namespace_read s access ns =
     (if pol_mode (st_access_policy s) = Disabled then Inr ()
      else if ac_namespace access \<noteq> ns then Inl ''ACCESS_DENIED''
      else if grant_matches (st_access_policy s) access Read (Annotation ns) then Inr ()
      else Inl ''ACCESS_DENIED'')"

definition authorize_policy_admin :: "store \<Rightarrow> access_context \<Rightarrow> (string, unit) result" where
  "authorize_policy_admin s actor =
     (if pol_mode (st_access_policy s) = Disabled \<and> ac_principal actor = ''local-owner''
         \<or> pol_mode (st_access_policy s) = Enforced
           \<and> grant_matches (st_access_policy s) actor ManagePolicy (Namespace (ac_namespace actor))
      then Inr () else Inl ''ACCESS_DENIED'')"

fun resource_blank :: "access_resource \<Rightarrow> bool" where
  "resource_blank (Table ns t) = (trim ns = [] \<or> trim t = [])"
| "resource_blank (Namespace ns) = (trim ns = [])"
| "resource_blank (Node ns) = (trim ns = [])"
| "resource_blank (Edge ns) = (trim ns = [])"
| "resource_blank (Collection ns) = (trim ns = [])"
| "resource_blank (Annotation ns) = (trim ns = [])"

definition validate_access_policy_shape :: "access_policy \<Rightarrow> (string, unit) result" where
  "validate_access_policy_shape policy =
     for_each (\<lambda>g. rbind (guard_err (trim (grant_principal g) = []) ''ACCESS_DENIED'') (\<lambda>_.
                   guard_err (resource_blank (grant_resource g)) ''ACCESS_DENIED''))
       (pol_grants policy)"

definition access_policy_event_version :: "access_policy \<Rightarrow> u32" where
  "access_policy_event_version policy =
     (if list_ex (\<lambda>g. case grant_resource g of Annotation _ \<Rightarrow> True | _ \<Rightarrow> False) (pol_grants policy)
      then 2 else 1)"

section \<open>Applying policy and generation events\<close>

definition next_access_policy_after_event ::
  "access_policy \<Rightarrow> access_policy_changed_event \<Rightarrow> (string, access_policy) result" where
  "next_access_policy_after_event current event =
     (if checked_add (pc_expected_revision event) 1 \<noteq> Some (pol_revision (pc_policy event))
      then Inl ''ACCESS_POLICY_REVISION_CONFLICT''
      else if pc_folded event then
        (if pol_revision current > pol_revision (pc_policy event) then Inr current
         else if pol_revision current = pol_revision (pc_policy event) then
           (if current \<noteq> pc_policy event then Inl ''ACCESS_POLICY_REVISION_CONFLICT'' else Inr current)
         else Inr (pc_policy event))
      else if pol_revision current = pol_revision (pc_policy event) \<and> current = pc_policy event
      then Inr current
      else if pol_revision current \<noteq> pc_expected_revision event
      then Inl ''ACCESS_POLICY_REVISION_CONFLICT''
      else Inr (pc_policy event))"

definition apply_access_policy_event ::
  "store \<Rightarrow> access_policy_changed_event \<Rightarrow> store \<times> (string, unit) result" where
  "apply_access_policy_event s event =
     (if pc_version event \<noteq> access_policy_event_version (pc_policy event)
         \<or> pc_version event = 2 \<and> st_schema_version s \<noteq> SCHEMA_VERSION
      then (s, Inl ''ACCESS_DENIED: unsupported policy event version'')
      else case validate_access_policy_shape (pc_policy event) of
        Inl e \<Rightarrow> (s, Inl e)
      | Inr _ \<Rightarrow>
          (case next_access_policy_after_event (st_access_policy s) event of
             Inl e \<Rightarrow> (s, Inl e)
           | Inr p \<Rightarrow> (s\<lparr>st_access_policy := p\<rparr>, Inr ())))"

definition apply_generation_event ::
  "store \<Rightarrow> generation_published_event \<Rightarrow> u64 \<Rightarrow> store \<times> (string, unit) result" where
  "apply_generation_event s event frame_seq =
     (let g = gp_generation event in
      if gp_version event \<noteq> 1
         \<or> publication_seq g \<noteq> saturating_add (wal_frontier g) 1
         \<or> length (component_manifest_sha256 g) \<noteq> 64
      then (s, Inl ''GENERATION_STALE: invalid publication receipt'')
      else if frame_seq < publication_seq g
      then (s, Inl ''GENERATION_STALE: receipt frame precedes publication'')
      else case st_published_generation s of
        Some existing \<Rightarrow>
          if generation_id existing > generation_id g then (s, Inr ())
          else if generation_id existing = generation_id g then
            (if existing \<noteq> g then (s, Inl ''GENERATION_STALE: conflicting publication receipt'')
             else (s, Inr ()))
          else (s\<lparr>st_published_generation := Some g\<rparr>, Inr ())
      | None \<Rightarrow> (s\<lparr>st_published_generation := Some g\<rparr>, Inr ()))"

definition replace_policy_guards ::
  "access_context \<Rightarrow> u64 \<Rightarrow> access_policy \<Rightarrow> store \<Rightarrow> (string, unit) result" where
  "replace_policy_guards actor expected_revision policy s =
     rbind (ensure_writable s) (\<lambda>_.
     rbind (ensure_readable s) (\<lambda>_.
     rbind (guard_err (pol_revision (st_access_policy s) \<noteq> expected_revision
                \<or> checked_add expected_revision 1 \<noteq> Some (pol_revision policy))
              ''ACCESS_POLICY_REVISION_CONFLICT'') (\<lambda>_.
     rbind (authorize_policy_admin s actor) (\<lambda>_.
     rbind (validate_access_policy_shape policy) (\<lambda>_.
       guard_err (access_policy_event_version policy = 2 \<and> st_schema_version s \<noteq> SCHEMA_VERSION)
         ''SCHEMA_VERSION_UNSUPPORTED: annotation ACL requires schema v6'')))))"

definition replace_access_policy ::
  "wal_outcome \<Rightarrow> access_context \<Rightarrow> u64 \<Rightarrow> access_policy \<Rightarrow> store \<Rightarrow> store \<times> (string, unit) result" where
  "replace_access_policy outcome actor expected_revision policy s =
     (case replace_policy_guards actor expected_revision policy s of
        Inl e \<Rightarrow> (s, Inl e)
      | Inr _ \<Rightarrow>
          (case append_wal_event outcome s of
             (s1, Inl e) \<Rightarrow> (s1, Inl e)
           | (s1, Inr seq) \<Rightarrow>
               (case apply_access_policy_event s1
                       \<lparr>pc_version = access_policy_event_version policy,
                        pc_expected_revision = expected_revision, pc_policy = policy,
                        pc_actor = actor, pc_folded = False\<rparr> of
                  (s2, Inr _) \<Rightarrow> (s2, Inr ())
                | (s2, Inl e) \<Rightarrow> (case durable_apply_error s2 seq e of (s3, e') \<Rightarrow> (s3, Inl e')))))"

text \<open>The policy event a fold writes for the live policy.\<close>

definition folded_policy_event :: "access_policy \<Rightarrow> access_policy_changed_event" where
  "folded_policy_event policy =
     \<lparr>pc_version = access_policy_event_version policy,
      pc_expected_revision = saturating_sub (pol_revision policy) 1,
      pc_policy = policy,
      pc_actor = \<lparr>ac_principal = ''local-owner'', ac_namespace = ''default''\<rparr>,
      pc_folded = True\<rparr>"

section \<open>Generations and read leases\<close>

definition validate_lease_unlocked :: "nat \<Rightarrow> read_lease \<Rightarrow> store \<Rightarrow> (string, unit) result" where
  "validate_lease_unlocked now lease s =
     rbind (guard_err (lease_owner_token lease \<noteq> st_owner_token s) ''LEASE_OWNER_MISMATCH'') (\<lambda>_.
     rbind (guard_err (now \<ge> lease_expires_at lease) ''LEASE_EXPIRED'') (\<lambda>_.
     rbind (guard_err (lease_fencing_epoch lease \<noteq> st_fencing_epoch s) ''LEASE_REVOKED'') (\<lambda>_.
     rbind (guard_err (acl_revision (lease_generation lease) \<noteq> pol_revision (st_access_policy s))
              ''LEASE_REVOKED'') (\<lambda>_.
     guard_err (st_commit_sequence s \<noteq> publication_seq (lease_generation lease)
                \<or> st_published_generation s \<noteq> Some (lease_generation lease))
       ''GENERATION_STALE''))))"

definition validate_lease :: "nat \<Rightarrow> read_lease \<Rightarrow> store \<Rightarrow> (string, unit) result" where
  "validate_lease now lease s =
     rbind (ensure_readable s) (\<lambda>_. validate_lease_unlocked now lease s)"

text \<open>What a publication gets from outside: the outcome of the checkpoint, the digest of the
  validated snapshot manifest, the horizon of the journal and the answer of the writer thread.\<close>

record publication_io =
  io_checkpoint :: "(string, unit) result"
  io_manifest_digest :: "(string, string) result"
  io_history_horizon :: u64
  io_append :: wal_outcome

definition next_generation :: "u64 \<Rightarrow> u64 \<Rightarrow> string \<Rightarrow> u64 \<Rightarrow> store \<Rightarrow> generation_info" where
  "next_generation frontier seq digest horizon s =
     \<lparr>generation_id = (case st_published_generation s of
                         Some old \<Rightarrow> saturating_add (generation_id old) 1 | None \<Rightarrow> 1),
      wal_frontier = frontier,
      publication_seq = seq,
      txn_frontier = st_txn_frontier s,
      gen_history_horizon = max horizon 1,
      acl_revision = pol_revision (st_access_policy s),
      component_manifest_sha256 = digest\<rparr>"

text \<open>The append of the receipt and its application, once the receipt is built.\<close>

definition publish_receipt ::
  "wal_outcome \<Rightarrow> generation_info \<Rightarrow> store \<Rightarrow> store \<times> (string, generation_info) result" where
  "publish_receipt outcome g s =
     (case append_wal_event outcome s of
        (s1, Inl e) \<Rightarrow> (s1, Inl e)
      | (s1, Inr actual_seq) \<Rightarrow>
          if actual_seq \<noteq> publication_seq g
          then (s1\<lparr>st_recovery_required := True\<rparr>,
                Inl (''GENERATION_STALE: publication sequence expected '' @ dec (unat (publication_seq g))
                     @ '', got '' @ dec (unat actual_seq) @ ''; reopen required''))
          else (case apply_generation_event s1 \<lparr>gp_version = 1, gp_generation = g\<rparr> actual_seq of
                  (s2, Inl e) \<Rightarrow> (s2, Inl e)
                | (s2, Inr _) \<Rightarrow> (s2, Inr g)))"

definition publish_generation_unlocked ::
  "publication_io \<Rightarrow> store \<Rightarrow> store \<times> (string, generation_info) result" where
  "publish_generation_unlocked io s =
     (case ensure_writable s of
        Inl e \<Rightarrow> (s, Inl e)
      | Inr _ \<Rightarrow>
          let frontier = st_commit_sequence s;
              fresh =
                (case rbind (io_checkpoint io) (\<lambda>_.
                      rbind (io_manifest_digest io) (\<lambda>digest.
                      rbind (ok_or ''GENERATION_STALE: WAL frontier overflow'' (checked_add frontier 1))
                        (\<lambda>seq. Inr (next_generation frontier seq digest (io_history_horizon io) s)))) of
                   Inl e \<Rightarrow> (s, Inl e)
                 | Inr g \<Rightarrow> publish_receipt (io_append io) g s) in
          (case st_published_generation s of
             Some existing \<Rightarrow> if publication_seq existing = frontier then (s, Inr existing) else fresh
           | None \<Rightarrow> fresh))"

definition publish_generation :: "publication_io \<Rightarrow> store \<Rightarrow> store \<times> (string, generation_info) result" where
  "publish_generation io s =
     (case ensure_readable s of Inl e \<Rightarrow> (s, Inl e) | Inr _ \<Rightarrow> publish_generation_unlocked io s)"

definition validate_generation_tx_as_of_bounds ::
  "u64 \<Rightarrow> u64 \<Rightarrow> u64 option \<Rightarrow> (string, unit) result" where
  "validate_generation_tx_as_of_bounds horizon frontier tx_as_of =
     guard_err (case tx_as_of of None \<Rightarrow> False | Some tx \<Rightarrow> tx < horizon \<or> tx > frontier)
       ''TEMPORAL_BEYOND_HORIZON''"

definition validate_generation_tx_as_of :: "generation_info \<Rightarrow> u64 option \<Rightarrow> (string, unit) result" where
  "validate_generation_tx_as_of g tx_as_of =
     validate_generation_tx_as_of_bounds (gen_history_horizon g) (wal_frontier g) tx_as_of"

text \<open>The clock \<open>now\<close> and \<open>ttl\<close> are in one unit; \<open>Instant\<close> arithmetic past the end of the
  platform's clock, which panics, is not modelled.\<close>

definition pin_generation ::
  "(string \<Rightarrow> string option) \<Rightarrow> publication_io \<Rightarrow> nat \<Rightarrow> access_context \<Rightarrow> temporal_read \<Rightarrow> nat
     \<Rightarrow> store \<Rightarrow> store \<times> (string, read_lease) result" where
  "pin_generation rfc3339_error io now access temporal ttl s =
     (case rbind (ensure_readable s) (\<lambda>_.
           rbind (guard_err (ttl = 0) ''LEASE_EXPIRED: ttl must be positive'') (\<lambda>_.
           rbind (guard_err (trim (ac_principal access) = [] \<or> trim (ac_namespace access) = [])
                    ''ACCESS_DENIED'') (\<lambda>_.
             validate_temporal_read rfc3339_error temporal))) of
        Inl e \<Rightarrow> (s, Inl e)
      | Inr _ \<Rightarrow>
          (case (case st_published_generation s of
                   Some g \<Rightarrow> if publication_seq g = st_commit_sequence s then (s, Inr g)
                             else publish_generation_unlocked io s
                 | None \<Rightarrow> publish_generation_unlocked io s) of
             (s1, Inl e) \<Rightarrow> (s1, Inl e)
           | (s1, Inr g) \<Rightarrow>
               (case validate_generation_tx_as_of g (tr_tx_as_of temporal) of
                  Inl e \<Rightarrow> (s1, Inl e)
                | Inr _ \<Rightarrow>
                    (s1, Inr \<lparr>lease_owner_token = st_owner_token s1, lease_generation = g,
                              lease_expires_at = now + ttl,
                              lease_fencing_epoch = st_fencing_epoch s1,
                              lease_access = access, lease_temporal = temporal\<rparr>))))"

definition revoke_lease :: "read_lease \<Rightarrow> store \<Rightarrow> store \<times> (string, unit) result" where
  "revoke_lease lease s =
     (case rbind (ensure_readable s) (\<lambda>_.
             guard_err (lease_owner_token lease \<noteq> st_owner_token s) ''LEASE_OWNER_MISMATCH'') of
        Inl e \<Rightarrow> (s, Inl e)
      | Inr _ \<Rightarrow> (s\<lparr>st_fencing_epoch := st_fencing_epoch s + 1\<rparr>, Inr ()))"

text \<open>The callback runs under the commit lock, so it cannot change the store; the clock is read
  before and after it.\<close>

definition with_read_lease ::
  "nat \<Rightarrow> nat \<Rightarrow> read_lease \<Rightarrow> (store \<Rightarrow> read_lease \<Rightarrow> (string, 'a) result) \<Rightarrow> store
     \<Rightarrow> (string, 'a) result" where
  "with_read_lease now now' lease callback s =
     rbind (ensure_readable s) (\<lambda>_.
     rbind (validate_lease_unlocked now lease s) (\<lambda>_.
     let outcome = callback s lease in
     rbind (validate_lease_unlocked now' lease s) (\<lambda>_. outcome)))"

section \<open>Policy replacement and replay\<close>

text \<open>The outcome of a replacement, by what the code checks before the append.\<close>

definition policy_change_allowed :: "access_context \<Rightarrow> u64 \<Rightarrow> access_policy \<Rightarrow> store \<Rightarrow> bool" where
  "policy_change_allowed actor expected policy s \<longleftrightarrow>
     \<not> st_recovery_required s \<and> \<not> st_read_only s
     \<and> pol_revision (st_access_policy s) = expected
     \<and> unat (pol_revision policy) = unat expected + 1
     \<and> authorize_policy_admin s actor = Inr ()
     \<and> validate_access_policy_shape policy = Inr ()
     \<and> (access_policy_event_version policy = 2 \<longrightarrow> st_schema_version s = SCHEMA_VERSION)"

lemma ensure_readable_iff [simp]: "ensure_readable s = Inr u \<longleftrightarrow> \<not> st_recovery_required s"
  by (simp add: ensure_readable_def)

lemma ensure_writable_iff [simp]:
  "ensure_writable s = Inr u \<longleftrightarrow> \<not> st_recovery_required s \<and> \<not> st_read_only s"
  by (simp add: ensure_writable_def)

lemma append_acked [simp]:
  "append_wal_event (Wal_Acked seq) s = (s\<lparr>st_commit_sequence := max (st_commit_sequence s) seq\<rparr>, Inr seq)"
  by (simp add: append_wal_event_def)

lemma apply_own_policy_event:
  assumes "policy_change_allowed actor expected policy s"
  shows "apply_access_policy_event (s\<lparr>st_commit_sequence := q\<rparr>)
           \<lparr>pc_version = access_policy_event_version policy, pc_expected_revision = expected,
            pc_policy = policy, pc_actor = actor, pc_folded = False\<rparr>
         = (s\<lparr>st_commit_sequence := q, st_access_policy := policy\<rparr>, Inr ())"
  using assms
  by (auto simp: policy_change_allowed_def apply_access_policy_event_def
      next_access_policy_after_event_def checked_add_Some_iff)

lemma replace_policy_guards_iff:
  "replace_policy_guards actor expected policy s = Inr u
     \<longleftrightarrow> policy_change_allowed actor expected policy s"
  by (auto simp: replace_policy_guards_def policy_change_allowed_def checked_add_Some_iff)

lemma replace_access_policy_refused:
  assumes "\<not> policy_change_allowed actor expected policy s"
  shows "\<exists>e. replace_access_policy outcome actor expected policy s = (s, Inl e)"
proof -
  obtain e where "replace_policy_guards actor expected policy s = Inl e"
    using assms by (cases "replace_policy_guards actor expected policy s") (auto simp: replace_policy_guards_iff)
  then show ?thesis by (simp add: replace_access_policy_def)
qed

lemma replace_access_policy_allowed:
  assumes "policy_change_allowed actor expected policy s"
  shows "replace_access_policy (Wal_Acked seq) actor expected policy s
       = (s\<lparr>st_commit_sequence := max (st_commit_sequence s) seq, st_access_policy := policy\<rparr>, Inr ())"
    and "replace_access_policy Wal_Disconnected actor expected policy s = (s, Inl ''wal disconnected'')"
    and "replace_access_policy Wal_Failed actor expected policy s
       = (s\<lparr>st_recovery_required := True\<rparr>,
          Inl ''COMMIT_OUTCOME_UNKNOWN: WAL acknowledgement failed; reopen required'')"
proof -
  have ok: "replace_policy_guards actor expected policy s = Inr ()"
    using assms by (simp add: replace_policy_guards_iff)
  show "replace_access_policy (Wal_Acked seq) actor expected policy s
       = (s\<lparr>st_commit_sequence := max (st_commit_sequence s) seq, st_access_policy := policy\<rparr>, Inr ())"
    by (simp add: replace_access_policy_def ok apply_own_policy_event [OF assms])
  show "replace_access_policy Wal_Disconnected actor expected policy s = (s, Inl ''wal disconnected'')"
    and "replace_access_policy Wal_Failed actor expected policy s
       = (s\<lparr>st_recovery_required := True\<rparr>,
          Inl ''COMMIT_OUTCOME_UNKNOWN: WAL acknowledgement failed; reopen required'')"
    by (simp_all add: replace_access_policy_def ok append_wal_event_def)
qed

text \<open>C24: replacing the access policy is a compare-and-swap on its revision. The call succeeds
  exactly when the append is acknowledged and the store is writable, the expected revision is
  the current one, the new revision is its successor with no wrap-around, the actor may administer
  the policy, the policy is well formed and, with annotation grants, the schema is the current one;
  the policy is then the one given. In every other case the policy is unchanged, and only a failed
  acknowledgement leaves the store needing recovery: the branch in which a durable event cannot be
  applied is never reached.\<close>

theorem replace_access_policy_is_cas:
  "case replace_access_policy outcome actor expected policy s of (s', res) \<Rightarrow>
     (res = Inr () \<longleftrightarrow> policy_change_allowed actor expected policy s
                      \<and> (\<exists>seq. outcome = Wal_Acked seq))
     \<and> st_access_policy s' = (if res = Inr () then policy else st_access_policy s)
     \<and> (st_recovery_required s' \<longleftrightarrow> st_recovery_required s
          \<or> policy_change_allowed actor expected policy s \<and> outcome = Wal_Failed)"
proof (cases "policy_change_allowed actor expected policy s")
  case False
  then obtain e where "replace_access_policy outcome actor expected policy s = (s, Inl e)"
    using replace_access_policy_refused by blast
  with False show ?thesis by simp
next
  case True
  then show ?thesis
    by (cases outcome) (auto simp: replace_access_policy_allowed policy_change_allowed_def)
qed

text \<open>The policy events of a journal, applied in order to a policy.\<close>

fun replay_policies :: "access_policy \<Rightarrow> access_policy_changed_event list \<Rightarrow> (string, access_policy) result" where
  "replay_policies p [] = Inr p"
| "replay_policies p (ev # evs) =
     rbind (next_access_policy_after_event p ev) (\<lambda>p'. replay_policies p' evs)"

lemma replay_policies_append:
  "replay_policies p (evs @ tail) = rbind (replay_policies p evs) (\<lambda>p'. replay_policies p' tail)"
proof (induction evs arbitrary: p)
  case (Cons ev evs)
  then show ?case by (cases "next_access_policy_after_event p ev") auto
qed simp

lemma next_access_policy_cases:
  assumes "next_access_policy_after_event p ev = Inr p'"
  shows "p' = p \<or> p' = pc_policy ev \<and> unat (pol_revision p') = unat (pc_expected_revision ev) + 1
                  \<and> unat (pol_revision p) < unat (pol_revision p')"
proof -
  have rev: "unat (pol_revision (pc_policy ev)) = unat (pc_expected_revision ev) + 1"
    using assms by (auto simp: next_access_policy_after_event_def checked_add_Some_iff split: if_splits)
  show ?thesis
    using assms rev
    by (auto simp: next_access_policy_after_event_def word_less_nat_alt not_less
        word_unat_eq_iff split: if_splits)
qed

lemma replay_policies_cases:
  "replay_policies p evs = Inr p' \<Longrightarrow> p' = p \<or> unat (pol_revision p) < unat (pol_revision p')"
proof (induction evs arbitrary: p)
  case (Cons ev evs)
  then obtain q where "next_access_policy_after_event p ev = Inr q" "replay_policies q evs = Inr p'"
    by auto
  then show ?case using Cons.IH [of q] next_access_policy_cases [of p ev q] by auto
qed simp

lemma next_after_folded:
  assumes "p = policy \<or> unat (pol_revision p) < unat (pol_revision policy)"
    and "0 < pol_revision policy"
  shows "next_access_policy_after_event p (folded_policy_event policy) = Inr policy"
  using assms
  by (auto simp: next_access_policy_after_event_def folded_policy_event_def checked_add_Some_iff
      unat_saturating_sub word_less_nat_alt)

text \<open>Folding the policy history loses nothing. When a journal's policy events take the start
  policy to a policy with a positive revision, the one folded event that the fold writes for that
  policy takes the start policy to the same one, and so does that event replayed over any policy
  the history went through: whatever follows it is replayed to the same result.\<close>

theorem folded_policy_replay:
  assumes "replay_policies p (evs @ evs') = Inr policy" and "0 < pol_revision policy"
    and "replay_policies p evs = Inr mid"
  shows "replay_policies mid (folded_policy_event policy # tail) = replay_policies p (evs @ evs' @ tail)
       \<and> replay_policies p (folded_policy_event policy # tail) = replay_policies p (evs @ evs' @ tail)"
proof (intro conjI)
  have end_mid: "replay_policies mid evs' = Inr policy"
    using assms(1,3) by (simp add: replay_policies_append)
  have full: "replay_policies p (evs @ evs' @ tail) = replay_policies policy tail"
    using assms(3) end_mid by (simp add: replay_policies_append)
  show "replay_policies mid (folded_policy_event policy # tail) = replay_policies p (evs @ evs' @ tail)"
    using next_after_folded [of mid policy] replay_policies_cases [OF end_mid] assms(2)
    by (auto simp: full)
  show "replay_policies p (folded_policy_event policy # tail) = replay_policies p (evs @ evs' @ tail)"
    using next_after_folded [of p policy] replay_policies_cases [OF assms(1)] assms(2)
    by (auto simp: full)
qed

theorem folded_policy_replay_witness:
  "let ev = (\<lambda>r. \<lparr>pc_version = 1, pc_expected_revision = r,
                  pc_policy = \<lparr>pol_revision = r + 1, pol_mode = Enforced, pol_grants = []\<rparr>,
                  pc_actor = \<lparr>ac_principal = ''local-owner'', ac_namespace = ''default''\<rparr>,
                  pc_folded = False\<rparr>);
       policy = \<lparr>pol_revision = 2, pol_mode = Enforced, pol_grants = []\<rparr> in
   replay_policies default_access_policy (folded_policy_event policy # [ev 2])
     = replay_policies default_access_policy ([ev 0] @ [ev 1] @ [ev 2])
   \<and> replay_policies default_access_policy ([ev 0] @ [ev 1] @ [ev 2])
       = Inr \<lparr>pol_revision = 3, pol_mode = Enforced, pol_grants = []\<rparr>"
proof -
  define ev where "ev = (\<lambda>r. \<lparr>pc_version = 1, pc_expected_revision = r,
      pc_policy = \<lparr>pol_revision = r + 1, pol_mode = Enforced, pol_grants = []\<rparr>,
      pc_actor = \<lparr>ac_principal = ''local-owner'', ac_namespace = ''default''\<rparr>, pc_folded = False\<rparr>)"
  have step: "next_access_policy_after_event \<lparr>pol_revision = r, pol_mode = m, pol_grants = []\<rparr> (ev r)
                = Inr \<lparr>pol_revision = r + 1, pol_mode = Enforced, pol_grants = []\<rparr>"
    if "unat r + 1 < 2 ^ 64" for r m
    using that by (auto simp: next_access_policy_after_event_def ev_def checked_add_def)
  have three: "replay_policies default_access_policy ([ev 0] @ [ev 1] @ [ev 2])
                 = Inr \<lparr>pol_revision = 3, pol_mode = Enforced, pol_grants = []\<rparr>"
    using step [of 0] step [of 1] step [of 2] by (simp add: default_access_policy_def)
  have "replay_policies default_access_policy ([ev 0] @ [ev 1])
          = Inr \<lparr>pol_revision = 2, pol_mode = Enforced, pol_grants = []\<rparr>"
    "replay_policies default_access_policy [ev 0]
          = Inr \<lparr>pol_revision = 1, pol_mode = Enforced, pol_grants = []\<rparr>"
    using step [of 0] step [of 1] by (simp_all add: default_access_policy_def)
  then have "replay_policies default_access_policy
      (folded_policy_event \<lparr>pol_revision = 2, pol_mode = Enforced, pol_grants = []\<rparr> # [ev 2])
     = replay_policies default_access_policy ([ev 0] @ [ev 1] @ [ev 2])"
    using folded_policy_replay [of default_access_policy "[ev 0]" "[ev 1]"
        "\<lparr>pol_revision = 2, pol_mode = Enforced, pol_grants = []\<rparr>" _ "[ev 2]"] by simp
  with three show ?thesis unfolding Let_def ev_def by blast
qed

end
