(* ===== verification/GB_Leases.thy ===== *)
theory GB_Leases
  imports GB_Access
begin

text \<open>
  The store as a state machine: commits, policy replacements, publications, pins and revocations
  interleaved in any order, each as one step of \<open>store_step\<close> (the operations all run under
  \<open>commit_lock\<close>). The journal is assumed to acknowledge frame numbers above every earlier one, the
  law that the writer of \<open>GB_Journal_Writer\<close> keeps; this is the premise \<open>fresh_ack\<close> of the steps.
\<close>

section \<open>Steps\<close>

definition fresh_ack :: "wal_outcome \<Rightarrow> store \<Rightarrow> bool" where
  "fresh_ack outcome s \<longleftrightarrow> (case outcome of Wal_Acked seq \<Rightarrow> st_commit_sequence s < seq | _ \<Rightarrow> True)"

text \<open>A step is labelled with whether it revoked leases.\<close>

inductive store_step :: "store \<Rightarrow> bool \<Rightarrow> store \<Rightarrow> bool" where
  commit: "fresh_ack outcome s \<Longrightarrow> append_wal_event outcome s = (s', r)
    \<Longrightarrow> store_step s False (s'\<lparr>st_txn_frontier := t\<rparr>)"
| policy: "fresh_ack outcome s \<Longrightarrow> replace_access_policy outcome actor expected p s = (s', r)
    \<Longrightarrow> store_step s False s'"
| publish: "fresh_ack (io_append io) s \<Longrightarrow> publish_generation io s = (s', r)
    \<Longrightarrow> store_step s False s'"
| pin: "fresh_ack (io_append io) s \<Longrightarrow> pin_generation rfc io now a tmp ttl s = (s', r)
    \<Longrightarrow> store_step s False s'"
| revoke: "revoke_lease l s = (s', Inr ()) \<Longrightarrow> store_step s True s'"

text \<open>Runs, with the number of revocations in them.\<close>

inductive store_run :: "store \<Rightarrow> nat \<Rightarrow> store \<Rightarrow> bool" where
  stop: "store_run s 0 s"
| go: "store_run s n s' \<Longrightarrow> store_step s' b s'' \<Longrightarrow> store_run s (n + of_bool b) s''"

section \<open>What the operations keep\<close>

text \<open>The published generation is never ahead of the journal, and while nothing was committed
  after it, it carries the revision of the current policy.\<close>

definition store_inv :: "store \<Rightarrow> bool" where
  "store_inv s \<longleftrightarrow>
     (case st_published_generation s of
        None \<Rightarrow> True
      | Some g \<Rightarrow> publication_seq g \<le> st_commit_sequence s
          \<and> (publication_seq g = st_commit_sequence s
               \<longrightarrow> acl_revision g = pol_revision (st_access_policy s)))"

lemma append_wal_event_inv:
  assumes "append_wal_event outcome s = (s', r)" "store_inv s" "fresh_ack outcome s"
  shows "store_inv s' \<and> st_fencing_epoch s' = st_fencing_epoch s \<and> st_owner_token s' = st_owner_token s
       \<and> (st_recovery_required s \<longrightarrow> st_recovery_required s')"
  using assms
  by (auto simp: append_wal_event_def store_inv_def fresh_ack_def
      split: wal_outcome.splits option.splits)

lemma replace_access_policy_inv:
  assumes "replace_access_policy outcome actor expected p s = (s', r)" "store_inv s" "fresh_ack outcome s"
  shows "store_inv s' \<and> st_fencing_epoch s' = st_fencing_epoch s \<and> st_owner_token s' = st_owner_token s
       \<and> (st_recovery_required s \<longrightarrow> st_recovery_required s')"
proof (cases "policy_change_allowed actor expected p s")
  case False
  then show ?thesis using replace_access_policy_refused [OF False, of outcome] assms by auto
next
  case True
  then show ?thesis
    using assms
    by (cases outcome) (auto simp: replace_access_policy_allowed store_inv_def fresh_ack_def
        split: option.splits)
qed

lemma apply_generation_event_cases:
  "apply_generation_event s ev q = (s', r)
     \<Longrightarrow> s' = s \<or> s' = s\<lparr>st_published_generation := Some (gp_generation ev)\<rparr>"
  by (auto simp: apply_generation_event_def Let_def split: if_splits option.splits)

lemma publish_receipt_inv:
  assumes "publish_receipt outcome g s = (s', r)" "store_inv s" "fresh_ack outcome s"
    and "acl_revision g = pol_revision (st_access_policy s)"
  shows "store_inv s' \<and> st_fencing_epoch s' = st_fencing_epoch s \<and> st_owner_token s' = st_owner_token s
       \<and> (st_recovery_required s \<longrightarrow> st_recovery_required s')"
proof (cases outcome)
  case (Wal_Acked q)
  let ?s1 = "s\<lparr>st_commit_sequence := max (st_commit_sequence s) q\<rparr>"
  have lt: "st_commit_sequence s < q" and inv1: "store_inv ?s1"
    using assms Wal_Acked append_wal_event_inv [of outcome s ?s1 "Inr q"] by (auto simp: fresh_ack_def)
  show ?thesis
  proof (cases "q = publication_seq g")
    case False
    then have "s' = ?s1\<lparr>st_recovery_required := True\<rparr>"
      using assms(1) Wal_Acked by (simp add: publish_receipt_def)
    then show ?thesis using inv1 by (simp add: store_inv_def split: option.splits)
  next
    case True
    then obtain r' where "apply_generation_event ?s1 \<lparr>gp_version = 1, gp_generation = g\<rparr> q = (s', r')"
      using assms(1) Wal_Acked by (auto simp: publish_receipt_def split: prod.splits sum.splits)
    from apply_generation_event_cases [OF this] show ?thesis
      using inv1 lt True assms(4) by (auto simp: store_inv_def max_def split: option.splits)
  qed
qed (use assms in \<open>auto simp: publish_receipt_def append_wal_event_def store_inv_def split: option.splits\<close>)

lemma publish_generation_unlocked_cases:
  assumes "publish_generation_unlocked io s = (s', r)"
  obtains (same) "s' = s"
    | (receipt) g where "publish_receipt (io_append io) g s = (s', r)"
        "acl_revision g = pol_revision (st_access_policy s)"
        "publication_seq g = st_commit_sequence s + 1" "wal_frontier g = st_commit_sequence s"
proof (cases "s' = s")
  case True
  then show thesis by (rule same)
next
  case False
  then obtain digest seq where
    "publish_receipt (io_append io)
       (next_generation (st_commit_sequence s) seq digest (io_history_horizon io) s) s = (s', r)"
    "checked_add (st_commit_sequence s) 1 = Some seq"
    using assms
    by (auto simp: publish_generation_unlocked_def Let_def ok_or_def
        split: sum.splits option.splits if_splits)
  then show thesis
    by (intro receipt) (auto simp: next_generation_def checked_add_def split: if_splits)
qed

lemma publish_generation_unlocked_inv:
  assumes "publish_generation_unlocked io s = (s', r)" "store_inv s" "fresh_ack (io_append io) s"
  shows "store_inv s' \<and> st_fencing_epoch s' = st_fencing_epoch s \<and> st_owner_token s' = st_owner_token s
       \<and> (st_recovery_required s \<longrightarrow> st_recovery_required s')"
  using assms(1)
proof (cases rule: publish_generation_unlocked_cases)
  case (receipt g)
  then show ?thesis using publish_receipt_inv assms(2,3) by blast
qed (use assms in auto)

lemma pin_generation_cases:
  assumes "pin_generation rfc io now a tmp ttl s = (s', r)"
  obtains (same) "s' = s" "case r of Inl _ \<Rightarrow> True | Inr l \<Rightarrow>
        st_published_generation s = Some (lease_generation l)
        \<and> publication_seq (lease_generation l) = st_commit_sequence s"
    | (published) r' where "publish_generation_unlocked io s = (s', r')"
        "case r of Inl _ \<Rightarrow> True | Inr l \<Rightarrow> r' = Inr (lease_generation l)"
proof (cases "\<exists>r'. publish_generation_unlocked io s = (s', r')
                 \<and> (case r of Inl _ \<Rightarrow> True | Inr l \<Rightarrow> r' = Inr (lease_generation l))")
  case True
  then show thesis using published by blast
next
  case False
  then have "s' = s \<and> (case r of Inl _ \<Rightarrow> True | Inr l \<Rightarrow>
        st_published_generation s = Some (lease_generation l)
        \<and> publication_seq (lease_generation l) = st_commit_sequence s)"
    using assms
    by (auto simp: pin_generation_def split: sum.splits option.splits if_splits prod.splits)
  then show thesis by (intro same) auto
qed

lemma pin_generation_inv:
  assumes "pin_generation rfc io now a tmp ttl s = (s', r)" "store_inv s" "fresh_ack (io_append io) s"
  shows "store_inv s' \<and> st_fencing_epoch s' = st_fencing_epoch s \<and> st_owner_token s' = st_owner_token s
       \<and> (st_recovery_required s \<longrightarrow> st_recovery_required s')"
  using assms(1)
proof (cases rule: pin_generation_cases)
  case (published r')
  then show ?thesis using publish_generation_unlocked_inv assms(2,3) by blast
qed (use assms in auto)

lemma revoke_lease_Inr:
  assumes "revoke_lease l s = (s', Inr u)"
  shows "s' = s\<lparr>st_fencing_epoch := st_fencing_epoch s + 1\<rparr>" "lease_owner_token l = st_owner_token s"
    "\<not> st_recovery_required s"
  using assms by (auto simp: revoke_lease_def split: sum.splits)

lemma store_step_inv:
  assumes "store_step s b s'" "store_inv s"
  shows "store_inv s' \<and> st_owner_token s' = st_owner_token s
       \<and> (st_recovery_required s \<longrightarrow> st_recovery_required s')
       \<and> st_fencing_epoch s' = st_fencing_epoch s + of_bool b"
  using assms
proof cases
  case (commit outcome s1 r t)
  then show ?thesis using append_wal_event_inv [OF commit(4) assms(2) commit(3)]
    by (auto simp: store_inv_def split: option.splits)
next
  case (publish io r)
  then show ?thesis using publish_generation_unlocked_inv [of io s s' r] assms(2)
    by (auto simp: publish_generation_def split: sum.splits)
next
  case (revoke l)
  have "s' = s\<lparr>st_fencing_epoch := st_fencing_epoch s + 1\<rparr>"
    using revoke_lease_Inr [OF revoke(2)] by simp
  then show ?thesis using assms(2) revoke(1) by (auto simp: store_inv_def split: option.splits)
qed (use replace_access_policy_inv pin_generation_inv assms(2) in fastforce)+

lemma store_run_inv:
  assumes "store_run s n s'" "store_inv s"
  shows "store_inv s' \<and> st_owner_token s' = st_owner_token s
       \<and> (st_recovery_required s \<longrightarrow> st_recovery_required s')
       \<and> st_fencing_epoch s' = st_fencing_epoch s + of_nat n"
  using assms
proof induction
  case (go s n s' b s'')
  then show ?case using store_step_inv [of s' b s''] by (cases b) auto
qed simp

section \<open>Leases\<close>

lemma validate_lease_iff:
  "validate_lease now l s = Inr u \<longleftrightarrow>
     \<not> st_recovery_required s \<and> lease_owner_token l = st_owner_token s \<and> now < lease_expires_at l
     \<and> lease_fencing_epoch l = st_fencing_epoch s
     \<and> acl_revision (lease_generation l) = pol_revision (st_access_policy s)
     \<and> st_commit_sequence s = publication_seq (lease_generation l)
     \<and> st_published_generation s = Some (lease_generation l)"
  by (auto simp: validate_lease_def validate_lease_unlocked_def)

text \<open>C23: a revoked lease stays revoked. Once a revocation has gone through for a lease that carried
  the store's fencing epoch, the lease validates at no time and in no store reachable from there by
  any interleaving of commits, policy changes, publications, pins and further revocations, as long
  as these are fewer than \<open>2 ^ 64 - 1\<close>, after which the epoch counter would wrap.\<close>

theorem revoked_lease_stays_revoked:
  assumes "store_inv s" "lease_fencing_epoch l = st_fencing_epoch s" "revoke_lease l s = (s1, Inr ())"
    and "store_run s1 n s2" "n + 1 < 2 ^ 64"
  shows "validate_lease now l s2 \<noteq> Inr ()"
proof -
  have s1: "s1 = s\<lparr>st_fencing_epoch := st_fencing_epoch s + 1\<rparr>"
    using revoke_lease_Inr [OF assms(3)] by simp
  then have "store_inv s1" using assms(1) by (simp add: store_inv_def split: option.splits)
  from store_run_inv [OF assms(4) this] have "st_fencing_epoch s2 = st_fencing_epoch s + of_nat (n + 1)"
    by (simp add: s1)
  moreover have "unat (of_nat (n + 1) :: u64) = n + 1"
    using assms(5) by (simp add: unsigned_of_nat take_bit_nat_eq_self del: of_nat_add of_nat_Suc)
  then have "(of_nat (n + 1) :: u64) \<noteq> 0" by (metis unat_eq_zero add_is_0 one_neq_zero)
  ultimately have "st_fencing_epoch s2 \<noteq> st_fencing_epoch s" by simp
  then show ?thesis using assms(2) by (simp add: validate_lease_iff)
qed

section \<open>What a valid lease reads\<close>

text \<open>Nothing changes the policy or the published generation without a commit.\<close>

definition same_or_later :: "store \<Rightarrow> store \<Rightarrow> bool" where
  "same_or_later s s' \<longleftrightarrow> st_commit_sequence s \<le> st_commit_sequence s'
     \<and> (st_commit_sequence s' = st_commit_sequence s
          \<longrightarrow> st_access_policy s' = st_access_policy s
            \<and> st_published_generation s' = st_published_generation s)"

lemma same_or_later_refl [simp]: "same_or_later s s"
  by (simp add: same_or_later_def)

lemma same_or_later_trans: "same_or_later s t \<Longrightarrow> same_or_later t u \<Longrightarrow> same_or_later s u"
  by (auto simp: same_or_later_def)

lemma append_wal_event_later:
  "append_wal_event outcome s = (s', r) \<Longrightarrow> same_or_later s s'"
  by (auto simp: append_wal_event_def same_or_later_def split: wal_outcome.splits)

lemma replace_access_policy_later:
  assumes "replace_access_policy outcome actor expected p s = (s', r)" "fresh_ack outcome s"
  shows "same_or_later s s'"
proof (cases "policy_change_allowed actor expected p s")
  case False
  then show ?thesis using replace_access_policy_refused [OF False, of outcome] assms(1) by auto
next
  case True
  then show ?thesis
    using assms by (cases outcome)
      (auto simp: replace_access_policy_allowed same_or_later_def fresh_ack_def max_def split: if_splits)
qed

lemma publish_receipt_later:
  assumes "publish_receipt outcome g s = (s', r)" "fresh_ack outcome s"
  shows "same_or_later s s'"
proof (cases outcome)
  case (Wal_Acked q)
  let ?s1 = "s\<lparr>st_commit_sequence := max (st_commit_sequence s) q\<rparr>"
  have "st_commit_sequence s < q" using assms(2) Wal_Acked by (simp add: fresh_ack_def)
  moreover have "st_commit_sequence s' = st_commit_sequence ?s1"
    using assms(1) Wal_Acked
    by (auto simp: publish_receipt_def split: if_splits prod.splits sum.splits
        dest!: apply_generation_event_cases)
  ultimately show ?thesis by (auto simp: same_or_later_def max_def)
qed (use assms in \<open>auto simp: publish_receipt_def append_wal_event_def same_or_later_def\<close>)

lemma publish_generation_unlocked_later:
  assumes "publish_generation_unlocked io s = (s', r)" "fresh_ack (io_append io) s"
  shows "same_or_later s s'"
  using assms(1)
proof (cases rule: publish_generation_unlocked_cases)
  case (receipt g)
  then show ?thesis using publish_receipt_later assms(2) by blast
qed simp

lemma pin_generation_later:
  assumes "pin_generation rfc io now a tmp ttl s = (s', r)" "fresh_ack (io_append io) s"
  shows "same_or_later s s'"
  using assms(1)
proof (cases rule: pin_generation_cases)
  case (published r')
  then show ?thesis using publish_generation_unlocked_later assms(2) by blast
qed simp

lemma store_step_later: "store_step s b s' \<Longrightarrow> same_or_later s s'"
proof (induction rule: store_step.induct)
  case (commit outcome s s' r t)
  then show ?case using append_wal_event_later [of outcome s s' r] by (simp add: same_or_later_def)
next
  case (publish io s s' r)
  then show ?case using publish_generation_unlocked_later [of io s s' r]
    by (auto simp: publish_generation_def split: sum.splits)
next
  case (revoke l s s')
  then show ?case using revoke_lease_Inr(1) [of l s s' "()"] by (simp add: same_or_later_def)
qed (use replace_access_policy_later pin_generation_later in blast)+

lemma store_run_later: "store_run s n s' \<Longrightarrow> same_or_later s s'"
  by (induction rule: store_run.induct) (auto intro: same_or_later_trans store_step_later)

text \<open>A successful publication leaves the generation it returns published, at the frontier.\<close>

lemma publish_receipt_Inr:
  assumes "publish_receipt outcome g s = (s', Inr g')" "fresh_ack outcome s"
    and "case st_published_generation s of None \<Rightarrow> True | Some old \<Rightarrow> generation_id old < generation_id g"
  shows "g' = g \<and> st_published_generation s' = Some g \<and> st_commit_sequence s' = publication_seq g
       \<and> st_access_policy s' = st_access_policy s \<and> st_recovery_required s' = st_recovery_required s"
  using assms
  by (auto simp: publish_receipt_def append_wal_event_def apply_generation_event_def Let_def
      fresh_ack_def max_def split: wal_outcome.splits if_splits option.splits)

lemma publish_receipt_saturated:
  assumes "publish_receipt outcome g s = (s', Inr g')" "st_published_generation s = Some old"
    and "generation_id old = generation_id g" "fresh_ack outcome s" "store_inv s"
  shows False
proof -
  have "old = g" "st_commit_sequence s < publication_seq g"
    using assms by (auto simp: publish_receipt_def append_wal_event_def apply_generation_event_def
        Let_def fresh_ack_def split: wal_outcome.splits if_splits)
  then show False using assms(2,5) by (auto simp: store_inv_def)
qed

lemma next_generation_id:
  assumes "st_published_generation s = Some old"
  shows "generation_id old < generation_id (next_generation f q d h s)
       \<or> generation_id old = generation_id (next_generation f q d h s)"
proof -
  have "unat (generation_id old) \<le> unat (saturating_add (generation_id old) 1)"
    by (rule saturating_add_mono)
  then show ?thesis using assms by (simp add: next_generation_def word_less_nat_alt word_unat_eq_iff le_less)
qed

lemma publish_generation_unlocked_Inr:
  assumes "publish_generation_unlocked io s = (s', Inr g)" "fresh_ack (io_append io) s" "store_inv s"
  shows "st_published_generation s' = Some g \<and> st_commit_sequence s' = publication_seq g
       \<and> acl_revision g = pol_revision (st_access_policy s')
       \<and> st_recovery_required s' = st_recovery_required s"
proof (cases "st_published_generation s = Some g \<and> publication_seq g = st_commit_sequence s \<and> s' = s")
  case True
  then show ?thesis using assms(3) by (auto simp: store_inv_def)
next
  case False
  then obtain f q d h where pr: "publish_receipt (io_append io) (next_generation f q d h s) s = (s', Inr g)"
    using assms(1) by (auto simp: publish_generation_unlocked_def Let_def split: sum.splits option.splits if_splits)
  have "case st_published_generation s of None \<Rightarrow> True
        | Some old \<Rightarrow> generation_id old < generation_id (next_generation f q d h s)"
    using publish_receipt_saturated [OF pr _ _ assms(2,3)] next_generation_id [of s _ f q d h]
    by (auto split: option.split)
  from publish_receipt_Inr [OF pr assms(2) this] show ?thesis
    by (simp add: next_generation_def)
qed

lemma pin_generation_Inr:
  assumes "pin_generation rfc io now a tmp ttl s = (s', Inr l)"
  shows "\<not> st_recovery_required s" "lease_owner_token l = st_owner_token s'"
    "lease_fencing_epoch l = st_fencing_epoch s'" "lease_expires_at l = now + ttl" "0 < ttl"
    "validate_generation_tx_as_of (lease_generation l) (tr_tx_as_of tmp) = Inr ()"
  using assms by (auto simp: pin_generation_def split: sum.splits prod.splits)

lemma pinned_generation:
  assumes "pin_generation rfc io now a tmp ttl s = (s', Inr l)" "store_inv s" "fresh_ack (io_append io) s"
  shows "st_published_generation s' = Some (lease_generation l)
       \<and> st_commit_sequence s' = publication_seq (lease_generation l)
       \<and> acl_revision (lease_generation l) = pol_revision (st_access_policy s')
       \<and> st_recovery_required s' = st_recovery_required s"
  using assms(1)
proof (cases rule: pin_generation_cases)
  case same
  then show ?thesis using assms(2) by (auto simp: store_inv_def)
next
  case (published r')
  then show ?thesis using publish_generation_unlocked_Inr [of io s s'] assms(2,3) by simp
qed

text \<open>C22: a lease is valid exactly as long as it should be. In a store that keeps the invariant, a
  successful pin, whether it reuses the published generation or publishes a new one, gives a lease
  that validates at every time before its expiry in the store the pin leaves; its transaction time,
  if any, is within the generation's history. And in any store reached later by commits, policy
  changes, publications, pins and revocations, the lease validates only if the commit sequence,
  the access policy and the published generation are still those of the pin: a read under it never
  sees a later commit.\<close>

theorem lease_reads_the_pinned_generation:
  assumes "store_inv s" "fresh_ack (io_append io) s"
    and "pin_generation rfc io now a tmp ttl s = (s', Inr l)"
  shows "(now' < now + ttl \<longrightarrow> validate_lease now' l s' = Inr ())
     \<and> (\<forall>tx. tr_tx_as_of tmp = Some tx \<longrightarrow> gen_history_horizon (lease_generation l) \<le> tx
                \<and> tx \<le> wal_frontier (lease_generation l))
     \<and> (store_run s' n s2 \<and> validate_lease now2 l s2 = Inr () \<longrightarrow>
          now2 < now + ttl \<and> st_commit_sequence s2 = st_commit_sequence s'
          \<and> st_access_policy s2 = st_access_policy s'
          \<and> st_published_generation s2 = Some (lease_generation l))"
proof -
  note pin = pin_generation_Inr [OF assms(3)] and gen = pinned_generation [OF assms(3,1,2)]
  have "now' < now + ttl \<longrightarrow> validate_lease now' l s' = Inr ()"
    using pin gen by (simp add: validate_lease_iff)
  moreover have "\<forall>tx. tr_tx_as_of tmp = Some tx \<longrightarrow> gen_history_horizon (lease_generation l) \<le> tx
                \<and> tx \<le> wal_frontier (lease_generation l)"
    using pin(6) by (auto simp: validate_generation_tx_as_of_def validate_generation_tx_as_of_bounds_def)
  moreover have "store_run s' n s2 \<and> validate_lease now2 l s2 = Inr () \<longrightarrow>
          now2 < now + ttl \<and> st_commit_sequence s2 = st_commit_sequence s'
          \<and> st_access_policy s2 = st_access_policy s'
          \<and> st_published_generation s2 = Some (lease_generation l)"
    using store_run_later [of s' n s2] gen pin(4) by (auto simp: validate_lease_iff same_or_later_def)
  ultimately show ?thesis by blast
qed

text \<open>A store at commit 7 with nothing published, and a pin in it.\<close>

definition sample_store :: store where
  "sample_store = \<lparr>st_owner_token = ''db'', st_read_only = False, st_schema_version = 6,
     st_recovery_required = False, st_commit_sequence = 7, st_txn_frontier = 3, st_fencing_epoch = 0,
     st_access_policy = default_access_policy, st_published_generation = None\<rparr>"

definition sample_io :: publication_io where
  "sample_io = \<lparr>io_checkpoint = Inr (), io_manifest_digest = Inr (replicate 64 CHR ''a''),
     io_history_horizon = 0, io_append = Wal_Acked 8\<rparr>"

definition sample_temporal :: temporal_read where
  "sample_temporal = \<lparr>tr_as_of = None, tr_tx_as_of = Some 5\<rparr>"

definition sample_access :: access_context where
  "sample_access = \<lparr>ac_principal = ''alice'', ac_namespace = ''default''\<rparr>"

definition sample_generation :: generation_info where
  "sample_generation = \<lparr>generation_id = 1, wal_frontier = 7, publication_seq = 8, txn_frontier = 3,
     gen_history_horizon = 1, acl_revision = 0, component_manifest_sha256 = replicate 64 CHR ''a''\<rparr>"

definition sample_lease :: read_lease where
  "sample_lease = \<lparr>lease_owner_token = ''db'', lease_generation = sample_generation,
     lease_expires_at = 160, lease_fencing_epoch = 0, lease_access = sample_access,
     lease_temporal = sample_temporal\<rparr>"

definition sample_pinned :: store where
  "sample_pinned = sample_store\<lparr>st_commit_sequence := 8, st_published_generation := Some sample_generation\<rparr>"

lemma sample_pin:
  "pin_generation (\<lambda>_. None) sample_io 100 sample_access sample_temporal 60 sample_store
     = (sample_pinned, Inr sample_lease)"
proof -
  have "trim ''alice'' = ''alice''" "trim ''default'' = ''default''"
    by (intro trim_ascii_id; simp add: code_def is_whitespace_def)+
  then show ?thesis
    by (simp add: pin_generation_def publish_generation_unlocked_def publish_receipt_def
        apply_generation_event_def validate_temporal_read_def validate_generation_tx_as_of_def
        validate_generation_tx_as_of_bounds_def next_generation_def checked_add_def saturating_add_def
        guard_err_def ok_or_def ensure_readable_def ensure_writable_def append_wal_event_def
        sample_store_def sample_io_def sample_access_def sample_temporal_def sample_pinned_def
        sample_lease_def sample_generation_def default_access_policy_def)
qed

lemma sample_inv: "store_inv sample_store" "store_inv sample_pinned" "fresh_ack (io_append sample_io) sample_store"
  by (simp_all add: store_inv_def fresh_ack_def sample_store_def sample_pinned_def sample_generation_def
      sample_io_def default_access_policy_def)

theorem lease_reads_the_pinned_generation_witness:
  "validate_lease 150 sample_lease sample_pinned = Inr ()"
proof -
  have "(150::nat) < 100 + 60" by simp
  with lease_reads_the_pinned_generation [OF sample_inv(1,3) sample_pin, of 150]
  show ?thesis by blast
qed

theorem revoked_lease_stays_revoked_witness:
  "validate_lease 150 sample_lease (sample_pinned\<lparr>st_fencing_epoch := 1\<rparr>) \<noteq> Inr ()"
proof -
  have "revoke_lease sample_lease sample_pinned = (sample_pinned\<lparr>st_fencing_epoch := 1\<rparr>, Inr ())"
    by (simp add: revoke_lease_def ensure_readable_def sample_lease_def sample_pinned_def sample_store_def)
  moreover have "lease_fencing_epoch sample_lease = st_fencing_epoch sample_pinned"
    by (simp add: sample_lease_def sample_pinned_def sample_store_def)
  ultimately show ?thesis
    using revoked_lease_stays_revoked [OF sample_inv(2) _ _ store_run.stop] by simp
qed

end
