(* ===== verification/GB_Query_Error.thy ===== *)
theory GB_Query_Error
  imports GB_Prelude
begin

text \<open>
  JSON values as \<open>serde_json::Value\<close> has them, and the safe error of the second query engine
  (\<open>src/src/query/hql2/error.rs\<close>) with the source position it reports. A number keeps the
  constructor the deserializer chose; a float is its IEEE bit pattern.
\<close>

unbundle bit_operations_syntax

section \<open>JSON\<close>

datatype json_number = PosInt u64 | NegInt i64 | Float u64

datatype json =
    JNull
  | JBool bool
  | JNumber json_number
  | JString string
  | JArray "json list"
  | JObject "(string \<times> json) list"

text \<open>\<open>f64::is_finite\<close> and \<open>== 0.0\<close> on bit patterns.\<close>

definition f64_is_finite :: "u64 \<Rightarrow> bool" where
  "f64_is_finite v \<longleftrightarrow> v AND 0x7FF0000000000000 \<noteq> 0x7FF0000000000000"

definition f64_is_zero :: "u64 \<Rightarrow> bool" where
  "f64_is_zero v \<longleftrightarrow> v = 0 \<or> v = 0x8000000000000000"

definition f64_is_nan :: "u64 \<Rightarrow> bool" where
  "f64_is_nan v \<longleftrightarrow> \<not> f64_is_finite v \<and> v AND 0x000FFFFFFFFFFFFF \<noteq> 0"

definition f64_eq :: "u64 \<Rightarrow> u64 \<Rightarrow> bool" where
  "f64_eq a b \<longleftrightarrow> (a = b \<and> \<not> f64_is_nan a) \<or> (f64_is_zero a \<and> f64_is_zero b)"

section \<open>Errors\<close>

record source_position = pos_line :: usize  pos_column :: usize

record query_error =
  err_code :: string
  err_stage :: string
  err_message :: string
  err_retryable :: bool
  err_span :: "source_position option"
  err_detail :: "json option"

definition query_error_new :: "string \<Rightarrow> string \<Rightarrow> string \<Rightarrow> query_error" where
  "query_error_new cd stage reason =
     \<lparr>err_code = cd, err_stage = stage, err_message = ''Query could not be completed'',
      err_retryable = (cd = ''SNAPSHOT_EXPIRED'' \<or> cd = ''INDEX_COVERAGE_TIMEOUT''),
      err_span = None, err_detail = Some (JObject [(''reason'', JString reason)])\<rparr>"

text \<open>The position loop: the remaining characters as chunks of bytes, the byte offset of the first
  one, and the running line, column and carriage-return flag.\<close>

fun position_loop :: "nat \<Rightarrow> string list \<Rightarrow> nat \<Rightarrow> nat \<Rightarrow> nat \<Rightarrow> bool \<Rightarrow> nat \<times> nat" where
  "position_loop start [] offset line column previous_cr = (line, column)"
| "position_loop start (ch # chs) offset line column previous_cr =
     (if offset \<ge> start then (line, column)
      else
        let c = scalar_of ch;
            previous' = (c = 13)
        in if c = 13 then position_loop start chs (offset + length ch) (line + 1) 1 previous'
           else if c = 10 then
             position_loop start chs (offset + length ch) (if previous_cr then line else line + 1) 1 previous'
           else position_loop start chs (offset + length ch) line (column + 1) previous')"

definition query_error_parse :: "string \<Rightarrow> nat \<Rightarrow> string \<Rightarrow> query_error" where
  "query_error_parse source start reason =
     (let e = query_error_new ''HQL_PARSE_ERROR'' ''parse'' reason in
      case position_loop start (char_chunks source) 0 1 1 False of
        (line, column) \<Rightarrow> e\<lparr>err_span := Some \<lparr>pos_line = line, pos_column = column\<rparr>\<rparr>)"

definition query_error_display :: "query_error \<Rightarrow> string" where
  "query_error_display e = err_code e @ '': '' @ err_message e"

section \<open>Positions count lines\<close>

text \<open>The specification: a carriage return, a line feed, or both in that order end a line.\<close>

fun norm_newlines :: "nat list \<Rightarrow> nat list" where
  "norm_newlines [] = []"
| "norm_newlines [a] = [if a = 13 then 10 else a]"
| "norm_newlines (a # b # cs) =
     (if a = 13 \<and> b = 10 then 10 # norm_newlines cs
      else (if a = 13 then 10 else a) # norm_newlines (b # cs))"

definition lines_before :: "nat list \<Rightarrow> nat" where
  "lines_before cs = 1 + count_list (norm_newlines cs) 10"

definition column_after :: "nat list \<Rightarrow> nat" where
  "column_after cs = 1 + length (takeWhile (\<lambda>c. c \<noteq> 10) (rev (norm_newlines cs)))"

text \<open>The characters that start before a byte offset.\<close>

fun chars_before :: "nat \<Rightarrow> nat \<Rightarrow> string list \<Rightarrow> nat list" where
  "chars_before start offset [] = []"
| "chars_before start offset (ch # chs) =
     (if offset \<ge> start then [] else scalar_of ch # chars_before start (offset + length ch) chs)"

fun pos_step :: "nat \<times> nat \<times> bool \<Rightarrow> nat \<Rightarrow> nat \<times> nat \<times> bool" where
  "pos_step (line, column, prev) c =
     (if c = 13 then (line + 1, 1, True)
      else if c = 10 then (if prev then line else line + 1, 1, False)
      else (line, column + 1, False))"

lemma position_loop_foldl:
  "position_loop start chs offset line column prev =
     (let (l, c, _) = foldl pos_step (line, column, prev) (chars_before start offset chs) in (l, c))"
  by (induction start chs offset line column prev rule: position_loop.induct) (auto simp: Let_def)

lemma norm_newlines_snoc:
  "norm_newlines (cs @ [c]) =
     (if c = 10 \<and> cs \<noteq> [] \<and> last cs = 13 then norm_newlines cs
      else norm_newlines cs @ [if c = 13 then 10 else c])"
  by (induction cs rule: norm_newlines.induct) auto

lemma norm_newlines_last:
  "cs \<noteq> [] \<Longrightarrow> last cs = 13 \<Longrightarrow> norm_newlines cs \<noteq> [] \<and> last (norm_newlines cs) = 10"
  by (induction cs rule: norm_newlines.induct) (auto split: if_splits)

lemma count_list_snoc: "count_list (xs @ [y]) z = count_list xs z + (if y = z then 1 else 0)"
  by (induction xs) auto

lemma pos_steps:
  "foldl pos_step (1, 1, False) cs = (lines_before cs, column_after cs, cs \<noteq> [] \<and> last cs = 13)"
proof (induction cs rule: rev_induct)
  case Nil
  show ?case by (simp add: lines_before_def column_after_def)
next
  case (snoc c cs)
  have "takeWhile (\<lambda>c. c \<noteq> 10) (rev (norm_newlines cs)) = []" if "cs \<noteq> []" "last cs = 13"
    using norm_newlines_last [OF that] by (cases "norm_newlines cs" rule: rev_cases) auto
  then show ?case
    using snoc by (auto simp: lines_before_def column_after_def norm_newlines_snoc count_list_snoc)
qed

text \<open>The position of a parse error is the line and column a reader counts: one more than the
  line ends in front of the offset, with CR, LF and CRLF each ending one line, and one more than the
  characters since the last of them.\<close>

theorem parse_error_position:
  "err_span (query_error_parse source start reason) =
     Some \<lparr>pos_line = lines_before (chars_before start 0 (char_chunks source)),
           pos_column = column_after (chars_before start 0 (char_chunks source))\<rparr>"
  by (simp add: query_error_parse_def position_loop_foldl pos_steps [unfolded One_nat_def] Let_def)

end

