(* ===== verification/GB_Key_Codec.thy ===== *)
theory GB_Key_Codec
  imports GB_Query_Error
begin

text \<open>
  The primary-key codec of \<open>src/src/query/hql2/key_codec.rs\<close>: an ordered tuple of typed
  components becomes one byte string of at most 16 KiB. Reals are IEEE bit patterns. The JSON
  serializer is the parameter \<open>json_writes\<close>, the sequence of \<open>write_all\<close> calls it makes for a value.
\<close>

unbundle bit_operations_syntax

section \<open>Components\<close>

definition PREFIX :: bytes where "PREFIX = bytes_of ''HQL2RK1''"

definition MAX_ENCODED_KEY_BYTES :: nat where "MAX_ENCODED_KEY_BYTES = 16 * 1024"

datatype key_component =
    KNull
  | KText string
  | KInteger i64
  | KReal u64
  | KBoolean bool
  | KJson json
  | KBlob bytes
  | KTimestamp string
  | KEntityId string

definition canonical_real :: "u64 \<Rightarrow> u64" where
  "canonical_real v = (if f64_is_zero v then 0 else v)"

section \<open>The limited writer\<close>

record limited_writer = lw_bytes :: bytes  lw_limit :: nat

definition limited_write :: "limited_writer \<Rightarrow> bytes \<Rightarrow> limited_writer option" where
  "limited_write w bs =
     (if length bs > lw_limit w - length (lw_bytes w) then None
      else Some (w\<lparr>lw_bytes := lw_bytes w @ bs\<rparr>))"

fun limited_writes :: "limited_writer \<Rightarrow> bytes list \<Rightarrow> limited_writer option" where
  "limited_writes w [] = Some w"
| "limited_writes w (bs # rest) =
     (case limited_write w bs of None \<Rightarrow> None | Some w' \<Rightarrow> limited_writes w' rest)"

section \<open>The encoder\<close>

fun component_bytes ::
  "(json \<Rightarrow> bytes list) \<Rightarrow> key_component \<Rightarrow> nat \<Rightarrow> (string, u8 \<times> bytes) result" where
  "component_bytes json_writes KNull json_limit = Inr (0, [])"
| "component_bytes json_writes (KText v) json_limit = Inr (1, bytes_of v)"
| "component_bytes json_writes (KInteger v) json_limit = Inr (2, u64_to_be v)"
| "component_bytes json_writes (KReal v) json_limit =
     (if f64_is_finite v then Inr (3, u64_to_be (canonical_real v))
      else Inl ''key_codec_nonfinite_real'')"
| "component_bytes json_writes (KBoolean v) json_limit = Inr (4, [of_bool v])"
| "component_bytes json_writes (KJson v) json_limit =
     (case limited_writes \<lparr>lw_bytes = [], lw_limit = json_limit\<rparr> (json_writes v) of
        None \<Rightarrow> Inl ''key_codec_value_too_large''
      | Some w \<Rightarrow> Inr (5, lw_bytes w))"
| "component_bytes json_writes (KBlob v) json_limit = Inr (6, v)"
| "component_bytes json_writes (KTimestamp v) json_limit = Inr (7, bytes_of v)"
| "component_bytes json_writes (KEntityId v) json_limit = Inr (8, bytes_of v)"

fun encode_components ::
  "(json \<Rightarrow> bytes list) \<Rightarrow> key_component list \<Rightarrow> bytes \<Rightarrow> (string, bytes) result" where
  "encode_components json_writes [] encoded = Inr encoded"
| "encode_components json_writes (c # cs) encoded =
     (let remaining = MAX_ENCODED_KEY_BYTES - length encoded in
      if remaining < 5 then Inl ''key_codec_value_too_large''
      else rbind (component_bytes json_writes c (remaining - 5)) (\<lambda>(tag, bs).
        if length bs \<ge> 2 ^ 32 then Inl ''key_codec_value_too_large''
        else if length encoded + 5 + length bs > MAX_ENCODED_KEY_BYTES
        then Inl ''key_codec_value_too_large''
        else encode_components json_writes cs
               (encoded @ [tag] @ u32_to_be (of_nat (length bs)) @ bs)))"

definition encode_key_v1 ::
  "(json \<Rightarrow> bytes list) \<Rightarrow> key_component list \<Rightarrow> (string, bytes) result" where
  "encode_key_v1 json_writes components =
     (if components = [] \<or> length components > 255 then Inl ''key_codec_component_count''
      else encode_components json_writes components (PREFIX @ [of_nat (length components)]))"

section \<open>What an encoding holds\<close>

lemma limited_writes_eq:
  "length (lw_bytes w) \<le> lw_limit w \<Longrightarrow>
   limited_writes w bss =
     (if length (lw_bytes w) + length (concat bss) \<le> lw_limit w
      then Some (w\<lparr>lw_bytes := lw_bytes w @ concat bss\<rparr>) else None)"
proof (induction bss arbitrary: w)
  case (Cons bs bss)
  then show ?case by (auto simp: limited_write_def)
qed simp

text \<open>Tag and payload of a component, with no size limit.\<close>

fun tag_of :: "key_component \<Rightarrow> u8" where
  "tag_of KNull = 0"
| "tag_of (KText _) = 1"
| "tag_of (KInteger _) = 2"
| "tag_of (KReal _) = 3"
| "tag_of (KBoolean _) = 4"
| "tag_of (KJson _) = 5"
| "tag_of (KBlob _) = 6"
| "tag_of (KTimestamp _) = 7"
| "tag_of (KEntityId _) = 8"

fun payload :: "(json \<Rightarrow> bytes list) \<Rightarrow> key_component \<Rightarrow> bytes" where
  "payload jw KNull = []"
| "payload jw (KText v) = bytes_of v"
| "payload jw (KInteger v) = u64_to_be v"
| "payload jw (KReal v) = u64_to_be (canonical_real v)"
| "payload jw (KBoolean v) = [of_bool v]"
| "payload jw (KJson v) = concat (jw v)"
| "payload jw (KBlob v) = v"
| "payload jw (KTimestamp v) = bytes_of v"
| "payload jw (KEntityId v) = bytes_of v"

fun encodable :: "key_component \<Rightarrow> bool" where
  "encodable (KReal v) = f64_is_finite v"
| "encodable _ = True"

definition framed :: "(json \<Rightarrow> bytes list) \<Rightarrow> key_component \<Rightarrow> bytes" where
  "framed jw c = tag_of c # u32_to_be (of_nat (length (payload jw c))) @ payload jw c"

lemma length_framed [simp]: "length (framed jw c) = 5 + length (payload jw c)"
  by (simp add: framed_def)

lemma component_bytes_Inr:
  "component_bytes jw c limit = Inr (tag, bs) \<longleftrightarrow>
     encodable c \<and> tag = tag_of c \<and> bs = payload jw c
     \<and> (\<forall>v. c = KJson v \<longrightarrow> length bs \<le> limit)"
  by (cases c) (auto simp: limited_writes_eq)

lemma encode_components_Inr:
  "encode_components jw cs encoded = Inr out \<longleftrightarrow>
     list_all encodable cs \<and> out = encoded @ concat (map (framed jw) cs)
     \<and> (cs = [] \<or> length out \<le> MAX_ENCODED_KEY_BYTES)"
proof (induction cs arbitrary: encoded)
  case (Cons c cs)
  let ?next = "encoded @ framed jw c"
  have step: "encode_components jw (c # cs) encoded = Inr out \<longleftrightarrow>
      encodable c \<and> length ?next \<le> MAX_ENCODED_KEY_BYTES \<and> encode_components jw cs ?next = Inr out"
    by (auto simp: Let_def component_bytes_Inr framed_def MAX_ENCODED_KEY_BYTES_def)
  show ?case unfolding step Cons.IH by auto
qed auto

text \<open>Two components that name the same key value: equal up to the sign of zero, and JSON values up
  to their serialization.\<close>

fun same_key :: "(json \<Rightarrow> bytes list) \<Rightarrow> key_component \<Rightarrow> key_component \<Rightarrow> bool" where
  "same_key jw (KReal v) (KReal w) \<longleftrightarrow> v = w \<or> f64_is_zero v \<and> f64_is_zero w"
| "same_key jw (KJson v) (KJson w) \<longleftrightarrow> concat (jw v) = concat (jw w)"
| "same_key jw a b \<longleftrightarrow> a = b"

lemma canonical_real_eq:
  "canonical_real v = canonical_real w \<longleftrightarrow> v = w \<or> f64_is_zero v \<and> f64_is_zero w"
  by (auto simp: canonical_real_def f64_is_zero_def)

lemma same_key_iff:
  "same_key jw a b \<longleftrightarrow> tag_of a = tag_of b \<and> payload jw a = payload jw b"
  by (cases a; cases b) (auto simp: canonical_real_eq)

lemma framed_prefix_free:
  assumes "framed jw a @ xs = framed jw b @ ys"
    and "length (payload jw a) < 2 ^ 32" "length (payload jw b) < 2 ^ 32"
  shows "same_key jw a b \<and> xs = ys"
proof -
  let ?len = "\<lambda>c. u32_to_be (of_nat (length (payload jw c)))"
  have tag: "tag_of a = tag_of b" and rest: "?len a @ payload jw a @ xs = ?len b @ payload jw b @ ys"
    using assms(1) by (auto simp: framed_def)
  then have "?len a = ?len b" "payload jw a @ xs = payload jw b @ ys"
    using append_eq_append_conv [of "?len a" "?len b"] by auto
  then have "unat (of_nat (length (payload jw a)) :: u32) = unat (of_nat (length (payload jw b)) :: u32)"
    by simp
  then have "length (payload jw a) = length (payload jw b)"
    using assms(2,3) by (simp add: unsigned_of_nat take_bit_nat_eq_self)
  with tag \<open>payload jw a @ xs = payload jw b @ ys\<close> show ?thesis by (simp add: same_key_iff)
qed

lemma framed_list_injective:
  assumes "concat (map (framed jw) cs) = concat (map (framed jw) ds)" "length cs = length ds"
    and "\<And>c. c \<in> set cs \<union> set ds \<Longrightarrow> length (payload jw c) < 2 ^ 32"
  shows "list_all2 (same_key jw) cs ds"
  using assms(2,1,3)
proof (induction rule: list_induct2)
  case (Cons c cs d ds)
  then have "same_key jw c d \<and> concat (map (framed jw) cs) = concat (map (framed jw) ds)"
    by (intro framed_prefix_free) auto
  with Cons show ?case by auto
qed simp

lemma framed_same_key: "same_key jw a b \<Longrightarrow> framed jw a = framed jw b"
  by (simp add: same_key_iff framed_def)

lemma payload_le_concat:
  "c \<in> set cs \<Longrightarrow> length (payload jw c) \<le> length (concat (map (framed jw) cs))"
proof (induction cs)
  case (Cons d cs)
  then show ?case by (cases "c = d") (auto simp: framed_def)
qed simp

section \<open>Properties\<close>

text \<open>Encoding a key succeeds exactly for one to 255 components with finite reals whose framed
  encodings fit with the eight byte header into 16 KiB, and the result is that header followed by
  them: the size checks made on the way, the limit given to the JSON writer included, refuse
  nothing that would fit.\<close>

theorem encode_key_v1_Inr:
  "encode_key_v1 jw cs = Inr out \<longleftrightarrow>
     0 < length cs \<and> length cs \<le> 255 \<and> list_all encodable cs
     \<and> out = PREFIX @ [of_nat (length cs)] @ concat (map (framed jw) cs)
     \<and> length out \<le> 16384"
  by (auto simp: encode_key_v1_def encode_components_Inr MAX_ENCODED_KEY_BYTES_def)

lemma encode_key_v1_parts:
  assumes "encode_key_v1 jw cs = Inr out"
  shows "out = PREFIX @ [of_nat (length cs)] @ concat (map (framed jw) cs)"
    and "unat (of_nat (length cs) :: u8) = length cs"
    and "c \<in> set cs \<Longrightarrow> length (payload jw c) < 2 ^ 32"
proof -
  have out: "out = (PREFIX @ [of_nat (length cs)]) @ concat (map (framed jw) cs)"
    and le: "length out \<le> MAX_ENCODED_KEY_BYTES" and n: "length cs \<le> 255"
    using assms by (auto simp: encode_key_v1_def encode_components_Inr split: if_splits)
  show "out = PREFIX @ [of_nat (length cs)] @ concat (map (framed jw) cs)" using out by simp
  show "unat (of_nat (length cs) :: u8) = length cs"
    using n by (simp add: unsigned_of_nat take_bit_nat_eq_self)
  show "c \<in> set cs \<Longrightarrow> length (payload jw c) < 2 ^ 32"
    using payload_le_concat [of c cs jw] out le by (simp add: MAX_ENCODED_KEY_BYTES_def)
qed

text \<open>C32: the key codec is injective: two tuples that encode have the same encoding exactly when they
  have the same length and, position by position, the same kind and value, where the two zeros are
  one real and JSON values count by their serialization. No text, blob, timestamp or identifier of
  any content can be confused with another split of the bytes.\<close>

theorem key_codec_injective:
  assumes "encode_key_v1 jw cs = Inr a" "encode_key_v1 jw ds = Inr b"
  shows "a = b \<longleftrightarrow> list_all2 (same_key jw) cs ds"
proof
  note pa = encode_key_v1_parts [OF assms(1)] and pb = encode_key_v1_parts [OF assms(2)]
  assume "a = b"
  then have "(of_nat (length cs) :: u8) = of_nat (length ds)"
    and body: "concat (map (framed jw) cs) = concat (map (framed jw) ds)"
    using pa(1) pb(1) by auto
  then have "length cs = length ds" by (metis pa(2) pb(2))
  with body show "list_all2 (same_key jw) cs ds"
    using pa(3) pb(3) by (intro framed_list_injective) auto
next
  assume same: "list_all2 (same_key jw) cs ds"
  then have "map (framed jw) cs = map (framed jw) ds"
    by (induction cs arbitrary: ds) (auto simp: list_all2_Cons1 intro!: framed_same_key)
  with same show "a = b"
    using encode_key_v1_parts(1) [OF assms(1)] encode_key_v1_parts(1) [OF assms(2)]
    by (simp add: list_all2_lengthD)
qed

text \<open>Without the length field, the text \<open>ab\<close> followed by \<open>c\<close> and \<open>a\<close> followed by \<open>bc\<close> would collide.\<close>

theorem key_codec_injective_witness:
  "encode_key_v1 (\<lambda>_. []) [KText ''ab'', KText ''c''] \<noteq> encode_key_v1 (\<lambda>_. []) [KText ''a'', KText ''bc'']"
proof -
  obtain a where a: "encode_key_v1 (\<lambda>_. []) [KText ''ab'', KText ''c''] = Inr a"
    by (simp add: encode_key_v1_def MAX_ENCODED_KEY_BYTES_def PREFIX_def bytes_of_def)
  obtain b where b: "encode_key_v1 (\<lambda>_. []) [KText ''a'', KText ''bc''] = Inr b"
    by (simp add: encode_key_v1_def MAX_ENCODED_KEY_BYTES_def PREFIX_def bytes_of_def)
  show ?thesis using key_codec_injective [OF a b] a b by simp
qed

end
