(* ===== verification/GB_Budget.thy ===== *)
theory GB_Budget
  imports GB_Query_Error
begin

text \<open>
  The two query budgets: \<open>QueryBudget\<close> and \<open>QueryBudgetState\<close> of the first engine
  (\<open>src/src/lib.rs\<close>) and \<open>ExecutionBudgetV2\<close> of the second (\<open>src/src/query/hql2/exec.rs\<close>).
  A clock reading is an argument of every operation that reads the clock; instants and durations are
  nanoseconds. What both promise is the locale \<open>meter\<close>: a counter that is charged atomically and
  never passes its cap.
\<close>

section \<open>The first engine\<close>

definition QUERY_BUDGET_DEFAULT_NODES :: u64 where "QUERY_BUDGET_DEFAULT_NODES = 100000"
definition QUERY_BUDGET_DEFAULT_EDGES :: u64 where "QUERY_BUDGET_DEFAULT_EDGES = 200000"
definition QUERY_BUDGET_DEFAULT_CANDIDATES :: u64 where "QUERY_BUDGET_DEFAULT_CANDIDATES = 100000"
definition QUERY_BUDGET_DEFAULT_ROWS :: u64 where "QUERY_BUDGET_DEFAULT_ROWS = 10000"
definition QUERY_BUDGET_DEFAULT_BYTES :: u64 where "QUERY_BUDGET_DEFAULT_BYTES = 32 * 1024 * 1024"
definition QUERY_BUDGET_DEFAULT_ELAPSED_MS :: u64 where "QUERY_BUDGET_DEFAULT_ELAPSED_MS = 5000"

lemmas budget_defaults = QUERY_BUDGET_DEFAULT_NODES_def QUERY_BUDGET_DEFAULT_EDGES_def
  QUERY_BUDGET_DEFAULT_CANDIDATES_def QUERY_BUDGET_DEFAULT_ROWS_def QUERY_BUDGET_DEFAULT_BYTES_def
  QUERY_BUDGET_DEFAULT_ELAPSED_MS_def

text \<open>A limit record; the caller's has optional fields, the resolved one plain numbers.\<close>

record 'n budget_limits =
  max_expanded_nodes :: 'n
  max_expanded_edges :: 'n
  max_vector_candidates :: 'n
  max_result_rows :: 'n
  max_serialized_bytes :: 'n
  max_elapsed_ms :: 'n

type_synonym query_budget = "u64 option budget_limits"
type_synonym resolved_query_budget = "u64 budget_limits"

definition as_input :: "resolved_query_budget \<Rightarrow> query_budget" where
  "as_input b =
     \<lparr>max_expanded_nodes = Some (max_expanded_nodes b), max_expanded_edges = Some (max_expanded_edges b),
      max_vector_candidates = Some (max_vector_candidates b), max_result_rows = Some (max_result_rows b),
      max_serialized_bytes = Some (max_serialized_bytes b), max_elapsed_ms = Some (max_elapsed_ms b)\<rparr>"

text \<open>The error of the first engine is its reason text.\<close>

definition positive :: "string \<Rightarrow> u64 option \<Rightarrow> u64 \<Rightarrow> (string, u64) result" where
  "positive name val dflt =
     (case val of
        Some v \<Rightarrow> if v = 0 then Inl (''QUERY_BUDGET_INVALID: '' @ name @ '' must be positive'') else Inr v
      | None \<Rightarrow> Inr dflt)"

definition resolve :: "query_budget \<Rightarrow> (string, resolved_query_budget) result" where
  "resolve q =
     rbind (positive ''max_expanded_nodes'' (max_expanded_nodes q) QUERY_BUDGET_DEFAULT_NODES) (\<lambda>nodes.
     rbind (positive ''max_expanded_edges'' (max_expanded_edges q) QUERY_BUDGET_DEFAULT_EDGES) (\<lambda>edges.
     rbind (positive ''max_vector_candidates'' (max_vector_candidates q) QUERY_BUDGET_DEFAULT_CANDIDATES) (\<lambda>cands.
     rbind (positive ''max_result_rows'' (max_result_rows q) QUERY_BUDGET_DEFAULT_ROWS) (\<lambda>rows.
     rbind (positive ''max_serialized_bytes'' (max_serialized_bytes q) QUERY_BUDGET_DEFAULT_BYTES) (\<lambda>byts.
     rbind (positive ''max_elapsed_ms'' (max_elapsed_ms q) QUERY_BUDGET_DEFAULT_ELAPSED_MS) (\<lambda>ms.
       Inr \<lparr>max_expanded_nodes = nodes, max_expanded_edges = edges, max_vector_candidates = cands,
            max_result_rows = rows, max_serialized_bytes = byts, max_elapsed_ms = ms\<rparr>))))))"

definition validate_budget :: "query_budget \<Rightarrow> (string, unit) result" where
  "validate_budget q = rbind (resolve q) (\<lambda>_. Inr ())"

record query_budget_state =
  limits :: resolved_query_budget
  started :: nat
  expanded_nodes :: u64
  expanded_edges :: u64
  vector_candidates :: u64
  result_rows :: u64

definition budget_state_new :: "nat \<Rightarrow> resolved_query_budget \<Rightarrow> query_budget_state" where
  "budget_state_new now lim = \<lparr>limits = lim, started = now, expanded_nodes = 0, expanded_edges = 0,
     vector_candidates = 0, result_rows = 0\<rparr>"

definition from_millis :: "u64 \<Rightarrow> nat" where
  "from_millis ms = unat ms * 1000000"

definition check_deadline :: "nat \<Rightarrow> query_budget_state \<Rightarrow> (string, unit) result" where
  "check_deadline now s =
     guard_err (now - started s > from_millis (max_elapsed_ms (limits s)))
       ''QUERY_BUDGET_EXCEEDED: reason=deadline''"

definition consume ::
  "nat \<Rightarrow> query_budget_state \<Rightarrow> string \<Rightarrow> u64 \<Rightarrow> u64 \<Rightarrow> u64 \<Rightarrow> (string, u64) result" where
  "consume now s knd amount limit tot =
     rbind (check_deadline now s) (\<lambda>_.
     rbind (ok_or (''QUERY_BUDGET_EXCEEDED: reason='' @ knd) (checked_add tot amount)) (\<lambda>tot'.
       if tot' > limit then Inl (''QUERY_BUDGET_EXCEEDED: reason='' @ knd) else Inr tot'))"

definition node :: "nat \<Rightarrow> query_budget_state \<Rightarrow> (string, query_budget_state) result" where
  "node now s = rbind (consume now s ''nodes'' 1 (max_expanded_nodes (limits s)) (expanded_nodes s))
     (\<lambda>tot. Inr (s\<lparr>expanded_nodes := tot\<rparr>))"

definition edge :: "nat \<Rightarrow> query_budget_state \<Rightarrow> (string, query_budget_state) result" where
  "edge now s = rbind (consume now s ''edges'' 1 (max_expanded_edges (limits s)) (expanded_edges s))
     (\<lambda>tot. Inr (s\<lparr>expanded_edges := tot\<rparr>))"

definition candidate :: "nat \<Rightarrow> query_budget_state \<Rightarrow> (string, query_budget_state) result" where
  "candidate now s =
     rbind (consume now s ''candidates'' 1 (max_vector_candidates (limits s)) (vector_candidates s))
       (\<lambda>tot. Inr (s\<lparr>vector_candidates := tot\<rparr>))"

definition row :: "nat \<Rightarrow> query_budget_state \<Rightarrow> (string, query_budget_state) result" where
  "row now s = rbind (consume now s ''rows'' 1 (max_result_rows (limits s)) (result_rows s))
     (\<lambda>tot. Inr (s\<lparr>result_rows := tot\<rparr>))"

text \<open>\<open>ser\<close> is the JSON serializer of the value, with its error text.\<close>

definition serialized :: "nat \<Rightarrow> query_budget_state \<Rightarrow> (string, bytes) result \<Rightarrow> (string, unit) result" where
  "serialized now s ser =
     rbind (check_deadline now s) (\<lambda>_.
       case ser of
         Inl e \<Rightarrow> Inl (''QUERY_EXECUTION_FAILED: '' @ e)
       | Inr bs \<Rightarrow> guard_err (length bs > unat (max_serialized_bytes (limits s)))
                     ''QUERY_BUDGET_EXCEEDED: reason=bytes'')"

definition preserve_query_error :: "string \<Rightarrow> string" where
  "preserve_query_error message =
     (if starts_with message ''QUERY_BUDGET_''
         \<or> starts_with message ''QUERY_RESOURCE_LIMIT_EXCEEDED''
         \<or> starts_with message ''QUERY_IR_VALIDATION_FAILED''
         \<or> starts_with message ''QUERY_CAPABILITY_UNSUPPORTED''
         \<or> starts_with message ''QUERY_TARGET_NOT_FOUND''
      then message else ''QUERY_EXECUTION_FAILED: '' @ message)"

section \<open>The second engine\<close>

definition quota :: query_error where
  "quota = query_error_new ''QUERY_BUDGET_EXCEEDED'' ''execute'' ''query_limit''"

record query_budget_v2 =
  v2_max_memory_bytes :: "u64 option"
  v2_max_spill_bytes :: "u64 option"
  v2_max_elapsed_ms :: "u64 option"
  v2_max_expanded_nodes :: "u64 option"
  v2_max_expanded_edges :: "u64 option"
  v2_max_vector_candidates :: "u64 option"
  v2_max_distance_evaluations :: "u64 option"
  v2_max_result_rows :: "u64 option"
  v2_max_result_bytes :: "u64 option"

record execution_budget =
  eb_started :: nat
  eb_elapsed :: nat
  eb_memory :: u64
  eb_accounted :: u64
  eb_rows :: u64
  eb_bytes :: u64
  eb_expanded_nodes :: u64
  eb_expanded_nodes_used :: u64
  eb_expanded_edges :: u64
  eb_expanded_edges_used :: u64
  eb_vector_candidates :: u64
  eb_vector_candidates_used :: u64
  eb_distance_evaluations :: u64
  eb_distance_evaluations_used :: u64

definition budget_limit :: "u64 option \<Rightarrow> u64 \<Rightarrow> (query_error, u64) result" where
  "budget_limit val dflt =
     (case val of
        None \<Rightarrow> Inr dflt
      | Some v \<Rightarrow> if v > 0 \<and> v \<le> dflt then Inr v
                  else Inl (query_error_new ''BIND_ERROR'' ''bind'' ''budget_limit''))"

definition default_execution_budget :: "nat \<Rightarrow> execution_budget" where
  "default_execution_budget now =
     \<lparr>eb_started = now, eb_elapsed = from_millis 5000, eb_memory = 64 * 1024 * 1024, eb_accounted = 0,
      eb_rows = 10000, eb_bytes = 32 * 1024 * 1024, eb_expanded_nodes = 100000,
      eb_expanded_nodes_used = 0, eb_expanded_edges = 200000, eb_expanded_edges_used = 0,
      eb_vector_candidates = 100000, eb_vector_candidates_used = 0,
      eb_distance_evaluations = 1000000, eb_distance_evaluations_used = 0\<rparr>"

definition execution_budget_new ::
  "nat \<Rightarrow> query_budget_v2 option \<Rightarrow> (query_error, execution_budget) result" where
  "execution_budget_new now options =
     (let budget = default_execution_budget now in
      case options of
        None \<Rightarrow> Inr budget
      | Some o' \<Rightarrow>
          rbind (guard_err ((case v2_max_spill_bytes o' of None \<Rightarrow> 0 | Some b \<Rightarrow> b) \<noteq> 0)
                   (query_error_new ''CAPABILITY_UNSUPPORTED'' ''bind'' ''spill_unavailable'')) (\<lambda>_.
          rbind (budget_limit (v2_max_elapsed_ms o') 5000) (\<lambda>ms.
          rbind (budget_limit (v2_max_memory_bytes o') (64 * 1024 * 1024)) (\<lambda>mem.
          rbind (budget_limit (v2_max_result_rows o') 10000) (\<lambda>rows.
          rbind (budget_limit (v2_max_result_bytes o') (32 * 1024 * 1024)) (\<lambda>byts.
          rbind (budget_limit (v2_max_expanded_nodes o') 100000) (\<lambda>nodes.
          rbind (budget_limit (v2_max_expanded_edges o') 200000) (\<lambda>edges.
          rbind (budget_limit (v2_max_vector_candidates o') 100000) (\<lambda>cands.
          rbind (budget_limit (v2_max_distance_evaluations o') 1000000) (\<lambda>dist.
            Inr (budget\<lparr>eb_elapsed := from_millis ms, eb_memory := mem, eb_rows := rows,
                        eb_bytes := byts, eb_expanded_nodes := nodes, eb_expanded_edges := edges,
                        eb_vector_candidates := cands, eb_distance_evaluations := dist\<rparr>)))))))))))"

definition account_elapsed_since :: "nat \<Rightarrow> execution_budget \<Rightarrow> execution_budget" where
  "account_elapsed_since start b = b\<lparr>eb_started := min (eb_started b) start\<rparr>"

definition eb_check :: "nat \<Rightarrow> execution_budget \<Rightarrow> (query_error, unit) result" where
  "eb_check now b = guard_err (now - eb_started b > eb_elapsed b) quota"

definition reserve :: "nat \<Rightarrow> u64 \<Rightarrow> execution_budget \<Rightarrow> (query_error, execution_budget) result" where
  "reserve now n b =
     rbind (eb_check now b) (\<lambda>_.
     rbind (ok_or quota (checked_add (eb_accounted b) n)) (\<lambda>nxt.
       if nxt > eb_memory b then Inl quota else Inr (b\<lparr>eb_accounted := nxt\<rparr>)))"

definition reserve_expanded_nodes ::
  "nat \<Rightarrow> u64 \<Rightarrow> execution_budget \<Rightarrow> (query_error, execution_budget) result" where
  "reserve_expanded_nodes now n b =
     rbind (eb_check now b) (\<lambda>_.
     rbind (ok_or quota (checked_add (eb_expanded_nodes_used b) n)) (\<lambda>nxt.
       if nxt > eb_expanded_nodes b then Inl quota else Inr (b\<lparr>eb_expanded_nodes_used := nxt\<rparr>)))"

definition reserve_expanded_edges ::
  "nat \<Rightarrow> u64 \<Rightarrow> execution_budget \<Rightarrow> (query_error, execution_budget) result" where
  "reserve_expanded_edges now n b =
     rbind (eb_check now b) (\<lambda>_.
     rbind (ok_or quota (checked_add (eb_expanded_edges_used b) n)) (\<lambda>nxt.
       if nxt > eb_expanded_edges b then Inl quota else Inr (b\<lparr>eb_expanded_edges_used := nxt\<rparr>)))"

definition reserve_vector_candidates ::
  "nat \<Rightarrow> u64 \<Rightarrow> execution_budget \<Rightarrow> (query_error, execution_budget) result" where
  "reserve_vector_candidates now n b =
     rbind (eb_check now b) (\<lambda>_.
     rbind (ok_or quota (checked_add (eb_vector_candidates_used b) n)) (\<lambda>nxt.
       if nxt > eb_vector_candidates b then Inl quota else Inr (b\<lparr>eb_vector_candidates_used := nxt\<rparr>)))"

definition reserve_distance_evaluations ::
  "nat \<Rightarrow> u64 \<Rightarrow> execution_budget \<Rightarrow> (query_error, execution_budget) result" where
  "reserve_distance_evaluations now n b =
     rbind (eb_check now b) (\<lambda>_.
     rbind (ok_or quota (checked_add (eb_distance_evaluations_used b) n)) (\<lambda>nxt.
       if nxt > eb_distance_evaluations b then Inl quota
       else Inr (b\<lparr>eb_distance_evaluations_used := nxt\<rparr>)))"

definition check_output :: "nat \<Rightarrow> u64 \<Rightarrow> u64 \<Rightarrow> execution_budget \<Rightarrow> (query_error, unit) result" where
  "check_output now rows byts b =
     rbind (eb_check now b) (\<lambda>_. guard_err (rows > eb_rows b \<or> byts > eb_bytes b) quota)"

section \<open>What a meter promises\<close>

text \<open>Charging a list of requests, each with the clock reading at which it is made.\<close>

fun charge_all ::
  "(nat \<Rightarrow> 'q \<Rightarrow> 's \<Rightarrow> ('e, 's) result) \<Rightarrow> (nat \<times> 'q) list \<Rightarrow> 's \<Rightarrow> ('e, 's) result" where
  "charge_all charge [] s = Inr s"
| "charge_all charge ((now, q) # qs) s = rbind (charge now q s) (charge_all charge qs)"

locale meter =
  fixes charge :: "nat \<Rightarrow> 'q \<Rightarrow> 's \<Rightarrow> ('e, 's) result"
    and cost :: "'q \<Rightarrow> nat"
    and used :: "'s \<Rightarrow> u64"
    and cap :: "'s \<Rightarrow> u64"
    and expired :: "nat \<Rightarrow> 's \<Rightarrow> bool"
  assumes charged: "charge now q s = Inr s' \<Longrightarrow>
      \<not> expired now s \<and> unat (used s') = unat (used s) + cost q \<and> used s' \<le> cap s'
      \<and> cap s' = cap s \<and> (\<forall>t. expired t s' = expired t s)"
    and admits: "\<not> expired now s \<Longrightarrow> unat (used s) + cost q \<le> unat (cap s) \<Longrightarrow>
      \<exists>s'. charge now q s = Inr s'"
begin

lemma charge_all_total:
  assumes "charge_all charge qs s = Inr s'" and "used s \<le> cap s"
  shows "unat (used s') = unat (used s) + (\<Sum>q\<leftarrow>qs. cost (snd q)) \<and> used s' \<le> cap s'
    \<and> cap s' = cap s \<and> (\<forall>t. expired t s' = expired t s) \<and> (\<forall>q\<in>set qs. \<not> expired (fst q) s)"
  using assms
proof (induction qs arbitrary: s)
  case (Cons q qs)
  obtain now r where q: "q = (now, r)" by (cases q)
  obtain s1 where s1: "charge now r s = Inr s1" and rest: "charge_all charge qs s1 = Inr s'"
    using Cons.prems q by auto
  note c = charged [OF s1]
  from c have "used s1 \<le> cap s1" by blast
  from Cons.IH [OF rest this] c show ?case unfolding q by (elim conjE) simp
qed simp

lemma charge_all_admits:
  assumes "\<forall>q\<in>set qs. \<not> expired (fst q) s"
    and "unat (used s) + (\<Sum>q\<leftarrow>qs. cost (snd q)) \<le> unat (cap s)"
  shows "\<exists>s'. charge_all charge qs s = Inr s'"
  using assms
proof (induction qs arbitrary: s)
  case (Cons q qs)
  obtain now r where q: "q = (now, r)" by (cases q)
  obtain s1 where s1: "charge now r s = Inr s1"
    using admits [of now s r] Cons.prems q by auto
  with charged [OF s1] Cons.IH [of s1] Cons.prems q show ?case by auto
qed simp

text \<open>A run of charges goes through exactly when no deadline passes and the total fits.\<close>

lemma charge_all_iff:
  assumes "used s \<le> cap s"
  shows "(\<exists>s'. charge_all charge qs s = Inr s') \<longleftrightarrow>
    (\<forall>q\<in>set qs. \<not> expired (fst q) s)
    \<and> unat (used s) + (\<Sum>q\<leftarrow>qs. cost (snd q)) \<le> unat (cap s)"
proof
  assume "\<exists>s'. charge_all charge qs s = Inr s'"
  then obtain s' where s': "charge_all charge qs s = Inr s'" ..
  from charge_all_total [OF s' assms] show "(\<forall>q\<in>set qs. \<not> expired (fst q) s)
    \<and> unat (used s) + (\<Sum>q\<leftarrow>qs. cost (snd q)) \<le> unat (cap s)"
    using word_le_nat_alt by metis
qed (use charge_all_admits in blast)

end

abbreviation late :: "nat \<Rightarrow> execution_budget \<Rightarrow> bool" where
  "late now b \<equiv> now - eb_started b > eb_elapsed b"

abbreviation late1 :: "nat \<Rightarrow> query_budget_state \<Rightarrow> bool" where
  "late1 now s \<equiv> now - started s > from_millis (max_elapsed_ms (limits s))"

text \<open>The common shape of all the charging operations.\<close>

lemma metered_Inr:
  "rbind (guard_err expired e) (\<lambda>_. rbind (ok_or e' (checked_add u n)) (\<lambda>x.
      if x > c then Inl e'' else Inr (f x))) = Inr s' \<longleftrightarrow>
   \<not> expired \<and> (\<exists>x. unat x = unat u + unat n \<and> x \<le> c \<and> s' = f x)"
  by (auto simp: checked_add_Some_iff not_less split: if_splits)

lemma sum_word: "unat (a :: u64) + unat (b :: u64) \<le> unat (c :: u64) \<Longrightarrow> \<exists>d. unat d = unat a + unat b \<and> d \<le> c"
proof -
  assume le: "unat a + unat b \<le> unat c"
  then have "unat a + unat b < 2 ^ 64" using unat_less_exp [of c] by simp
  then have "unat (a + b) = unat a + unat b" by (simp add: unat_add_no_wrap)
  with le show ?thesis by (intro exI [of _ "a + b"]) (simp add: word_le_nat_alt)
qed

lemma sum_word_one: "unat (a :: u64) + 1 \<le> unat (c :: u64) \<Longrightarrow> \<exists>d. unat d = unat a + 1 \<and> d \<le> c"
  using sum_word [of a 1 c] by simp

lemmas meter_simps = reserve_def reserve_expanded_nodes_def reserve_expanded_edges_def
  reserve_vector_candidates_def reserve_distance_evaluations_def eb_check_def metered_Inr

interpretation mem: meter reserve unat eb_accounted eb_memory late
proof (unfold_locales, goal_cases)
  case 2
  then show ?case using sum_word unfolding meter_simps by blast
qed (unfold meter_simps, auto)

interpretation nodes: meter reserve_expanded_nodes unat eb_expanded_nodes_used eb_expanded_nodes late
proof (unfold_locales, goal_cases)
  case 2
  then show ?case using sum_word unfolding meter_simps by blast
qed (unfold meter_simps, auto)

interpretation edges: meter reserve_expanded_edges unat eb_expanded_edges_used eb_expanded_edges late
proof (unfold_locales, goal_cases)
  case 2
  then show ?case using sum_word unfolding meter_simps by blast
qed (unfold meter_simps, auto)

interpretation vectors:
  meter reserve_vector_candidates unat eb_vector_candidates_used eb_vector_candidates late
proof (unfold_locales, goal_cases)
  case 2
  then show ?case using sum_word unfolding meter_simps by blast
qed (unfold meter_simps, auto)

interpretation distances:
  meter reserve_distance_evaluations unat eb_distance_evaluations_used eb_distance_evaluations late
proof (unfold_locales, goal_cases)
  case 2
  then show ?case using sum_word unfolding meter_simps by blast
qed (unfold meter_simps, auto)

text \<open>The first engine charges one unit at a time.\<close>

lemma consume_Inr:
  "consume now s knd 1 limit tot = Inr t \<longleftrightarrow>
     \<not> late1 now s \<and> unat t = unat tot + 1 \<and> t \<le> limit"
  by (auto simp: consume_def check_deadline_def checked_add_Some_iff not_less split: if_splits)

lemmas unit_charges = node_def edge_def candidate_def row_def consume_Inr

interpretation nodes1: meter "\<lambda>now (_ :: unit) s. node now s" "\<lambda>_. 1" expanded_nodes
  "\<lambda>s. max_expanded_nodes (limits s)" late1
proof (unfold_locales, goal_cases)
  case (2 now s q)
  then show ?case using sum_word_one [of "expanded_nodes s"] by (auto simp: unit_charges)
qed (auto simp: unit_charges)

interpretation edges1: meter "\<lambda>now (_ :: unit) s. edge now s" "\<lambda>_. 1" expanded_edges
  "\<lambda>s. max_expanded_edges (limits s)" late1
proof (unfold_locales, goal_cases)
  case (2 now s q)
  then show ?case using sum_word_one [of "expanded_edges s"] by (auto simp: unit_charges)
qed (auto simp: unit_charges)

interpretation candidates1: meter "\<lambda>now (_ :: unit) s. candidate now s" "\<lambda>_. 1" vector_candidates
  "\<lambda>s. max_vector_candidates (limits s)" late1
proof (unfold_locales, goal_cases)
  case (2 now s q)
  then show ?case using sum_word_one [of "vector_candidates s"] by (auto simp: unit_charges)
qed (auto simp: unit_charges)

interpretation rows1: meter "\<lambda>now (_ :: unit) s. row now s" "\<lambda>_. 1" result_rows
  "\<lambda>s. max_result_rows (limits s)" late1
proof (unfold_locales, goal_cases)
  case (2 now s q)
  then show ?case using sum_word_one [of "result_rows s"] by (auto simp: unit_charges)
qed (auto simp: unit_charges)

section \<open>Properties\<close>

text \<open>C26: A run of memory reservations of the second engine goes through exactly when no reading
  of the clock is past the deadline and the total fits the memory cap; then the accounted bytes are
  the exact total, so no wrap-around of the 64-bit counter can hide an overrun.\<close>

theorem memory_reservations_exact:
  assumes "eb_accounted b \<le> eb_memory b"
  shows "((\<exists>b'. charge_all reserve qs b = Inr b') \<longleftrightarrow>
      (\<forall>q\<in>set qs. fst q - eb_started b \<le> eb_elapsed b)
      \<and> unat (eb_accounted b) + (\<Sum>q\<leftarrow>qs. unat (snd q)) \<le> unat (eb_memory b))
    \<and> (\<forall>b'. charge_all reserve qs b = Inr b' \<longrightarrow>
      unat (eb_accounted b') = unat (eb_accounted b) + (\<Sum>q\<leftarrow>qs. unat (snd q)))"
  using mem.charge_all_iff [OF assms, of qs] mem.charge_all_total [OF _ assms, of qs]
  by (auto simp: not_less)

theorem memory_reservations_exact_witness:
  "\<exists>b'. charge_all reserve [(3, 40), (9, 60)] (default_execution_budget 0) = Inr b'
     \<and> unat (eb_accounted b') = 100"
  using memory_reservations_exact [of "default_execution_budget 0" "[(3, 40), (9, 60)]"]
  by (auto simp: default_execution_budget_def from_millis_def)

text \<open>The first engine expands exactly as many nodes as its limit allows: a run of \<open>node\<close>
  charges on a fresh budget goes through if and only if it is no longer than the limit and no charge
  is past the deadline.\<close>

theorem node_charges_exact:
  "(\<exists>s'. charge_all (\<lambda>now (_ :: unit) s. node now s) (map (\<lambda>t. (t, ())) ticks) (budget_state_new t0 lim) = Inr s')
   \<longleftrightarrow> length ticks \<le> unat (max_expanded_nodes lim)
     \<and> list_all (\<lambda>t. t - t0 \<le> from_millis (max_elapsed_ms lim)) ticks"
proof -
  have sum: "(\<Sum>q\<leftarrow>map (\<lambda>t. (t, ())) ticks. 1 :: nat) = length ticks"
    by (simp add: sum_list_triv comp_def)
  have "expanded_nodes (budget_state_new t0 lim) \<le> max_expanded_nodes (limits (budget_state_new t0 lim))"
    by (simp add: budget_state_new_def)
  from nodes1.charge_all_iff [OF this, of "map (\<lambda>t. (t, ())) ticks"] show ?thesis
    unfolding sum by (auto simp: budget_state_new_def list_all_iff not_less)
qed

text \<open>Every operation on an execution budget keeps all its counters within their caps.\<close>

definition eb_inv :: "execution_budget \<Rightarrow> bool" where
  "eb_inv b \<longleftrightarrow> eb_accounted b \<le> eb_memory b \<and> eb_expanded_nodes_used b \<le> eb_expanded_nodes b
     \<and> eb_expanded_edges_used b \<le> eb_expanded_edges b
     \<and> eb_vector_candidates_used b \<le> eb_vector_candidates b
     \<and> eb_distance_evaluations_used b \<le> eb_distance_evaluations b"

lemma reserve_keeps_inv:
  "eb_inv b \<Longrightarrow> reserve now n b = Inr b' \<Longrightarrow> eb_inv b'"
  "eb_inv b \<Longrightarrow> reserve_expanded_nodes now n b = Inr b' \<Longrightarrow> eb_inv b'"
  "eb_inv b \<Longrightarrow> reserve_expanded_edges now n b = Inr b' \<Longrightarrow> eb_inv b'"
  "eb_inv b \<Longrightarrow> reserve_vector_candidates now n b = Inr b' \<Longrightarrow> eb_inv b'"
  "eb_inv b \<Longrightarrow> reserve_distance_evaluations now n b = Inr b' \<Longrightarrow> eb_inv b'"
  unfolding meter_simps eb_inv_def by auto

lemma budget_limit_Inr:
  "budget_limit val dflt = Inr v \<Longrightarrow> 0 < dflt \<Longrightarrow> 0 < v \<and> v \<le> dflt \<and> (val = Some v \<or> val = None \<and> v = dflt)"
  by (auto simp: budget_limit_def split: option.splits if_splits)

text \<open>A caller can only tighten the second engine's limits: every accepted set of options
  yields positive caps that are at most the defaults and at most what the caller asked for, with all
  counters at zero, and a request for spill space is refused.\<close>

theorem execution_budget_only_tightens:
  assumes "execution_budget_new now (Some o') = Inr b"
  shows "eb_inv b \<and> 0 < eb_memory b \<and> eb_memory b \<le> 64 * 1024 * 1024
    \<and> 0 < eb_rows b \<and> eb_rows b \<le> 10000 \<and> 0 < eb_bytes b \<and> eb_bytes b \<le> 32 * 1024 * 1024
    \<and> 0 < eb_expanded_nodes b \<and> eb_expanded_nodes b \<le> 100000
    \<and> eb_elapsed b \<le> from_millis 5000
    \<and> (\<forall>m. v2_max_memory_bytes o' = Some m \<longrightarrow> eb_memory b = m)
    \<and> (v2_max_spill_bytes o' = None \<or> v2_max_spill_bytes o' = Some 0)
    \<and> eb_accounted b = 0 \<and> eb_expanded_nodes_used b = 0"
proof -
  from assms obtain ms mem rows byts nodes edges cands dist where
    lim: "budget_limit (v2_max_elapsed_ms o') 5000 = Inr ms"
      "budget_limit (v2_max_memory_bytes o') (64 * 1024 * 1024) = Inr mem"
      "budget_limit (v2_max_result_rows o') 10000 = Inr rows"
      "budget_limit (v2_max_result_bytes o') (32 * 1024 * 1024) = Inr byts"
      "budget_limit (v2_max_expanded_nodes o') 100000 = Inr nodes"
    and spill: "(case v2_max_spill_bytes o' of None \<Rightarrow> 0 | Some b \<Rightarrow> b) = 0"
    and b: "b = (default_execution_budget now)\<lparr>eb_elapsed := from_millis ms, eb_memory := mem,
      eb_rows := rows, eb_bytes := byts, eb_expanded_nodes := nodes, eb_expanded_edges := edges,
      eb_vector_candidates := cands, eb_distance_evaluations := dist\<rparr>"
    by (auto simp: execution_budget_new_def Let_def)
  note l = budget_limit_Inr [OF lim(1)] budget_limit_Inr [OF lim(2)] budget_limit_Inr [OF lim(3)]
    budget_limit_Inr [OF lim(4)] budget_limit_Inr [OF lim(5)]
  have "from_millis ms \<le> from_millis 5000"
    using l(1) by (simp add: from_millis_def word_le_nat_alt)
  then show ?thesis
    using l spill by (auto simp: b eb_inv_def default_execution_budget_def split: option.splits)
qed

theorem execution_budget_only_tightens_witness:
  "\<exists>b. execution_budget_new 7 (Some \<lparr>v2_max_memory_bytes = Some 4096, v2_max_spill_bytes = None,
        v2_max_elapsed_ms = None, v2_max_expanded_nodes = Some 5, v2_max_expanded_edges = None,
        v2_max_vector_candidates = None, v2_max_distance_evaluations = None,
        v2_max_result_rows = None, v2_max_result_bytes = None\<rparr>) = Inr b \<and> eb_memory b = 4096"
proof -
  let ?o = "\<lparr>v2_max_memory_bytes = Some 4096, v2_max_spill_bytes = None,
        v2_max_elapsed_ms = None, v2_max_expanded_nodes = Some 5, v2_max_expanded_edges = None,
        v2_max_vector_candidates = None, v2_max_distance_evaluations = None,
        v2_max_result_rows = None, v2_max_result_bytes = None\<rparr>"
  obtain b where b: "execution_budget_new 7 (Some ?o) = Inr b"
    by (simp add: execution_budget_new_def budget_limit_def)
  with execution_budget_only_tightens [OF b] show ?thesis by simp
qed

lemma positive_Inr: "positive nm v d = Inr x \<longleftrightarrow> v \<noteq> Some 0 \<and> x = (case v of None \<Rightarrow> d | Some y \<Rightarrow> y)"
  by (auto simp: positive_def split: option.splits)

definition given_or :: "u64 option \<Rightarrow> u64 \<Rightarrow> u64" where
  "given_or v d = (case v of None \<Rightarrow> d | Some y \<Rightarrow> y)"

lemma given_or_pos: "v \<noteq> Some 0 \<Longrightarrow> 0 < d \<Longrightarrow> 0 < given_or v d"
  by (cases v) (auto simp: given_or_def word_neq_0_conv [symmetric])

lemma resolve_Inr:
  "resolve q = Inr r \<longleftrightarrow>
     (max_expanded_nodes q \<noteq> Some 0 \<and> max_expanded_edges q \<noteq> Some 0 \<and> max_vector_candidates q \<noteq> Some 0
      \<and> max_result_rows q \<noteq> Some 0 \<and> max_serialized_bytes q \<noteq> Some 0 \<and> max_elapsed_ms q \<noteq> Some 0)
     \<and> r = \<lparr>max_expanded_nodes = given_or (max_expanded_nodes q) QUERY_BUDGET_DEFAULT_NODES,
            max_expanded_edges = given_or (max_expanded_edges q) QUERY_BUDGET_DEFAULT_EDGES,
            max_vector_candidates = given_or (max_vector_candidates q) QUERY_BUDGET_DEFAULT_CANDIDATES,
            max_result_rows = given_or (max_result_rows q) QUERY_BUDGET_DEFAULT_ROWS,
            max_serialized_bytes = given_or (max_serialized_bytes q) QUERY_BUDGET_DEFAULT_BYTES,
            max_elapsed_ms = given_or (max_elapsed_ms q) QUERY_BUDGET_DEFAULT_ELAPSED_MS\<rparr>"
  unfolding resolve_def rbind_Inr_iff positive_Inr given_or_def by auto

text \<open>Resolving the first engine's budget fails exactly when some supplied limit is zero;
  resolved limits are positive, and feeding them back as input resolves to themselves.\<close>

theorem resolve_budget:
  "((\<exists>r. resolve q = Inr r) \<longleftrightarrow>
      max_expanded_nodes q \<noteq> Some 0 \<and> max_expanded_edges q \<noteq> Some 0 \<and> max_vector_candidates q \<noteq> Some 0
      \<and> max_result_rows q \<noteq> Some 0 \<and> max_serialized_bytes q \<noteq> Some 0 \<and> max_elapsed_ms q \<noteq> Some 0)
   \<and> (resolve q = Inr r \<longrightarrow> 0 < max_expanded_nodes r \<and> 0 < max_result_rows r \<and> 0 < max_elapsed_ms r
      \<and> resolve (as_input r) = Inr r)"
proof (intro conjI impI)
  assume r: "resolve q = Inr r"
  then show "0 < max_expanded_nodes r" "0 < max_result_rows r" "0 < max_elapsed_ms r"
    by (auto simp: resolve_Inr given_or_pos budget_defaults)
  from r have "max_expanded_nodes r \<noteq> 0" "max_expanded_edges r \<noteq> 0" "max_vector_candidates r \<noteq> 0"
    "max_result_rows r \<noteq> 0" "max_serialized_bytes r \<noteq> 0" "max_elapsed_ms r \<noteq> 0"
    unfolding word_neq_0_conv by (auto simp: resolve_Inr given_or_pos budget_defaults)
  then show "resolve (as_input r) = Inr r"
    by (simp add: resolve_Inr) (simp add: as_input_def given_or_def)
qed (simp add: resolve_Inr)

theorem resolve_budget_witness:
  "\<exists>r. resolve \<lparr>max_expanded_nodes = Some 7, max_expanded_edges = None, max_vector_candidates = None,
        max_result_rows = None, max_serialized_bytes = None, max_elapsed_ms = None\<rparr> = Inr r
     \<and> resolve (as_input r) = Inr r"
proof -
  let ?q = "\<lparr>max_expanded_nodes = Some 7, max_expanded_edges = None, max_vector_candidates = None,
        max_result_rows = None, max_serialized_bytes = None, max_elapsed_ms = None\<rparr> :: query_budget"
  obtain r where "resolve ?q = Inr r" using resolve_budget [of ?q] by auto
  then show ?thesis using resolve_budget [of ?q r] by blast
qed

end

