(* ===== verification/GB_Kahn.thy ===== *)
theory GB_Kahn
  imports GB_Prelude "HOL-Library.Multiset"
begin

text \<open>
  Kahn's algorithm over an abstract worklist. Two validators of the sources topologically sort a
  query graph, one with a stack over a hash map (\<open>src/src/uee_v2.rs\<close>), one with an ordered set
  (\<open>src/src/query/hql2/wire.rs\<close>); both are instances of the loop below, and the locale \<open>worklist\<close>
  states what the loop needs of its container. The lemmas are proved once here, for any container.
\<close>

section \<open>The loop\<close>

text \<open>Following one edge: the degree of the child drops, and the child is ready when it reaches
  zero. \<open>kahn_loop\<close> returns \<open>None\<close> when the fuel runs out and else the visited keys in order.\<close>

fun relax :: "('k \<Rightarrow> 'w \<Rightarrow> 'w) \<Rightarrow> 'k list \<Rightarrow> ('k \<Rightarrow> nat) \<Rightarrow> 'w \<Rightarrow> ('k \<Rightarrow> nat) \<times> 'w" where
  "relax push [] deg w = (deg, w)"
| "relax push (c # cs) deg w =
     relax push cs (deg(c := deg c - 1)) (if deg c - 1 = 0 then push c w else w)"

fun kahn_loop ::
  "('w \<Rightarrow> ('k \<times> 'w) option) \<Rightarrow> ('k \<Rightarrow> 'w \<Rightarrow> 'w) \<Rightarrow> ('k \<Rightarrow> 'k list) \<Rightarrow> nat
     \<Rightarrow> ('k \<Rightarrow> nat) \<Rightarrow> 'w \<Rightarrow> 'k list \<Rightarrow> 'k list option" where
  "kahn_loop pop push outgoing 0 deg w visited = None"
| "kahn_loop pop push outgoing (Suc fuel) deg w visited =
     (case pop w of
        None \<Rightarrow> Some visited
      | Some (k, w') \<Rightarrow>
          (case relax push (outgoing k) deg w' of
             (deg', w'') \<Rightarrow> kahn_loop pop push outgoing fuel deg' w'' (visited @ [k])))"

section \<open>Graphs\<close>

text \<open>The edges of a graph over a set of keys, with the successors of a key as a list that may
  repeat; the degree counts edges from keys outside a set of visited ones.\<close>

definition edges_of :: "'k set \<Rightarrow> ('k \<Rightarrow> 'k list) \<Rightarrow> ('k \<times> 'k) set" where
  "edges_of K outgoing = {(a, b). a \<in> K \<and> b \<in> set (outgoing a)}"

definition pending_degree :: "'k set \<Rightarrow> ('k \<Rightarrow> 'k list) \<Rightarrow> 'k set \<Rightarrow> 'k \<Rightarrow> nat" where
  "pending_degree K outgoing V k = (\<Sum>j\<in>K - V. count (mset (outgoing j)) k)"

lemma pending_degree_visit:
  assumes "finite K" "j \<in> K" "j \<notin> V"
  shows "pending_degree K outgoing V k = count (mset (outgoing j)) k + pending_degree K outgoing (insert j V) k"
proof -
  have "K - V = insert j (K - insert j V)" using assms by auto
  moreover have "(\<Sum>i\<in>insert j (K - insert j V). count (mset (outgoing i)) k)
      = count (mset (outgoing j)) k + (\<Sum>i\<in>K - insert j V. count (mset (outgoing i)) k)"
    using assms(1) by (intro sum.insert) auto
  ultimately show ?thesis by (simp only: pending_degree_def)
qed

lemma pending_degree_zero:
  assumes "finite K"
  shows "pending_degree K outgoing V k = 0 \<longleftrightarrow> (\<forall>j\<in>K - V. k \<notin> set (outgoing j))"
  using assms by (simp add: pending_degree_def count_eq_zero_iff)

text \<open>An order in which every key comes after its predecessors.\<close>

definition topological :: "'k set \<Rightarrow> ('k \<Rightarrow> 'k list) \<Rightarrow> 'k list \<Rightarrow> bool" where
  "topological K outgoing ks \<longleftrightarrow>
     (\<forall>i < length ks. \<forall>j\<in>K. ks ! i \<in> set (outgoing j) \<longrightarrow> j \<in> set (take i ks))"

lemma topological_snoc:
  "topological K outgoing ks \<Longrightarrow> (\<And>j. j \<in> K \<Longrightarrow> k \<in> set (outgoing j) \<Longrightarrow> j \<in> set ks)
   \<Longrightarrow> topological K outgoing (ks @ [k])"
  by (auto simp: topological_def nth_append less_Suc_eq)

lemma topological_acyclic:
  assumes "topological K outgoing ks" "set ks = K" "distinct ks"
  shows "acyclic (edges_of K outgoing)"
proof -
  define pos where "pos k = (LEAST i. i < length ks \<and> ks ! i = k)" for k
  have pos: "pos (ks ! i) = i" if "i < length ks" for i
    unfolding pos_def using that assms(3) by (intro Least_equality) (auto simp: nth_eq_iff_index_eq)
  have edge: "pos a < pos b" if ab: "(a, b) \<in> edges_of K outgoing" "b \<in> K" for a b
  proof -
    obtain i where i: "i < length ks" "ks ! i = b" using ab(2) assms(2) by (metis in_set_conv_nth)
    then have "a \<in> set (take i ks)"
      using assms(1) ab(1) by (auto simp: topological_def edges_of_def)
    then obtain j where "j < i" "ks ! j = a" by (auto simp: in_set_conv_nth)
    then show ?thesis using pos i by auto
  qed
  have lt: "pos a < pos b" if "(a, b) \<in> (edges_of K outgoing)\<^sup>+" "b \<in> K" for a b
    using that
  proof (induction rule: trancl_induct)
    case (step b c)
    have "b \<in> K" using step(2) by (simp add: edges_of_def)
    with step edge [of b c] show ?case by fastforce
  qed (rule edge)
  show ?thesis
  proof (rule acyclicI, rule allI, rule notI)
    fix a assume cyc: "(a, a) \<in> (edges_of K outgoing)\<^sup>+"
    then have "a \<in> K" by (auto simp: edges_of_def dest: tranclD)
    with lt [OF cyc] show False by simp
  qed
qed

lemma acyclic_has_source:
  assumes "acyclic (edges_of K outgoing)" "finite K" "U \<subseteq> K" "U \<noteq> {}"
  shows "\<exists>k\<in>U. \<forall>j\<in>U. k \<notin> set (outgoing j)"
proof -
  let ?E = "edges_of K outgoing \<inter> K \<times> K"
  have "finite ?E" using assms(2) by (auto intro: finite_subset [of _ "K \<times> K"])
  moreover have "acyclic ?E" using assms(1) by (rule acyclic_subset) auto
  ultimately have "wf ?E" by (rule finite_acyclic_wf)
  then obtain k where "k \<in> U" "\<And>j. (j, k) \<in> ?E \<Longrightarrow> j \<notin> U"
    using assms(4) by (metis wfE_min ex_in_conv)
  then show ?thesis using assms(3) by (auto simp: edges_of_def)
qed

text \<open>A graph given by its list of edges.\<close>

definition succs :: "('k \<times> 'k) list \<Rightarrow> 'k \<Rightarrow> 'k list" where
  "succs es k = map snd (filter (\<lambda>e. fst e = k) es)"

definition in_count :: "('k \<times> 'k) list \<Rightarrow> 'k \<Rightarrow> nat" where
  "in_count es k = length (filter (\<lambda>e. snd e = k) es)"

lemma succs_simps [simp]:
  "succs [] k = []"
  "succs (es @ [(a, b)]) = (succs es)(a := succs es a @ [b])"
  by (auto simp: succs_def)

lemma in_count_simps [simp]:
  "in_count [] k = 0"
  "in_count (es @ [(a, b)]) = (in_count es)(b := in_count es b + 1)"
  by (auto simp: in_count_def)

lemma set_succs [simp]: "b \<in> set (succs es a) \<longleftrightarrow> (a, b) \<in> set es"
  by (force simp: succs_def)

lemma pending_degree_succs:
  assumes "finite K" "fst ` set es \<subseteq> K"
  shows "pending_degree K (succs es) {} = in_count es"
  using assms(2)
proof (induction es rule: rev_induct)
  case Nil
  then show ?case by (auto simp: pending_degree_def)
next
  case (snoc e es)
  obtain a b where e: "e = (a, b)" by (cases e)
  have a: "a \<in> K" and IH: "pending_degree K (succs es) {} = in_count es" using snoc e by auto
  show ?case
  proof
    fix k
    have "pending_degree K (succs (es @ [e])) {} k
        = (\<Sum>j\<in>K. count (mset (succs es j)) k + (if j = a \<and> b = k then 1 else 0))"
      by (auto simp: pending_degree_def e intro!: sum.cong)
    also have "\<dots> = in_count es k + (\<Sum>j\<in>K. if j = a \<and> b = k then 1 else 0)"
      using fun_cong [OF IH, of k] by (simp add: sum.distrib pending_degree_def)
    also have "(\<Sum>j\<in>K. if j = a \<and> b = k then 1 else (0::nat)) = (if b = k then 1 else 0)"
      using assms(1) a by (cases "b = k") (simp_all add: sum.delta)
    also have "in_count es k + (if b = k then 1 else 0) = in_count (es @ [e]) k" by (simp add: e)
    finally show "pending_degree K (succs (es @ [e])) {} k = in_count (es @ [e]) k" .
  qed
qed

lemma edges_of_succs: "fst ` set es \<subseteq> K \<Longrightarrow> edges_of K (succs es) = set es"
  by (force simp: edges_of_def)

section \<open>The worklist\<close>

text \<open>What the loop asks of its container: popping returns some member and removes it, and pushing a
  key that it can hold and does not hold yet adds it.\<close>

locale worklist =
  fixes pop :: "'w \<Rightarrow> ('k \<times> 'w) option"
    and push :: "'k \<Rightarrow> 'w \<Rightarrow> 'w"
    and contents :: "'w \<Rightarrow> 'k multiset"
    and legal :: "'w \<Rightarrow> bool"
    and keys :: "'k set"
  assumes pop_None: "legal w \<Longrightarrow> pop w = None \<longleftrightarrow> contents w = {#}"
    and pop_Some: "legal w \<Longrightarrow> pop w = Some (k, w') \<Longrightarrow> legal w' \<and> contents w = add_mset k (contents w')"
    and push_new: "legal w \<Longrightarrow> k \<in> keys \<Longrightarrow> k \<notin># contents w \<Longrightarrow> legal (push k w) \<and> contents (push k w) = add_mset k (contents w)"
begin

lemma relax_contents:
  assumes "legal w" "\<And>k. deg k = count (mset cs) k + d k" "set cs \<subseteq> keys"
    and "\<And>k. k \<in># contents w \<Longrightarrow> deg k = 0" "\<And>k. count (contents w) k \<le> 1"
  shows "case relax push cs deg w of (deg', w') \<Rightarrow>
           deg' = d \<and> legal w' \<and> (\<forall>k. count (contents w') k \<le> 1)
           \<and> set_mset (contents w') = set_mset (contents w) \<union> {k \<in> set cs. d k = 0}"
  using assms
proof (induction cs arbitrary: deg w)
  case Nil
  then have "deg = d" by auto
  with Nil show ?case by simp
next
  case (Cons c cs)
  let ?deg = "deg(c := deg c - 1)" and ?w = "if deg c - 1 = 0 then push c w else w"
  have degc: "deg c = Suc (count (mset cs) c + d c)" using Cons.prems(2) [of c] by simp
  then have fresh: "c \<notin># contents w" using Cons.prems(4) [of c] by auto
  have deg': "?deg k = count (mset cs) k + d k" for k
    using Cons.prems(2) [of k] degc by auto
  have w': "legal ?w \<and> (\<forall>k. count (contents ?w) k \<le> 1)
      \<and> set_mset (contents ?w) = set_mset (contents w) \<union> (if deg c - 1 = 0 then {c} else {})"
  proof (cases "deg c - 1 = 0")
    case True
    have p: "legal (push c w) \<and> contents (push c w) = add_mset c (contents w)"
      using push_new Cons.prems(1,3) fresh by simp
    have "count (contents w) c = 0" using fresh by (simp add: count_eq_zero_iff)
    then show ?thesis using True p Cons.prems(5) by auto
  qed (use Cons.prems in auto)
  have zero: "k \<in># contents ?w \<Longrightarrow> ?deg k = 0" for k
    using w' Cons.prems(4) [of k] by (auto split: if_splits)
  have "(deg c - 1 = 0 \<and> k = c) \<or> (k \<in> set cs \<and> d k = 0) \<longleftrightarrow> k \<in> set (c # cs) \<and> d k = 0" for k
    using degc by (auto simp: count_eq_zero_iff)
  then have ext: "(if deg c - 1 = 0 then {c} else {}) \<union> {k \<in> set cs. d k = 0} = {k \<in> set (c # cs). d k = 0}"
    by auto
  have "case relax push cs ?deg ?w of (deg', w') \<Rightarrow>
           deg' = d \<and> legal w' \<and> (\<forall>k. count (contents w') k \<le> 1)
           \<and> set_mset (contents w') = set_mset (contents ?w) \<union> {k \<in> set cs. d k = 0}"
    using w' Cons.prems(3) by (intro Cons.IH deg' zero) auto
  then show ?case unfolding relax.simps using w' ext by (auto simp: Un_assoc split: prod.splits)
qed

text \<open>The state between two turns, over the keys \<open>K\<close>: the visited keys are distinct and in
  topological order, the degrees count the edges from unvisited keys, and the worklist holds
  exactly the unvisited keys of degree zero, each once.\<close>

definition kahn_inv :: "'k set \<Rightarrow> ('k \<Rightarrow> 'k list) \<Rightarrow> ('k \<Rightarrow> nat) \<Rightarrow> 'w \<Rightarrow> 'k list \<Rightarrow> bool" where
  "kahn_inv K outgoing deg w visited \<longleftrightarrow>
     legal w \<and> K \<subseteq> keys \<and> set visited \<subseteq> K \<and> distinct visited \<and> topological K outgoing visited
     \<and> deg = pending_degree K outgoing (set visited)
     \<and> set_mset (contents w) = {k \<in> K - set visited. deg k = 0}
     \<and> (\<forall>k. count (contents w) k \<le> 1)"

lemma kahn_inv_step:
  assumes inv: "kahn_inv K outgoing deg w visited" and fin: "finite K"
    and closed: "\<And>k. k \<in> K \<Longrightarrow> set (outgoing k) \<subseteq> K"
    and pop: "pop w = Some (k, w')" and rel: "relax push (outgoing k) deg w' = (deg', w'')"
  shows "kahn_inv K outgoing deg' w'' (visited @ [k])"
proof -
  note i = inv [unfolded kahn_inv_def]
  have legal': "legal w'" and cont: "contents w = add_mset k (contents w')" using pop_Some pop i by auto
  have k: "k \<in> K" "k \<notin> set visited" "deg k = 0" using i cont by auto
  have once: "count (contents w') j \<le> 1" "k \<notin># contents w'" for j
  proof -
    have "count (contents w) j \<le> 1" "count (contents w) k \<le> 1" using i by auto
    then show "count (contents w') j \<le> 1" "k \<notin># contents w'"
      unfolding cont by (auto simp: not_in_iff split: if_splits)
  qed
  let ?d = "pending_degree K outgoing (set (visited @ [k]))"
  have degs: "deg j = count (mset (outgoing k)) j + ?d j" for j
    using i pending_degree_visit [OF fin k(1,2)] by simp
  have held: "set (outgoing k) \<subseteq> keys" using closed [OF k(1)] i by blast
  have ready: "j \<in># contents w' \<Longrightarrow> deg j = 0" for j using i cont by auto
  have r: "deg' = ?d" "legal w''" "\<forall>j. count (contents w'') j \<le> 1"
    "set_mset (contents w'') = set_mset (contents w') \<union> {j \<in> set (outgoing k). ?d j = 0}"
    using relax_contents [OF legal' degs held ready once(1)] unfolding rel by (simp_all del: set_append)
  have rest: "set_mset (contents w') = {j \<in> K - set (visited @ [k]). deg j = 0}"
    using i cont once(2) by auto
  have "{j \<in> K - set (visited @ [k]). deg j = 0} \<union> {j \<in> set (outgoing k). ?d j = 0}
      = {j \<in> K - set (visited @ [k]). ?d j = 0}" (is "?A \<union> ?B = ?C")
  proof
    have "j \<notin> set (visited @ [k])" if "j \<in> ?B" for j
    proof
      assume v: "j \<in> set (visited @ [k])"
      have "j \<in> set (outgoing k)" using that by simp
      then have "0 < deg j" using degs [of j] by (simp add: count_greater_zero_iff)
      moreover have "deg j = 0"
      proof (cases "j = k")
        case False
        then obtain n where n: "n < length visited" "visited ! n = j" using v by (auto simp: in_set_conv_nth)
        then have "i \<in> set visited" if "i \<in> K" "j \<in> set (outgoing i)" for i
        proof -
          have "topological K outgoing visited" using i by blast
          then have "i \<in> set (take n visited)" using n that unfolding topological_def by blast
          then show ?thesis by (rule in_set_takeD)
        qed
        then show ?thesis using i fin by (auto simp: pending_degree_zero)
      qed (use k in simp)
      ultimately show False by simp
    qed
    then show "?A \<union> ?B \<subseteq> ?C" using closed [OF k(1)] degs by fastforce
    show "?C \<subseteq> ?A \<union> ?B" using degs by (auto simp: count_eq_zero_iff)
  qed
  moreover have "topological K outgoing (visited @ [k])"
    using i k fin by (intro topological_snoc) (auto simp: pending_degree_zero)
  ultimately show ?thesis unfolding kahn_inv_def using i k r rest by auto
qed

lemma kahn_loop_inv:
  assumes "kahn_inv K outgoing deg w visited" "finite K" "\<And>k. k \<in> K \<Longrightarrow> set (outgoing k) \<subseteq> K"
    and "card (K - set visited) < fuel"
  shows "\<exists>deg' w' ks. kahn_loop pop push outgoing fuel deg w visited = Some ks
           \<and> kahn_inv K outgoing deg' w' ks \<and> contents w' = {#}"
  using assms(1,4)
proof (induction fuel arbitrary: deg w visited)
  case (Suc fuel)
  have legal: "legal w" using Suc.prems(1) by (simp add: kahn_inv_def)
  show ?case
  proof (cases "pop w")
    case None
    then have "contents w = {#}" using pop_None legal by simp
    then show ?thesis using None Suc.prems(1) by auto
  next
    case (Some p)
    then obtain k w' deg' w'' where pop: "pop w = Some (k, w')"
      and rel: "relax push (outgoing k) deg w' = (deg', w'')" by (metis surj_pair)
    note inv = kahn_inv_step [OF Suc.prems(1) assms(2,3) pop rel]
    have "set (visited @ [k]) \<subseteq> K" "distinct (visited @ [k])" using inv by (simp_all add: kahn_inv_def)
    then have "K - set visited = insert k (K - set (visited @ [k]))" "k \<notin> K - set (visited @ [k])" by auto
    then have "card (K - set visited) = Suc (card (K - set (visited @ [k])))"
      using assms(2) by (metis card_insert_disjoint finite_Diff)
    then have "card (K - set (visited @ [k])) < fuel" using Suc.prems(2) by simp
    from Suc.IH [OF inv this] show ?thesis by (simp add: pop rel)
  qed
qed simp

text \<open>A loop that stopped visited every key exactly when the graph has no cycle.\<close>

lemma kahn_finished:
  assumes inv: "kahn_inv K outgoing deg w ks" and stop: "contents w = {#}" and fin: "finite K"
  shows "length ks = card K \<longleftrightarrow> acyclic (edges_of K outgoing)"
proof -
  have ks: "distinct ks" "set ks \<subseteq> K" "topological K outgoing ks"
    and stuck: "{k \<in> K - set ks. pending_degree K outgoing (set ks) k = 0} = {}"
    using inv stop by (auto simp: kahn_inv_def)
  have "length ks = card K \<longleftrightarrow> set ks = K"
    using ks fin by (metis card_subset_eq distinct_card)
  also have "\<dots> \<longleftrightarrow> acyclic (edges_of K outgoing)"
  proof
    assume "acyclic (edges_of K outgoing)"
    show "set ks = K"
    proof (rule ccontr)
      assume "set ks \<noteq> K"
      then have "K - set ks \<noteq> {}" "K - set ks \<subseteq> K" using ks by auto
      then obtain k where "k \<in> K - set ks" "\<forall>j\<in>K - set ks. k \<notin> set (outgoing j)"
        using acyclic_has_source [OF \<open>acyclic _\<close> fin] by blast
      then show False using stuck fin by (auto simp: pending_degree_zero)
    qed
  qed (use topological_acyclic ks in blast)
  finally show ?thesis .
qed

text \<open>The loop ends, and what it visits is in topological order.\<close>

lemma kahn_inv_start:
  assumes "legal w" "K \<subseteq> keys" "set_mset (contents w) = {k \<in> K. pending_degree K outgoing {} k = 0}"
    and "\<And>k. count (contents w) k \<le> 1"
  shows "kahn_inv K outgoing (pending_degree K outgoing {}) w []"
  unfolding kahn_inv_def using assms by (auto simp: topological_def)

lemma kahn_correct:
  assumes "finite K" "\<And>k. k \<in> K \<Longrightarrow> set (outgoing k) \<subseteq> K" "card K < fuel" "legal w" "K \<subseteq> keys"
    and "set_mset (contents w) = {k \<in> K. pending_degree K outgoing {} k = 0}"
    and "\<And>k. count (contents w) k \<le> 1"
  shows "\<exists>ks. kahn_loop pop push outgoing fuel (pending_degree K outgoing {}) w [] = Some ks
           \<and> distinct ks \<and> set ks \<subseteq> K \<and> topological K outgoing ks
           \<and> (length ks = card K \<longleftrightarrow> acyclic (edges_of K outgoing))"
proof -
  have "kahn_inv K outgoing (pending_degree K outgoing {}) w []"
    using assms by (intro kahn_inv_start)
  from kahn_loop_inv [OF this assms(1,2), of fuel] assms(3) obtain deg' w' ks where
    run: "kahn_loop pop push outgoing fuel (pending_degree K outgoing {}) w [] = Some ks"
    and inv: "kahn_inv K outgoing deg' w' ks" and stop: "contents w' = {#}" by auto
  have "distinct ks" "set ks \<subseteq> K" "topological K outgoing ks" using inv by (auto simp: kahn_inv_def)
  then show ?thesis using run kahn_finished [OF inv stop assms(1)] by blast
qed

end

section \<open>The stack\<close>

text \<open>\<open>Vec::push\<close> and \<open>Vec::pop\<close> work at the end.\<close>

definition vec_push :: "'a \<Rightarrow> 'a list \<Rightarrow> 'a list" where
  "vec_push x xs = xs @ [x]"

definition vec_pop :: "'a list \<Rightarrow> ('a \<times> 'a list) option" where
  "vec_pop xs = (if xs = [] then None else Some (last xs, butlast xs))"

interpretation vec: worklist vec_pop vec_push mset "\<lambda>_. True" UNIV
proof
  fix k :: 'a and w w'
  assume "vec_pop w = Some (k, w')"
  then have "w = w' @ [k]" by (auto simp: vec_pop_def split: if_splits)
  then show "True \<and> mset w = add_mset k (mset w')" by simp
qed (auto simp: vec_pop_def vec_push_def)

section \<open>The ordered set\<close>

text \<open>\<open>BTreeSet::insert\<close> and \<open>BTreeSet::pop_first\<close> on the strictly increasing list of the members.\<close>

fun btree_insert :: "'a::linorder \<Rightarrow> 'a list \<Rightarrow> 'a list" where
  "btree_insert x [] = [x]"
| "btree_insert x (y # ys) = (if x < y then x # y # ys else if x = y then y # ys else y # btree_insert x ys)"

definition btree_pop_first :: "'a list \<Rightarrow> ('a \<times> 'a list) option" where
  "btree_pop_first xs = (case xs of [] \<Rightarrow> None | y # ys \<Rightarrow> Some (y, ys))"

lemma btree_insert_set [simp]: "set (btree_insert x xs) = insert x (set xs)"
  by (induction xs) auto

lemma btree_insert_sorted: "sorted_wrt (<) xs \<Longrightarrow> sorted_wrt (<) (btree_insert x xs)"
  by (induction xs) auto

lemma btree_insert_mset: "x \<notin> set xs \<Longrightarrow> mset (btree_insert x xs) = add_mset x (mset xs)"
  by (induction xs) auto

interpretation btree: worklist btree_pop_first btree_insert mset "sorted_wrt (<)" UNIV
proof
  fix k :: "'a::linorder" and w w'
  assume "sorted_wrt (<) w" "btree_pop_first w = Some (k, w')"
  then show "sorted_wrt (<) w' \<and> mset w = add_mset k (mset w')"
    by (auto simp: btree_pop_first_def split: list.splits)
qed (auto simp: btree_pop_first_def btree_insert_sorted btree_insert_mset split: list.splits)

end
