(* ===== verification/GB_Contracts.thy ===== *)
theory GB_Contracts
  imports GB_Budget GB_Kahn
begin

text \<open>
  The wire contracts of \<open>src/src/uee_v2.rs\<close>: identifiers, the query request and its graph, record
  revisions, transactions, mutations and receipts, each with the validator the code has. A
  \<open>BTreeMap\<close> is its list of entries in key order. A date is its position in nanoseconds, a
  \<open>Uuid\<close> its 128 bits. The decoder derived by \<open>serde\<close> and the \<open>uuid\<close> crate are parameters, and so is
  the order in which a hash map yields its entries. ASCII tests on characters are tests on bytes,
  since every byte of a longer UTF-8 character is outside ASCII.
\<close>

section \<open>Errors and names\<close>

record contract_error = ce_code :: string  ce_message :: string

type_synonym 'a contract = "(contract_error, 'a) result"
type_synonym uuid = "128 word"
type_synonym datetime = int
type_synonym 'v btree_map = "(string \<times> 'v) list"

definition invalid :: "string \<Rightarrow> contract_error" where
  "invalid message = \<lparr>ce_code = ''UEE_V2_CONTRACT_INVALID'', ce_message = message\<rparr>"

definition contract_error_display :: "contract_error \<Rightarrow> string" where
  "contract_error_display e = ce_code e @ '': '' @ ce_message e"

definition decode_with :: "(json \<Rightarrow> (string, 'a) result) \<Rightarrow> json \<Rightarrow> 'a contract" where
  "decode_with from_json v =
     (case from_json v of Inl e \<Rightarrow> Inl (invalid (''decode: '' @ e)) | Inr x \<Rightarrow> Inr x)"

definition from_value :: "(json \<Rightarrow> (string, 'a) result) \<Rightarrow> ('a \<Rightarrow> unit contract) \<Rightarrow> json \<Rightarrow> 'a contract" where
  "from_value from_json validate v =
     rbind (decode_with from_json v) (\<lambda>x. rbind (validate x) (\<lambda>_. Inr x))"

fun is_identifier :: "string \<Rightarrow> bool" where
  "is_identifier [] = False"
| "is_identifier (c # cs) =
     ((c = CHR ''_'' \<or> is_ascii_alphabetic c)
      \<and> list_all (\<lambda>c. c = CHR ''_'' \<or> is_ascii_alphanumeric c) cs)"

definition is_namespace :: "string \<Rightarrow> bool" where
  "is_namespace s \<longleftrightarrow> 1 \<le> length s \<and> length s \<le> 63 \<and> is_ascii_lowercase (hd s)
     \<and> list_all (\<lambda>c. is_ascii_lowercase c \<or> is_ascii_digit c \<or> c = CHR ''_'') s"

definition is_decimal :: "string \<Rightarrow> bool" where
  "is_decimal s =
     (if s = ''0'' then True
      else s \<noteq> [] \<and> is_ascii_digit (hd s) \<and> hd s \<noteq> CHR ''0'' \<and> list_all is_ascii_digit (tl s))"

definition validate_namespace :: "string \<Rightarrow> unit contract" where
  "validate_namespace ns =
     (if is_namespace ns then Inr () else Inl (invalid (''invalid namespace `'' @ ns @ ''`'')))"

definition validate_identifier :: "string \<Rightarrow> string \<Rightarrow> unit contract" where
  "validate_identifier kind v =
     (if is_identifier v then Inr ()
      else Inl (invalid (''invalid '' @ kind @ '' identifier `'' @ v @ ''`'')))"

definition validate_decimal :: "string \<Rightarrow> string \<Rightarrow> unit contract" where
  "validate_decimal kind v =
     (if is_decimal v then Inr () else Inl (invalid (''invalid decimal '' @ kind @ '' `'' @ v @ ''`'')))"

record validity = valid_from :: datetime  valid_to :: "datetime option"

definition validate_interval :: "validity option \<Rightarrow> unit contract" where
  "validate_interval v =
     (case v of
        None \<Rightarrow> Inr ()
      | Some i \<Rightarrow> guard_err (case valid_to i of None \<Rightarrow> False | Some e \<Rightarrow> e < valid_from i)
                   (invalid ''valid interval ends before it starts''))"

definition is_hash :: "string \<Rightarrow> bool" where
  "is_hash s \<longleftrightarrow> length s = 64 \<and> list_all (\<lambda>b. is_ascii_hexdigit b \<and> \<not> is_ascii_uppercase b) s"

definition validate_hash :: "string \<Rightarrow> string \<Rightarrow> unit contract" where
  "validate_hash kind v = guard_err (\<not> is_hash v) (invalid (''invalid '' @ kind @ '' hash''))"

definition validate_nonempty :: "string \<Rightarrow> string \<Rightarrow> unit contract" where
  "validate_nonempty kind v = guard_err (v = []) (invalid (kind @ '' cannot be empty''))"

text \<open>The loop over the labels carries the set of labels seen.\<close>

fun validate_labels_from :: "string set \<Rightarrow> string list \<Rightarrow> unit contract" where
  "validate_labels_from seen [] = Inr ()"
| "validate_labels_from seen (l # ls) =
     rbind (validate_nonempty ''label'' l) (\<lambda>_.
     if l \<in> seen then Inl (invalid (''duplicate label `'' @ l @ ''`''))
     else validate_labels_from (insert l seen) ls)"

definition validate_labels :: "string list \<Rightarrow> unit contract" where
  "validate_labels ls = validate_labels_from {} ls"

record uuid_ops =
  uuid_parse_str :: "string \<Rightarrow> uuid option"
  uuid_version_num :: "uuid \<Rightarrow> nat"
  uuid_is_rfc4122 :: "uuid \<Rightarrow> bool"
  uuid_hyphenated :: "uuid \<Rightarrow> string"

definition validate_uuid_v4 :: "uuid_ops \<Rightarrow> string \<Rightarrow> string \<Rightarrow> unit contract" where
  "validate_uuid_v4 U kind v =
     (case uuid_parse_str U v of
        None \<Rightarrow> Inl (invalid (''invalid '' @ kind))
      | Some u \<Rightarrow>
          guard_err (uuid_version_num U u \<noteq> 4 \<or> \<not> uuid_is_rfc4122 U u \<or> uuid_hyphenated U u \<noteq> v)
            (invalid (kind @ '' must be a canonical UUIDv4'')))"

section \<open>Query requests\<close>

definition API_CONTRACT_V2 :: string where "API_CONTRACT_V2 = ''genesis.api.v2''"
definition QUERY_IR_CONTRACT_V2 :: string where "QUERY_IR_CONTRACT_V2 = ''query-ir.v2''"
definition TRANSACTION_CONTRACT_V2 :: string where "TRANSACTION_CONTRACT_V2 = ''genesis.tx.v2''"

datatype index_policy = MergeDelta | Wait | Eventual
datatype hql_language_version = HqlV1 | HqlV2
datatype explain = Explain_None | Explain_Plan | Explain_Analyze
datatype query_format = Format_Json | Format_Stream

record query_temporal = qt_tx_as_of :: "string option"  qt_valid_at :: "datetime option"

definition validate_budget_v2 :: "query_budget_v2 \<Rightarrow> unit contract" where
  "validate_budget_v2 b =
     for_each (\<lambda>(nm, v). guard_err (v = Some 0) (invalid (nm @ '' must be positive'')))
       [(''max_memory_bytes'', v2_max_memory_bytes b),
        (''max_elapsed_ms'', v2_max_elapsed_ms b),
        (''max_expanded_nodes'', v2_max_expanded_nodes b),
        (''max_expanded_edges'', v2_max_expanded_edges b),
        (''max_vector_candidates'', v2_max_vector_candidates b),
        (''max_distance_evaluations'', v2_max_distance_evaluations b),
        (''max_result_rows'', v2_max_result_rows b),
        (''max_result_bytes'', v2_max_result_bytes b)]"

datatype query_op =
    AnnotationLookup | AnnotationScan | Aggregate | ChangeScan | ContextPack | Distinct | EdgeScan
  | Expand | Filter | HistoryScan | Join | Knn | LexicalMatch | Match | NodeScan | Offset | Project
  | Rerank | RowScan | Sort | Take | UnionAll | Values

record query_node =
  qn_id :: string
  qn_op :: query_op
  qn_inputs :: "string list"
  qn_config :: "json btree_map"

record query_ir =
  ir_contract_version :: string
  ir_nodes :: "query_node list"
  ir_root :: string
  ir_parameter_types :: "string btree_map"

fun check_node_ids :: "string set \<Rightarrow> query_node list \<Rightarrow> string set contract" where
  "check_node_ids ids [] = Inr ids"
| "check_node_ids ids (n # ns) =
     rbind (validate_identifier ''query node'' (qn_id n)) (\<lambda>_.
     if qn_id n \<in> ids then Inl (invalid (''duplicate query node `'' @ qn_id n @ ''`''))
     else check_node_ids (insert (qn_id n) ids) ns)"

text \<open>The graph: the degree of every node and the list of its consumers, built by the two loops
  over nodes and inputs. A key that a map lacks has degree 0 and no consumers; the loops only look
  up keys that were inserted.\<close>

record query_graph = indegree :: "string \<Rightarrow> nat"  outgoing :: "string \<Rightarrow> string list"

definition add_edge :: "string \<Rightarrow> string \<Rightarrow> query_graph \<Rightarrow> query_graph" where
  "add_edge nid input g =
     g\<lparr>indegree := (indegree g)(nid := indegree g nid + 1),
       outgoing := (outgoing g)(input := outgoing g input @ [nid])\<rparr>"

fun add_inputs :: "string set \<Rightarrow> string \<Rightarrow> string list \<Rightarrow> query_graph \<Rightarrow> query_graph contract" where
  "add_inputs ids nid [] g = Inr g"
| "add_inputs ids nid (i # is) g =
     (if i \<notin> ids
      then Inl (invalid (''query node `'' @ nid @ ''` references unknown input `'' @ i @ ''`''))
      else add_inputs ids nid is (add_edge nid i g))"

fun add_nodes :: "string set \<Rightarrow> query_node list \<Rightarrow> query_graph \<Rightarrow> query_graph contract" where
  "add_nodes ids [] g = Inr g"
| "add_nodes ids (n # ns) g =
     rbind (add_inputs ids (qn_id n) (qn_inputs n) g) (\<lambda>g'. add_nodes ids ns g')"

text \<open>The loop over a popped node's consumers, and the loop that pops. The latter is fuelled;
  \<open>None\<close> means that the fuel ran out.\<close>

fun release_children ::
  "string list \<Rightarrow> (string \<Rightarrow> nat) \<Rightarrow> string list \<Rightarrow> (string \<Rightarrow> nat) \<times> string list" where
  "release_children [] deg ready = (deg, ready)"
| "release_children (child # cs) deg ready =
     (let deg' = deg(child := deg child - 1) in
      release_children cs deg' (if deg' child = 0 then vec_push child ready else ready))"

fun drain_ready :: "nat \<Rightarrow> query_graph \<Rightarrow> string list \<Rightarrow> nat \<Rightarrow> nat option" where
  "drain_ready 0 g ready visited = None"
| "drain_ready (Suc fuel) g ready visited =
     (case vec_pop ready of
        None \<Rightarrow> Some visited
      | Some (i, ready') \<Rightarrow>
          (case release_children (outgoing g i) (indegree g) ready' of
             (deg, ready'') \<Rightarrow> drain_ready fuel (g\<lparr>indegree := deg\<rparr>) ready'' (visited + 1)))"

text \<open>The checks of the validator up to the graph.\<close>

definition build_query_graph :: "query_ir \<Rightarrow> query_graph contract" where
  "build_query_graph ir =
     (if ir_contract_version ir \<noteq> QUERY_IR_CONTRACT_V2
      then Inl (invalid (''unsupported query IR contract `'' @ ir_contract_version ir @ ''`''))
      else if ir_nodes ir = [] \<or> length (ir_nodes ir) > 10000
      then Inl (invalid ''query IR node count is outside 1..=10000'')
      else
      rbind (validate_identifier ''root'' (ir_root ir)) (\<lambda>_.
      rbind (check_node_ids {} (ir_nodes ir)) (\<lambda>ids.
      rbind (guard_err (ir_root ir \<notin> ids)
               (invalid (''query root `'' @ ir_root ir @ ''` does not exist''))) (\<lambda>_.
      rbind (for_each (\<lambda>(p, _). validate_identifier ''parameter'' p) (ir_parameter_types ir)) (\<lambda>_.
      rbind (guard_err (list_ex (\<lambda>(_, ty). ty = []) (ir_parameter_types ir))
               (invalid ''query parameter type cannot be empty'')) (\<lambda>_.
      add_nodes ids (ir_nodes ir) \<lparr>indegree = (\<lambda>_. 0), outgoing = (\<lambda>_. [])\<rparr>))))))"

text \<open>\<open>order\<close> is the order in which the hash map of degrees yields the node ids. The outer option is
  \<open>None\<close> only if the loop did not end.\<close>

definition query_ir_validate :: "(string list \<Rightarrow> string list) \<Rightarrow> query_ir \<Rightarrow> unit contract option" where
  "query_ir_validate order ir =
     (case build_query_graph ir of
        Inl e \<Rightarrow> Some (Inl e)
      | Inr g \<Rightarrow>
          (case drain_ready (length (ir_nodes ir) + 1) g
                  (filter (\<lambda>i. indegree g i = 0) (order (map qn_id (ir_nodes ir)))) 0 of
             None \<Rightarrow> None
           | Some visited \<Rightarrow>
               Some (guard_err (visited \<noteq> length (ir_nodes ir)) (invalid ''query IR contains a cycle''))))"

record query_request =
  rq_contract_version :: string
  rq_request_id :: string
  rq_namespace :: string
  rq_hql :: "string option"
  rq_ir :: "query_ir option"
  rq_language_version :: "hql_language_version option"
  rq_params :: "json btree_map"
  rq_temporal :: "query_temporal option"
  rq_index_policy :: "index_policy option"
  rq_required_frontier :: "string option"
  rq_transaction_id :: "uuid option"
  rq_budget :: "query_budget_v2 option"
  rq_allow_partial :: "bool option"
  rq_explain :: "explain option"
  rq_format :: "query_format option"

definition opt_check :: "('a \<Rightarrow> unit contract) \<Rightarrow> 'a option \<Rightarrow> unit contract" where
  "opt_check f v = (case v of None \<Rightarrow> Inr () | Some x \<Rightarrow> f x)"

text \<open>The match on the query text, the graph and the language version.\<close>

definition validate_query_source ::
  "(string list \<Rightarrow> string list) \<Rightarrow> query_request \<Rightarrow> unit contract option" where
  "validate_query_source order r =
     (case (rq_hql r, rq_ir r, rq_language_version r) of
        (Some hql, None, Some _) \<Rightarrow>
          Some (guard_err (hql = [] \<or> length (char_chunks hql) > 262144)
            (invalid ''hql must be non-empty and <= 262144 characters''))
      | (None, Some ir, None) \<Rightarrow> query_ir_validate order ir
      | (Some _, Some _, _) \<Rightarrow> Some (Inl (invalid ''query request cannot contain both hql and ir''))
      | (None, None, _) \<Rightarrow> Some (Inl (invalid ''query request requires hql or ir''))
      | (Some _, None, None) \<Rightarrow> Some (Inl (invalid ''hql requires language_version''))
      | (None, Some _, Some _) \<Rightarrow> Some (Inl (invalid ''ir cannot contain language_version'')))"

definition query_request_validate ::
  "(string list \<Rightarrow> string list) \<Rightarrow> query_request \<Rightarrow> unit contract option" where
  "query_request_validate order r =
     (case rbind (guard_err (rq_contract_version r \<noteq> API_CONTRACT_V2)
              (invalid (''unsupported API contract `'' @ rq_contract_version r @ ''`''))) (\<lambda>_.
           rbind (guard_err (rq_request_id r = [] \<or> length (char_chunks (rq_request_id r)) > 256)
              (invalid ''request_id must contain 1..=256 characters'')) (\<lambda>_.
             validate_namespace (rq_namespace r))) of
        Inl e \<Rightarrow> Some (Inl e)
      | Inr _ \<Rightarrow>
          (case validate_query_source order r of
             None \<Rightarrow> None
           | Some (Inl e) \<Rightarrow> Some (Inl e)
           | Some (Inr _) \<Rightarrow> Some (
               rbind (opt_check (\<lambda>t. opt_check (validate_decimal ''tx_as_of'') (qt_tx_as_of t))
                        (rq_temporal r)) (\<lambda>_.
               rbind (opt_check (validate_decimal ''required_frontier'') (rq_required_frontier r)) (\<lambda>_.
                 opt_check validate_budget_v2 (rq_budget r))))))"

section \<open>Record revisions\<close>

datatype record_kind = KindNode | KindEdge | KindRow | KindVector | KindAnnotation | KindArtifact

record record_ref =
  rr_database_id :: string
  rr_namespace :: string
  rr_kind :: record_kind
  rr_id :: string
  rr_revision :: string

definition record_ref_validate :: "uuid_ops \<Rightarrow> record_ref \<Rightarrow> unit contract" where
  "record_ref_validate U r =
     rbind (validate_hash ''database ID'' (rr_database_id r)) (\<lambda>_.
     rbind (validate_namespace (rr_namespace r)) (\<lambda>_.
     rbind (validate_nonempty ''record id'' (rr_id r)) (\<lambda>_.
       validate_uuid_v4 U ''record revision'' (rr_revision r))))"

datatype revision_operation = Upsert | Retract

record revision_mutation =
  rm_namespace :: string
  rm_kind :: record_kind
  rm_id :: string
  rm_revision_id :: string
  rm_expected_revision_id :: "string option"
  rm_predecessor_revision_id :: "string option"
  rm_operation :: revision_operation
  rm_valid_from :: datetime
  rm_valid_to :: "datetime option"
  rm_schema_ref :: "string option"
  rm_schema_version :: "u64 option"
  rm_key_codec_version :: "u32 option"
  rm_key_bytes :: "bytes option"
  rm_payload :: json

text \<open>The last match of the validator, on the kind of the record.\<close>

definition check_kind_metadata :: "revision_mutation \<Rightarrow> unit contract" where
  "check_kind_metadata m =
     (case rm_kind m of
        KindRow \<Rightarrow>
          guard_err (\<not> (rm_schema_ref m \<noteq> None \<and> rm_schema_version m \<noteq> None
                        \<and> rm_key_codec_version m = Some 1
                        \<and> (case rm_key_bytes m of None \<Rightarrow> False
                            | Some bs \<Rightarrow> bs \<noteq> [] \<and> length bs \<le> 16 * 1024)))
            (invalid ''row revision requires schema, codec version and key bytes'')
      | KindVector \<Rightarrow>
          guard_err (\<not> (rm_schema_ref m \<noteq> None \<and> rm_schema_version m = Some 1))
            (invalid ''vector revision requires a collection and schema version 1'')
      | _ \<Rightarrow>
          guard_err (rm_key_codec_version m \<noteq> None \<or> rm_key_bytes m \<noteq> None)
            (invalid ''key codec metadata is only valid for row revisions''))"

definition revision_mutation_validate :: "uuid_ops \<Rightarrow> revision_mutation \<Rightarrow> unit contract" where
  "revision_mutation_validate U m =
     rbind (validate_namespace (rm_namespace m)) (\<lambda>_.
     rbind (validate_nonempty ''record id'' (rm_id m)) (\<lambda>_.
     rbind (validate_uuid_v4 U ''revision ID'' (rm_revision_id m)) (\<lambda>_.
     rbind (opt_check (validate_uuid_v4 U ''expected revision ID'') (rm_expected_revision_id m)) (\<lambda>_.
     rbind (opt_check (validate_uuid_v4 U ''predecessor revision ID'') (rm_predecessor_revision_id m)) (\<lambda>_.
     rbind (guard_err (rm_expected_revision_id m \<noteq> rm_predecessor_revision_id m)
              (invalid ''predecessor revision must match the expected revision'')) (\<lambda>_.
     rbind (guard_err (rm_expected_revision_id m = Some (rm_revision_id m))
              (invalid ''new revision ID must differ from its predecessor'')) (\<lambda>_.
     rbind (guard_err (rm_operation m = Retract \<and> rm_expected_revision_id m = None)
              (invalid ''retraction requires an expected revision'')) (\<lambda>_.
     rbind (guard_err (case rm_valid_to m of None \<Rightarrow> False | Some e \<Rightarrow> e \<le> rm_valid_from m)
              (invalid ''valid interval must be non-empty and forward'')) (\<lambda>_.
     rbind (guard_err (rm_schema_ref m = Some [] \<or> rm_schema_version m = Some 0)
              (invalid ''schema reference and version must be non-empty'')) (\<lambda>_.
     rbind (if rm_kind m = KindRow then validate_uuid_v4 U ''row ID'' (rm_id m) else Inr ()) (\<lambda>_.
       check_kind_metadata m)))))))))))"

record revision_transaction =
  rt_transaction_id :: uuid
  rt_origin_database_id :: string
  rt_mutations :: "revision_mutation list"

fun check_revisions :: "uuid_ops \<Rightarrow> string set \<Rightarrow> revision_mutation list \<Rightarrow> unit contract" where
  "check_revisions U seen [] = Inr ()"
| "check_revisions U seen (m # ms) =
     rbind (revision_mutation_validate U m) (\<lambda>_.
     if rm_revision_id m \<in> seen then Inl (invalid ''duplicate revision ID in transaction'')
     else check_revisions U (insert (rm_revision_id m) seen) ms)"

definition revision_transaction_validate :: "uuid_ops \<Rightarrow> revision_transaction \<Rightarrow> unit contract" where
  "revision_transaction_validate U t =
     rbind (validate_hash ''origin database ID'' (rt_origin_database_id t)) (\<lambda>_.
     rbind (guard_err (rt_mutations t = [] \<or> length (rt_mutations t) > 10000)
              (invalid ''revision mutation count is outside 1..=10000'')) (\<lambda>_.
       check_revisions U {} (rt_mutations t)))"

section \<open>Transactions\<close>

datatype mutation =
    NodePut (mut_id: string) (mut_labels: "string list") (mut_props: "json btree_map")
      (mut_expected: "uuid option") (mut_valid: "validity option")
  | EdgePut (mut_id: string) (mut_source: string) (mut_target: string) (mut_relation: string)
      (mut_props: "json btree_map") (mut_expected: "uuid option") (mut_valid: "validity option")
  | RowPut (mut_table: string) (mut_key: "json btree_map") (mut_values: "json btree_map")
      (mut_expected: "uuid option") (mut_valid: "validity option")
  | VectorPut (mut_owner: string) (mut_collection: string) (mut_space: string)
      (mut_vector: "u64 list") (mut_expected: "uuid option") (mut_valid: "validity option")
  | AnnotationPut (mut_annotation: json) (mut_expected: "uuid option") (mut_valid: "validity option")
  | RecordRetract (mut_kind: record_kind) (mut_id: string) (mut_expected: "uuid option")
      (mut_valid: "validity option")
  | SchemaPut (mut_name: string) (mut_version: u64) (mut_previous_version: u64)
      (mut_schema: "json btree_map")
  | ArtifactPut (mut_id: string) (mut_uri: string) (mut_content_hash: string)
      (mut_media_type: string) (mut_blob_ref: "string option") (mut_expected: "uuid option")
      (mut_valid: "validity option")

fun is_object :: "json \<Rightarrow> bool" where
  "is_object (JObject _) = True"
| "is_object _ = False"

fun mutation_validate :: "mutation \<Rightarrow> unit contract" where
  "mutation_validate (NodePut i labels props e valid) =
     rbind (validate_nonempty ''node id'' i) (\<lambda>_.
     rbind (validate_labels labels) (\<lambda>_. validate_interval valid))"
| "mutation_validate (EdgePut i src tgt rel props e valid) =
     rbind (validate_nonempty ''edge id'' i) (\<lambda>_.
     rbind (validate_nonempty ''edge source_id'' src) (\<lambda>_.
     rbind (validate_nonempty ''edge target_id'' tgt) (\<lambda>_.
     rbind (validate_nonempty ''edge relation'' rel) (\<lambda>_. validate_interval valid))))"
| "mutation_validate (RowPut tab key vals e valid) =
     rbind (validate_identifier ''table'' tab) (\<lambda>_.
     rbind (guard_err (key = []) (invalid ''row key cannot be empty'')) (\<lambda>_. validate_interval valid))"
| "mutation_validate (VectorPut own coll space vals e valid) =
     rbind (validate_nonempty ''vector owner_id'' own) (\<lambda>_.
     rbind (validate_identifier ''vector collection'' coll) (\<lambda>_.
     rbind (validate_nonempty ''vector space_id'' space) (\<lambda>_.
     rbind (guard_err (vals = [] \<or> length vals > 65535)
              (invalid ''vector dimension is outside 1..=65535'')) (\<lambda>_.
     rbind (guard_err (list_ex (\<lambda>v. \<not> f64_is_finite v) vals)
              (invalid ''vector values must be finite'')) (\<lambda>_. validate_interval valid)))))"
| "mutation_validate (AnnotationPut ann e valid) =
     rbind (guard_err (\<not> is_object ann) (invalid ''annotation must be an object'')) (\<lambda>_.
       validate_interval valid)"
| "mutation_validate (RecordRetract kind i e valid) =
     rbind (validate_nonempty ''retracted record id'' i) (\<lambda>_. validate_interval valid)"
| "mutation_validate (SchemaPut nm ver prev sch) =
     rbind (validate_identifier ''schema'' nm) (\<lambda>_.
       guard_err (ver = 0 \<or> sch = []) (invalid ''schema version and body must be non-empty''))"
| "mutation_validate (ArtifactPut i uri hash media blob e valid) =
     rbind (validate_nonempty ''artifact id'' i) (\<lambda>_.
     rbind (validate_nonempty ''artifact uri'' uri) (\<lambda>_.
     rbind (validate_nonempty ''artifact media_type'' media) (\<lambda>_.
     rbind (validate_hash ''artifact content_hash'' hash) (\<lambda>_.
     rbind (opt_check (validate_hash ''artifact blob_ref'') blob) (\<lambda>_. validate_interval valid)))))"

datatype durability = DurablePublished

record transaction =
  tx_contract_version :: string
  tx_transaction_id :: uuid
  tx_namespace :: string
  tx_expected_frontier :: "string option"
  tx_mutations :: "mutation list"
  tx_actor_context :: "json btree_map"
  tx_durability :: "durability option"

definition transaction_validate :: "transaction \<Rightarrow> unit contract" where
  "transaction_validate t =
     rbind (guard_err (tx_contract_version t \<noteq> TRANSACTION_CONTRACT_V2)
              (invalid (''unsupported transaction contract `'' @ tx_contract_version t @ ''`''))) (\<lambda>_.
     rbind (validate_namespace (tx_namespace t)) (\<lambda>_.
     rbind (guard_err (tx_mutations t = [] \<or> length (tx_mutations t) > 10000)
              (invalid ''transaction mutation count is outside 1..=10000'')) (\<lambda>_.
     rbind (opt_check (validate_decimal ''expected_frontier'') (tx_expected_frontier t)) (\<lambda>_.
       for_each mutation_validate (tx_mutations t)))))"

datatype receipt_state = ReceiptDurablePublished | ReceiptDurableRecoveryRequired | ReceiptRejected | ReceiptUnknown

record commit_receipt =
  cr_transaction_id :: uuid
  cr_namespace :: string
  cr_database_id :: uuid
  cr_state :: receipt_state
  cr_durable_frontier :: "string option"
  cr_published_frontier :: "string option"
  cr_index_frontiers :: "string btree_map"

definition commit_receipt_validate :: "commit_receipt \<Rightarrow> unit contract" where
  "commit_receipt_validate r =
     rbind (validate_namespace (cr_namespace r)) (\<lambda>_.
     rbind (for_each (\<lambda>(kind, f). opt_check (validate_decimal kind) f)
              [(''durable_frontier'', cr_durable_frontier r),
               (''published_frontier'', cr_published_frontier r)]) (\<lambda>_.
       for_each (\<lambda>(_, f). validate_decimal ''index_frontier'' f) (cr_index_frontiers r)))"

section \<open>The query graph\<close>

text \<open>The data flow of a query graph: an edge from every input to the node that reads it.\<close>

definition node_edges :: "query_node \<Rightarrow> (string \<times> string) list" where
  "node_edges n = map (\<lambda>i. (i, qn_id n)) (qn_inputs n)"

definition ir_edges :: "query_ir \<Rightarrow> (string \<times> string) list" where
  "ir_edges ir = concat (map node_edges (ir_nodes ir))"

definition well_formed_ir :: "query_ir \<Rightarrow> bool" where
  "well_formed_ir ir \<longleftrightarrow>
     ir_contract_version ir = QUERY_IR_CONTRACT_V2
     \<and> ir_nodes ir \<noteq> [] \<and> length (ir_nodes ir) \<le> 10000
     \<and> is_identifier (ir_root ir) \<and> ir_root ir \<in> qn_id ` set (ir_nodes ir)
     \<and> list_all (\<lambda>n. is_identifier (qn_id n)) (ir_nodes ir) \<and> distinct (map qn_id (ir_nodes ir))
     \<and> list_all (\<lambda>(p, ty). is_identifier p \<and> ty \<noteq> []) (ir_parameter_types ir)
     \<and> list_all (\<lambda>n. set (qn_inputs n) \<subseteq> qn_id ` set (ir_nodes ir)) (ir_nodes ir)"

lemma validate_identifier_iff [simp]: "validate_identifier kind v = Inr u \<longleftrightarrow> is_identifier v"
  by (simp add: validate_identifier_def)

lemma check_node_ids_Inr:
  "check_node_ids seen ns = Inr ids \<longleftrightarrow>
     list_all (\<lambda>n. is_identifier (qn_id n)) ns \<and> distinct (map qn_id ns)
     \<and> qn_id ` set ns \<inter> seen = {} \<and> ids = seen \<union> qn_id ` set ns"
  by (induction ns arbitrary: seen) auto

text \<open>The graph with a given list of edges.\<close>

definition graph_of :: "(string \<times> string) list \<Rightarrow> query_graph" where
  "graph_of es = \<lparr>indegree = in_count es, outgoing = succs es\<rparr>"

lemma add_edge_graph_of: "add_edge n i (graph_of es) = graph_of (es @ [(i, n)])"
  by (simp add: add_edge_def graph_of_def)

lemma add_inputs_graph_of:
  "add_inputs ids n is (graph_of es) = Inr g \<longleftrightarrow>
     set is \<subseteq> ids \<and> g = graph_of (es @ map (\<lambda>i. (i, n)) is)"
  by (induction "is" arbitrary: es) (auto simp: add_edge_graph_of)

lemma add_nodes_graph_of:
  "add_nodes ids ns (graph_of es) = Inr g \<longleftrightarrow>
     list_all (\<lambda>n. set (qn_inputs n) \<subseteq> ids) ns \<and> g = graph_of (es @ concat (map node_edges ns))"
proof (induction ns arbitrary: es)
  case (Cons n ns)
  show ?case by (auto simp: add_inputs_graph_of Cons.IH node_edges_def)
qed auto

lemma empty_graph: "\<lparr>indegree = (\<lambda>_. 0), outgoing = (\<lambda>_. [])\<rparr> = graph_of []"
  by (auto simp: graph_of_def)

lemma release_children_relax: "release_children cs deg ready = relax vec_push cs deg ready"
  by (induction cs arbitrary: deg ready) (simp_all add: Let_def)

lemma drain_ready_kahn:
  "drain_ready fuel g ready (length visited)
     = map_option length (kahn_loop vec_pop vec_push (outgoing g) fuel (indegree g) ready visited)"
proof (induction fuel arbitrary: g ready visited)
  case (Suc fuel)
  show ?case
  proof (cases "vec_pop ready")
    case (Some p)
    obtain i ready' where p: "p = (i, ready')" by (cases p)
    obtain deg ready'' where r: "relax vec_push (outgoing g i) (indegree g) ready' = (deg, ready'')"
      by (cases "relax vec_push (outgoing g i) (indegree g) ready'")
    show ?thesis
      using Suc [of "g\<lparr>indegree := deg\<rparr>" ready'' "visited @ [i]"]
      by (simp add: Some p release_children_relax r)
  qed simp
qed simp

text \<open>The hash map yields each of its keys once, in an order of its own.\<close>

definition hash_order :: "(string list \<Rightarrow> string list) \<Rightarrow> bool" where
  "hash_order order \<longleftrightarrow> (\<forall>ks. mset (order ks) = mset ks)"

lemma drain_ready_complete:
  assumes "hash_order order" "distinct ks" "fst ` set es \<union> snd ` set es \<subseteq> set ks"
  shows "\<exists>n. drain_ready (length ks + 1) (graph_of es) (filter (\<lambda>i. in_count es i = 0) (order ks)) 0 = Some n
           \<and> (n = length ks \<longleftrightarrow> acyclic (set es))"
proof -
  let ?w = "filter (\<lambda>i. in_count es i = 0) (order ks)"
  have deg: "pending_degree (set ks) (succs es) {} = in_count es"
    using assms(3) by (intro pending_degree_succs) auto
  have ord: "mset (order ks) = mset ks" using assms(1) by (simp add: hash_order_def)
  then have "set (order ks) = set ks" by (metis set_mset_mset)
  then have ready: "set_mset (mset ?w) = {k \<in> set ks. in_count es k = 0}" by auto
  have once: "count (mset ?w) k \<le> 1" for k
    using ord assms(2) by (metis distinct_filter distinct_count_atmost_1 mset_eq_imp_distinct_iff order_refl zero_le_one)
  have K: "card (set ks) = length ks" using assms(2) by (simp add: distinct_card)
  have closed: "set (succs es k) \<subseteq> set ks" for k using assms(3) by force
  obtain vs where vs: "kahn_loop vec_pop vec_push (succs es) (length ks + 1) (in_count es) ?w [] = Some vs"
    "length vs = length ks \<longleftrightarrow> acyclic (edges_of (set ks) (succs es))"
    using vec.kahn_correct [of "set ks" "succs es" "length ks + 1" ?w] closed ready once deg K by auto
  have "edges_of (set ks) (succs es) = set es" using assms(3) by (intro edges_of_succs) auto
  with vs show ?thesis
    using drain_ready_kahn [of "length ks + 1" "graph_of es" ?w "[]"] by (simp add: graph_of_def)
qed

text \<open>What the validator checks before it sorts the graph.\<close>

lemma build_query_graph_Inr:
  "build_query_graph ir = Inr g \<longleftrightarrow> well_formed_ir ir \<and> g = graph_of (ir_edges ir)"
  by (auto simp: build_query_graph_def well_formed_ir_def check_node_ids_Inr for_each_Inr
      empty_graph add_nodes_graph_of ir_edges_def list_all_iff list_ex_iff not_le)

lemma ir_edges_in_ids:
  assumes "well_formed_ir ir"
  shows "fst ` set (ir_edges ir) \<union> snd ` set (ir_edges ir) \<subseteq> set (map qn_id (ir_nodes ir))"
  using assms by (force simp: well_formed_ir_def ir_edges_def node_edges_def list_all_iff)

lemma query_ir_validate_correct:
  assumes "hash_order order"
  shows "query_ir_validate order ir \<noteq> None
     \<and> (query_ir_validate order ir = Some (Inr ())
          \<longleftrightarrow> well_formed_ir ir \<and> acyclic (set (ir_edges ir)))"
proof (cases "build_query_graph ir")
  case (Inl e)
  then have "\<not> well_formed_ir ir" using build_query_graph_Inr [of ir] by auto
  with Inl show ?thesis by (simp add: query_ir_validate_def)
next
  case (Inr g)
  then have wf: "well_formed_ir ir" and g: "g = graph_of (ir_edges ir)"
    by (simp_all add: build_query_graph_Inr)
  have "distinct (map qn_id (ir_nodes ir))" using wf by (simp add: well_formed_ir_def)
  from drain_ready_complete [OF assms this ir_edges_in_ids [OF wf]] obtain n where
    "drain_ready (length (ir_nodes ir) + 1) g
       (filter (\<lambda>i. indegree g i = 0) (order (map qn_id (ir_nodes ir)))) 0 = Some n"
    "n = length (ir_nodes ir) \<longleftrightarrow> acyclic (set (ir_edges ir))"
    by (auto simp: g graph_of_def)
  with Inr wf show ?thesis by (simp add: query_ir_validate_def)
qed

text \<open>C31: the query graph validator decides well-formedness and acyclicity, and always ends. For every
  order in which the hash map yields the sources, it accepts a query graph exactly when its
  contract version is known, it has 1 to 10000 nodes with distinct identifiers, its root exists,
  every input names a node, the parameters are named and typed, and the data flow has no cycle.\<close>

theorem query_ir_validate_decides:
  assumes "hash_order order"
  shows "query_ir_validate order ir \<noteq> None
     \<and> (query_ir_validate order ir = Some (Inr ())
          \<longleftrightarrow> well_formed_ir ir \<and> acyclic (set (ir_edges ir)))"
  using assms by (rule query_ir_validate_correct)

text \<open>A join over two scans, and the same graph with a loop.\<close>

definition sample_ir :: "string \<Rightarrow> query_ir" where
  "sample_ir b_input = \<lparr>ir_contract_version = ''query-ir.v2'',
     ir_nodes = [\<lparr>qn_id = ''a'', qn_op = NodeScan, qn_inputs = [], qn_config = []\<rparr>,
                 \<lparr>qn_id = ''b'', qn_op = Filter, qn_inputs = [b_input], qn_config = []\<rparr>,
                 \<lparr>qn_id = ''c'', qn_op = Join, qn_inputs = [''a'', ''b''], qn_config = []\<rparr>],
     ir_root = ''c'', ir_parameter_types = []\<rparr>"

theorem query_ir_validate_decides_witness:
  "query_ir_validate rev (sample_ir ''a'') = Some (Inr ()) \<and> acyclic (set (ir_edges (sample_ir ''a'')))
   \<and> \<not> acyclic (set (ir_edges (sample_ir ''c'')))"
proof -
  have ord: "hash_order rev" by (simp add: hash_order_def)
  have run: "query_ir_validate rev (sample_ir ''a'') = Some (Inr ())" by code_simp
  moreover have "query_ir_validate rev (sample_ir ''c'') \<noteq> Some (Inr ())" by code_simp
  moreover have "well_formed_ir (sample_ir ''c'')" by code_simp
  ultimately show ?thesis using query_ir_validate_decides [OF ord] by blast
qed

section \<open>Requests and numbers\<close>

text \<open>The decimals of the contracts are exactly the canonical ones, the texts that
  \<open>to_string\<close> gives for a natural number: no sign, no leading zero, never empty.\<close>

theorem is_decimal_iff_canonical: "is_decimal s \<longleftrightarrow> (\<exists>n. s = dec n)"
proof
  assume d: "is_decimal s"
  have zero: "''0'' = dec 0" by simp
  show "\<exists>n. s = dec n"
  proof (cases "s = ''0''")
    case False
    then have "list_all is_ascii_digit s" "s \<noteq> []" "hd s \<noteq> CHR ''0''"
      using d by (cases s; auto simp: is_decimal_def)+
    then show ?thesis using dec_digits_val [of s] by metis
  qed (use zero in blast)
next
  assume "\<exists>n. s = dec n"
  then obtain n where s: "s = dec n" ..
  show "is_decimal s"
  proof (cases "n = 0")
    case True
    then show ?thesis by (simp add: s is_decimal_def)
  next
    case False
    then show ?thesis using dec_digits [of n] dec_hd [of n]
      by (cases "dec n") (auto simp: s is_decimal_def)
  qed
qed

lemma validate_query_source_iff:
  "validate_query_source order r = Some (Inr ()) \<longleftrightarrow>
     (\<exists>hql. rq_hql r = Some hql \<and> rq_ir r = None \<and> rq_language_version r \<noteq> None
            \<and> hql \<noteq> [] \<and> length (char_chunks hql) \<le> 262144)
     \<or> (\<exists>ir. rq_hql r = None \<and> rq_ir r = Some ir \<and> rq_language_version r = None
            \<and> query_ir_validate order ir = Some (Inr ()))"
  by (auto simp: validate_query_source_def not_le split: option.splits prod.splits)

lemma validate_query_source_None:
  "validate_query_source order r = None \<longleftrightarrow>
     (\<exists>ir. rq_hql r = None \<and> rq_ir r = Some ir \<and> rq_language_version r = None
            \<and> query_ir_validate order ir = None)"
  by (auto simp: validate_query_source_def split: option.splits prod.splits)

lemma query_request_validate_source:
  "query_request_validate order r = Some (Inr ()) \<Longrightarrow> validate_query_source order r = Some (Inr ())"
  by (auto simp: query_request_validate_def split: sum.splits option.splits)

text \<open>Validating a request always ends, and an accepted request has exactly one source: a
  non-empty query text of at most 262144 characters with its language version, or a well-formed
  acyclic query graph without one.\<close>

theorem accepted_request_has_one_source:
  assumes "hash_order order"
  shows "query_request_validate order r \<noteq> None
     \<and> (query_request_validate order r = Some (Inr ()) \<longrightarrow>
          (\<exists>hql. rq_hql r = Some hql \<and> rq_ir r = None \<and> rq_language_version r \<noteq> None
               \<and> hql \<noteq> [] \<and> length (char_chunks hql) \<le> 262144)
          \<or> (\<exists>ir. rq_hql r = None \<and> rq_ir r = Some ir \<and> rq_language_version r = None
               \<and> well_formed_ir ir \<and> acyclic (set (ir_edges ir))))"
proof (intro conjI impI)
  note ir = query_ir_validate_correct [OF assms]
  have "validate_query_source order r \<noteq> None" using ir validate_query_source_None by blast
  then show "query_request_validate order r \<noteq> None"
    by (auto simp: query_request_validate_def split: sum.splits option.splits)
  assume "query_request_validate order r = Some (Inr ())"
  then have "validate_query_source order r = Some (Inr ())" by (rule query_request_validate_source)
  then show "(\<exists>hql. rq_hql r = Some hql \<and> rq_ir r = None \<and> rq_language_version r \<noteq> None
               \<and> hql \<noteq> [] \<and> length (char_chunks hql) \<le> 262144)
          \<or> (\<exists>ir. rq_hql r = None \<and> rq_ir r = Some ir \<and> rq_language_version r = None
               \<and> well_formed_ir ir \<and> acyclic (set (ir_edges ir)))"
    unfolding validate_query_source_iff using ir by blast
qed

definition sample_request :: query_request where
  "sample_request = \<lparr>rq_contract_version = ''genesis.api.v2'', rq_request_id = ''r1'',
     rq_namespace = ''default'', rq_hql = None, rq_ir = Some (sample_ir ''a''),
     rq_language_version = None, rq_params = [], rq_temporal = None, rq_index_policy = None,
     rq_required_frontier = Some ''17'', rq_transaction_id = None, rq_budget = None,
     rq_allow_partial = None, rq_explain = None, rq_format = None\<rparr>"

theorem accepted_request_has_one_source_witness:
  "acyclic (set (ir_edges (sample_ir ''a'')))"
proof -
  have ord: "hash_order rev" by (simp add: hash_order_def)
  have "query_request_validate rev sample_request = Some (Inr ())" by code_simp
  then show ?thesis
    using accepted_request_has_one_source [OF ord, of sample_request] by (simp add: sample_request_def)
qed

end
