(* ===== verification/GB_Query_Types.thy ===== *)
theory GB_Query_Types
  imports GB_Contracts
begin

text \<open>
  Types and values of the second query engine (\<open>src/src/query/hql2/value.rs\<close>): the type grammar
  with its parser and printer, and the decoder of JSON parameters. Floats are bit patterns; the
  conversion of a JSON number to \<open>f64\<close>, the rounding of a cast to \<open>f32\<close> and back, and the decoder of
  record references are parameters.
\<close>

section \<open>Types\<close>

datatype vector_scalar = F32 | F64

fun scalar_name :: "vector_scalar \<Rightarrow> string" where
  "scalar_name F32 = ''f32''"
| "scalar_name F64 = ''f64''"

datatype query_type =
    TNull | TBool | TI64 | TDecimalU64 | TF64Finite | TUtf8 | TJson | TEntity | THistoryRevision
  | TChangeEvent | TPath | TScore | TContext
  | TVector string u16 vector_scalar
  | TNullable query_type
  | TList query_type

definition bind_error :: "string \<Rightarrow> query_error" where
  "bind_error reason = query_error_new ''BIND_ERROR'' ''bind'' reason"

definition unsupported_parameter :: "string \<Rightarrow> query_error" where
  "unsupported_parameter reason = query_error_new ''CAPABILITY_UNSUPPORTED'' ''bind'' reason"

text \<open>\<open>str::split\<close> on one character.\<close>

fun split_on :: "char \<Rightarrow> string \<Rightarrow> string list" where
  "split_on d [] = [[]]"
| "split_on d (c # cs) =
     (if c = d then [] # split_on d cs
      else (case split_on d cs of [] \<Rightarrow> [[c]] | p # ps \<Rightarrow> (c # p) # ps))"

definition nth_or_empty :: "string list \<Rightarrow> nat \<Rightarrow> string" where
  "nth_or_empty ps i = (if i < length ps then ps ! i else [])"

definition parse_vector_type :: "string \<Rightarrow> (query_error, query_type) result" where
  "parse_vector_type inner =
     (let ps = split_on CHR '','' inner;
          space = nth_or_empty ps 0;
          dimension = nth_or_empty ps 1;
          scalar = nth_or_empty ps 2 in
      if length ps > 3 \<or> space = [] \<or> list_ex is_whitespace (scalars space)
         \<or> CHR ''<'' \<in> set space \<or> CHR ''>'' \<in> set space
      then Inl (bind_error ''vector_type'')
      else case parse_unsigned 65536 dimension of
        None \<Rightarrow> Inl (bind_error ''vector_type'')
      | Some n \<Rightarrow>
          if n = 0 then Inl (bind_error ''vector_type'')
          else if scalar = ''f32'' then Inr (TVector space (of_nat n) F32)
          else if scalar = ''f64'' then Inr (TVector space (of_nat n) F64)
          else Inl (bind_error ''vector_type''))"

definition atom_type :: "string \<Rightarrow> query_type option" where
  "atom_type nm = map_of
     [(''Null'', TNull), (''Bool'', TBool), (''I64'', TI64), (''DecimalU64'', TDecimalU64),
      (''F64Finite'', TF64Finite), (''Utf8'', TUtf8), (''Json'', TJson), (''Entity'', TEntity),
      (''HistoryRevision'', THistoryRevision), (''ChangeEvent'', TChangeEvent),
      (''Score'', TScore), (''Context'', TContext)] nm"

text \<open>\<open>strip_prefix\<close> of the constructor and then \<open>strip_suffix\<close> of the closing bracket.\<close>

definition strip_bracket :: "string \<Rightarrow> string \<Rightarrow> string option" where
  "strip_bracket p nm = Option.bind (strip_prefix p nm) (strip_suffix ''>'')"

lemma strip_bracket_Some: "strip_bracket p nm = Some inner \<longleftrightarrow> nm = p @ inner @ ''>''"
  by (auto simp: strip_bracket_def strip_prefix_Some strip_suffix_Some bind_eq_Some_conv)

lemma strip_bracket_shorter: "strip_bracket p nm = Some inner \<Longrightarrow> length inner < length nm"
  by (auto simp: strip_bracket_Some)

fun is_nullable :: "query_type \<Rightarrow> bool" where
  "is_nullable (TNullable _) = True"
| "is_nullable _ = False"

function parse_inner :: "string \<Rightarrow> nat \<Rightarrow> (query_error, query_type) result" where
  "parse_inner nm depth =
     (if depth > 128 \<or> length nm > 4096 then Inl (bind_error ''type_depth'')
      else case atom_type nm of
        Some t \<Rightarrow> Inr t
      | None \<Rightarrow>
          (case strip_bracket ''Nullable<'' nm of
             Some inner \<Rightarrow>
               rbind (parse_inner inner (depth + 1)) (\<lambda>t.
               if is_nullable t then Inl (bind_error ''nested_nullable'') else Inr (TNullable t))
           | None \<Rightarrow>
               (case strip_bracket ''List<'' nm of
                  Some inner \<Rightarrow> rbind (parse_inner inner (depth + 1)) (\<lambda>t. Inr (TList t))
                | None \<Rightarrow>
                    (case strip_bracket ''Vector<'' nm of
                       Some inner \<Rightarrow> parse_vector_type inner
                     | None \<Rightarrow>
                         Inl (query_error_new ''CAPABILITY_UNSUPPORTED'' ''bind'' ''type_unavailable'')))))"
  by pat_completeness auto
termination
  by (relation "measure (\<lambda>(nm, _). length nm)") (auto dest: strip_bracket_shorter)

definition parse_type :: "string \<Rightarrow> (query_error, query_type) result" where
  "parse_type nm = parse_inner nm 0"

fun type_name :: "query_type \<Rightarrow> string" where
  "type_name TNull = ''Null''"
| "type_name TBool = ''Bool''"
| "type_name TI64 = ''I64''"
| "type_name TDecimalU64 = ''DecimalU64''"
| "type_name TF64Finite = ''F64Finite''"
| "type_name TUtf8 = ''Utf8''"
| "type_name TJson = ''Json''"
| "type_name TEntity = ''Entity''"
| "type_name THistoryRevision = ''HistoryRevision''"
| "type_name TChangeEvent = ''ChangeEvent''"
| "type_name TPath = ''Path''"
| "type_name TScore = ''Score''"
| "type_name TContext = ''Context''"
| "type_name (TVector space dim scalar) =
     ''Vector<'' @ space @ '','' @ dec (unat dim) @ '','' @ scalar_name scalar @ ''>''"
| "type_name (TNullable t) = ''Nullable<'' @ type_name t @ ''>''"
| "type_name (TList t) = ''List<'' @ type_name t @ ''>''"

fun base_type :: "query_type \<Rightarrow> query_type" where
  "base_type (TNullable t) = t"
| "base_type t = t"

definition as_nullable :: "query_type \<Rightarrow> query_type" where
  "as_nullable t = (if is_nullable t then t else TNullable t)"

declare parse_inner.simps [simp del]

section \<open>Printing and parsing\<close>

text \<open>The types the parser can return, by their nesting depth.\<close>

fun wf_type :: "query_type \<Rightarrow> bool" where
  "wf_type TPath = False"
| "wf_type (TVector space dim scalar) \<longleftrightarrow>
     space \<noteq> [] \<and> \<not> list_ex is_whitespace (scalars space)
     \<and> CHR ''<'' \<notin> set space \<and> CHR ''>'' \<notin> set space \<and> CHR '','' \<notin> set space \<and> 0 < dim"
| "wf_type (TNullable t) \<longleftrightarrow> wf_type t \<and> \<not> is_nullable t"
| "wf_type (TList t) = wf_type t"
| "wf_type _ = True"

fun type_depth :: "query_type \<Rightarrow> nat" where
  "type_depth (TNullable t) = Suc (type_depth t)"
| "type_depth (TList t) = Suc (type_depth t)"
| "type_depth _ = 0"

lemma split_on_nonempty [simp]: "split_on d s \<noteq> []"
  by (induction s) (auto split: list.splits)

lemma split_on_free: "d \<notin> set s \<Longrightarrow> split_on d s = [s]"
  by (induction s) auto

lemma split_on_append: "d \<notin> set s \<Longrightarrow> split_on d (s @ d # rest) = s # split_on d rest"
  by (induction s) auto

lemma split_on_parts: "p \<in> set (split_on d s) \<Longrightarrow> d \<notin> set p"
  by (induction s arbitrary: p) (auto split: if_splits list.splits)

lemma split_on_lengths: "sum_list (map length (split_on d s)) + length (split_on d s) = Suc (length s)"
  by (induction s) (auto split: list.splits)

lemma atom_type_bracket:
  assumes "CHR ''<'' \<in> set nm"
  shows "atom_type nm = None"
proof (rule ccontr)
  assume "atom_type nm \<noteq> None"
  then obtain t where "atom_type nm = Some t" by blast
  from map_of_SomeD [OF this [unfolded atom_type_def]] assms show False
    by (elim set_ConsD [elim_format] disjE) simp_all
qed

lemma dec_no_comma: "CHR '','' \<notin> set (dec n)"
proof
  assume "CHR '','' \<in> set (dec n)"
  then have "is_ascii_digit (CHR '','')" using dec_digits [of n] by (auto simp: list_all_iff)
  then show False by (simp add: ascii_defs)
qed

lemma scalar_name_props: "CHR '','' \<notin> set (scalar_name s)" "scalar_name s \<noteq> []"
  by (cases s; simp)+

lemma parse_vector_name:
  assumes "wf_type (TVector space dim scalar)"
  shows "parse_vector_type (space @ '','' @ dec (unat dim) @ '','' @ scalar_name scalar)
       = Inr (TVector space dim scalar)"
proof -
  have parts: "split_on CHR '','' (space @ '','' @ dec (unat dim) @ '','' @ scalar_name scalar)
      = [space, dec (unat dim), scalar_name scalar]"
    using assms by (simp add: split_on_append dec_no_comma split_on_free scalar_name_props)
  have dim: "unat dim < 65536" "unat dim \<noteq> 0"
    using unat_less_exp [of dim] assms by (auto simp: word_less_nat_alt)
  show ?thesis
    unfolding parse_vector_type_def parts Let_def
    using assms dim by (cases scalar) (simp_all add: nth_or_empty_def)
qed

lemma parse_inner_name:
  assumes "wf_type t" "depth + type_depth t \<le> 128" "length (type_name t) \<le> 4096"
  shows "parse_inner (type_name t) depth = Inr t"
  using assms
proof (induction t arbitrary: depth)
  case (TVector space dim scalar)
  let ?inner = "space @ '','' @ dec (unat dim) @ '','' @ scalar_name scalar"
  have nm: "type_name (TVector space dim scalar) = ''Vector<'' @ ?inner @ ''>''" by simp
  have "strip_bracket ''Nullable<'' (''Vector<'' @ ?inner @ ''>'') = None"
    "strip_bracket ''List<'' (''Vector<'' @ ?inner @ ''>'') = None"
    by (simp_all add: strip_bracket_def strip_prefix_def)
  moreover have "strip_bracket ''Vector<'' (''Vector<'' @ ?inner @ ''>'') = Some ?inner"
    by (subst strip_bracket_Some) simp
  moreover have "atom_type (''Vector<'' @ ?inner @ ''>'') = None"
    by (rule atom_type_bracket) simp
  ultimately show ?case
    unfolding nm using TVector.prems parse_vector_name [OF TVector.prems(1)]
    by (subst parse_inner.simps) simp
next
  case (TNullable t)
  let ?nm = "''Nullable<'' @ type_name t @ ''>''"
  have "strip_bracket ''Nullable<'' ?nm = Some (type_name t)" by (subst strip_bracket_Some) simp
  moreover have "atom_type ?nm = None" by (rule atom_type_bracket) simp
  moreover have "parse_inner (type_name t) (depth + 1) = Inr t" using TNullable by simp
  ultimately show ?case using TNullable.prems by (subst parse_inner.simps) simp
next
  case (TList t)
  let ?nm = "''List<'' @ type_name t @ ''>''"
  have "strip_bracket ''Nullable<'' ?nm = None" by (simp add: strip_bracket_def strip_prefix_def)
  moreover have "strip_bracket ''List<'' ?nm = Some (type_name t)" by (subst strip_bracket_Some) simp
  moreover have "atom_type ?nm = None" by (rule atom_type_bracket) simp
  moreover have "parse_inner (type_name t) (depth + 1) = Inr t" using TList by simp
  ultimately show ?case using TList.prems by (subst parse_inner.simps) simp
qed (simp_all add: parse_inner.simps atom_type_def)

lemma digits_val_less: "list_all is_ascii_digit s \<Longrightarrow> digits_val s < 10 ^ length s"
proof (induction s rule: rev_induct)
  case (snoc c s)
  then have "digit_val c < 10" "digits_val s + 1 \<le> 10 ^ length s" using digit_val_less by auto
  moreover from this(2) have "(digits_val s + 1) * 10 \<le> 10 ^ length s * 10" by (rule mult_le_mono1)
  ultimately show ?case by (simp add: digits_val_snoc)
qed (simp add: digits_val_def)

lemma length_dec: "n < 10 ^ k \<Longrightarrow> 0 < k \<Longrightarrow> length (dec n) \<le> k"
proof (induction n arbitrary: k rule: dec.induct)
  case (1 n)
  show ?case
  proof (cases "n < 10")
    case True
    then show ?thesis using 1(3) by (subst dec.simps) simp
  next
    case False
    then obtain j where k: "k = Suc j" "0 < j"
      using 1(2,3) by (cases k; cases "k - 1"; simp)
    have "n div 10 < 10 ^ j" using 1(2) k(1) by (simp add: less_mult_imp_div_less mult.commute)
    then have "length (dec (n div 10)) \<le> j" using 1(1) [OF False _ k(2)] by simp
    then show ?thesis using False k(1) by (subst dec.simps) simp
  qed
qed

lemma length_dec_parsed: "parse_unsigned b s = Some n \<Longrightarrow> length (dec n) \<le> length s"
proof -
  assume p: "parse_unsigned b s = Some n"
  then have d: "strip_plus s \<noteq> []" "list_all is_ascii_digit (strip_plus s)" "n = digits_val (strip_plus s)"
    by (auto simp: parse_unsigned_def Let_def split: if_splits)
  then have "length (dec n) \<le> length (strip_plus s)" by (intro length_dec) (auto simp: digits_val_less)
  also have "\<dots> \<le> length s" by (auto simp: strip_plus_def split: list.splits)
  finally show ?thesis .
qed

lemma parse_vector_type_Inr:
  assumes "parse_vector_type inner = Inr t"
  shows "wf_type t \<and> type_depth t = 0 \<and> \<not> is_nullable t \<and> length (type_name t) \<le> length inner + 8"
proof -
  let ?ps = "split_on CHR '','' inner"
  obtain space dimension scalar n sc where
    v: "space = nth_or_empty ?ps 0" "dimension = nth_or_empty ?ps 1" "scalar = nth_or_empty ?ps 2"
    and small: "length ?ps \<le> 3" and dim: "parse_unsigned 65536 dimension = Some n" "n \<noteq> 0"
    and sp: "space \<noteq> []" "\<not> list_ex is_whitespace (scalars space)" "CHR ''<'' \<notin> set space" "CHR ''>'' \<notin> set space"
    and sc: "scalar = scalar_name sc" and t: "t = TVector space (of_nat n) sc"
    using assms
    by (auto simp: parse_vector_type_def Let_def not_less split: if_splits option.splits)
  have "length ?ps = 3"
    using small sc v(3) scalar_name_props(2) [of sc] by (auto simp: nth_or_empty_def split: if_splits)
  then obtain a b c where ps: "?ps = [a, b, c]" by (auto simp: numeral_3_eq_3 length_Suc_conv)
  then have abc: "space = a" "dimension = b" "scalar = c" using v by (auto simp: nth_or_empty_def)
  have "length inner = length a + length b + length c + 2"
    using split_on_lengths [of "CHR '',''" inner] ps by simp
  moreover have "CHR '','' \<notin> set a" using split_on_parts [of a "CHR '',''" inner] ps by simp
  moreover have n: "n < 65536" using parse_unsigned_less dim by blast
  then have "unat (of_nat n :: u16) = n" by (simp add: unsigned_of_nat take_bit_nat_eq_self)
  moreover from this have "(of_nat n :: u16) \<noteq> 0" using dim(2) by (metis unat_0)
  ultimately show ?thesis
    using t sp abc sc length_dec_parsed [OF dim(1)] by (simp add: word_neq_0_conv [symmetric])
qed

lemma atom_type_Some:
  assumes "atom_type nm = Some t"
  shows "wf_type t \<and> type_depth t = 0 \<and> \<not> is_nullable t \<and> type_name t = nm"
  using map_of_SomeD [OF assms [unfolded atom_type_def]]
  by (elim set_ConsD [elim_format] disjE) simp_all

lemma parse_inner_Inr:
  assumes "parse_inner nm depth = Inr t"
  shows "wf_type t \<and> depth + type_depth t \<le> 128 \<and> length (type_name t) \<le> length nm \<and> length nm \<le> 4096"
  using assms
proof (induction nm depth arbitrary: t rule: parse_inner.induct)
  case (1 nm depth)
  note p = "1.prems" [unfolded parse_inner.simps [of nm]]
  have ok: "depth \<le> 128" "length nm \<le> 4096" using p by (auto split: if_splits)
  show ?case
  proof (cases "atom_type nm")
    case (Some a)
    then show ?thesis using p ok atom_type_Some [OF Some] by auto
  next
    case None
    note none = this
    show ?thesis
    proof (cases "strip_bracket ''Nullable<'' nm")
      case (Some inner)
      then obtain u where u: "parse_inner inner (depth + 1) = Inr u" "\<not> is_nullable u" "t = TNullable u"
        using p ok none by (auto split: if_splits)
      have "wf_type u \<and> depth + 1 + type_depth u \<le> 128 \<and> length (type_name u) \<le> length inner"
        using "1.IH"(2) [OF _ none Some u(1)] ok by auto
      then show ?thesis using u ok Some by (auto simp: strip_bracket_Some)
    next
      case None
      note none2 = this
      show ?thesis
      proof (cases "strip_bracket ''List<'' nm")
        case (Some inner)
        then obtain u where u: "parse_inner inner (depth + 1) = Inr u" "t = TList u"
          using p ok none none2 by auto
        have "wf_type u \<and> depth + 1 + type_depth u \<le> 128 \<and> length (type_name u) \<le> length inner"
          using "1.IH"(1) [OF _ none none2 Some u(1)] ok by auto
        then show ?thesis using u ok Some by (auto simp: strip_bracket_Some)
      next
        case None
        then obtain inner where "strip_bracket ''Vector<'' nm = Some inner" "parse_vector_type inner = Inr t"
          using p ok none none2 by (auto split: option.splits)
        then show ?thesis using parse_vector_type_Inr [of inner t] ok by (simp add: strip_bracket_Some)
      qed
    qed
  qed
qed

text \<open>Printing a query type is a right inverse of parsing on everything the parser accepts. A
  type that parses is well formed (a known constructor, no nullable of a nullable, a vector with a
  clean space name and a positive dimension), nests at most 128 levels, and its printed name, which
  is no longer than the text that was parsed, parses to the same type again.\<close>

theorem parsed_types_reparse:
  assumes "parse_type nm = Inr t"
  shows "parse_type (type_name t) = Inr t \<and> wf_type t \<and> type_depth t \<le> 128
       \<and> length (type_name t) \<le> length nm"
  using parse_inner_Inr [OF assms [unfolded parse_type_def]] parse_inner_name [of t 0]
  by (simp add: parse_type_def)

text \<open>A second spelling of a dimension is accepted, and printed canonically.\<close>

theorem parsed_types_reparse_witness:
  "parse_type ''List<Vector<s,+007,f32>>'' = Inr (TList (TVector ''s'' 7 F32))
   \<and> type_name (TList (TVector ''s'' 7 F32)) = ''List<Vector<s,7,f32>>''
   \<and> parse_type ''List<Vector<s,7,f32>>'' = Inr (TList (TVector ''s'' 7 F32))"
proof -
  have "parse_vector_type ''s,+007,f32'' = Inr (TVector ''s'' 7 F32)"
    by (simp add: parse_vector_type_def nth_or_empty_def scalars_def utf8_extra_def is_whitespace_def
        parse_unsigned_def strip_plus_def digits_val_def digit_val_def ascii_defs)
  then have a: "parse_type ''List<Vector<s,+007,f32>>'' = Inr (TList (TVector ''s'' 7 F32))"
    by (simp add: parse_type_def parse_inner.simps atom_type_def strip_bracket_def strip_prefix_def
        strip_suffix_def)
  have "digit_char 7 = CHR ''7''" by code_simp
  then have b: "type_name (TList (TVector ''s'' 7 F32)) = ''List<Vector<s,7,f32>>''"
    by (simp add: dec.simps)
  show ?thesis using a b parsed_types_reparse [OF a] by (simp only: b simp_thms)
qed

section \<open>Values\<close>

datatype path_mode = Trail | Simple | Walk

record context_evidence =
  ce_source :: record_ref
  ce_source_hash :: string
  ce_start_scalar :: u64
  ce_end_scalar :: u64

record context_fragment = cf_text :: string  cf_citation :: string  cf_evidence :: context_evidence

record context_package =
  cp_rendered_context :: string
  cp_token_count :: u64
  cp_token_budget :: u64
  cp_tokenizer_fingerprint :: string
  cp_fragments :: "context_fragment list"
  cp_omitted_refs :: "context_evidence list"
  cp_truncated :: bool
  cp_truncation_reason :: "string option"

record history_revision =
  hr_subject :: record_ref
  hr_operation :: string
  hr_tx_from :: u64
  hr_tx_to :: "u64 option"
  hr_valid_from :: string
  hr_valid_to :: "string option"

record change_event = ev_sequence :: u64  ev_operation :: string  ev_subject :: record_ref

record score_value =
  sv_value :: u64
  sv_owner :: record_ref
  sv_source :: string
  sv_scope :: string
  sv_metric :: string

record vector_value = vv_space_id :: string  vv_scalar :: vector_scalar  vv_values :: "u64 list"

record path_value = pv_vertices :: "record_ref list"  pv_edges :: "record_ref list"  pv_mode :: path_mode

datatype query_value =
    VNull
  | VBool bool
  | VI64 i64
  | VDecimalU64 u64
  | VF64 u64
  | VUtf8 string
  | VJson json
  | VEntity record_ref
  | VHistoryRevision history_revision
  | VChangeEvent change_event
  | VPath path_value
  | VVector vector_value
  | VScore score_value
  | VContext context_package
  | VList "query_value list"

text \<open>\<open>str::parse\<close> and \<open>to_string\<close> of a signed 64-bit integer.\<close>

definition i64_to_string :: "i64 \<Rightarrow> string" where
  "i64_to_string v = (if sint v < 0 then CHR ''-'' # dec (nat (- sint v)) else dec (nat (sint v)))"

definition parse_i64 :: "string \<Rightarrow> i64 option" where
  "parse_i64 s =
     (case s of
        c # ds \<Rightarrow>
          if c = CHR ''-'' then
            (if ds = [] \<or> \<not> list_all is_ascii_digit ds \<or> digits_val ds > 2 ^ 63 then None
             else Some (word_of_int (- int (digits_val ds))))
          else map_option of_nat (parse_unsigned (2 ^ 63) s)
      | [] \<Rightarrow> None)"

text \<open>The conversions the decoder calls.\<close>

record float_ops =
  as_f64 :: "json_number \<Rightarrow> u64 option"
  through_f32 :: "u64 \<Rightarrow> u64"

definition finite_f64 :: "float_ops \<Rightarrow> json \<Rightarrow> u64 option" where
  "finite_f64 F v =
     (case v of
        JNumber n \<Rightarrow> (case as_f64 F n of
          Some x \<Rightarrow> if f64_is_finite x then Some x else None
        | None \<Rightarrow> None)
      | _ \<Rightarrow> None)"

definition vector_element :: "float_ops \<Rightarrow> vector_scalar \<Rightarrow> json \<Rightarrow> (query_error, u64) result" where
  "vector_element F scalar v =
     rbind (ok_or (bind_error ''vector_value'') (finite_f64 F v)) (\<lambda>x.
     case scalar of
       F32 \<Rightarrow> (let y = through_f32 F x in
               if \<not> f64_is_finite y then Inl (bind_error ''vector_value'') else Inr y)
     | F64 \<Rightarrow> Inr x)"

text \<open>The match of the decoder, by type; what matches no arm is a type error. \<open>R\<close> is
  \<open>RecordRefV2::from_value\<close>.\<close>

definition literal_type_error :: "(query_error, query_value) result" where
  "literal_type_error = Inl (bind_error ''literal_type'')"

definition domain_parameter_error :: "(query_error, query_value) result" where
  "domain_parameter_error = Inl (unsupported_parameter ''domain_parameter_unavailable'')"

primrec decode_value ::
  "float_ops \<Rightarrow> (json \<Rightarrow> record_ref contract) \<Rightarrow> query_type \<Rightarrow> json \<Rightarrow> (query_error, query_value) result" where
  "decode_value F R TNull v = (case v of JNull \<Rightarrow> Inr VNull | _ \<Rightarrow> literal_type_error)"
| "decode_value F R (TNullable t) v = (case v of JNull \<Rightarrow> Inr VNull | _ \<Rightarrow> decode_value F R t v)"
| "decode_value F R TBool v = (case v of JBool b \<Rightarrow> Inr (VBool b) | _ \<Rightarrow> literal_type_error)"
| "decode_value F R TI64 v =
     (case v of
        JString s \<Rightarrow>
          rbind (ok_or (bind_error ''integer_literal'') (parse_i64 s)) (\<lambda>x.
          if i64_to_string x \<noteq> s then Inl (bind_error ''integer_literal'') else Inr (VI64 x))
      | _ \<Rightarrow> literal_type_error)"
| "decode_value F R TDecimalU64 v =
     (case v of
        JString s \<Rightarrow>
          rbind (ok_or (bind_error ''unsigned_integer_literal'') (parse_unsigned (2 ^ 64) s)) (\<lambda>n.
          if dec n \<noteq> s then Inl (bind_error ''unsigned_integer_literal'')
          else Inr (VDecimalU64 (of_nat n)))
      | _ \<Rightarrow> literal_type_error)"
| "decode_value F R TF64Finite v =
     (case v of
        JNumber n \<Rightarrow>
          rbind (ok_or (bind_error ''nonfinite_literal'') (finite_f64 F v)) (\<lambda>x. Inr (VF64 x))
      | _ \<Rightarrow> literal_type_error)"
| "decode_value F R TUtf8 v = (case v of JString s \<Rightarrow> Inr (VUtf8 s) | _ \<Rightarrow> literal_type_error)"
| "decode_value F R TJson v = Inr (VJson v)"
| "decode_value F R TEntity v =
     (case R v of Inl _ \<Rightarrow> Inl (bind_error ''entity_parameter'') | Inr r \<Rightarrow> Inr (VEntity r))"
| "decode_value F R THistoryRevision v = domain_parameter_error"
| "decode_value F R TChangeEvent v = domain_parameter_error"
| "decode_value F R TScore v = domain_parameter_error"
| "decode_value F R TPath v = domain_parameter_error"
| "decode_value F R TContext v = domain_parameter_error"
| "decode_value F R (TList t) v =
     (case v of
        JArray vs \<Rightarrow> rbind (collect_results (map (decode_value F R t) vs)) (\<lambda>xs. Inr (VList xs))
      | _ \<Rightarrow> literal_type_error)"
| "decode_value F R (TVector space dim scalar) v =
     (case v of
        JArray vs \<Rightarrow>
          (if length vs \<noteq> unat dim
           then Inl (query_error_new ''COLLECTION_SPACE_MISMATCH'' ''bind'' ''vector_dimension'')
           else rbind (collect_results (map (vector_element F scalar) vs)) (\<lambda>xs.
             Inr (VVector \<lparr>vv_space_id = space, vv_scalar = scalar, vv_values = xs\<rparr>)))
      | _ \<Rightarrow> literal_type_error)"

section \<open>Decoded values are typed\<close>

text \<open>The values of a type, as far as parameters can have it.\<close>

primrec has_type :: "(record_ref \<Rightarrow> bool) \<Rightarrow> query_type \<Rightarrow> query_value \<Rightarrow> bool" where
  "has_type E TNull x = (x = VNull)"
| "has_type E (TNullable t) x = (x = VNull \<or> has_type E t x)"
| "has_type E TBool x = (\<exists>b. x = VBool b)"
| "has_type E TI64 x = (\<exists>i. x = VI64 i)"
| "has_type E TDecimalU64 x = (\<exists>n. x = VDecimalU64 n)"
| "has_type E TF64Finite x = (\<exists>f. x = VF64 f \<and> f64_is_finite f)"
| "has_type E TUtf8 x = (\<exists>s. x = VUtf8 s)"
| "has_type E TJson x = (\<exists>j. x = VJson j)"
| "has_type E TEntity x = (\<exists>r. x = VEntity r \<and> E r)"
| "has_type E THistoryRevision x = False"
| "has_type E TChangeEvent x = False"
| "has_type E TScore x = False"
| "has_type E TPath x = False"
| "has_type E TContext x = False"
| "has_type E (TList t) x = (\<exists>xs. x = VList xs \<and> list_all (has_type E t) xs)"
| "has_type E (TVector space dim scalar) x =
     (\<exists>v. x = VVector v \<and> vv_space_id v = space \<and> vv_scalar v = scalar
        \<and> length (vv_values v) = unat dim \<and> list_all f64_is_finite (vv_values v))"

lemma collect_results_Inr: "collect_results rs = Inr xs \<longleftrightarrow> rs = map Inr xs"
  by (induction rs arbitrary: xs) auto

lemma collect_map_Inr: "collect_results (map f vs) = Inr xs \<longleftrightarrow> list_all2 (\<lambda>v x. f v = Inr x) vs xs"
  unfolding collect_results_Inr
  by (induction vs arbitrary: xs) (auto simp: list_all2_Cons1)

lemma vector_element_finite: "vector_element F scalar v = Inr x \<Longrightarrow> f64_is_finite x"
  by (auto simp: vector_element_def finite_f64_def Let_def split: json.splits option.splits
      if_splits vector_scalar.splits)

lemma decode_value_typed:
  assumes "decode_value F R t v = Inr x"
  shows "has_type (\<lambda>r. \<exists>v'. R v' = Inr r) t x"
  using assms
proof (induction t arbitrary: v x)
  case (TList t)
  then obtain vs xs where "x = VList xs" "list_all2 (\<lambda>v x. decode_value F R t v = Inr x) vs xs"
    by (auto simp: literal_type_error_def collect_map_Inr split: json.splits)
  then show ?case using TList.IH by (auto simp: list_all2_conv_all_nth list_all_length)
next
  case (TVector space dim scalar)
  then obtain vs xs where "x = VVector \<lparr>vv_space_id = space, vv_scalar = scalar, vv_values = xs\<rparr>"
    "list_all2 (\<lambda>v x. vector_element F scalar v = Inr x) vs xs" "length vs = unat dim"
    by (auto simp: literal_type_error_def collect_map_Inr split: json.splits if_splits)
  then show ?case
    by (auto simp: list_all2_conv_all_nth list_all_length dest: vector_element_finite)
next
  case (TNullable t)
  then show ?case by (cases v) auto
qed (auto simp: literal_type_error_def domain_parameter_error_def finite_f64_def
      split: json.splits sum.splits option.splits if_splits)

text \<open>The parameter decoder is sound for the type it is given: whatever it returns is a value of
  that type. Floats are finite, a vector has the declared space, scalar and dimension with finite
  components, every element of a list has the element type, \<open>Null\<close> comes only out of a nullable
  type, and an entity is one that the record reference decoder accepted.\<close>

theorem decoded_values_are_typed:
  "decode_value F R t v = Inr x \<Longrightarrow> has_type (\<lambda>r. \<exists>v'. R v' = Inr r) t x"
  by (rule decode_value_typed)

theorem decoded_values_are_typed_witness:
  "has_type (\<lambda>_. False) (TNullable (TList TUtf8)) (VList [VUtf8 ''a'', VUtf8 ''b''])"
proof -
  let ?F = "\<lparr>as_f64 = (\<lambda>_. None), through_f32 = id\<rparr>" and ?R = "\<lambda>_. Inl (invalid [])"
  have "decode_value ?F ?R (TNullable (TList TUtf8)) (JArray [JString ''a'', JString ''b''])
          = Inr (VList [VUtf8 ''a'', VUtf8 ''b''])" by simp
  from decoded_values_are_typed [OF this] show ?thesis by simp
qed

section \<open>Serialization\<close>

fun record_kind_json :: "record_kind \<Rightarrow> json" where
  "record_kind_json KindNode = JString ''node''"
| "record_kind_json KindEdge = JString ''edge''"
| "record_kind_json KindRow = JString ''row''"
| "record_kind_json KindVector = JString ''vector''"
| "record_kind_json KindAnnotation = JString ''annotation''"
| "record_kind_json KindArtifact = JString ''artifact''"

definition record_ref_json :: "record_ref \<Rightarrow> json" where
  "record_ref_json r = JObject
     [(''database_id'', JString (rr_database_id r)), (''namespace'', JString (rr_namespace r)),
      (''kind'', record_kind_json (rr_kind r)), (''id'', JString (rr_id r)),
      (''revision'', JString (rr_revision r))]"

definition opt_json :: "('a \<Rightarrow> json) \<Rightarrow> 'a option \<Rightarrow> json" where
  "opt_json f v = (case v of None \<Rightarrow> JNull | Some x \<Rightarrow> f x)"

definition serialize_decimal_u64 :: "u64 \<Rightarrow> json" where
  "serialize_decimal_u64 v = JString (dec (unat v))"

definition history_revision_json :: "history_revision \<Rightarrow> json" where
  "history_revision_json h = JObject
     [(''subject'', record_ref_json (hr_subject h)), (''operation'', JString (hr_operation h)),
      (''tx_from'', serialize_decimal_u64 (hr_tx_from h)),
      (''tx_to'', opt_json serialize_decimal_u64 (hr_tx_to h)),
      (''valid_from'', JString (hr_valid_from h)), (''valid_to'', opt_json JString (hr_valid_to h))]"

definition change_event_json :: "change_event \<Rightarrow> json" where
  "change_event_json e = JObject
     [(''sequence'', serialize_decimal_u64 (ev_sequence e)), (''operation'', JString (ev_operation e)),
      (''subject'', record_ref_json (ev_subject e))]"

fun path_mode_json :: "path_mode \<Rightarrow> json" where
  "path_mode_json Trail = JString ''trail''"
| "path_mode_json Simple = JString ''simple''"
| "path_mode_json Walk = JString ''walk''"

definition path_value_json :: "path_value \<Rightarrow> json" where
  "path_value_json p = JObject
     [(''vertices'', JArray (map record_ref_json (pv_vertices p))),
      (''edges'', JArray (map record_ref_json (pv_edges p))), (''mode'', path_mode_json (pv_mode p))]"

definition vector_value_json :: "vector_value \<Rightarrow> json" where
  "vector_value_json v = JObject
     [(''space_id'', JString (vv_space_id v)), (''scalar'', JString (scalar_name (vv_scalar v))),
      (''values'', JArray (map (\<lambda>x. JNumber (Float x)) (vv_values v)))]"

definition score_value_json :: "score_value \<Rightarrow> json" where
  "score_value_json s = JObject
     [(''value'', JNumber (Float (sv_value s))), (''owner'', record_ref_json (sv_owner s)),
      (''source'', JString (sv_source s)), (''scope'', JString (sv_scope s)),
      (''metric'', JString (sv_metric s))]"

definition context_evidence_json :: "context_evidence \<Rightarrow> json" where
  "context_evidence_json e = JObject
     [(''source'', record_ref_json (ce_source e)), (''source_hash'', JString (ce_source_hash e)),
      (''start_scalar'', JNumber (PosInt (ce_start_scalar e))),
      (''end_scalar'', JNumber (PosInt (ce_end_scalar e)))]"

definition context_package_json :: "context_package \<Rightarrow> json" where
  "context_package_json c = JObject
     [(''rendered_context'', JString (cp_rendered_context c)),
      (''token_count'', JNumber (PosInt (cp_token_count c))),
      (''token_budget'', JNumber (PosInt (cp_token_budget c))),
      (''tokenizer_fingerprint'', JString (cp_tokenizer_fingerprint c)),
      (''fragments'', JArray (map (\<lambda>f. JObject
          [(''text'', JString (cf_text f)), (''citation'', JString (cf_citation f)),
           (''evidence'', context_evidence_json (cf_evidence f))]) (cp_fragments c))),
      (''omitted_refs'', JArray (map context_evidence_json (cp_omitted_refs c))),
      (''truncated'', JBool (cp_truncated c)),
      (''truncation_reason'', opt_json JString (cp_truncation_reason c))]"

definition tagged :: "string \<Rightarrow> json \<Rightarrow> json" where
  "tagged ty v = JObject [(''type'', JString ty), (''value'', v)]"

fun serialize_value :: "query_value \<Rightarrow> (string, json) result" where
  "serialize_value VNull = Inr (tagged ''Null'' JNull)"
| "serialize_value (VBool b) = Inr (tagged ''Bool'' (JBool b))"
| "serialize_value (VI64 v) = Inr (tagged ''I64'' (JString (i64_to_string v)))"
| "serialize_value (VDecimalU64 v) = Inr (tagged ''DecimalU64'' (JString (dec (unat v))))"
| "serialize_value (VF64 v) =
     (if \<not> f64_is_finite v then Inl ''nonfinite_result''
      else Inr (tagged ''F64Finite'' (JNumber (Float v))))"
| "serialize_value (VUtf8 s) = Inr (tagged ''Utf8'' (JString s))"
| "serialize_value (VJson j) = Inr (tagged ''Json'' j)"
| "serialize_value (VEntity r) = Inr (tagged ''Entity'' (record_ref_json r))"
| "serialize_value (VHistoryRevision h) = Inr (tagged ''HistoryRevision'' (history_revision_json h))"
| "serialize_value (VChangeEvent e) = Inr (tagged ''ChangeEvent'' (change_event_json e))"
| "serialize_value (VPath p) = Inr (tagged ''Path'' (path_value_json p))"
| "serialize_value (VVector v) =
     Inr (tagged (''Vector<'' @ vv_space_id v @ '','' @ dec (length (vv_values v)) @ '',''
                  @ scalar_name (vv_scalar v) @ ''>'') (vector_value_json v))"
| "serialize_value (VScore s) =
     (if \<not> f64_is_finite (sv_value s) then Inl ''nonfinite_result''
      else Inr (tagged ''Score'' (score_value_json s)))"
| "serialize_value (VContext c) = Inr (tagged ''Context'' (context_package_json c))"
| "serialize_value (VList xs) =
     rbind (collect_results (map serialize_value xs)) (\<lambda>js. Inr (tagged ''List'' (JArray js)))"

section \<open>Round trips\<close>

lemma digit_not_minus: "hd (dec n) \<noteq> CHR ''-''"
proof -
  have "is_ascii_digit (hd (dec n))" using dec_digits [of n] by (cases "dec n") auto
  then show ?thesis by (auto simp: ascii_defs)
qed

lemma parse_i64_negative:
  "n \<noteq> [] \<Longrightarrow> list_all is_ascii_digit n \<Longrightarrow> digits_val n \<le> 2 ^ 63
     \<Longrightarrow> parse_i64 (CHR ''-'' # n) = Some (word_of_int (- int (digits_val n)))"
  by (simp add: parse_i64_def)

lemma parse_i64_positive: "n < 2 ^ 63 \<Longrightarrow> parse_i64 (dec n) = Some (of_nat n)"
proof -
  assume "n < 2 ^ 63"
  then have p: "parse_unsigned (2 ^ 63) (dec n) = Some n" by simp
  obtain c cs where d: "dec n = c # cs" "c \<noteq> CHR ''-''"
    using digit_not_minus [of n] dec_nonempty [of n] by (cases "dec n") auto
  have "parse_i64 (dec n) = map_option of_nat (parse_unsigned (2 ^ 63) (dec n))"
    unfolding parse_i64_def d(1) using d(2) by simp
  then show ?thesis using p by simp
qed

lemma parse_i64_to_string [simp]: "parse_i64 (i64_to_string v) = Some v"
proof (cases "sint v < 0")
  case True
  have "- (2 ^ 63) \<le> sint v" using sint_greater_eq [of v] by simp
  then have "nat (- sint v) \<le> 2 ^ 63" by simp
  then have "parse_i64 (CHR ''-'' # dec (nat (- sint v))) = Some (word_of_int (- int (digits_val (dec (nat (- sint v))))))"
    by (intro parse_i64_negative dec_digits) simp_all
  moreover have "- int (nat (- sint v)) = sint v" using True by simp
  ultimately show ?thesis using True by (simp add: i64_to_string_def)
next
  case False
  have "sint v < 2 ^ 63" using sint_less [of v] by simp
  then have "nat (sint v) < 2 ^ 63" using False by (simp add: nat_less_iff)
  then have "parse_i64 (dec (nat (sint v))) = Some (of_nat (nat (sint v)))" by (rule parse_i64_positive)
  moreover have "(of_nat (nat (sint v)) :: i64) = of_int (int (nat (sint v)))" by simp
  moreover have "int (nat (sint v)) = sint v" using False by simp
  ultimately show ?thesis using False by (simp add: i64_to_string_def)
qed

text \<open>The values with a type of their own that a parameter can have.\<close>

fun wire_scalar :: "query_value \<Rightarrow> bool" where
  "wire_scalar (VNull) = True"
| "wire_scalar (VBool _) = True"
| "wire_scalar (VI64 _) = True"
| "wire_scalar (VDecimalU64 _) = True"
| "wire_scalar (VF64 _) = True"
| "wire_scalar (VUtf8 _) = True"
| "wire_scalar (VJson _) = True"
| "wire_scalar (VEntity _) = True"
| "wire_scalar _ = False"

text \<open>The documented behaviour of the conversions: \<open>as_f64\<close> of a number made from a float is that
  float, and a serialized valid record reference decodes to itself.\<close>

definition float_laws :: "float_ops \<Rightarrow> bool" where
  "float_laws F \<longleftrightarrow> (\<forall>b. as_f64 F (Float b) = Some b)"

definition ref_laws :: "(json \<Rightarrow> record_ref contract) \<Rightarrow> (record_ref \<Rightarrow> bool) \<Rightarrow> bool" where
  "ref_laws R valid \<longleftrightarrow> (\<forall>r. valid r \<longrightarrow> R (record_ref_json r) = Inr r)"

text \<open>C33: a scalar that a query returned can be sent back as a parameter. The type tag it is
  serialized with parses, and decoding the serialized value at that type gives the same value back:
  signed and unsigned 64-bit integers at their full range, floats, text, JSON, booleans, null and
  valid record references. A scalar that does not serialize is a float that is not finite.\<close>

theorem wire_scalars_round_trip:
  assumes "wire_scalar x" "float_laws F" "ref_laws R valid" "\<forall>r. x = VEntity r \<longrightarrow> valid r"
  shows "(\<exists>f. x = VF64 f \<and> \<not> f64_is_finite f \<and> serialize_value x = Inl ''nonfinite_result'')
     \<or> (\<exists>ty t j. serialize_value x = Inr (tagged ty j) \<and> parse_type ty = Inr t
          \<and> decode_value F R t j = Inr x)"
proof (cases "\<exists>f. x = VF64 f \<and> \<not> f64_is_finite f")
  case True
  then show ?thesis by auto
next
  case False
  have u: "unat n < 18446744073709551616" for n :: u64 using unat_less_exp [of n] by simp
  have goal: ?thesis
    if "serialize_value x = Inr (tagged nm j)" "atom_type nm = Some t" "length nm \<le> 4096"
      "decode_value F R t j = Inr x" for nm t j
    using that by (intro disjI2 exI [of _ nm] exI [of _ t] exI [of _ j])
      (simp add: parse_type_def parse_inner.simps)
  show ?thesis
  proof (cases x)
    case VNull
    then show ?thesis
      by (intro goal [of "''Null''" "JNull" TNull]) (simp_all add: atom_type_def)
  next
    case (VBool b)
    then show ?thesis
      by (intro goal [of "''Bool''" "JBool b" TBool]) (simp_all add: atom_type_def)
  next
    case (VI64 v)
    then show ?thesis
      by (intro goal [of "''I64''" "JString (i64_to_string v)" TI64]) (simp_all add: atom_type_def)
  next
    case (VDecimalU64 v)
    then show ?thesis
      by (intro goal [of "''DecimalU64''" "JString (dec (unat v))" TDecimalU64]) (simp_all add: atom_type_def u)
  next
    case (VF64 v)
    then show ?thesis using assms(2) False
      by (intro goal [of "''F64Finite''" "JNumber (Float v)" TF64Finite]) (simp_all add: atom_type_def finite_f64_def float_laws_def)
  next
    case (VUtf8 s)
    then show ?thesis
      by (intro goal [of "''Utf8''" "JString s" TUtf8]) (simp_all add: atom_type_def)
  next
    case (VJson j)
    then show ?thesis
      by (intro goal [of "''Json''" "j" TJson]) (simp_all add: atom_type_def)
  next
    case (VEntity r)
    then show ?thesis using assms(3,4)
      by (intro goal [of "''Entity''" "record_ref_json r" TEntity]) (simp_all add: atom_type_def ref_laws_def)
  qed (use assms(1) in simp_all)
qed

theorem wire_scalars_round_trip_witness:
  "\<exists>ty t j. serialize_value (VI64 (- 9223372036854775808)) = Inr (tagged ty j) \<and> parse_type ty = Inr t
     \<and> decode_value \<lparr>as_f64 = (\<lambda>n. case n of Float b \<Rightarrow> Some b | _ \<Rightarrow> None), through_f32 = id\<rparr>
         (\<lambda>_. Inl (invalid [])) t j = Inr (VI64 (- 9223372036854775808))"
  using wire_scalars_round_trip [of "VI64 (- 9223372036854775808)"
      "\<lparr>as_f64 = (\<lambda>n. case n of Float b \<Rightarrow> Some b | _ \<Rightarrow> None), through_f32 = id\<rparr>"
      "\<lambda>_. Inl (invalid [])" "\<lambda>_. False"]
  by (simp add: float_laws_def ref_laws_def)

end
