(* ===== verification/GB_Wire.thy ===== *)
theory GB_Wire
  imports GB_Query_Types "HOL-Library.List_Lexorder" "HOL-Library.Char_ord"
begin

text \<open>
  Wire input of the second query engine (\<open>src/src/query/hql2/wire.rs\<close>): the decoder of expressions,
  an explicit stack machine; the depth checks made before any recursive decoder runs; and the
  validator that sorts the query graph. The decoders derived by \<open>serde\<close> for enumerations, field
  references and operator configurations are parameters.
\<close>

section \<open>Expressions\<close>

definition MAX_NODES :: nat where "MAX_NODES = 10000"
definition MAX_DEPTH :: nat where "MAX_DEPTH = 128"

definition is_symbol :: "string \<Rightarrow> bool" where
  "is_symbol s \<longleftrightarrow>
     (case s of [] \<Rightarrow> False
      | c # cs \<Rightarrow> (is_ascii_alphabetic c \<or> c = CHR ''_'')
                   \<and> list_all (\<lambda>c. is_ascii_alphanumeric c \<or> c = CHR ''_'') cs)"

datatype binary_op =
  OpEq | OpNe | OpLt | OpLe | OpGt | OpGe | OpAnd | OpOr | OpAdd | OpSub | OpMul | OpDiv | OpRem
  | OpContains | OpStartswith

datatype unary_op = OpNot | OpNeg | OpIsNull | OpIsNotNull

record field_ref = fr_alias :: string  fr_path :: "string list"

datatype expr =
    ELiteral json string
  | EParam string
  | EField field_ref
  | EBinary binary_op expr expr
  | EUnary unary_op expr
  | ECall string "expr list"
  | EIn expr "expr list" bool

text \<open>The derived decoders the expression decoder calls.\<close>

record expr_serde =
  binary_op_of :: "json \<Rightarrow> binary_op option"
  unary_op_of :: "json \<Rightarrow> unary_op option"
  field_ref_of :: "json \<Rightarrow> field_ref option"

type_synonym json_map = "(string \<times> json) list"

definition decode_shape :: "(json \<Rightarrow> 'a option) \<Rightarrow> json \<Rightarrow> (string, 'a) result" where
  "decode_shape from v = ok_or ''invalid_nested_shape'' (from v)"

fun as_string :: "json \<Rightarrow> string option" where
  "as_string (JString s) = Some s"
| "as_string _ = None"

fun as_array :: "json \<Rightarrow> json list option" where
  "as_array (JArray vs) = Some vs"
| "as_array _ = None"

fun as_bool :: "json \<Rightarrow> bool option" where
  "as_bool (JBool b) = Some b"
| "as_bool _ = None"

definition take_field :: "json_map \<Rightarrow> string \<Rightarrow> (string, json \<times> json_map) result" where
  "take_field m key =
     (case map_of m key of
        None \<Rightarrow> Inl ''missing_expression_field''
      | Some v \<Rightarrow> Inr (v, filter (\<lambda>(k, _). k \<noteq> key) m))"

definition take_symbol :: "json_map \<Rightarrow> string \<Rightarrow> (string, string \<times> json_map) result" where
  "take_symbol m key =
     rbind (take_field m key) (\<lambda>(v, m').
     rbind (decode_shape as_string v) (\<lambda>s.
     if is_symbol s then Inr (s, m') else Inl ''invalid_symbol''))"

text \<open>What the visit of an object finds: a leaf, or an operator with the operands still to visit.\<close>

datatype shape =
    Leaf expr
  | Node_Binary binary_op json json
  | Node_Unary unary_op json
  | Node_Call string "json list"
  | Node_In json "json list" bool

definition closed_map :: "shape \<times> json_map \<Rightarrow> (string, shape) result" where
  "closed_map p = (case p of (sh, m) \<Rightarrow> if m \<noteq> [] then Inl ''unknown_expression_field'' else Inr sh)"

definition has_key :: "json_map \<Rightarrow> string \<Rightarrow> bool" where
  "has_key m key \<longleftrightarrow> map_of m key \<noteq> None"

definition visit_fields :: "expr_serde \<Rightarrow> json_map \<Rightarrow> (string, shape \<times> json_map) result" where
  "visit_fields S m =
     (if has_key m ''literal'' then
        rbind (take_field m ''literal'') (\<lambda>(lit, m1).
        rbind (take_field m1 ''type'') (\<lambda>(tv, m2).
        rbind (decode_shape as_string tv) (\<lambda>ty.
        if ty = [] then Inl ''empty_literal_type'' else Inr (Leaf (ELiteral lit ty), m2))))
      else if has_key m ''param'' then
        rbind (take_symbol m ''param'') (\<lambda>(s, m1). Inr (Leaf (EParam s), m1))
      else if has_key m ''field'' then
        rbind (take_field m ''field'') (\<lambda>(v, m1).
        rbind (decode_shape (field_ref_of S) v) (\<lambda>f. Inr (Leaf (EField f), m1)))
      else if has_key m ''binary'' then
        rbind (take_field m ''binary'') (\<lambda>(v, m1).
        rbind (decode_shape (binary_op_of S) v) (\<lambda>op.
        rbind (take_field m1 ''left'') (\<lambda>(l, m2).
        rbind (take_field m2 ''right'') (\<lambda>(r, m3). Inr (Node_Binary op l r, m3)))))
      else if has_key m ''unary'' then
        rbind (take_field m ''unary'') (\<lambda>(v, m1).
        rbind (decode_shape (unary_op_of S) v) (\<lambda>op.
        rbind (take_field m1 ''arg'') (\<lambda>(a, m2). Inr (Node_Unary op a, m2))))
      else if has_key m ''call'' then
        rbind (take_symbol m ''call'') (\<lambda>(f, m1).
        rbind (take_field m1 ''args'') (\<lambda>(v, m2).
        rbind (decode_shape as_array v) (\<lambda>args. Inr (Node_Call f args, m2))))
      else if has_key m ''in'' then
        rbind (take_field m ''in'') (\<lambda>(e, m1).
        rbind (take_field m1 ''values'') (\<lambda>(v, m2).
        rbind (decode_shape as_array v) (\<lambda>args.
        rbind (take_field m2 ''negated'') (\<lambda>(n, m3).
        rbind (decode_shape as_bool n) (\<lambda>negated. Inr (Node_In e args negated, m3))))))
      else Inl ''unknown_expression'')"

definition visit :: "expr_serde \<Rightarrow> json \<Rightarrow> (string, shape) result" where
  "visit S v =
     (case v of
        JObject m \<Rightarrow> rbind (visit_fields S m) closed_map
      | _ \<Rightarrow> Inl ''expression_not_object'')"

text \<open>The two stacks of the machine, the top of each at the head of its list.\<close>

datatype task = Visit json | Do_Binary binary_op | Do_Unary unary_op | Do_Call string nat | Do_In bool nat

fun shape_tasks :: "shape \<Rightarrow> task list" where
  "shape_tasks (Leaf x) = []"
| "shape_tasks (Node_Binary op l r) = [Visit l, Visit r, Do_Binary op]"
| "shape_tasks (Node_Unary op a) = [Visit a, Do_Unary op]"
| "shape_tasks (Node_Call f args) = map Visit args @ [Do_Call f (length args)]"
| "shape_tasks (Node_In e args negated) = Visit e # map Visit args @ [Do_In negated (length args)]"

fun shape_values :: "shape \<Rightarrow> expr list" where
  "shape_values (Leaf x) = [x]"
| "shape_values _ = []"

fun reduce :: "task \<Rightarrow> expr list \<Rightarrow> (string, expr list) result" where
  "reduce (Visit v) vs = Inr vs"
| "reduce (Do_Binary op) vs =
     (case vs of r # l # rest \<Rightarrow> Inr (EBinary op l r # rest) | _ \<Rightarrow> Inl ''expression_shape'')"
| "reduce (Do_Unary op) vs =
     (case vs of a # rest \<Rightarrow> Inr (EUnary op a # rest) | _ \<Rightarrow> Inl ''expression_shape'')"
| "reduce (Do_Call f n) vs =
     (if length vs < n then Inl ''expression_shape''
      else Inr (ECall f (rev (take n vs)) # drop n vs))"
| "reduce (Do_In negated n) vs =
     (if length vs < n then Inl ''expression_shape''
      else (case drop n vs of
              e # rest \<Rightarrow> Inr (EIn e (rev (take n vs)) negated # rest)
            | [] \<Rightarrow> Inl ''expression_shape''))"

text \<open>A weight for termination: visiting an object costs more than visiting all its operands.\<close>

fun task_weight :: "task \<Rightarrow> nat" where
  "task_weight (Visit v) = 2 * size v + 1"
| "task_weight _ = 1"

definition map_size :: "json_map \<Rightarrow> nat" where
  "map_size m = sum_list (map (\<lambda>(_, v). Suc (size v)) m)"

lemma map_size_simps [simp]: "map_size [] = 0" "map_size ((k, v) # m) = Suc (size v + map_size m)"
  by (simp_all add: map_size_def)

lemma map_size_filter: "map_size (filter P m) \<le> map_size m"
  by (induction m) auto

lemma take_field_size:
  assumes "take_field m key = Inr (v, m')"
  shows "size v + map_size m' < map_size m"
proof -
  have "map_of m key = Some v \<Longrightarrow> size v + map_size (filter (\<lambda>(k, _). k \<noteq> key) m) < map_size m"
  proof (induction m)
    case (Cons e m)
    then show ?case using map_size_filter [of "\<lambda>(k, _). k \<noteq> key" m] by (cases e) (auto split: if_splits)
  qed simp
  with assms show ?thesis by (auto simp: take_field_def split: option.splits)
qed

lemma take_symbol_size: "take_symbol m key = Inr (s, m') \<Longrightarrow> map_size m' < map_size m"
  by (auto simp: take_symbol_def split: if_splits dest!: take_field_size)

lemma size_object: "size (JObject m) = Suc (map_size m + length m)"
  by (induction m) auto

lemma size_array: "size (JArray vs) = Suc (sum_list (map size vs) + length vs)"
  by (induction vs) auto

lemma as_array_size: "as_array v = Some vs \<Longrightarrow> size v = Suc (sum_list (map size vs) + length vs)"
  using size_array by (cases v) auto

lemma decode_shape_Inr [simp]: "decode_shape from v = Inr x \<longleftrightarrow> from v = Some x"
  by (simp add: decode_shape_def)

text \<open>The operands of a shape, and their sizes.\<close>

fun operands :: "shape \<Rightarrow> json list" where
  "operands (Leaf x) = []"
| "operands (Node_Binary op l r) = [l, r]"
| "operands (Node_Unary op a) = [a]"
| "operands (Node_Call f args) = args"
| "operands (Node_In e args negated) = e # args"

lemma visit_fields_size:
  assumes "visit_fields S m = Inr (sh, m')"
  shows "sum_list (map size (operands sh)) + length (operands sh) \<le> map_size m"
  using assms
  by (fastforce simp: visit_fields_def split: if_splits prod.splits
      dest!: take_field_size take_symbol_size as_array_size)

lemma visit_size:
  assumes "visit S v = Inr sh"
  shows "2 * sum_list (map size (operands sh)) + length (operands sh) < 2 * size v"
proof -
  obtain m m' where v: "v = JObject m" and "visit_fields S m = Inr (sh, m')"
    using assms by (cases v) (auto simp: visit_def closed_map_def split: if_splits)
  then show ?thesis using visit_fields_size [of S m sh m'] by (simp add: size_object del: json.size)
qed

lemma shape_tasks_weight:
  "sum_list (map task_weight (shape_tasks sh)) \<le> 2 * sum_list (map size (operands sh)) + length (operands sh) + 1"
proof -
  have "sum_list (map task_weight (map Visit vs)) = 2 * sum_list (map size vs) + length vs" for vs
    by (induction vs) auto
  then show ?thesis by (cases sh) auto
qed

section \<open>The stack machine\<close>

function expression_loop :: "expr_serde \<Rightarrow> task list \<Rightarrow> expr list \<Rightarrow> (string, expr list) result" where
  "expression_loop S [] vs = Inr vs"
| "expression_loop S (Visit v # ts) vs =
     (case visit S v of
        Inl e \<Rightarrow> Inl e
      | Inr sh \<Rightarrow> expression_loop S (shape_tasks sh @ ts) (shape_values sh @ vs))"
| "expression_loop S (Do_Binary op # ts) vs = rbind (reduce (Do_Binary op) vs) (expression_loop S ts)"
| "expression_loop S (Do_Unary op # ts) vs = rbind (reduce (Do_Unary op) vs) (expression_loop S ts)"
| "expression_loop S (Do_Call f n # ts) vs = rbind (reduce (Do_Call f n) vs) (expression_loop S ts)"
| "expression_loop S (Do_In negated n # ts) vs = rbind (reduce (Do_In negated n) vs) (expression_loop S ts)"
  by pat_completeness auto
termination
proof (relation "measure (\<lambda>(S, ts, vs). sum_list (map task_weight ts))", goal_cases)
  case (2 S v ts vs sh)
  then show ?case using visit_size [OF 2] shape_tasks_weight [of sh] by simp
qed auto

definition decode_expression :: "expr_serde \<Rightarrow> json \<Rightarrow> (string, expr) result" where
  "decode_expression S v =
     rbind (expression_loop S [Visit v] []) (\<lambda>vs.
     case vs of [x] \<Rightarrow> Inr x | _ \<Rightarrow> Inl ''expression_shape'')"

section \<open>The recursive decoder\<close>

text \<open>The decoder one would write with recursion, reporting the first error from the left.\<close>

function decode_rec :: "expr_serde \<Rightarrow> json \<Rightarrow> (string, expr) result" where
  "decode_rec S v =
     rbind (visit S v) (\<lambda>sh.
     case sh of
       Leaf x \<Rightarrow> Inr x
     | Node_Binary op l r \<Rightarrow>
         rbind (decode_rec S l) (\<lambda>x. rbind (decode_rec S r) (\<lambda>y. Inr (EBinary op x y)))
     | Node_Unary op a \<Rightarrow> rbind (decode_rec S a) (\<lambda>x. Inr (EUnary op x))
     | Node_Call f args \<Rightarrow>
         rbind (collect_results (map (decode_rec S) args)) (\<lambda>xs. Inr (ECall f xs))
     | Node_In e args negated \<Rightarrow>
         rbind (decode_rec S e) (\<lambda>x.
         rbind (collect_results (map (decode_rec S) args)) (\<lambda>xs. Inr (EIn x xs negated))))"
  by pat_completeness auto

lemma operand_smaller: "visit S v = Inr sh \<Longrightarrow> x \<in> set (operands sh) \<Longrightarrow> size x < size v"
  using visit_size [of S v sh] member_le_sum_list [of "size x" "map size (operands sh)"] by auto

termination decode_rec
  by (relation "measure (\<lambda>(S, v). size v)") (auto dest: operand_smaller)

declare decode_rec.simps [simp del]

declare rbind_assoc [simp]

lemma collect_results_length: "collect_results (map f vs) = Inr xs \<Longrightarrow> length xs = length vs"
  by (simp add: collect_map_Inr list_all2_lengthD)

lemma expression_loop_visits:
  assumes "\<And>v ts vs. v \<in> set args \<Longrightarrow>
     expression_loop S (Visit v # ts) vs = rbind (decode_rec S v) (\<lambda>x. expression_loop S ts (x # vs))"
  shows "expression_loop S (map Visit args @ ts) vs
       = rbind (collect_results (map (decode_rec S) args)) (\<lambda>xs. expression_loop S ts (rev xs @ vs))"
  using assms
proof (induction args arbitrary: vs)
  case (Cons a args)
  have "expression_loop S (map Visit (a # args) @ ts) vs
      = rbind (decode_rec S a) (\<lambda>x. expression_loop S (map Visit args @ ts) (x # vs))"
    using Cons.prems [of a] by simp
  also have "\<dots> = rbind (decode_rec S a) (\<lambda>x.
      rbind (collect_results (map (decode_rec S) args)) (\<lambda>xs. expression_loop S ts (rev xs @ x # vs)))"
    using Cons by (intro rbind_cong) auto
  finally show ?case by simp
qed simp

lemma expression_loop_visit:
  "expression_loop S (Visit v # ts) vs = rbind (decode_rec S v) (\<lambda>x. expression_loop S ts (x # vs))"
proof (induction v arbitrary: ts vs rule: measure_induct_rule [of size])
  case (less v)
  show ?case
  proof (cases "visit S v")
    case (Inr sh)
    have IH: "expression_loop S (Visit a # ts) vs = rbind (decode_rec S a) (\<lambda>x. expression_loop S ts (x # vs))"
      if "a \<in> set (operands sh)" for a ts vs
      using less operand_smaller [OF Inr that] by blast
    have args: "expression_loop S (map Visit as @ ts) vs
        = rbind (collect_results (map (decode_rec S) as)) (\<lambda>xs. expression_loop S ts (rev xs @ vs))"
      if "set as \<subseteq> set (operands sh)" for as ts vs
      using IH that by (intro expression_loop_visits) auto
    show ?thesis
    proof (cases sh)
      case (Node_Binary op l r)
      then show ?thesis using IH by (simp add: Inr decode_rec.simps [of S v])
    next
      case (Node_Unary op a)
      then show ?thesis using IH by (simp add: Inr decode_rec.simps [of S v])
    next
      case (Node_Call f as)
      have "rbind (collect_results (map (decode_rec S) as)) (\<lambda>xs. expression_loop S (Do_Call f (length as) # ts) (rev xs @ vs))
          = rbind (collect_results (map (decode_rec S) as)) (\<lambda>xs. expression_loop S ts (ECall f xs # vs))"
        by (intro rbind_cong refl) (auto dest!: collect_results_length)
      then show ?thesis using args [of as] by (simp add: Inr Node_Call decode_rec.simps [of S v])
    next
      case (Node_In e as negated)
      have "rbind (collect_results (map (decode_rec S) as)) (\<lambda>xs. expression_loop S (Do_In negated (length as) # ts) (rev xs @ x # vs))
          = rbind (collect_results (map (decode_rec S) as)) (\<lambda>xs. expression_loop S ts (EIn x xs negated # vs))" for x
        by (intro rbind_cong refl) (auto dest!: collect_results_length)
      moreover have "set as \<subseteq> set (operands sh)" "e \<in> set (operands sh)" using Node_In by auto
      ultimately show ?thesis using IH [of e] args [of as]
        by (simp add: Inr Node_In decode_rec.simps [of S v] del: expression_loop.simps(6))
    qed (simp add: Inr decode_rec.simps [of S v])
  qed (simp add: decode_rec.simps [of S v])
qed

text \<open>C36: the expression decoder, which keeps its own stacks so that a deep expression cannot
  overflow the thread's, gives on every JSON value exactly the result of the recursive decoder: the
  same expression with operands in source order, or the same first error. It always ends, and its
  \<open>expression_shape\<close> checks never fire.\<close>

theorem decode_expression_is_recursive: "decode_expression S v = decode_rec S v"
  unfolding decode_expression_def expression_loop_visit by (cases "decode_rec S v") simp_all

section \<open>Depth checks\<close>

fun json_children :: "json \<Rightarrow> json list" where
  "json_children (JObject m) = map snd m"
| "json_children (JArray vs) = vs"
| "json_children _ = []"

definition json_get :: "json \<Rightarrow> string \<Rightarrow> json option" where
  "json_get v key = (case v of JObject m \<Rightarrow> map_of m key | _ \<Rightarrow> None)"

definition opt_list :: "'a option \<Rightarrow> 'a list" where
  "opt_list x = (case x of None \<Rightarrow> [] | Some y \<Rightarrow> [y])"

definition array_items :: "json option \<Rightarrow> json list" where
  "array_items v = (case v of Some (JArray items) \<Rightarrow> items | _ \<Rightarrow> [])"

definition object_values :: "json option \<Rightarrow> json list" where
  "object_values v = (case v of Some (JObject m) \<Rightarrow> map snd m | _ \<Rightarrow> [])"

fun expression_children :: "json \<Rightarrow> json list" where
  "expression_children (JObject m) =
     concat (map (\<lambda>key. opt_list (map_of m key)) [''left'', ''right'', ''arg'', ''in''])
     @ concat (map (\<lambda>key. array_items (map_of m key)) [''args'', ''values''])"
| "expression_children _ = []"

definition weight :: "json list \<Rightarrow> nat" where
  "weight vs = sum_list (map (\<lambda>v. Suc (size v)) vs)"

lemma weight_simps [simp]:
  "weight [] = 0" "weight (v # vs) = Suc (size v + weight vs)" "weight (vs @ ws) = weight vs + weight ws"
  by (simp_all add: weight_def)

lemma weight_array: "weight vs < Suc (size (JArray vs))"
  by (induction vs) auto

lemma json_children_weight: "weight (json_children v) < Suc (size v)"
proof (cases v)
  case (JObject m)
  have "weight (map snd m) = map_size m" by (induction m) auto
  then show ?thesis using JObject size_object [of m] by simp
next
  case (JArray vs)
  then show ?thesis using weight_array [of vs] by simp
qed auto

definition entry_size :: "json_map \<Rightarrow> string \<Rightarrow> nat" where
  "entry_size m key = (case map_of m key of None \<Rightarrow> 0 | Some v \<Rightarrow> Suc (size v))"

lemma entry_size_Cons:
  "entry_size ((k, v) # m) j = (if j = k then Suc (size v) else entry_size m j)"
  by (simp add: entry_size_def)

lemma entry_sizes_Cons:
  "distinct ks \<Longrightarrow> sum_list (map (entry_size ((k, v) # m)) ks) \<le> Suc (size v) + sum_list (map (entry_size m) ks)"
proof (induction ks)
  case (Cons j ks)
  show ?case
  proof (cases "j = k")
    case True
    then have "map (entry_size ((k, v) # m)) ks = map (entry_size m) ks"
      using Cons.prems by (intro map_cong) (auto simp: entry_size_Cons)
    then show ?thesis using True entry_size_Cons [of k v m j] by (simp del: map_eq_conv)
  next
    case False
    then show ?thesis using Cons entry_size_Cons [of k v m j] by simp
  qed
qed simp

lemma entry_sizes: "distinct ks \<Longrightarrow> sum_list (map (entry_size m) ks) \<le> map_size m"
proof (induction m)
  case (Cons e m)
  obtain k v where e: "e = (k, v)" by (cases e)
  show ?case using entry_sizes_Cons [OF Cons.prems, of k v m] Cons by (simp add: e)
qed (simp add: entry_size_def sum_list_triv)

lemma opt_list_weight: "weight (opt_list (map_of m key)) = entry_size m key"
  by (simp add: opt_list_def entry_size_def split: option.split)

lemma array_items_weight: "weight (array_items (map_of m key)) \<le> entry_size m key"
proof -
  have "weight vs \<le> Suc (size (JArray vs))" for vs using weight_array [of vs] by linarith
  then show ?thesis by (auto simp: array_items_def entry_size_def simp del: json.size split: option.split json.split)
qed

lemma expression_children_weight: "weight (expression_children v) < Suc (size v)"
proof (cases v)
  case (JObject m)
  have "weight (expression_children (JObject m))
      \<le> sum_list (map (entry_size m) [''left'', ''right'', ''arg'', ''in'', ''args'', ''values''])"
    using array_items_weight [of m "''args''"] array_items_weight [of m "''values''"]
    by (simp add: opt_list_weight)
  also have "\<dots> \<le> map_size m" by (rule entry_sizes) simp
  finally show ?thesis using JObject size_object [of m] by (simp del: expression_children.simps)
qed auto

text \<open>Both loops pop a value with its depth, compare the depth and push the children one deeper.\<close>

definition push_children :: "json list \<Rightarrow> nat \<Rightarrow> (json \<times> nat) list \<Rightarrow> (json \<times> nat) list" where
  "push_children vs depth stack = rev (map (\<lambda>v. (v, depth + 1)) vs) @ stack"

lemma push_children_weight:
  "weight (map fst (push_children vs depth stack)) = weight vs + weight (map fst stack)"
proof -
  have "weight (rev vs) = weight vs" for vs by (induction vs) auto
  then show ?thesis by (simp add: push_children_def rev_map comp_def)
qed

function json_loop :: "(json \<times> nat) list \<Rightarrow> (query_error, unit) result" where
  "json_loop [] = Inr ()"
| "json_loop ((v, depth) # stack) =
     (if depth > MAX_DEPTH * 4 then Inl (bind_error ''json_depth'')
      else json_loop (push_children (json_children v) depth stack))"
  by pat_completeness auto
termination
  by (relation "measure (\<lambda>stack. weight (map fst stack))")
    (use json_children_weight in \<open>auto simp: push_children_weight less_Suc_eq_le\<close>)

function expression_depth_loop :: "(json \<times> nat) list \<Rightarrow> (query_error, unit) result" where
  "expression_depth_loop [] = Inr ()"
| "expression_depth_loop ((v, depth) # stack) =
     (if depth > MAX_DEPTH then Inl (bind_error ''expression_depth'')
      else expression_depth_loop (push_children (expression_children v) depth stack))"
  by pat_completeness auto
termination
  by (relation "measure (\<lambda>stack. weight (map fst stack))")
    (use expression_children_weight in \<open>auto simp: push_children_weight less_Suc_eq_le\<close>)

fun expression_fields :: "query_op \<Rightarrow> string list" where
  "expression_fields HistoryScan = [''id'']"
| "expression_fields Filter = [''predicate'']"
| "expression_fields Knn = [''query'']"
| "expression_fields Rerank = [''query'']"
| "expression_fields LexicalMatch = [''query'']"
| "expression_fields Join = [''condition'']"
| "expression_fields ContextPack = [''text'', ''evidence'']"
| "expression_fields _ = []"

text \<open>The expressions of a configuration, in the order the code collects them.\<close>

definition pattern_parts :: "json \<Rightarrow> json list" where
  "pattern_parts pat =
     opt_list (json_get pat ''start'')
     @ concat (map (\<lambda>step. opt_list (json_get step ''node'') @ opt_list (json_get step ''edge''))
         (array_items (json_get pat ''steps'')))"

definition expression_roots :: "query_op \<Rightarrow> json_map \<Rightarrow> json list" where
  "expression_roots op config =
     concat (map (\<lambda>key. opt_list (map_of config key)) (expression_fields op))
     @ concat (map (\<lambda>key. concat (map (\<lambda>v. opt_list (json_get v ''expression'')) (array_items (map_of config key))))
         [''fields'', ''group_by'', ''aggregates'', ''keys''])
     @ object_values (map_of config ''anchors'')
     @ concat (map (\<lambda>pat. concat (map (\<lambda>part.
           opt_list (json_get part ''id'') @ object_values (json_get part ''properties'')) (pattern_parts pat)))
         (opt_list (map_of config ''pattern'')))"

definition preflight_config :: "query_op \<Rightarrow> json_map \<Rightarrow> (query_error, unit) result" where
  "preflight_config op config =
     rbind (json_loop (rev (map (\<lambda>(_, v). (v, 1)) config))) (\<lambda>_.
       expression_depth_loop (rev (map (\<lambda>v. (v, 1)) (expression_roots op config))))"

section \<open>What the depth checks decide\<close>

lemma weight_member: "v \<in> set vs \<Longrightarrow> Suc (size v) \<le> weight vs"
  by (induction vs) auto

lemma json_child_smaller: "c \<in> set (json_children v) \<Longrightarrow> size c < size v"
  using weight_member [of c "json_children v"] json_children_weight [of v] by simp

lemma expression_child_smaller: "c \<in> set (expression_children v) \<Longrightarrow> size c < size v"
  using weight_member [of c "expression_children v"] expression_children_weight [of v] by simp

function json_depth :: "json \<Rightarrow> nat" where
  "json_depth v = Suc (foldr max (map json_depth (json_children v)) 0)"
  by pat_completeness auto
termination by (relation "measure size") (auto dest: json_child_smaller)

function expression_depth :: "json \<Rightarrow> nat" where
  "expression_depth v = Suc (foldr max (map expression_depth (expression_children v)) 0)"
  by pat_completeness auto
termination by (relation "measure size") (auto dest: expression_child_smaller)

declare json_depth.simps [simp del] expression_depth.simps [simp del]

lemma foldr_max_le: "foldr max xs 0 \<le> n \<longleftrightarrow> (\<forall>x\<in>set xs. x \<le> (n :: nat))"
  by (induction xs) auto

lemma depth_bound:
  "d + Suc (foldr max (map f cs) 0) \<le> n \<longleftrightarrow> d + 1 \<le> n \<and> (\<forall>c\<in>set cs. d + 1 + f c \<le> (n :: nat))"
proof -
  have "d + Suc (foldr max (map f cs) 0) \<le> n \<longleftrightarrow> d + 1 \<le> n \<and> foldr max (map f cs) 0 \<le> n - (d + 1)"
    by auto
  also have "\<dots> \<longleftrightarrow> d + 1 \<le> n \<and> (\<forall>c\<in>set cs. d + 1 + f c \<le> n)"
    by (intro conj_cong refl) (auto simp: foldr_max_le)
  finally show ?thesis .
qed

lemma push_children_all:
  "(\<forall>(v, d)\<in>set (push_children vs depth stack). P v d)
     \<longleftrightarrow> (\<forall>v\<in>set vs. P v (depth + 1)) \<and> (\<forall>(v, d)\<in>set stack. P v d)"
  by (auto simp: push_children_def)

lemma json_loop_iff:
  "json_loop stack = Inr () \<longleftrightarrow> (\<forall>(v, d)\<in>set stack. d + json_depth v \<le> Suc (MAX_DEPTH * 4))"
proof (induction stack rule: json_loop.induct)
  case (2 v depth stack)
  show ?case
  proof (cases "depth > MAX_DEPTH * 4")
    case False
    then show ?thesis
      using 2 by (simp add: push_children_all json_depth.simps [of v] depth_bound del: add_Suc_right)
  qed (simp add: json_depth.simps [of v])
qed simp

lemma expression_depth_loop_iff:
  "expression_depth_loop stack = Inr ()
     \<longleftrightarrow> (\<forall>(v, d)\<in>set stack. d + expression_depth v \<le> Suc MAX_DEPTH)"
proof (induction stack rule: expression_depth_loop.induct)
  case (2 v depth stack)
  show ?case
  proof (cases "depth > MAX_DEPTH")
    case False
    then show ?thesis
      using 2 by (simp add: push_children_all expression_depth.simps [of v] depth_bound del: add_Suc_right)
  qed (simp add: expression_depth.simps [of v])
qed simp

lemma preflight_config_iff:
  "preflight_config op config = Inr () \<longleftrightarrow>
     list_all (\<lambda>(_, v). json_depth v \<le> 512) config
     \<and> list_all (\<lambda>v. expression_depth v \<le> 128) (expression_roots op config)"
  by (auto simp: preflight_config_def json_loop_iff expression_depth_loop_iff MAX_DEPTH_def list_all_iff)

text \<open>The nesting of a decoded expression.\<close>

fun expr_depth :: "expr \<Rightarrow> nat" where
  "expr_depth (EBinary op l r) = Suc (max (expr_depth l) (expr_depth r))"
| "expr_depth (EUnary op a) = Suc (expr_depth a)"
| "expr_depth (ECall f args) = Suc (foldr max (map expr_depth args) 0)"
| "expr_depth (EIn e args negated) = Suc (max (expr_depth e) (foldr max (map expr_depth args) 0))"
| "expr_depth _ = 1"

lemma map_of_filter_other: "k \<noteq> key \<Longrightarrow> map_of (filter (\<lambda>(j, _). j \<noteq> key) m) k = map_of m k"
  by (induction m) auto

lemma take_field_lookup:
  "take_field m key = Inr (v, m') \<longleftrightarrow> map_of m key = Some v \<and> m' = filter (\<lambda>(j, _). j \<noteq> key) m"
  by (auto simp: take_field_def split: option.splits)

lemma as_string_Some [simp]: "as_string v = Some s \<longleftrightarrow> v = JString s"
  by (cases v) auto

lemma as_array_Some [simp]: "as_array v = Some vs \<longleftrightarrow> v = JArray vs"
  by (cases v) auto

lemma take_symbol_lookup:
  "take_symbol m key = Inr (s, m') \<longleftrightarrow>
     map_of m key = Some (JString s) \<and> is_symbol s \<and> m' = filter (\<lambda>(j, _). j \<noteq> key) m"
  unfolding take_symbol_def
  by (cases "take_field m key") (auto simp: take_field_lookup take_field_def split: option.splits if_splits)

lemma operands_are_children:
  assumes "visit S v = Inr sh"
  shows "set (operands sh) \<subseteq> set (expression_children v)"
proof -
  obtain m m' where v: "v = JObject m" and f: "visit_fields S m = Inr (sh, m')"
    using assms by (cases v) (auto simp: visit_def closed_map_def split: if_splits)
  have "set (operands sh) \<subseteq> set (expression_children (JObject m))"
    using f
    by (auto simp: visit_fields_def take_field_lookup take_symbol_lookup map_of_filter_other
        opt_list_def array_items_def split: if_splits)
  then show ?thesis by (simp only: v)
qed

lemma visit_leaf: "visit S v = Inr (Leaf x) \<Longrightarrow> expr_depth x = 1"
  by (cases v) (auto simp: visit_def visit_fields_def closed_map_def split: if_splits)

lemma list_all2_right: "list_all2 P as xs \<Longrightarrow> x \<in> set xs \<Longrightarrow> \<exists>a\<in>set as. P a x"
  by (induction rule: list_all2_induct) auto

lemma decoded_depth: "decode_rec S v = Inr e \<Longrightarrow> expr_depth e \<le> expression_depth v"
proof (induction v arbitrary: e rule: measure_induct_rule [of size])
  case (less v)
  then obtain sh where sh: "visit S v = Inr sh" by (cases "visit S v") (auto simp: decode_rec.simps [of S v])
  have sub: "expr_depth x \<le> foldr max (map expression_depth (expression_children v)) 0"
    if "decode_rec S a = Inr x" "a \<in> set (operands sh)" for a x
  proof -
    have "expr_depth x \<le> expression_depth a" using less.IH operand_smaller [OF sh] that by blast
    also have "expression_depth a \<le> foldr max (map expression_depth (expression_children v)) 0"
      using operands_are_children [OF sh] that(2)
        foldr_max_le [of "map expression_depth (expression_children v)"] by auto
    finally show ?thesis .
  qed
  have subs: "foldr max (map expr_depth xs) 0 \<le> foldr max (map expression_depth (expression_children v)) 0"
    if "collect_results (map (decode_rec S) as) = Inr xs" "set as \<subseteq> set (operands sh)" for as xs
  proof -
    have "\<forall>x\<in>set xs. \<exists>a\<in>set as. decode_rec S a = Inr x"
      using that(1) unfolding collect_map_Inr by (blast dest: list_all2_right)
    then show ?thesis using sub that(2) unfolding foldr_max_le by fastforce
  qed
  show ?case
  proof (cases sh)
    case (Leaf x)
    then show ?thesis
      using less.prems visit_leaf [of S v x] sh by (simp add: decode_rec.simps [of S v] expression_depth.simps [of v])
  qed (use less.prems in \<open>auto simp: decode_rec.simps [of S v] expression_depth.simps [of v] sh
      intro!: sub subs\<close>)
qed

text \<open>The depth checks that run before any recursive decoder are exact: a configuration passes
  exactly when no JSON value in it nests deeper than 512 levels and no expression, wherever the
  operator keeps its expressions, deeper than 128. Both loops, which keep their own stack, end on
  every input.\<close>

theorem preflight_config_exact:
  "preflight_config op config = Inr () \<longleftrightarrow>
     list_all (\<lambda>(_, v). json_depth v \<le> 512) config
     \<and> list_all (\<lambda>v. expression_depth v \<le> 128) (expression_roots op config)"
  by (rule preflight_config_iff)

text \<open>Once a configuration has passed the depth checks, every expression in it decodes, if at all,
  to a tree of at most 128 levels, so the recursive passes over expressions are bounded.\<close>

theorem preflight_bounds_expressions:
  assumes "preflight_config op config = Inr ()" "v \<in> set (expression_roots op config)"
    and "decode_expression S v = Inr e"
  shows "expr_depth e \<le> 128"
proof -
  have "decode_rec S v = Inr e"
    using assms(3) unfolding decode_expression_def expression_loop_visit by (cases "decode_rec S v") simp_all
  then have "expr_depth e \<le> expression_depth v" by (rule decoded_depth)
  also have "\<dots> \<le> 128" using assms(1,2) by (auto simp: preflight_config_iff list_all_iff)
  finally show ?thesis .
qed

definition example_serde :: expr_serde where
  "example_serde = \<lparr>binary_op_of = \<lambda>_. None, unary_op_of = \<lambda>v. if v = JString ''not'' then Some OpNot else None,
     field_ref_of = \<lambda>_. None\<rparr>"

definition example_predicate :: json where
  "example_predicate = JObject [(''arg'', JObject [(''param'', JString ''p'')]), (''unary'', JString ''not'')]"

lemma example_preflight: "preflight_config Filter [(''predicate'', example_predicate)] = Inr ()"
  by code_simp

lemma example_expression: "decode_expression example_serde example_predicate = Inr (EUnary OpNot (EParam ''p''))"
  by code_simp

theorem preflight_bounds_expressions_witness:
  "decode_expression example_serde example_predicate = Inr (EUnary OpNot (EParam ''p''))
   \<and> expr_depth (EUnary OpNot (EParam ''p'')) \<le> 128"
proof
  have "example_predicate \<in> set (expression_roots Filter [(''predicate'', example_predicate)])"
    by (simp add: expression_roots_def opt_list_def)
  then show "expr_depth (EUnary OpNot (EParam ''p'')) \<le> 128"
    by (rule preflight_bounds_expressions [OF example_preflight _ example_expression])
qed (rule example_expression)

end
