(* ===== verification/GB_Wire_Dag.thy ===== *)
theory GB_Wire_Dag
  imports GB_Wire
begin

text \<open>
  The operator configurations and the query graph of \<open>src/src/query/hql2/wire.rs\<close>: the closed
  configuration of every operator with its own checks, the validator that orders the graph, and
  \<open>decode_ir_v2\<close>, which runs all the checks of the module. Vectors of fixed length indexed by node
  numbers are functions on node numbers; an ordered set is the increasing list of its members.
\<close>

section \<open>Operator configurations\<close>

datatype entity_kind = EntNode | EntEdge | EntRow | EntVector | EntAnnotation | EntArtifact
datatype direction = DirOut | DirIn | DirBoth
datatype wire_path_mode = PathTrail | PathSimple | PathWalk
datatype knn_mode = KnnExact | KnnApprox
datatype fidelity = FidelityOriginal
datatype join_kind = JoinInner | JoinLeft | JoinSemi | JoinAnti
datatype sort_direction = SortAsc | SortDesc
datatype null_order = NullsFirst | NullsLast
datatype sequence_form = FormSequence

record named_expr = ne_expression :: expr  ne_alias :: string

record sort_key = sk_expression :: expr  sk_direction :: sort_direction  sk_nulls :: null_order

record pattern_node =
  pn_alias :: string
  pn_id :: "expr option"
  pn_labels :: "string list"
  pn_properties :: "expr btree_map"

record pattern_edge =
  pe_alias :: "string option"
  pe_relations :: "string list"
  pe_direction :: direction
  pe_min_hops :: u32
  pe_max_hops :: u32
  pe_properties :: "expr btree_map"

record pattern_step = ps_edge :: pattern_edge  ps_node :: pattern_node

record compact_pattern =
  pc_start_alias :: string
  pc_end_alias :: string
  pc_edge_alias :: "string option"
  pc_relations :: "string list"
  pc_direction :: direction
  pc_min_hops :: u32
  pc_max_hops :: u32
  pc_mode :: wire_path_mode
  pc_path_alias :: "string option"

record sequence_pattern =
  sp_form :: sequence_form
  sp_start :: pattern_node
  sp_steps :: "pattern_step list"
  sp_mode :: wire_path_mode
  sp_path_alias :: "string option"

datatype pattern = Compact compact_pattern | Sequence sequence_pattern

datatype config =
    CNodeScan string "string option"
  | CEdgeScan string "string option"
  | CRowScan string string
  | CAnnotationScan string
  | CValues string string
  | CHistoryScan entity_kind expr string
  | CChangeScan u64 string
  | CMatch pattern "expr btree_map" bool
  | CFilter expr
  | CProject "named_expr list"
  | CDistinct
  | CKnn string string expr u32 knn_mode string
  | CRerank string string expr u32 fidelity string
  | CExpand pattern bool
  | CAnnotationLookup string string bool
  | CLexicalMatch string string string expr u32 string
  | CJoin join_kind expr
  | CAggregate "named_expr list" "named_expr list"
  | CSort "sort_key list"
  | CTake u64
  | COffset u64
  | CUnionAll
  | CContextPack expr expr u32 string string

fun arity :: "query_op \<Rightarrow> nat" where
  "arity NodeScan = 0"
| "arity EdgeScan = 0"
| "arity RowScan = 0"
| "arity AnnotationScan = 0"
| "arity Values = 0"
| "arity HistoryScan = 0"
| "arity ChangeScan = 0"
| "arity Match = 0"
| "arity Join = 2"
| "arity UnionAll = 2"
| "arity _ = 1"

definition valid_hops :: "u32 \<Rightarrow> u32 \<Rightarrow> bool" where
  "valid_hops lo hi \<longleftrightarrow> lo \<le> hi \<and> hi \<le> 32"

fun check_pattern :: "pattern \<Rightarrow> (query_error, unit) result" where
  "check_pattern (Compact p) =
     guard_err (\<not> valid_hops (pc_min_hops p) (pc_max_hops p)) (bind_error ''hop_bounds'')"
| "check_pattern (Sequence p) =
     guard_err (\<not> (1 \<le> length (sp_steps p) \<and> length (sp_steps p) \<le> 32)
                \<or> list_ex (\<lambda>s. \<not> valid_hops (pe_min_hops (ps_edge s)) (pe_max_hops (ps_edge s))) (sp_steps p))
       (bind_error ''pattern_bounds'')"

definition config_validate :: "config \<Rightarrow> (query_error, unit) result" where
  "config_validate c =
     (case c of
        CProject fs \<Rightarrow> guard_err (fs = []) (bind_error ''empty_projection'')
      | CAggregate groups aggs \<Rightarrow> guard_err (aggs = []) (bind_error ''empty_aggregates'')
      | CSort keys \<Rightarrow> guard_err (keys = []) (bind_error ''empty_sort'')
      | CKnn _ _ _ k _ _ \<Rightarrow> guard_err (k > 10000) (bind_error ''ranking_bound'')
      | CRerank _ _ _ k _ _ \<Rightarrow> guard_err (k > 10000) (bind_error ''ranking_bound'')
      | CLexicalMatch _ _ _ _ k _ \<Rightarrow> guard_err (k > 10000) (bind_error ''ranking_bound'')
      | CContextPack _ _ tokens _ _ \<Rightarrow> guard_err (tokens > 1000000) (bind_error ''token_bound'')
      | CMatch pat anchors _ \<Rightarrow>
          rbind (guard_err (list_ex (\<lambda>(s, _). \<not> is_symbol s) anchors) (bind_error ''invalid_anchor'')) (\<lambda>_.
            check_pattern pat)
      | CExpand pat _ \<Rightarrow> check_pattern pat
      | _ \<Rightarrow> Inr ())"

section \<open>The query graph\<close>

text \<open>The loop that numbers the nodes.\<close>

fun number_nodes ::
  "query_node list \<Rightarrow> nat \<Rightarrow> (string \<rightharpoonup> nat) \<Rightarrow> (query_error, string \<rightharpoonup> nat) result" where
  "number_nodes [] index ids = Inr ids"
| "number_nodes (n # ns) index ids =
     (if \<not> is_symbol (qn_id n) \<or> ids (qn_id n) \<noteq> None
      then Inl (bind_error ''duplicate_or_invalid_node'')
      else if length (qn_inputs n) \<noteq> arity (qn_op n) then Inl (bind_error ''input_arity'')
      else number_nodes ns (index + 1) (ids(qn_id n \<mapsto> index)))"

text \<open>The loop that records the edges, as the successor lists it builds.\<close>

fun link_inputs ::
  "(string \<rightharpoonup> nat) \<Rightarrow> nat \<Rightarrow> string list \<Rightarrow> (nat \<Rightarrow> nat list) \<Rightarrow> (query_error, nat \<Rightarrow> nat list) result" where
  "link_inputs ids index [] outs = Inr outs"
| "link_inputs ids index (i # is) outs =
     rbind (ok_or (bind_error ''missing_input'') (ids i)) (\<lambda>parent.
       link_inputs ids index is (outs(parent := outs parent @ [index])))"

fun link_nodes ::
  "(string \<rightharpoonup> nat) \<Rightarrow> query_node list \<Rightarrow> nat \<Rightarrow> (nat \<Rightarrow> nat) \<Rightarrow> (nat \<Rightarrow> nat list)
     \<Rightarrow> (query_error, (nat \<Rightarrow> nat) \<times> (nat \<Rightarrow> nat list)) result" where
  "link_nodes ids [] index deg outs = Inr (deg, outs)"
| "link_nodes ids (n # ns) index deg outs =
     rbind (link_inputs ids index (qn_inputs n) outs) (\<lambda>outs'.
       link_nodes ids ns (index + 1) (deg(index := length (qn_inputs n))) outs')"

text \<open>The search from the root along the inputs, with the stack's top at the end of the list. It is
  fuelled; \<open>None\<close> means that the fuel ran out.\<close>

fun mark_reachable ::
  "nat \<Rightarrow> (nat \<Rightarrow> nat list) \<Rightarrow> (nat \<Rightarrow> bool) \<Rightarrow> nat list \<Rightarrow> (nat \<Rightarrow> bool) option" where
  "mark_reachable 0 inputs reach pending = None"
| "mark_reachable (Suc fuel) inputs reach pending =
     (case vec_pop pending of
        None \<Rightarrow> Some reach
      | Some (index, pending') \<Rightarrow>
          if reach index then mark_reachable fuel inputs reach pending'
          else mark_reachable fuel inputs (reach(index := True)) (pending' @ inputs index))"

text \<open>The loop over the children of a node: longest distances, degrees and the ready set.\<close>

fun settle_children ::
  "(nat \<Rightarrow> string) \<Rightarrow> nat \<Rightarrow> nat list \<Rightarrow> (nat \<Rightarrow> nat) \<Rightarrow> (nat \<Rightarrow> nat) \<Rightarrow> string list
     \<Rightarrow> (nat \<Rightarrow> nat) \<times> (nat \<Rightarrow> nat) \<times> string list" where
  "settle_children idof index [] depths deg ready = (depths, deg, ready)"
| "settle_children idof index (child # cs) depths deg ready =
     (let deg' = deg(child := deg child - 1) in
      settle_children idof index cs (depths(child := max (depths child) (depths index + 1))) deg'
        (if deg' child = 0 then btree_insert (idof child) ready else ready))"

fun order_loop ::
  "nat \<Rightarrow> (string \<rightharpoonup> nat) \<Rightarrow> (nat \<Rightarrow> string) \<Rightarrow> (nat \<Rightarrow> nat list) \<Rightarrow> (nat \<Rightarrow> nat) \<Rightarrow> (nat \<Rightarrow> nat)
     \<Rightarrow> string list \<Rightarrow> nat list \<Rightarrow> (query_error, nat list) result option" where
  "order_loop 0 ids idof outs depths deg ready order = None"
| "order_loop (Suc fuel) ids idof outs depths deg ready order =
     (case btree_pop_first ready of
        None \<Rightarrow> Some (Inr order)
      | Some (i, ready') \<Rightarrow>
          let index = the (ids i) in
          if depths index > MAX_DEPTH then Some (Inl (bind_error ''dag_depth''))
          else (case settle_children idof index (outs index) depths deg ready' of
                  (depths', deg', ready'') \<Rightarrow>
                    order_loop fuel ids idof outs depths' deg' ready'' (order @ [index])))"

definition node_inputs :: "query_node list \<Rightarrow> (string \<rightharpoonup> nat) \<Rightarrow> nat \<Rightarrow> nat list" where
  "node_inputs ns ids k = (if k < length ns then map (\<lambda>i. the (ids i)) (qn_inputs (ns ! k)) else [])"

definition node_id :: "query_node list \<Rightarrow> nat \<Rightarrow> string" where
  "node_id ns k = (if k < length ns then qn_id (ns ! k) else [])"

text \<open>The checks up to the edges: the numbering, the root, the degrees and the successors.\<close>

definition prepare_dag ::
  "query_ir \<Rightarrow> (query_error, (string \<rightharpoonup> nat) \<times> nat \<times> (nat \<Rightarrow> nat) \<times> (nat \<Rightarrow> nat list)) result" where
  "prepare_dag ir =
     (if ir_contract_version ir \<noteq> ''query-ir.v2''
      then Inl (query_error_new ''VERSION_UNSUPPORTED'' ''contract'' ''query_ir_version'')
      else if ir_nodes ir = [] \<or> length (ir_nodes ir) > MAX_NODES then Inl (bind_error ''node_count'')
      else if \<not> is_symbol (ir_root ir)
              \<or> list_ex (\<lambda>(key, ty). \<not> is_symbol key \<or> ty = []) (ir_parameter_types ir)
      then Inl (bind_error ''invalid_declaration'')
      else
      rbind (number_nodes (ir_nodes ir) 0 Map.empty) (\<lambda>ids.
      rbind (ok_or (bind_error ''missing_root'') (ids (ir_root ir))) (\<lambda>root.
      rbind (link_nodes ids (ir_nodes ir) 0 (\<lambda>_. 0) (\<lambda>_. [])) (\<lambda>(deg, outs).
        Inr (ids, root, deg, outs)))))"

text \<open>The ready set collects the ids of degree zero.\<close>

definition initial_ready :: "query_node list \<Rightarrow> (nat \<Rightarrow> nat) \<Rightarrow> string list" where
  "initial_ready ns deg =
     fold btree_insert (map (node_id ns) (filter (\<lambda>k. deg k = 0) [0..<length ns])) []"

text \<open>The validator. The outer option is \<open>None\<close> only if a loop did not end.\<close>

definition validate_dag :: "query_ir \<Rightarrow> (query_error, nat list) result option" where
  "validate_dag ir =
     (case prepare_dag ir of
        Inl e \<Rightarrow> Some (Inl e)
      | Inr (ids, root, deg, outs) \<Rightarrow>
          let ns = ir_nodes ir; n = length ns in
          (case mark_reachable (sum_list (map (\<lambda>m. length (qn_inputs m)) ns) + 2)
                  (node_inputs ns ids) (\<lambda>_. False) [root] of
             None \<Rightarrow> None
           | Some reach \<Rightarrow>
               if list_ex (\<lambda>k. \<not> reach k) [0..<n] then Some (Inl (bind_error ''orphan_node''))
               else (case order_loop (n + 1) ids (node_id ns) outs (\<lambda>_. 1) deg (initial_ready ns deg) [] of
                       None \<Rightarrow> None
                     | Some (Inl e) \<Rightarrow> Some (Inl e)
                     | Some (Inr order) \<Rightarrow>
                         Some (if length order \<noteq> n then Inl (bind_error ''cycle'') else Inr order))))"

section \<open>The decoder of a request\<close>

record logical_node =
  ln_id :: string
  ln_op :: query_op
  ln_inputs :: "string list"
  ln_config :: config

record logical_request =
  lr_nodes :: "logical_node list"
  lr_root :: string
  lr_parameter_types :: "string btree_map"
  lr_from_hql :: bool

text \<open>The derived decoder of a configuration under its operator tag is the parameter
  \<open>decode_config\<close>; \<open>None\<close> is a refusal. The nodes are taken out of the vector one by one in order.\<close>

fun type_nodes ::
  "(query_op \<Rightarrow> json btree_map \<Rightarrow> config option) \<Rightarrow> query_node option list \<Rightarrow> nat list
     \<Rightarrow> (query_error, logical_node list) result" where
  "type_nodes decode_config slots [] = Inr []"
| "type_nodes decode_config slots (index # order) =
     rbind (ok_or (bind_error ''node_order'') (slots ! index)) (\<lambda>n.
     rbind (ok_or (bind_error ''closed_config'') (decode_config (qn_op n) (qn_config n))) (\<lambda>config.
     rbind (config_validate config) (\<lambda>_.
     rbind (type_nodes decode_config (slots[index := None]) order) (\<lambda>typed.
       Inr (\<lparr>ln_id = qn_id n, ln_op = qn_op n, ln_inputs = qn_inputs n, ln_config = config\<rparr> # typed)))))"

definition decode_ir_v2 ::
  "(query_op \<Rightarrow> json btree_map \<Rightarrow> config option) \<Rightarrow> query_ir \<Rightarrow> (query_error, logical_request) result option" where
  "decode_ir_v2 decode_config ir =
     (case validate_dag ir of
        None \<Rightarrow> None
      | Some checked \<Rightarrow> Some (
          rbind checked (\<lambda>order.
          rbind (for_each (\<lambda>n. preflight_config (qn_op n) (qn_config n)) (ir_nodes ir)) (\<lambda>_.
          rbind (type_nodes decode_config (map Some (ir_nodes ir)) order) (\<lambda>typed.
            Inr \<lparr>lr_nodes = typed, lr_root = ir_root ir, lr_parameter_types = ir_parameter_types ir,
                 lr_from_hql = False\<rparr>)))))"

section \<open>What the numbering and the edges are\<close>

definition wire_edges :: "query_node list \<Rightarrow> (string \<rightharpoonup> nat) \<Rightarrow> (nat \<times> nat) list" where
  "wire_edges ns ids = concat (map (\<lambda>k. map (\<lambda>p. (p, k)) (node_inputs ns ids k)) [0..<length ns])"

definition node_numbers :: "query_node list \<Rightarrow> string \<rightharpoonup> nat" where
  "node_numbers ns = map_of (zip (map qn_id ns) [0..<length ns])"

definition node_shape :: "query_node \<Rightarrow> bool" where
  "node_shape n \<longleftrightarrow> is_symbol (qn_id n) \<and> length (qn_inputs n) = arity (qn_op n)"

lemma upt_Cons_length: "[k..<k + length (x # xs)] = k # [k + 1..<k + 1 + length xs]"
  using upt_conv_Cons [of k "k + length (x # xs)"] by simp

lemma number_nodes_Inr:
  assumes "number_nodes ns index ids = Inr ids'"
  shows "list_all node_shape ns
     \<and> distinct (map qn_id ns) \<and> (\<forall>n\<in>set ns. ids (qn_id n) = None)
     \<and> ids' = ids ++ map_of (zip (map qn_id ns) [index..<index + length ns])"
  using assms
proof (induction ns arbitrary: index ids)
  case (Cons n ns)
  then have ok: "is_symbol (qn_id n)" "ids (qn_id n) = None" "length (qn_inputs n) = arity (qn_op n)"
    and rest: "number_nodes ns (index + 1) (ids(qn_id n \<mapsto> index)) = Inr ids'"
    by (auto split: if_splits)
  note IH = Cons.IH [OF rest]
  have new: "qn_id n \<notin> set (map qn_id ns)" using IH by auto
  let ?M = "map_of (zip (map qn_id ns) [index + 1..<index + 1 + length ns])"
  have none: "?M (qn_id n) = None"
    using new by (subst map_of_eq_None_iff) (auto dest: set_zip_leftD)
  have up: "[index..<index + length (n # ns)] = index # [index + 1..<index + 1 + length ns]"
    by (rule upt_Cons_length)
  have "ids' = ids(qn_id n \<mapsto> index) ++ ?M" using IH by blast
  also have "\<dots> = ids ++ ?M(qn_id n \<mapsto> index)"
    using none by (simp only: map_add_upd map_add_upd_left domIff not_not)
  finally have "ids' = ids ++ map_of (zip (map qn_id (n # ns)) [index..<index + length (n # ns)])"
    unfolding up by simp
  moreover have "\<forall>m\<in>set ns. ids (qn_id m) = None" using IH by (auto split: if_splits)
  ultimately show ?case using IH ok new by (auto simp: node_shape_def)
qed simp

lemma number_nodes_complete:
  assumes "list_all node_shape ns"
    and "distinct (map qn_id ns)" "\<forall>n\<in>set ns. ids (qn_id n) = None"
  shows "\<exists>ids'. number_nodes ns index ids = Inr ids'"
  using assms
proof (induction ns arbitrary: index ids)
  case (Cons n ns)
  have "\<exists>ids'. number_nodes ns (index + 1) (ids(qn_id n \<mapsto> index)) = Inr ids'"
    using Cons.prems by (intro Cons.IH) (force simp: image_iff)+
  then show ?case using Cons.prems by (auto simp: node_shape_def)
qed simp

lemma link_inputs_Inr:
  "link_inputs ids index is (succs es) = Inr outs \<longleftrightarrow>
     (\<forall>i\<in>set is. ids i \<noteq> None) \<and> outs = succs (es @ map (\<lambda>i. (the (ids i), index)) is)"
proof (induction "is" arbitrary: es)
  case (Cons i "is")
  show ?case
  proof (cases "ids i")
    case (Some p)
    have "link_inputs ids index (i # is) (succs es) = link_inputs ids index is (succs (es @ [(p, index)]))"
      by (simp add: Some)
    then show ?thesis unfolding \<open>link_inputs _ _ (i # is) _ = _\<close> Cons.IH by (simp add: Some del: succs_simps)
  qed simp
qed auto

lemma link_nodes_Inr:
  "link_nodes ids ns index deg (succs es) = Inr (deg', outs) \<longleftrightarrow>
     (\<forall>n\<in>set ns. \<forall>i\<in>set (qn_inputs n). ids i \<noteq> None)
     \<and> deg' = (\<lambda>k. if index \<le> k \<and> k < index + length ns then length (qn_inputs (ns ! (k - index))) else deg k)
     \<and> outs = succs (es @ concat (map (\<lambda>(n, k). map (\<lambda>i. (the (ids i), k)) (qn_inputs n))
                 (zip ns [index..<index + length ns])))"
proof (induction ns arbitrary: index deg es)
  case (Cons n ns)
  have up: "[index..<index + length (n # ns)] = index # [index + 1..<index + 1 + length ns]"
    by (rule upt_Cons_length)
  have deg: "(\<lambda>k. if index + 1 \<le> k \<and> k < index + 1 + length ns then length (qn_inputs (ns ! (k - (index + 1))))
        else (deg(index := length (qn_inputs n))) k)
      = (\<lambda>k. if index \<le> k \<and> k < index + length (n # ns) then length (qn_inputs ((n # ns) ! (k - index))) else deg k)"
    by (auto simp: fun_eq_iff nth_Cons' Suc_le_eq)
  show ?case
    unfolding up using Cons.IH [of "index + 1"] unfolding deg [symmetric]
    by (auto simp: link_inputs_Inr)
qed auto

lemma wire_edges_zip:
  "wire_edges ns ids = concat (map (\<lambda>(n, k). map (\<lambda>i. (the (ids i), k)) (qn_inputs n)) (zip ns [0..<length ns]))"
proof -
  have "map (\<lambda>(n, k). map (\<lambda>i. (the (ids i), k)) (qn_inputs n)) (zip ns [0..<length ns])
      = map (\<lambda>k. map (\<lambda>p. (p, k)) (node_inputs ns ids k)) [0..<length ns]"
    by (rule nth_equalityI) (auto simp: node_inputs_def)
  then show ?thesis by (simp add: wire_edges_def)
qed

text \<open>The shape a graph must have before it is searched.\<close>

definition dag_shape :: "query_ir \<Rightarrow> bool" where
  "dag_shape ir \<longleftrightarrow>
     ir_contract_version ir = ''query-ir.v2''
     \<and> 1 \<le> length (ir_nodes ir) \<and> length (ir_nodes ir) \<le> MAX_NODES
     \<and> is_symbol (ir_root ir) \<and> list_all (\<lambda>(key, ty). is_symbol key \<and> ty \<noteq> []) (ir_parameter_types ir)
     \<and> list_all node_shape (ir_nodes ir) \<and> distinct (map qn_id (ir_nodes ir))
     \<and> ir_root ir \<in> qn_id ` set (ir_nodes ir)
     \<and> (\<forall>n\<in>set (ir_nodes ir). set (qn_inputs n) \<subseteq> qn_id ` set (ir_nodes ir))"

lemma dom_node_numbers: "node_numbers ns i \<noteq> None \<longleftrightarrow> i \<in> qn_id ` set ns"
proof -
  have "node_numbers ns i = None \<longleftrightarrow> i \<notin> fst ` set (zip (map qn_id ns) [0..<length ns])"
    unfolding node_numbers_def by (rule map_of_eq_None_iff)
  also have "fst ` set (zip (map qn_id ns) [0..<length ns]) = set (map fst (zip (map qn_id ns) [0..<length ns]))"
    by (simp only: set_map)
  also have "\<dots> = qn_id ` set ns" by simp
  finally show ?thesis by simp
qed

lemma node_numbers_nth:
  assumes "distinct (map qn_id ns)" "k < length ns"
  shows "node_numbers ns (qn_id (ns ! k)) = Some k"
proof -
  have "(map qn_id ns ! k, [0..<length ns] ! k) \<in> set (zip (map qn_id ns) [0..<length ns])"
    using assms(2) by (force simp: set_zip)
  then show ?thesis unfolding node_numbers_def using assms by (simp add: map_of_eq_Some_iff)
qed

lemma number_nodes_iff:
  "number_nodes ns 0 Map.empty = Inr ids \<longleftrightarrow>
     list_all node_shape ns \<and> distinct (map qn_id ns) \<and> ids = node_numbers ns"
proof
  assume "list_all node_shape ns \<and> distinct (map qn_id ns) \<and> ids = node_numbers ns"
  moreover from this obtain ids' where "number_nodes ns 0 Map.empty = Inr ids'"
    using number_nodes_complete [of ns Map.empty 0] by auto
  ultimately show "number_nodes ns 0 Map.empty = Inr ids"
    using number_nodes_Inr [of ns 0 Map.empty ids'] by (simp add: node_numbers_def)
qed (use number_nodes_Inr [of ns 0 Map.empty ids] in \<open>simp add: node_numbers_def\<close>)

definition node_degree :: "query_node list \<Rightarrow> nat \<Rightarrow> nat" where
  "node_degree ns k = (if k < length ns then length (qn_inputs (ns ! k)) else 0)"

lemma link_nodes_iff:
  "link_nodes ids ns 0 (\<lambda>_. 0) (\<lambda>_. []) = Inr (deg, outs) \<longleftrightarrow>
     (\<forall>n\<in>set ns. \<forall>i\<in>set (qn_inputs n). ids i \<noteq> None)
     \<and> deg = node_degree ns \<and> outs = succs (wire_edges ns ids)"
proof -
  have e: "(\<lambda>_. []) = succs []" by (auto simp: succs_def)
  have d: "node_degree ns
      = (\<lambda>k. if 0 \<le> k \<and> k < 0 + length ns then length (qn_inputs (ns ! (k - 0))) else 0)"
    by (auto simp: node_degree_def)
  show ?thesis unfolding e d link_nodes_Inr wire_edges_zip by simp
qed

lemma prepare_dag_iff:
  "prepare_dag ir = Inr (ids, root, deg, outs) \<longleftrightarrow>
     dag_shape ir \<and> ids = node_numbers (ir_nodes ir) \<and> node_numbers (ir_nodes ir) (ir_root ir) = Some root
     \<and> deg = node_degree (ir_nodes ir) \<and> outs = succs (wire_edges (ir_nodes ir) (node_numbers (ir_nodes ir)))"
proof -
  let ?ns = "ir_nodes ir"
  let ?g = "ir_contract_version ir = ''query-ir.v2'' \<and> 1 \<le> length ?ns \<and> length ?ns \<le> MAX_NODES
     \<and> is_symbol (ir_root ir) \<and> list_all (\<lambda>(key, ty). is_symbol key \<and> ty \<noteq> []) (ir_parameter_types ir)"
  have params: "list_ex (\<lambda>(key, ty). \<not> is_symbol key \<or> ty = []) xs
      \<longleftrightarrow> \<not> list_all (\<lambda>(key, ty). is_symbol key \<and> ty \<noteq> []) xs" for xs
    by (induction xs) auto
  have "prepare_dag ir = Inr (ids, root, deg, outs) \<longleftrightarrow> ?g \<and>
      (\<exists>ids'. number_nodes ?ns 0 Map.empty = Inr ids' \<and> ids' (ir_root ir) = Some root
         \<and> link_nodes ids' ?ns 0 (\<lambda>_. 0) (\<lambda>_. []) = Inr (deg, outs) \<and> ids = ids')"
    unfolding prepare_dag_def params
    by (auto simp: ok_or_def Suc_le_eq split: sum.splits option.splits)
  also have "\<dots> \<longleftrightarrow> ?g \<and> list_all node_shape ?ns \<and> distinct (map qn_id ?ns)
      \<and> (\<forall>n\<in>set ?ns. \<forall>i\<in>set (qn_inputs n). node_numbers ?ns i \<noteq> None)
      \<and> ids = node_numbers ?ns \<and> node_numbers ?ns (ir_root ir) = Some root
      \<and> deg = node_degree ?ns \<and> outs = succs (wire_edges ?ns (node_numbers ?ns))"
    unfolding number_nodes_iff link_nodes_iff by blast
  also have "\<dots> \<longleftrightarrow> dag_shape ir \<and> ids = node_numbers ?ns \<and> node_numbers ?ns (ir_root ir) = Some root
      \<and> deg = node_degree ?ns \<and> outs = succs (wire_edges ?ns (node_numbers ?ns))"
    unfolding dag_shape_def dom_node_numbers using dom_node_numbers [of ?ns "ir_root ir"] by auto
  finally show ?thesis .
qed

text \<open>\<open>feeds ns\<close> relates two positions when the first node is an input of the second.\<close>

definition feeds :: "query_node list \<Rightarrow> (nat \<times> nat) set" where
  "feeds ns = {(j, k). j < length ns \<and> k < length ns \<and> qn_id (ns ! j) \<in> set (qn_inputs (ns ! k))}"

definition resolved :: "query_node list \<Rightarrow> bool" where
  "resolved ns \<longleftrightarrow> distinct (map qn_id ns) \<and> (\<forall>n\<in>set ns. set (qn_inputs n) \<subseteq> qn_id ` set ns)"

lemma feeds_node_inputs:
  assumes "resolved ns"
  shows "j \<in> set (node_inputs ns (node_numbers ns) k) \<longleftrightarrow> (j, k) \<in> feeds ns"
proof (cases "k < length ns")
  case True
  have known: "\<exists>l < length ns. i = qn_id (ns ! l)" if "i \<in> set (qn_inputs (ns ! k))" for i
    using assms that True unfolding resolved_def by (metis (no_types, lifting) image_iff in_set_conv_nth nth_mem subsetD)
  have number: "the (node_numbers ns (qn_id (ns ! l))) = l" if "l < length ns" for l
    using node_numbers_nth that assms by (simp add: resolved_def)
  show ?thesis
  proof
    assume "j \<in> set (node_inputs ns (node_numbers ns) k)"
    then obtain i where i: "i \<in> set (qn_inputs (ns ! k))" "j = the (node_numbers ns i)"
      using True by (auto simp: node_inputs_def)
    moreover from known [OF i(1)] obtain l where "l < length ns" "i = qn_id (ns ! l)" by blast
    ultimately show "(j, k) \<in> feeds ns" using True number [of l] by (simp add: feeds_def)
  next
    assume "(j, k) \<in> feeds ns"
    then show "j \<in> set (node_inputs ns (node_numbers ns) k)"
      using True number [of j] by (force simp: feeds_def node_inputs_def)
  qed
qed (simp add: node_inputs_def feeds_def)

lemma set_wire_edges:
  assumes "resolved ns" shows "set (wire_edges ns (node_numbers ns)) = feeds ns"
proof -
  have "(j, k) \<in> set (wire_edges ns (node_numbers ns)) \<longleftrightarrow> k < length ns \<and> (j, k) \<in> feeds ns" for j k
    using feeds_node_inputs [OF assms] by (auto simp: wire_edges_def intro!: bexI [of _ k])
  then show ?thesis by (auto simp: feeds_def)
qed

lemma in_count_append: "in_count (xs @ ys) k = in_count xs k + in_count ys k"
  by (simp add: in_count_def)

lemma in_count_fan: "in_count (map (\<lambda>p. (p, k)) xs) x = (if x = k then length xs else 0)"
  by (auto simp: in_count_def)

lemma in_count_fans:
  "distinct ks \<Longrightarrow> in_count (concat (map (\<lambda>k. map (\<lambda>p. (p, k)) (f k)) ks)) x = (if x \<in> set ks then length (f x) else 0)"
  by (induction ks) (auto simp: in_count_append in_count_fan)

lemma node_degree_pending:
  assumes "resolved ns"
  shows "node_degree ns = pending_degree {..<length ns} (succs (wire_edges ns (node_numbers ns))) {}"
proof -
  have "fst ` set (wire_edges ns (node_numbers ns)) \<subseteq> {..<length ns}"
    by (auto simp: set_wire_edges [OF assms] feeds_def)
  then have "pending_degree {..<length ns} (succs (wire_edges ns (node_numbers ns))) {}
      = in_count (wire_edges ns (node_numbers ns))" by (intro pending_degree_succs) simp_all
  also have "\<dots> = node_degree ns"
    unfolding wire_edges_def by (auto simp: in_count_fans node_degree_def node_inputs_def)
  finally show ?thesis by simp
qed

section \<open>The search from the root\<close>

text \<open>Enough fuel is the length of the stack and of the inputs still to be pushed. The search ends
  with a closed set that holds what it started with and only what is reachable from it.\<close>

lemma mark_reachable_spec:
  assumes "finite N" "set pending \<subseteq> N" "\<And>k. k \<in> N \<Longrightarrow> set (inputs k) \<subseteq> N"
    and "length pending + (\<Sum>k\<in>{k \<in> N. \<not> reach k}. length (inputs k)) < fuel"
    and "\<And>j k. reach k \<Longrightarrow> j \<in> set (inputs k) \<Longrightarrow> reach j \<or> j \<in> set pending"
  shows "\<exists>r. mark_reachable fuel inputs reach pending = Some r
     \<and> (\<forall>k. reach k \<or> k \<in> set pending \<longrightarrow> r k)
     \<and> (\<forall>j k. r k \<longrightarrow> j \<in> set (inputs k) \<longrightarrow> r j)
     \<and> (\<forall>k. r k \<longrightarrow> reach k \<or> (\<exists>p\<in>set pending. (p, k) \<in> {(a, b). b \<in> set (inputs a)}\<^sup>*))"
  using assms(2,4,5)
proof (induction fuel arbitrary: reach pending)
  case (Suc fuel)
  show ?case
  proof (cases pending rule: rev_cases)
    case Nil
    then show ?thesis using Suc.prems(3) by (simp add: vec_pop_def)
  next
    case (snoc ps i)
    have pop: "vec_pop pending = Some (i, ps)" by (simp add: snoc vec_pop_def)
    have i: "i \<in> N" using Suc.prems(1) snoc by simp
    show ?thesis
    proof (cases "reach i")
      case True
      have "\<exists>r. mark_reachable fuel inputs reach ps = Some r
          \<and> (\<forall>k. reach k \<or> k \<in> set ps \<longrightarrow> r k) \<and> (\<forall>j k. r k \<longrightarrow> j \<in> set (inputs k) \<longrightarrow> r j)
          \<and> (\<forall>k. r k \<longrightarrow> reach k \<or> (\<exists>p\<in>set ps. (p, k) \<in> {(a, b). b \<in> set (inputs a)}\<^sup>*))"
        using Suc.prems True snoc by (intro Suc.IH) auto
      then show ?thesis using True pop snoc by auto
    next
      case False
      have "{k \<in> N. \<not> reach k} = insert i {k \<in> N. \<not> (reach(i := True)) k}" using i False by auto
      then have "(\<Sum>k\<in>{k \<in> N. \<not> reach k}. length (inputs k))
          = length (inputs i) + (\<Sum>k\<in>{k \<in> N. \<not> (reach(i := True)) k}. length (inputs k))"
        using assms(1) by simp
      then have fuel: "length (ps @ inputs i) + (\<Sum>k\<in>{k \<in> N. \<not> (reach(i := True)) k}. length (inputs k)) < fuel"
        using Suc.prems(2) snoc by simp
      have "\<exists>r. mark_reachable fuel inputs (reach(i := True)) (ps @ inputs i) = Some r
          \<and> (\<forall>k. (reach(i := True)) k \<or> k \<in> set (ps @ inputs i) \<longrightarrow> r k)
          \<and> (\<forall>j k. r k \<longrightarrow> j \<in> set (inputs k) \<longrightarrow> r j)
          \<and> (\<forall>k. r k \<longrightarrow> (reach(i := True)) k
               \<or> (\<exists>p\<in>set (ps @ inputs i). (p, k) \<in> {(a, b). b \<in> set (inputs a)}\<^sup>*))"
        using Suc.prems(1,3) assms(3) [OF i] snoc by (intro Suc.IH fuel) (auto split: if_splits)
      then obtain r where r: "mark_reachable fuel inputs (reach(i := True)) (ps @ inputs i) = Some r"
        "\<And>k. (reach(i := True)) k \<or> k \<in> set (ps @ inputs i) \<Longrightarrow> r k"
        "\<forall>j k. r k \<longrightarrow> j \<in> set (inputs k) \<longrightarrow> r j"
        "\<And>k. r k \<Longrightarrow> (reach(i := True)) k
               \<or> (\<exists>p\<in>set (ps @ inputs i). (p, k) \<in> {(a, b). b \<in> set (inputs a)}\<^sup>*)" by blast
      have "reach k \<or> (\<exists>p\<in>set pending. (p, k) \<in> {(a, b). b \<in> set (inputs a)}\<^sup>*)" if "r k" for k
        using r(4) [OF that] snoc by (auto split: if_splits intro: converse_rtrancl_into_rtrancl)
      moreover have "r k" if "reach k \<or> k \<in> set pending" for k
        using r(2) [of k] that snoc by (auto split: if_splits)
      ultimately show ?thesis using r(1,3) pop False by simp
    qed
  qed
qed simp

lemma mark_reachable_root:
  assumes "resolved ns" "root < length ns"
  shows "\<exists>r. mark_reachable (sum_list (map (\<lambda>m. length (qn_inputs m)) ns) + 2)
               (node_inputs ns (node_numbers ns)) (\<lambda>_. False) [root] = Some r
     \<and> (\<forall>k. r k \<longleftrightarrow> (k, root) \<in> (feeds ns)\<^sup>*)"
proof -
  let ?in = "node_inputs ns (node_numbers ns)"
  have "(\<Sum>k\<in>{..<length ns}. length (?in k)) = (\<Sum>k<length ns. length (qn_inputs (ns ! k)))"
    by (intro sum.cong) (auto simp: node_inputs_def)
  also have "\<dots> = sum_list (map (\<lambda>m. length (qn_inputs m)) ns)"
    by (simp add: sum_list_sum_nth atLeast0LessThan)
  finally have fuel: "length [root] + (\<Sum>k\<in>{k \<in> {..<length ns}. \<not> False}. length (?in k))
      < sum_list (map (\<lambda>m. length (qn_inputs m)) ns) + 2" by (simp add: lessThan_def)
  have E: "{(a, b). (b, a) \<in> feeds ns} = (feeds ns)\<inverse>" by auto
  have "\<exists>r. mark_reachable (sum_list (map (\<lambda>m. length (qn_inputs m)) ns) + 2) ?in (\<lambda>_. False) [root] = Some r
     \<and> (\<forall>k. False \<or> k \<in> set [root] \<longrightarrow> r k) \<and> (\<forall>j k. r k \<longrightarrow> j \<in> set (?in k) \<longrightarrow> r j)
     \<and> (\<forall>k. r k \<longrightarrow> False \<or> (\<exists>p\<in>set [root]. (p, k) \<in> {(a, b). b \<in> set (?in a)}\<^sup>*))"
    using assms by (intro mark_reachable_spec [OF _ _ _ fuel]) (auto simp: feeds_node_inputs, simp add: feeds_def)
  then obtain r where r: "mark_reachable (sum_list (map (\<lambda>m. length (qn_inputs m)) ns) + 2) ?in (\<lambda>_. False) [root] = Some r"
    "r root" "\<And>j k. r k \<Longrightarrow> (j, k) \<in> feeds ns \<Longrightarrow> r j"
    "\<And>k. r k \<Longrightarrow> (root, k) \<in> ((feeds ns)\<inverse>)\<^sup>*"
    unfolding feeds_node_inputs [OF assms(1)] E by auto
  have "r k" if "(k, root) \<in> (feeds ns)\<^sup>*" for k
    using that by (induction rule: converse_rtrancl_induct) (use r in auto)
  then show ?thesis using r(1,4) by (auto simp: rtrancl_converse)
qed

section \<open>The ordered set of ids as a worklist of positions\<close>

text \<open>The loop keeps the ids of ready nodes in an ordered set and looks their positions up. Whenever
  \<open>ids\<close> inverts \<open>idof\<close> on the positions in use, that is a worklist of positions.\<close>

definition id_pop :: "(string \<rightharpoonup> nat) \<Rightarrow> string list \<Rightarrow> (nat \<times> string list) option" where
  "id_pop ids w = map_option (\<lambda>(i, w'). (the (ids i), w')) (btree_pop_first w)"

definition id_push :: "(nat \<Rightarrow> string) \<Rightarrow> nat \<Rightarrow> string list \<Rightarrow> string list" where
  "id_push idof k w = btree_insert (idof k) w"

locale numbering =
  fixes ids :: "string \<rightharpoonup> nat" and idof :: "nat \<Rightarrow> string" and keys :: "nat set"
  assumes ids_idof: "k \<in> keys \<Longrightarrow> ids (idof k) = Some k"
begin

definition id_contents :: "string list \<Rightarrow> nat multiset" where
  "id_contents w = image_mset (\<lambda>i. the (ids i)) (mset w)"

definition id_legal :: "string list \<Rightarrow> bool" where
  "id_legal w \<longleftrightarrow> sorted_wrt (<) w \<and> set w \<subseteq> idof ` keys"

lemma id_worklist: "worklist (id_pop ids) (id_push idof) id_contents id_legal keys"
proof
  fix k w w'
  assume "id_legal w" "id_pop ids w = Some (k, w')"
  then show "id_legal w' \<and> id_contents w = add_mset k (id_contents w')"
    by (auto simp: id_legal_def id_contents_def id_pop_def btree_pop_first_def split: list.splits)
next
  fix k w
  assume w: "id_legal w" and k: "k \<in> keys" "k \<notin># id_contents w"
  then have new: "idof k \<notin> set w" using ids_idof [of k] by (force simp: id_contents_def)
  then show "id_legal (id_push idof k w) \<and> id_contents (id_push idof k w) = add_mset k (id_contents w)"
    using w k ids_idof by (simp add: id_legal_def id_contents_def id_push_def btree_insert_sorted btree_insert_mset)
qed (auto simp: id_contents_def id_pop_def btree_pop_first_def split: list.splits)

lemma id_contents_once:
  assumes "id_legal w" shows "count (id_contents w) k \<le> 1"
proof -
  have "inj_on (\<lambda>i. the (ids i)) (set w)"
    using assms ids_idof by (auto simp: id_legal_def inj_on_def subset_iff image_iff) (metis option.sel)
  moreover have "distinct w" using assms by (auto simp: id_legal_def strict_sorted_iff)
  ultimately have "distinct (map (\<lambda>i. the (ids i)) w)" by (simp add: distinct_map)
  then show ?thesis
    by (simp add: id_contents_def mset_map [symmetric] distinct_count_atmost_1 del: mset_map)
qed

end

sublocale numbering \<subseteq> worklist "id_pop ids" "id_push idof" id_contents id_legal keys
  by (rule id_worklist)

definition numbered :: "query_node list \<Rightarrow> nat set" where
  "numbered ns = {k. k < length ns \<and> node_numbers ns (node_id ns k) = Some k}"

interpretation nodes: numbering "node_numbers ns" "node_id ns" "numbered ns" for ns
  by unfold_locales (simp add: numbered_def)

lemma numbered_resolved: "resolved ns \<Longrightarrow> numbered ns = {..<length ns}"
  by (auto simp: numbered_def resolved_def node_numbers_nth node_id_def)

section \<open>The ordering loop\<close>

lemma settle_children_relax:
  "index \<notin> set cs \<Longrightarrow> settle_children idof index cs depths deg ready =
     (\<lambda>c. if c \<in> set cs then max (depths c) (depths index + 1) else depths c, relax (id_push idof) cs deg ready)"
  by (induction cs arbitrary: depths deg ready) (auto simp: id_push_def Let_def fun_eq_iff)

text \<open>The depths at any moment: each is the number of nodes on some path that ends there, the depth of
  a visited node is within the bound and below the depths of its children.\<close>

definition depth_inv :: "nat set \<Rightarrow> (nat \<Rightarrow> nat list) \<Rightarrow> (nat \<Rightarrow> nat) \<Rightarrow> nat list \<Rightarrow> bool" where
  "depth_inv K outs depths order \<longleftrightarrow>
     (\<forall>k. 1 \<le> depths k) \<and> (\<forall>k\<in>K. \<exists>j. (j, k) \<in> edges_of K outs ^^ (depths k - 1))
     \<and> (\<forall>v\<in>set order. depths v \<le> MAX_DEPTH \<and> (\<forall>c\<in>set (outs v). depths v + 1 \<le> depths c))"

lemma depth_inv_step:
  assumes inv: "depth_inv K outs depths order" and k: "k \<in> K" "k \<notin> set order" "depths k \<le> MAX_DEPTH"
    and ready: "\<And>j. j \<in> K - set order \<Longrightarrow> k \<notin> set (outs j)"
    and top: "topological K outs order"
  shows "depth_inv K outs (\<lambda>c. if c \<in> set (outs k) then max (depths c) (depths k + 1) else depths c) (order @ [k])"
    (is "depth_inv K outs ?d _")
proof -
  have same: "?d v = depths v" if v: "v \<in> set order \<or> v = k" for v
  proof -
    have "v \<notin> set (outs k)"
    proof
      assume child: "v \<in> set (outs k)"
      then have "v \<noteq> k" using ready [of k] k by blast
      then obtain i where i: "i < length order" "order ! i = v" using v by (auto simp: in_set_conv_nth)
      then have "k \<in> set (take i order)" using top k child by (auto simp: topological_def)
      then show False using k(2) by (auto dest: in_set_takeD)
    qed
    then show ?thesis by simp
  qed
  have "\<exists>j. (j, c) \<in> edges_of K outs ^^ (?d c - 1)" if c: "c \<in> K" for c
  proof (cases "?d c = depths c")
    case False
    then have child: "c \<in> set (outs k)" and d: "?d c = depths k + 1" by (auto split: if_splits)
    obtain j where j: "(j, k) \<in> edges_of K outs ^^ (depths k - 1)" using inv k by (auto simp: depth_inv_def)
    have "(k, c) \<in> edges_of K outs" using k child by (simp add: edges_of_def)
    with j have "(j, c) \<in> edges_of K outs ^^ Suc (depths k - 1)" by (rule relpow_Suc_I)
    moreover have "1 \<le> depths k" using inv by (auto simp: depth_inv_def)
    then have "Suc (depths k - 1) = ?d c - 1" using d by simp
    ultimately show ?thesis by metis
  qed (use inv c in \<open>auto simp: depth_inv_def\<close>)
  moreover have "?d v \<le> MAX_DEPTH \<and> (\<forall>c\<in>set (outs v). ?d v + 1 \<le> ?d c)" if v: "v \<in> set (order @ [k])" for v
  proof (cases "v = k")
    case False
    then have "v \<in> set order" using v by simp
    then have "depths v \<le> MAX_DEPTH" "\<And>c. c \<in> set (outs v) \<Longrightarrow> depths v + 1 \<le> depths c"
      using inv by (auto simp: depth_inv_def)
    then show ?thesis using same [of v] \<open>v \<in> set order\<close> by fastforce
  qed (use same [of k] k in auto)
  ultimately show ?thesis using inv unfolding depth_inv_def by auto
qed

lemma edges_of_fst: "(a, b) \<in> edges_of K outs \<Longrightarrow> a \<in> K"
  by (simp add: edges_of_def)

text \<open>Paths: a relation with a cycle has paths of every length, and a long path has short ones in it.\<close>

lemma relpow_shorter: "R ^^ m = {} \<Longrightarrow> m \<le> n \<Longrightarrow> R ^^ n = {}"
  for R :: "('a \<times> 'a) set"
  using relpow_add [of m "n - m" R] by simp

lemma relpow_empty_acyclic:
  assumes "R ^^ m = {}" shows "acyclic R"
proof (rule acyclicI, rule allI, rule notI)
  fix a assume "(a, a) \<in> R\<^sup>+"
  then obtain p where p: "0 < p" "(a, a) \<in> R ^^ p" by (auto simp: trancl_power)
  have "(a, a) \<in> R ^^ (p * q)" for q
    by (induction q) (use p in \<open>auto simp: relpow_add\<close>)
  moreover have "R ^^ (p * m) = {}" using relpow_shorter [OF assms, of "p * m"] p by simp
  ultimately show False by blast
qed

lemma depth_inv_over:
  assumes "depth_inv K outs depths order" "k \<in> K" "MAX_DEPTH < depths k"
  shows "edges_of K outs ^^ MAX_DEPTH \<noteq> {}"
proof
  assume "edges_of K outs ^^ MAX_DEPTH = {}"
  then have "edges_of K outs ^^ (depths k - 1) = {}" by (rule relpow_shorter) (use assms(3) in simp)
  moreover obtain j where "(j, k) \<in> edges_of K outs ^^ (depths k - 1)"
    using assms(1,2) unfolding depth_inv_def by blast
  ultimately show False by simp
qed

lemma depth_inv_all:
  assumes inv: "depth_inv K outs depths order" and all: "set order = K"
    and closed: "\<And>k. k \<in> K \<Longrightarrow> set (outs k) \<subseteq> K"
  shows "edges_of K outs ^^ MAX_DEPTH = {}"
proof -
  have path: "k \<in> K \<and> depths j + m \<le> depths k" if "(j, k) \<in> edges_of K outs ^^ m" "j \<in> K" for j k m
    using that
  proof (induction m arbitrary: k)
    case (Suc m)
    then obtain l where l: "(j, l) \<in> edges_of K outs ^^ m" "(l, k) \<in> edges_of K outs" by auto
    then have "depths l + 1 \<le> depths k" "k \<in> K"
      using inv all closed by (auto simp: depth_inv_def edges_of_def)
    with Suc.IH [OF l(1) Suc.prems(2)] show ?case by simp
  qed simp
  have "False" if "(j, k) \<in> edges_of K outs ^^ MAX_DEPTH" for j k
  proof -
    have "(j, k) \<in> edges_of K outs ^^ Suc 127" using that by (simp add: MAX_DEPTH_def)
    then have "j \<in> K" by (blast dest: relpow_Suc_D2 edges_of_fst)
    from path [OF that this] have "k \<in> K" "depths j + MAX_DEPTH \<le> depths k" by auto
    moreover have "1 \<le> depths j" "depths k \<le> MAX_DEPTH" using inv all \<open>k \<in> K\<close> by (auto simp: depth_inv_def)
    ultimately show False by simp
  qed
  then show ?thesis by auto
qed

text \<open>The loop ends with enough fuel. It stops at a node that is too deep only if there is a path of
  \<open>MAX_DEPTH\<close> edges, and else it is Kahn's loop with depths in order.\<close>

context numbering
begin

lemma order_loop_inv:
  assumes "kahn_inv K outs deg ready order" "finite K" "\<And>k. k \<in> K \<Longrightarrow> set (outs k) \<subseteq> K"
    and "depth_inv K outs depths order" "card (K - set order) < fuel"
  shows "\<exists>r. order_loop fuel ids idof outs depths deg ready order = Some r
     \<and> (\<forall>e. r = Inl e \<longrightarrow> edges_of K outs ^^ MAX_DEPTH \<noteq> {})
     \<and> (\<forall>ks. r = Inr ks \<longrightarrow> (\<exists>deg' w depths'. kahn_inv K outs deg' w ks \<and> id_contents w = {#}
                                            \<and> depth_inv K outs depths' ks))"
  using assms(1,4,5)
proof (induction fuel arbitrary: depths deg ready order)
  case (Suc fuel)
  have legal: "id_legal ready" using Suc.prems(1) by (simp add: kahn_inv_def)
  show ?case
  proof (cases "btree_pop_first ready")
    case None
    then have "id_pop ids ready = None" by (simp add: id_pop_def)
    then have "id_contents ready = {#}" using pop_None legal by simp
    then show ?thesis using None Suc.prems(1,2) by auto
  next
    case (Some p)
    then obtain i ready' where bp: "btree_pop_first ready = Some (i, ready')" by (cases p) auto
    define k where "k = the (ids i)"
    have pop: "id_pop ids ready = Some (k, ready')" by (simp add: id_pop_def bp k_def)
    have k: "k \<in> K" "k \<notin> set order" "deg k = 0"
      using Suc.prems(1) pop_Some [OF legal pop] by (auto simp: kahn_inv_def)
    show ?thesis
    proof (cases "MAX_DEPTH < depths k")
      case True
      then show ?thesis using bp depth_inv_over [OF Suc.prems(2) k(1)] by (simp add: k_def)
    next
      case False
      obtain deg' ready'' where rel: "relax (id_push idof) (outs k) deg ready' = (deg', ready'')"
        by (cases "relax (id_push idof) (outs k) deg ready'")
      let ?d = "\<lambda>c. if c \<in> set (outs k) then max (depths c) (depths k + 1) else depths c"
      note inv = kahn_inv_step [OF Suc.prems(1) assms(2,3) pop rel]
      have free: "k \<notin> set (outs j)" if "j \<in> K - set order" for j
        using Suc.prems(1) k(3) assms(2) that by (auto simp: kahn_inv_def pending_degree_zero)
      then have loopless: "k \<notin> set (outs k)" using k by blast
      from free have free': "\<And>j. j \<in> K - set order \<Longrightarrow> k \<notin> set (outs j)" .
      moreover have "topological K outs order" using Suc.prems(1) by (simp add: kahn_inv_def)
      ultimately have dinv: "depth_inv K outs ?d (order @ [k])"
        using Suc.prems(2) k False by (intro depth_inv_step) auto
      have "K - set order = insert k (K - set (order @ [k]))" using k by auto
      then have "card (K - set order) = Suc (card (K - set (order @ [k])))"
        using assms(2) by (metis DiffE card_insert_disjoint finite_Diff in_set_conv_decomp)
      then have "card (K - set (order @ [k])) < fuel" using Suc.prems(3) by simp
      moreover have "order_loop (Suc fuel) ids idof outs depths deg ready order
          = order_loop fuel ids idof outs ?d deg' ready'' (order @ [k])"
        using False by (simp add: bp rel settle_children_relax [OF loopless] k_def [symmetric])
      ultimately show ?thesis using Suc.IH [OF inv dinv] by simp
    qed
  qed
qed simp

lemma order_loop_decides:
  assumes "finite K" "\<And>k. k \<in> K \<Longrightarrow> set (outs k) \<subseteq> K" "card K < fuel" "id_legal ready" "K \<subseteq> keys"
    and "set_mset (id_contents ready) = {k \<in> K. pending_degree K outs {} k = 0}"
  shows "\<exists>r. order_loop fuel ids idof outs (\<lambda>_. 1) (pending_degree K outs {}) ready [] = Some r
     \<and> ((\<exists>ks. r = Inr ks \<and> length ks = card K) \<longleftrightarrow> edges_of K outs ^^ MAX_DEPTH = {})
     \<and> (\<forall>ks. r = Inr ks \<longrightarrow> distinct ks \<and> set ks \<subseteq> K \<and> topological K outs ks)"
proof -
  have start: "kahn_inv K outs (pending_degree K outs {}) ready []"
    using assms(4-6) id_contents_once [OF assms(4)] by (intro kahn_inv_start)
  have "depth_inv K outs (\<lambda>_. 1) []" by (simp add: depth_inv_def)
  then obtain r where r: "order_loop fuel ids idof outs (\<lambda>_. 1) (pending_degree K outs {}) ready [] = Some r"
    "\<And>e. r = Inl e \<Longrightarrow> edges_of K outs ^^ MAX_DEPTH \<noteq> {}"
    "\<And>ks. r = Inr ks \<Longrightarrow> \<exists>deg' w depths'. kahn_inv K outs deg' w ks \<and> id_contents w = {#}
                                            \<and> depth_inv K outs depths' ks"
    using order_loop_inv [OF start assms(1,2), of "\<lambda>_. 1" fuel] assms(3) by auto
  have ends: "distinct ks \<and> set ks \<subseteq> K \<and> topological K outs ks
      \<and> (length ks = card K \<longleftrightarrow> edges_of K outs ^^ MAX_DEPTH = {})" if ok: "r = Inr ks" for ks
  proof -
    obtain deg' w depths' where i: "kahn_inv K outs deg' w ks" "id_contents w = {#}" "depth_inv K outs depths' ks"
      using r(3) [OF ok] by blast
    have ks: "distinct ks" "set ks \<subseteq> K" "topological K outs ks" using i(1) by (auto simp: kahn_inv_def)
    have "edges_of K outs ^^ MAX_DEPTH = {}" if "length ks = card K"
    proof (rule depth_inv_all [OF i(3)])
      show "set ks = K" using ks assms(1) that by (metis card_subset_eq distinct_card)
    qed (rule assms(2))
    then show ?thesis
      using ks kahn_finished [OF i(1,2) assms(1)] relpow_empty_acyclic by blast
  qed
  show ?thesis
  proof (cases r)
    case (Inl e)
    then show ?thesis using r(1,2) by auto
  next
    case (Inr ks)
    then show ?thesis using r(1) ends [OF Inr] by auto
  qed
qed

end

section \<open>What the validator accepts\<close>

text \<open>The graphs to accept: the right shape, every node an input, at some distance, of the root, and
  no path of \<open>MAX_DEPTH\<close> edges, so no path of more than \<open>MAX_DEPTH\<close> nodes and no cycle.\<close>

definition dag_ok :: "query_ir \<Rightarrow> bool" where
  "dag_ok ir \<longleftrightarrow> dag_shape ir
     \<and> (\<forall>k < length (ir_nodes ir). \<exists>root < length (ir_nodes ir).
          qn_id (ir_nodes ir ! root) = ir_root ir \<and> (k, root) \<in> (feeds (ir_nodes ir))\<^sup>*)
     \<and> feeds (ir_nodes ir) ^^ MAX_DEPTH = {}"

lemma initial_ready_set: "set (initial_ready ns deg) = node_id ns ` {k. k < length ns \<and> deg k = 0}"
proof -
  have "set (fold btree_insert xs w) = set xs \<union> set w" for xs w :: "string list"
    by (induction xs arbitrary: w) auto
  then show ?thesis by (auto simp: initial_ready_def)
qed

lemma initial_ready_sorted: "sorted_wrt (<) (initial_ready ns deg)"
proof -
  have "sorted_wrt (<) w \<Longrightarrow> sorted_wrt (<) (fold btree_insert xs w)" for xs w :: "string list"
    by (induction xs arbitrary: w) (auto simp: btree_insert_sorted)
  then show ?thesis by (simp add: initial_ready_def)
qed

lemma order_loop_nodes:
  assumes "resolved ns"
  defines "outs \<equiv> succs (wire_edges ns (node_numbers ns))"
  shows "\<exists>r. order_loop (length ns + 1) (node_numbers ns) (node_id ns) outs (\<lambda>_. 1) (node_degree ns)
               (initial_ready ns (node_degree ns)) [] = Some r
     \<and> ((\<exists>ks. r = Inr ks \<and> length ks = length ns) \<longleftrightarrow> feeds ns ^^ MAX_DEPTH = {})
     \<and> (\<forall>ks. r = Inr ks \<longrightarrow> distinct ks \<and> set ks \<subseteq> {..<length ns} \<and> topological {..<length ns} outs ks)"
proof -
  let ?K = "{..<length ns}" and ?w = "initial_ready ns (node_degree ns)"
  have outs: "b \<in> set (outs a) \<longleftrightarrow> (a, b) \<in> feeds ns" for a b
    using set_wire_edges [OF assms(1)] by (simp add: outs_def)
  have edges: "edges_of ?K outs = feeds ns" by (auto simp: edges_of_def outs feeds_def)
  have deg: "node_degree ns = pending_degree ?K outs {}"
    unfolding outs_def by (rule node_degree_pending [OF assms(1)])
  have keys: "numbered ns = ?K" by (rule numbered_resolved [OF assms(1)])
  have legal: "nodes.id_legal ns ?w"
    unfolding nodes.id_legal_def unfolding keys using initial_ready_sorted by (auto simp: initial_ready_set)
  have "the (node_numbers ns (node_id ns k)) = k" if "k < length ns" for k
    using that nodes.ids_idof [of k ns] keys by simp
  then have "set_mset (nodes.id_contents ns ?w) = {k. k < length ns \<and> node_degree ns k = 0}"
    by (force simp: nodes.id_contents_def initial_ready_set)
  then have ready: "set_mset (nodes.id_contents ns ?w) = {k \<in> ?K. pending_degree ?K outs {} k = 0}"
    unfolding deg by auto
  have closed: "set (outs k) \<subseteq> ?K" for k by (auto simp: outs feeds_def)
  show ?thesis
    using nodes.order_loop_decides [OF _ closed _ legal _ ready, of "length ns + 1"]
    unfolding edges keys deg by simp
qed

lemma validate_dag_spec:
  "\<exists>r. validate_dag ir = Some r \<and> ((\<exists>order. r = Inr order) \<longleftrightarrow> dag_ok ir)
     \<and> (\<forall>order. r = Inr order \<longrightarrow> distinct order \<and> set order = {..<length (ir_nodes ir)}
          \<and> (\<forall>i < length order. \<forall>j. (j, order ! i) \<in> feeds (ir_nodes ir) \<longrightarrow> j \<in> set (take i order)))"
proof (cases "dag_shape ir")
  case False
  then obtain e where "prepare_dag ir = Inl e"
    using prepare_dag_iff [of ir] by (cases "prepare_dag ir") fastforce+
  then show ?thesis using False by (simp add: validate_dag_def dag_ok_def)
next
  case True
  let ?ns = "ir_nodes ir" and ?ids = "node_numbers (ir_nodes ir)"
  let ?outs = "succs (wire_edges ?ns ?ids)"
  have res: "resolved ?ns" using True by (auto simp: dag_shape_def resolved_def)
  obtain root where root: "root < length ?ns" "qn_id (?ns ! root) = ir_root ir"
    using True by (auto simp: dag_shape_def in_set_conv_nth)
  have num: "?ids (ir_root ir) = Some root"
    using node_numbers_nth [of ?ns root] root res by (simp add: resolved_def)
  have unique: "qn_id (?ns ! k) = ir_root ir \<longleftrightarrow> k = root" if "k < length ?ns" for k
    using node_numbers_nth [of ?ns k] num root that res by (auto simp: resolved_def)
  have prep: "prepare_dag ir = Inr (?ids, root, node_degree ?ns, ?outs)"
    using True num by (simp add: prepare_dag_iff)
  obtain reach where reach: "mark_reachable (sum_list (map (\<lambda>m. length (qn_inputs m)) ?ns) + 2)
      (node_inputs ?ns ?ids) (\<lambda>_. False) [root] = Some reach"
    and reach_iff: "\<And>k. reach k \<longleftrightarrow> (k, root) \<in> (feeds ?ns)\<^sup>*"
    using mark_reachable_root [OF res root(1)] by blast
  obtain r where r: "order_loop (length ?ns + 1) ?ids (node_id ?ns) ?outs (\<lambda>_. 1) (node_degree ?ns)
        (initial_ready ?ns (node_degree ?ns)) [] = Some r"
    and dec: "(\<exists>ks. r = Inr ks \<and> length ks = length ?ns) \<longleftrightarrow> feeds ?ns ^^ MAX_DEPTH = {}"
    and order: "\<And>ks. r = Inr ks \<Longrightarrow> distinct ks \<and> set ks \<subseteq> {..<length ?ns} \<and> topological {..<length ?ns} ?outs ks"
    using order_loop_nodes [OF res] by blast
  let ?conn = "\<forall>k < length ?ns. (k, root) \<in> (feeds ?ns)\<^sup>*"
  have ok: "dag_ok ir \<longleftrightarrow> ?conn \<and> feeds ?ns ^^ MAX_DEPTH = {}"
    unfolding dag_ok_def using True root(1) unique by blast
  have orphan: "list_ex (\<lambda>k. \<not> reach k) [0..<length ?ns] \<longleftrightarrow> \<not> ?conn"
    by (auto simp: list_ex_iff reach_iff)
  have run: "validate_dag ir = Some (if \<not> ?conn then Inl (bind_error ''orphan_node'')
      else (case r of Inl e \<Rightarrow> Inl e
            | Inr ks \<Rightarrow> if length ks \<noteq> length ?ns then Inl (bind_error ''cycle'') else Inr ks))"
    unfolding validate_dag_def Let_def prep sum.case prod.case reach option.case orphan r
    by (auto split: sum.splits)
  have full: "set ks = {..<length ?ns}" if "r = Inr ks" "length ks = length ?ns" for ks
    using order [OF that(1)] that(2) by (metis card_lessThan card_subset_eq distinct_card finite_lessThan)
  have before: "j \<in> set (take i ks)"
    if "r = Inr ks" "i < length ks" "(j, ks ! i) \<in> feeds ?ns" for ks i j
    using order [OF that(1)] that(2,3) set_wire_edges [OF res] by (auto simp: topological_def feeds_def)
  show ?thesis unfolding run ok using dec order full before by (auto split: sum.splits)
qed

text \<open>C34: the validator of a wire graph always ends. It accepts exactly the graphs of the right shape
  in which every node leads to the root and no path has more than \<open>MAX_DEPTH\<close> nodes, so no cycle
  either; the order it returns holds every position once, each after the positions of its inputs.\<close>

theorem validate_dag_decides:
  "\<exists>r. validate_dag ir = Some r \<and> ((\<exists>order. r = Inr order) \<longleftrightarrow> dag_ok ir)
     \<and> (\<forall>order. r = Inr order \<longrightarrow> distinct order \<and> set order = {..<length (ir_nodes ir)}
          \<and> (\<forall>i < length order. \<forall>j. (j, order ! i) \<in> feeds (ir_nodes ir) \<longrightarrow> j \<in> set (take i order)))"
  by (rule validate_dag_spec)

text \<open>Taking distinct positions out of a full vector never finds an empty slot.\<close>

definition typed_as :: "(query_op \<Rightarrow> json btree_map \<Rightarrow> config option) \<Rightarrow> query_node \<Rightarrow> logical_node \<Rightarrow> bool" where
  "typed_as decode_config n t \<longleftrightarrow>
     ln_id t = qn_id n \<and> ln_op t = qn_op n \<and> ln_inputs t = qn_inputs n
     \<and> decode_config (qn_op n) (qn_config n) = Some (ln_config t) \<and> config_validate (ln_config t) = Inr ()"

lemma typed_as_iff:
  "typed_as decode_config n t \<longleftrightarrow> (\<exists>c. decode_config (qn_op n) (qn_config n) = Some c \<and> config_validate c = Inr ()
     \<and> t = \<lparr>ln_id = qn_id n, ln_op = qn_op n, ln_inputs = qn_inputs n, ln_config = c\<rparr>)"
  by (cases t) (auto simp: typed_as_def)

lemma type_nodes_Inr:
  assumes "distinct order" "\<And>k. k \<in> set order \<Longrightarrow> k < length slots \<and> slots ! k = Some (ns ! k)"
  shows "type_nodes decode_config slots order = Inr typed
     \<longleftrightarrow> list_all2 (typed_as decode_config) (map (\<lambda>k. ns ! k) order) typed"
  using assms
proof (induction order arbitrary: slots typed)
  case (Cons k order)
  have slot: "slots ! k = Some (ns ! k)" using Cons.prems(2) by simp
  have IH: "type_nodes decode_config (slots[k := None]) order = Inr ts
      \<longleftrightarrow> list_all2 (typed_as decode_config) (map (\<lambda>k. ns ! k) order) ts" for ts
    using Cons.prems by (intro Cons.IH) (auto simp: nth_list_update)
  show ?case
    by (cases typed) (auto simp: slot IH typed_as_iff [of _ "ns ! k"])
qed auto

lemma list_all2_ex: "(\<exists>ys. list_all2 P xs ys) \<longleftrightarrow> (\<forall>x\<in>set xs. \<exists>y. P x y)"
proof (induction xs)
  case (Cons x xs)
  have "(\<exists>ys. list_all2 P (x # xs) ys) \<longleftrightarrow> (\<exists>y. P x y) \<and> (\<exists>ys. list_all2 P xs ys)"
    by (auto simp: list_all2_Cons1)
  then show ?case using Cons by simp
qed simp

lemma order_permutes:
  assumes "distinct order" "set order = {..<length ns}"
  shows "mset (map (\<lambda>k. ns ! k) order) = mset ns"
proof -
  have "set order = set [0..<length ns]" using assms(2) by (simp add: atLeast0LessThan)
  then have "mset order = mset [0..<length ns]"
    using assms(1) set_eq_iff_mset_eq_distinct [of order "[0..<length ns]"] by simp
  then have "mset (map (\<lambda>k. ns ! k) order) = mset (map (\<lambda>k. ns ! k) [0..<length ns])" by (simp only: mset_map)
  then show ?thesis by (simp only: map_nth)
qed

definition inputs_first :: "logical_node list \<Rightarrow> bool" where
  "inputs_first ts \<longleftrightarrow> (\<forall>i < length ts. set (ln_inputs (ts ! i)) \<subseteq> ln_id ` set (take i ts))"

lemma typed_inputs_first:
  assumes order: "distinct order" "set order = {..<length ns}"
      "\<forall>i < length order. \<forall>j. (j, order ! i) \<in> feeds ns \<longrightarrow> j \<in> set (take i order)"
    and res: "resolved ns" and typed: "list_all2 (typed_as decode_config) (map (\<lambda>k. ns ! k) order) ts"
  shows "inputs_first ts"
  unfolding inputs_first_def
proof (intro allI impI subsetI)
  fix i x assume i: "i < length ts" and x: "x \<in> set (ln_inputs (ts ! i))"
  have len: "length ts = length order" using typed by (auto dest: list_all2_lengthD)
  have t: "ln_id (ts ! k) = qn_id (ns ! (order ! k)) \<and> ln_inputs (ts ! k) = qn_inputs (ns ! (order ! k))"
    if "k < length ts" for k
    using list_all2_nthD [OF typed, of k] that len by (simp add: typed_as_def)
  have bound: "order ! i < length ns" using order(2) i len by (metis lessThan_iff nth_mem)
  then obtain j where j: "j < length ns" "x = qn_id (ns ! j)"
    using res x t [OF i] unfolding resolved_def by (metis (no_types, lifting) image_iff in_set_conv_nth nth_mem subsetD)
  then have "(j, order ! i) \<in> feeds ns" using x t [OF i] bound by (simp add: feeds_def)
  then have "j \<in> set (take i order)" using order(3) i len by auto
  then obtain l where l: "l < i" "order ! l = j" using i len by (auto simp: in_set_conv_nth)
  then have "ln_id (ts ! l) = x" "ts ! l \<in> set (take i ts)"
    using t [of l] i j by (auto simp: in_set_conv_nth intro!: exI [of _ l])
  then show "x \<in> ln_id ` set (take i ts)" by blast
qed

definition config_ok :: "(query_op \<Rightarrow> json btree_map \<Rightarrow> config option) \<Rightarrow> query_node \<Rightarrow> bool" where
  "config_ok decode_config n \<longleftrightarrow> preflight_config (qn_op n) (qn_config n) = Inr ()
     \<and> (case decode_config (qn_op n) (qn_config n) of None \<Rightarrow> False | Some c \<Rightarrow> config_validate c = Inr ())"

lemma decode_ir_v2_spec:
  "\<exists>r. decode_ir_v2 decode_config ir = Some r
     \<and> ((\<exists>lr. r = Inr lr) \<longleftrightarrow> dag_ok ir \<and> list_all (config_ok decode_config) (ir_nodes ir))
     \<and> (\<forall>lr. r = Inr lr \<longrightarrow> inputs_first (lr_nodes lr) \<and> lr_root lr = ir_root ir
          \<and> (\<exists>ns. mset ns = mset (ir_nodes ir) \<and> list_all2 (typed_as decode_config) ns (lr_nodes lr)))"
proof -
  let ?ns = "ir_nodes ir"
  obtain v where v: "validate_dag ir = Some v" "(\<exists>order. v = Inr order) \<longleftrightarrow> dag_ok ir"
    and order: "\<And>order. v = Inr order \<Longrightarrow> distinct order \<and> set order = {..<length ?ns}
        \<and> (\<forall>i < length order. \<forall>j. (j, order ! i) \<in> feeds ?ns \<longrightarrow> j \<in> set (take i order))"
    using validate_dag_spec [of ir] by blast
  show ?thesis
  proof (cases v)
    case (Inl e)
    then show ?thesis using v by (auto simp: decode_ir_v2_def)
  next
    case (Inr ord)
    note o = order [OF Inr]
    have ok: "dag_ok ir" using v(2) Inr by blast
    then have res: "resolved ?ns" by (auto simp: dag_ok_def dag_shape_def resolved_def)
    have types: "type_nodes decode_config (map Some ?ns) ord = Inr ts
        \<longleftrightarrow> list_all2 (typed_as decode_config) (map (\<lambda>k. ?ns ! k) ord) ts" for ts
      using o by (intro type_nodes_Inr) auto
    have "set (map (\<lambda>k. ?ns ! k) ord) = set ?ns" using order_permutes o by (metis set_mset_mset)
    then have all: "(\<exists>ts. type_nodes decode_config (map Some ?ns) ord = Inr ts) \<longleftrightarrow>
        (\<forall>n\<in>set ?ns. \<exists>c. decode_config (qn_op n) (qn_config n) = Some c \<and> config_validate c = Inr ())"
      unfolding types list_all2_ex typed_as_iff by auto
    have pre: "for_each (\<lambda>n. preflight_config (qn_op n) (qn_config n)) ?ns = Inr ()
        \<longleftrightarrow> (\<forall>n\<in>set ?ns. preflight_config (qn_op n) (qn_config n) = Inr ())"
      by (simp add: for_each_Inr)
    define r where "r = rbind (for_each (\<lambda>n. preflight_config (qn_op n) (qn_config n)) ?ns) (\<lambda>_.
          rbind (type_nodes decode_config (map Some ?ns) ord) (\<lambda>typed.
            Inr \<lparr>lr_nodes = typed, lr_root = ir_root ir, lr_parameter_types = ir_parameter_types ir,
                 lr_from_hql = False\<rparr>))"
    have run: "decode_ir_v2 decode_config ir = Some r" by (simp add: decode_ir_v2_def v(1) Inr r_def)
    have acc: "(\<exists>lr. r = Inr lr) \<longleftrightarrow> list_all (config_ok decode_config) ?ns"
      unfolding r_def using all pre by (auto simp: list_all_iff config_ok_def split: option.splits)
    have out: "inputs_first (lr_nodes lr) \<and> lr_root lr = ir_root ir
          \<and> (\<exists>ns. mset ns = mset ?ns \<and> list_all2 (typed_as decode_config) ns (lr_nodes lr))"
      if "r = Inr lr" for lr
    proof -
      have "type_nodes decode_config (map Some ?ns) ord = Inr (lr_nodes lr)" and root: "lr_root lr = ir_root ir"
        using that by (auto simp: r_def)
      then have t: "list_all2 (typed_as decode_config) (map (\<lambda>k. ?ns ! k) ord) (lr_nodes lr)"
        by (simp only: types)
      have "inputs_first (lr_nodes lr)"
        by (rule typed_inputs_first [OF _ _ _ res t]) (use o in blast)+
      moreover have "mset (map (\<lambda>k. ?ns ! k) ord) = mset ?ns"
        by (rule order_permutes) (use o in blast)+
      ultimately show ?thesis using t root by blast
    qed
    show ?thesis using run ok acc out by blast
  qed
qed

text \<open>C35: decoding a request always ends. It succeeds exactly when the graph is acceptable and every
  configuration passes the depth checks, decodes and satisfies its operator's own bounds. The typed
  nodes are then the given nodes, each once, in an order in which the inputs of a node come first.\<close>

theorem decode_ir_v2_orders_the_graph:
  "\<exists>r. decode_ir_v2 decode_config ir = Some r
     \<and> ((\<exists>lr. r = Inr lr) \<longleftrightarrow> dag_ok ir \<and> list_all (config_ok decode_config) (ir_nodes ir))
     \<and> (\<forall>lr. r = Inr lr \<longrightarrow> inputs_first (lr_nodes lr) \<and> lr_root lr = ir_root ir
          \<and> (\<exists>ns. mset ns = mset (ir_nodes ir) \<and> list_all2 (typed_as decode_config) ns (lr_nodes lr)))"
  by (rule decode_ir_v2_spec)

section \<open>Examples\<close>

definition example_ir :: query_ir where
  "example_ir = \<lparr>ir_contract_version = ''query-ir.v2'',
     ir_nodes = [
       \<lparr>qn_id = ''top'', qn_op = Take, qn_inputs = [''scan''], qn_config = []\<rparr>,
       \<lparr>qn_id = ''scan'', qn_op = NodeScan, qn_inputs = [], qn_config = []\<rparr>],
     ir_root = ''top'', ir_parameter_types = []\<rparr>"

fun example_config :: "query_op \<Rightarrow> json btree_map \<Rightarrow> config option" where
  "example_config Take m = Some (CTake 5)"
| "example_config NodeScan m = Some (CNodeScan ''n'' None)"
| "example_config _ m = None"

lemma example_valid: "validate_dag example_ir = Some (Inr [1, 0])"
  by code_simp

lemma example_decodes:
  "decode_ir_v2 example_config example_ir = Some (Inr
     \<lparr>lr_nodes = [
        \<lparr>ln_id = ''scan'', ln_op = NodeScan, ln_inputs = [], ln_config = CNodeScan ''n'' None\<rparr>,
        \<lparr>ln_id = ''top'', ln_op = Take, ln_inputs = [''scan''], ln_config = CTake 5\<rparr>],
      lr_root = ''top'', lr_parameter_types = [], lr_from_hql = False\<rparr>)"
  by code_simp

theorem validate_dag_decides_witness: "validate_dag example_ir = Some (Inr [1, 0]) \<and> dag_ok example_ir"
  using validate_dag_decides [of example_ir] example_valid by auto

theorem decode_ir_v2_orders_the_graph_witness: "dag_ok example_ir \<and> list_all (config_ok example_config) (ir_nodes example_ir)"
  using decode_ir_v2_orders_the_graph [of example_config example_ir] example_decodes by auto

end
