(* ===== verification/GB_Graph_Data.thy ===== *)
theory GB_Graph_Data
  imports GB_Access GB_Query_Error "HOL-Library.List_Lexorder" "HOL-Library.Char_ord"
begin

text \<open>
  The data the storage engine of \<open>src/src/lib.rs\<close> keeps and journals: logical clocks with their
  total order, nodes, edges, vectors, transactions and events; the one-way migration of the legacy
  impact field; and the rules of the temporal view. Numbers of type \<open>f64\<close> are bit patterns. The
  conversion of a JSON number to \<open>f64\<close> and the RFC 3339 parser are parameters.
\<close>

section \<open>Clocks\<close>

datatype logical_clock = LogicalClock (clock_time: u32) (clock_peer: string)

text \<open>The derived order compares the time, then the peer.\<close>

instantiation logical_clock :: linorder
begin

definition less_eq_logical_clock :: "logical_clock \<Rightarrow> logical_clock \<Rightarrow> bool" where
  "c \<le> d \<longleftrightarrow> clock_time c < clock_time d \<or> clock_time c = clock_time d \<and> clock_peer c \<le> clock_peer d"

definition less_logical_clock :: "logical_clock \<Rightarrow> logical_clock \<Rightarrow> bool" where
  "c < d \<longleftrightarrow> clock_time c < clock_time d \<or> clock_time c = clock_time d \<and> clock_peer c < clock_peer d"

instance
  by standard
    (auto simp: less_eq_logical_clock_def less_logical_clock_def intro: logical_clock.expand)

end

section \<open>Records of the graph\<close>

datatype legacy_impact = Impact_Absent | Impact_Null | Impact_Number u64

record node_output =
  no_id :: string
  no_labels :: "string list"
  no_props :: json
  no_impact :: legacy_impact
  no_embedding :: "u64 list option"
  no_lang :: "string option"
  no_valid_from :: string
  no_valid_to :: "string option"
  no_caused_by :: "string option"
  no_expires_at :: "string option"
  no_clock :: logical_clock
  no_collection :: "string option"

record edge_output =
  eo_id :: string
  eo_from :: string
  eo_to :: string
  eo_rel :: string
  eo_props :: json
  eo_valid_from :: string
  eo_valid_to :: "string option"
  eo_recorded_at :: string
  eo_superseded_by :: "string option"
  eo_impact :: legacy_impact
  eo_caused_by :: "string option"
  eo_clock :: logical_clock

record node_tombstone = nt_clock :: logical_clock  nt_retracted_at :: string

record retired_edge = re_edge :: edge_output  re_retired_seq :: u64

record vector_event =
  ve_node_id :: string
  ve_collection :: "string option"
  ve_embedding :: "u64 list"
  ve_lang :: "string option"
  ve_clock :: logical_clock

record node_retraction_event =
  nr_id :: string
  nr_clock :: logical_clock
  nr_retracted_at :: string

text \<open>A transaction, without its relational part and revision metadata, which only the projection
  reads.\<close>

record transaction_event =
  te_transaction_id :: string
  te_origin_commit_seq :: u64
  te_local_frame_seq :: "u64 option"
  te_payload_hash :: string
  te_nodes :: "node_output list"
  te_edges :: "edge_output list"
  te_vectors :: "vector_event list"
  te_node_retractions :: "node_retraction_event list"
  te_advances_txn_frontier :: bool

datatype metric = L2 | Cosine
datatype quant = Quant_None | ScalarU8 | Binary | F16

record collection_definition =
  cd_version :: u32
  cd_name :: string
  cd_model :: string
  cd_dim :: u32
  cd_metric :: metric
  cd_quant :: quant
  cd_ef_search :: "u32 option"
  cd_rerank :: bool
  cd_sq8_calibrate :: bool
  cd_definition_hash :: string
  cd_clock :: logical_clock
  cd_provenance :: string

record collection_materialization =
  cm_version :: u32
  cm_definition :: collection_definition
  cm_bq_center :: "u32 list option"
  cm_sq8_scale :: "(u32 \<times> u32) option"

text \<open>The events of the journal. Those of the relational projection and of the schema migration carry
  opaque payloads of type \<open>'m\<close>.\<close>

datatype 'm db_event =
    Ev_CollectionDefinition collection_definition
  | Ev_CollectionMaterialization collection_materialization
  | Ev_VectorMaterialized vector_event
  | Ev_Node node_output
  | Ev_Edge edge_output
  | Ev_Batch "'m db_event list"
  | Ev_Vector vector_event
  | Ev_RelationalSchema 'm
  | Ev_RelationalRows 'm
  | Ev_Transaction transaction_event
  | Ev_NodeRetract string logical_clock string
  | Ev_GenerationPublished generation_published_event
  | Ev_AccessPolicyChanged access_policy_changed_event
  | Ev_Schema6MigrationChunk 'm
  | Ev_Schema6MigrationCommit 'm
  | Ev_Schema6Activation 'm

section \<open>The legacy impact field\<close>

definition LEGACY_IMPACT_PROP :: string where
  "LEGACY_IMPACT_PROP = ''legacy.genesisdb.impact''"

definition LEGACY_ORIGINAL_PROPS_PROP :: string where
  "LEGACY_ORIGINAL_PROPS_PROP = ''legacy.genesisdb.original_props''"

text \<open>\<open>Value::as_f64\<close>; the conversion of the two integer forms is the parameter \<open>num\<close>.\<close>

fun as_f64 :: "(json_number \<Rightarrow> u64) \<Rightarrow> json \<Rightarrow> u64 option" where
  "as_f64 num (JNumber (Float v)) = Some v"
| "as_f64 num (JNumber n) = Some (num n)"
| "as_f64 num _ = None"

text \<open>\<open>Map::insert\<close> on the increasing list of entries.\<close>

fun object_insert :: "string \<Rightarrow> json \<Rightarrow> (string \<times> json) list \<Rightarrow> (string \<times> json) list" where
  "object_insert k v [] = [(k, v)]"
| "object_insert k v ((j, w) # m) =
     (if k < j then (k, v) # (j, w) # m
      else if k = j then (k, v) # m
      else (j, w) # object_insert k v m)"

lemma map_of_object_insert: "map_of (object_insert k v m) j = (if j = k then Some v else map_of m j)"
  if "map_of m k = None"
  using that by (induction k v m rule: object_insert.induct) auto

definition props_object :: "json \<Rightarrow> (string \<times> json) list" where
  "props_object props = (case props of JObject m \<Rightarrow> m | other \<Rightarrow> [(LEGACY_ORIGINAL_PROPS_PROP, other)])"

definition migrate_legacy_impact ::
  "(json_number \<Rightarrow> u64) \<Rightarrow> json \<Rightarrow> legacy_impact \<Rightarrow> (string, json \<times> legacy_impact) result" where
  "migrate_legacy_impact num props impact =
     (case impact of
        Impact_Number v \<Rightarrow>
          if \<not> f64_is_finite v
          then Inl ''KIMPACT_MIGRATION_INVALID: legacy impact is not a finite JSON number''
          else (let m = props_object props in
                case map_of m LEGACY_IMPACT_PROP of
                  Some existing \<Rightarrow>
                    if (case as_f64 num existing of Some w \<Rightarrow> f64_eq w v | None \<Rightarrow> False)
                    then Inr (JObject m, Impact_Absent)
                    else Inl ''KIMPACT_MIGRATION_CONFLICT: props.legacy.genesisdb.impact already contains a different value''
                | None \<Rightarrow> Inr (JObject (object_insert LEGACY_IMPACT_PROP (JNumber (Float v)) m), Impact_Absent))
      | _ \<Rightarrow> Inr (props, Impact_Absent))"

definition migrate_legacy_node_impact ::
  "(json_number \<Rightarrow> u64) \<Rightarrow> node_output \<Rightarrow> (string, node_output) result" where
  "migrate_legacy_node_impact num n =
     rbind (migrate_legacy_impact num (no_props n) (no_impact n)) (\<lambda>(props, impact).
       Inr (n\<lparr>no_props := props, no_impact := impact\<rparr>))"

definition migrate_legacy_edge_impact ::
  "(json_number \<Rightarrow> u64) \<Rightarrow> edge_output \<Rightarrow> (string, edge_output) result" where
  "migrate_legacy_edge_impact num e =
     rbind (migrate_legacy_impact num (eo_props e) (eo_impact e)) (\<lambda>(props, impact).
       Inr (e\<lparr>eo_props := props, eo_impact := impact\<rparr>))"

definition reject_legacy_impact :: "u64 option \<Rightarrow> (string, unit) result" where
  "reject_legacy_impact impact = guard_err (impact \<noteq> None)
     ''KIMPACT_REMOVED: impact-based ranking and authority were removed; store application-owned signals under props and rank above the database''"

fun event_has_legacy_impact :: "'m db_event \<Rightarrow> bool" where
  "event_has_legacy_impact (Ev_Node n) = (no_impact n \<noteq> Impact_Absent)"
| "event_has_legacy_impact (Ev_Edge e) = (eo_impact e \<noteq> Impact_Absent)"
| "event_has_legacy_impact (Ev_Batch es) = list_ex event_has_legacy_impact es"
| "event_has_legacy_impact (Ev_Transaction t) =
     (list_ex (\<lambda>n. no_impact n \<noteq> Impact_Absent) (te_nodes t)
      \<or> list_ex (\<lambda>e. eo_impact e \<noteq> Impact_Absent) (te_edges t))"
| "event_has_legacy_impact _ = False"

lemma migrate_node_Inr:
  assumes "migrate_legacy_node_impact num n = Inr n'"
  shows "no_id n' = no_id n" "no_clock n' = no_clock n" "no_collection n' = no_collection n"
    "no_embedding n' = no_embedding n" "no_lang n' = no_lang n" "no_impact n' = Impact_Absent"
  using assms
  by (auto simp: migrate_legacy_node_impact_def migrate_legacy_impact_def Let_def
      split: legacy_impact.splits if_splits option.splits)

lemma migrate_edge_Inr:
  assumes "migrate_legacy_edge_impact num e = Inr e'"
  shows "eo_id e' = eo_id e" "eo_clock e' = eo_clock e" "eo_from e' = eo_from e" "eo_to e' = eo_to e"
    "eo_impact e' = Impact_Absent"
  using assms
  by (auto simp: migrate_legacy_edge_impact_def migrate_legacy_impact_def Let_def
      split: legacy_impact.splits if_splits option.splits)

lemma migrate_absent [simp]:
  "no_impact n = Impact_Absent \<Longrightarrow> migrate_legacy_node_impact num n = Inr n"
  "eo_impact e = Impact_Absent \<Longrightarrow> migrate_legacy_edge_impact num e = Inr e"
  by (simp_all add: migrate_legacy_node_impact_def migrate_legacy_edge_impact_def migrate_legacy_impact_def)

section \<open>Event times\<close>

fun max_option :: "'a::linorder list \<Rightarrow> 'a option" where
  "max_option [] = None"
| "max_option (x # xs) = Some (case max_option xs of None \<Rightarrow> x | Some y \<Rightarrow> max x y)"

fun event_time :: "'m db_event \<Rightarrow> u32 option" where
  "event_time (Ev_CollectionDefinition d) = Some (clock_time (cd_clock d))"
| "event_time (Ev_CollectionMaterialization m) = Some (clock_time (cd_clock (cm_definition m)))"
| "event_time (Ev_VectorMaterialized v) = Some (clock_time (ve_clock v))"
| "event_time (Ev_Node n) = Some (clock_time (no_clock n))"
| "event_time (Ev_Edge e) = Some (clock_time (eo_clock e))"
| "event_time (Ev_Batch es) = max_option (List.map_filter id (map event_time es))"
| "event_time (Ev_Vector v) = Some (clock_time (ve_clock v))"
| "event_time (Ev_NodeRetract i c at) = Some (clock_time c)"
| "event_time (Ev_Transaction t) = max_option
     (map (clock_time \<circ> no_clock) (te_nodes t) @ map (clock_time \<circ> eo_clock) (te_edges t)
      @ map (clock_time \<circ> ve_clock) (te_vectors t) @ map (clock_time \<circ> nr_clock) (te_node_retractions t))"
| "event_time _ = None"

lemma max_option_ge: "x \<in> set xs \<Longrightarrow> \<exists>m. max_option xs = Some m \<and> x \<le> m"
proof (induction xs)
  case (Cons y ys)
  show ?case
  proof (cases "x = y")
    case False
    then obtain m where "max_option ys = Some m" "x \<le> m" using Cons by auto
    then show ?thesis by (auto simp: le_max_iff_disj)
  qed (auto split: option.splits)
qed simp

section \<open>The temporal view\<close>

text \<open>Comparisons of instants fall back to the texts when one of them does not parse; the parser
  \<open>parse_temporal_instant\<close> is a parameter.\<close>

definition instant_after :: "(string \<Rightarrow> int option) \<Rightarrow> string \<Rightarrow> string \<Rightarrow> bool" where
  "instant_after parse left right =
     (case (parse left, parse right) of (Some l, Some r) \<Rightarrow> l > r | _ \<Rightarrow> left > right)"

definition instant_at_or_after :: "(string \<Rightarrow> int option) \<Rightarrow> string \<Rightarrow> string \<Rightarrow> bool" where
  "instant_at_or_after parse left right =
     (case (parse left, parse right) of (Some l, Some r) \<Rightarrow> l \<ge> r | _ \<Rightarrow> left \<ge> right)"

definition validate_temporal_selector :: "(string \<Rightarrow> int option) \<Rightarrow> string option \<Rightarrow> (string, unit) result" where
  "validate_temporal_selector parse as_of =
     guard_err (case as_of of Some v \<Rightarrow> parse v = None | None \<Rightarrow> False)
       ''TEMPORAL_SELECTOR_INVALID: as_of must be an RFC3339 instant''"

definition is_valid_as_of :: "(string \<Rightarrow> int option) \<Rightarrow> string \<Rightarrow> string option \<Rightarrow> string option \<Rightarrow> bool" where
  "is_valid_as_of parse valid_from valid_to as_of =
     (case as_of of
        None \<Rightarrow> True
      | Some t \<Rightarrow>
          if instant_after parse valid_from t then False
          else (case valid_to of None \<Rightarrow> True | Some e \<Rightarrow> \<not> instant_at_or_after parse t e))"

definition is_currently_visible ::
  "(string \<Rightarrow> int option) \<Rightarrow> string \<Rightarrow> string option \<Rightarrow> string option \<Rightarrow> bool \<Rightarrow> string \<Rightarrow> bool" where
  "is_currently_visible parse valid_from valid_to as_of include_invalid now =
     (if \<not> is_valid_as_of parse valid_from valid_to as_of then False
      else if as_of = None then
        (if instant_after parse valid_from now then False
         else if \<not> include_invalid then
           (case valid_to of None \<Rightarrow> True | Some e \<Rightarrow> \<not> instant_at_or_after parse now e)
         else True)
      else True)"

definition is_node_visible ::
  "(string \<Rightarrow> int option) \<Rightarrow> node_output \<Rightarrow> string option \<Rightarrow> bool \<Rightarrow> string \<Rightarrow> bool" where
  "is_node_visible parse n as_of include_invalid now =
     (if \<not> is_currently_visible parse (no_valid_from n) (no_valid_to n) as_of include_invalid now then False
      else (case no_expires_at n of
              None \<Rightarrow> True
            | Some e \<Rightarrow> \<not> instant_at_or_after parse (case as_of of Some t \<Rightarrow> t | None \<Rightarrow> now) e))"

text \<open>Reading the current view is travelling to now. A node is visible in the current view exactly
  when it is visible as of the clock reading of the query, whatever the flag and the clock then are; the
  two code paths for the current view and for a past instant cannot drift apart.\<close>

theorem current_view_is_the_view_as_of_now:
  "is_node_visible parse n None False now \<longleftrightarrow> is_node_visible parse n (Some now) include_invalid now'"
  by (simp add: is_node_visible_def is_currently_visible_def is_valid_as_of_def split: option.splits)

end
