(* ===== verification/GB_Graph_State.thy ===== *)
theory GB_Graph_State
  imports GB_Graph_Data
begin

text \<open>
  The live graph of the storage engine (\<open>src/src/lib.rs\<close>) and the application of journal events to
  it: interned ids, nodes, edges with their adjacency indexes, tombstones, the overlay of retired
  edges, vector collections with their metadata rows, and the logical clock. An adjacency entry that
  is absent is the empty set, which no operation tells apart. Not modelled are the numeric contents
  of the vector arena and of the search index; the queue of vectors to index is a list. The
  parameters are in \<open>graph_env\<close>: the edge hash, the tokenizer of the fuzzy index, float conversions,
  the outcomes of writes to a collection's sidecar file, and the handlers of the schema migration,
  which change the relational projection only. The texts of the errors on collection names are
  shortened.
\<close>

section \<open>Collections\<close>

type_synonym u128 = "128 word"

record node_metadata =
  nm_arena_id :: u32
  nm_node_u32 :: u32
  nm_vector_dim :: u16
  nm_embedding_offset :: u64
  nm_lang :: string
  nm_cluster_id :: u32
  nm_created_seq :: u64
  nm_retired_seq :: u64

text \<open>A collection; \<open>vc_arena_len\<close> counts the components of the arena and \<open>vc_sidecar\<close> the bytes of
  the sidecar file when there is one.\<close>

record vector_collection =
  vc_name :: string
  vc_model :: string
  vc_dim :: u16
  vc_metric :: metric
  vc_quant :: quant
  vc_arena_len :: nat
  vc_metadata :: "node_metadata list"
  vc_node_to_arena :: "u32 \<rightharpoonup> u32"
  vc_count :: nat
  vc_ef_search :: "u32 option"
  vc_sidecar :: "nat option"
  vc_bq_center :: "u32 list option"
  vc_sq8_calibrate :: bool
  vc_sq8_scale :: "(u32 \<times> u32) option"

text \<open>A write to the sidecar succeeds, or fails after some bytes.\<close>

datatype sidecar_io = Sidecar_Ok | Sidecar_Err nat string

record 'm graph_env =
  ge_edge_key :: "string \<Rightarrow> u128"
  ge_tokenize :: "string \<Rightarrow> string list"
  ge_num :: "json_number \<Rightarrow> u64"
  ge_prep :: "metric \<Rightarrow> u64 list \<Rightarrow> u32 list"
  ge_as_f32 :: "u64 \<Rightarrow> u32"
  ge_sidecar_write :: "string \<Rightarrow> u32 \<Rightarrow> sidecar_io"
  ge_sidecar_open :: "string \<Rightarrow> bool"
  ge_definition_hash :: "u32 \<times> string \<times> string \<times> u32 \<times> metric \<times> quant \<times> u32 option \<times> bool \<times> bool \<Rightarrow> string"
  ge_migration_chunk :: "'m \<Rightarrow> u64 \<Rightarrow> (string, unit) result"
  ge_migration_commit :: "'m \<Rightarrow> u64 \<Rightarrow> (string, unit) result"

definition arena_push :: "u32 list \<Rightarrow> vector_collection \<Rightarrow> nat" where
  "arena_push emb c = vc_arena_len c + (if vc_quant c = Binary then unat (vc_dim c) else length emb)"

definition retire_row :: "u64 \<Rightarrow> node_metadata \<Rightarrow> node_metadata" where
  "retire_row seq m = (if nm_retired_seq m = 0 then m\<lparr>nm_retired_seq := seq\<rparr> else m)"

definition push_row :: "u32 \<Rightarrow> string \<Rightarrow> u64 \<Rightarrow> vector_collection \<Rightarrow> u32 \<times> vector_collection" where
  "push_row node lang seq c =
     (let a = of_nat (length (vc_metadata c)) in
      (a, c\<lparr>vc_metadata := vc_metadata c @
        [\<lparr>nm_arena_id = a, nm_node_u32 = node, nm_vector_dim = vc_dim c,
          nm_embedding_offset = of_nat (vc_arena_len c), nm_lang = lang, nm_cluster_id = a,
          nm_created_seq = seq, nm_retired_seq = 0\<rparr>]\<rparr>))"

definition retire_displaced :: "u32 option \<Rightarrow> u64 \<Rightarrow> node_metadata list \<Rightarrow> node_metadata list" where
  "retire_displaced old seq meta =
     (case old of
        None \<Rightarrow> meta
      | Some a \<Rightarrow> if unat a < length meta then meta[unat a := retire_row seq (meta ! unat a)] else meta)"

definition stage ::
  "'m graph_env \<Rightarrow> u32 \<Rightarrow> u32 list \<Rightarrow> string \<Rightarrow> u64 \<Rightarrow> vector_collection
     \<Rightarrow> vector_collection \<times> (string, u32) result" where
  "stage env node emb lang seq c =
     (case (vc_sidecar c, ge_sidecar_write env (vc_name c) (of_nat (length (vc_metadata c)))) of
        (Some n, Sidecar_Err k e) \<Rightarrow>
          (c\<lparr>vc_arena_len := arena_push emb c, vc_sidecar := Some (n + k)\<rparr>,
           Inl (''COLLECTION_MATERIALIZATION_FAILED: '' @ e))
      | (sidecar, _) \<Rightarrow>
          (case push_row node lang seq c of
             (a, c1) \<Rightarrow>
               (c1\<lparr>vc_arena_len := arena_push emb c,
                   vc_sidecar := map_option (\<lambda>n. n + 4 * length emb) sidecar,
                   vc_metadata := retire_displaced (vc_node_to_arena c node) seq (vc_metadata c1),
                   vc_node_to_arena := (vc_node_to_arena c)(node \<mapsto> a),
                   vc_count := vc_count c + 1\<rparr>, Inr a)))"

definition stamp_retired :: "u32 \<Rightarrow> u64 \<Rightarrow> vector_collection \<Rightarrow> vector_collection" where
  "stamp_retired node seq c =
     c\<lparr>vc_metadata := map (\<lambda>m. if nm_node_u32 m = node \<and> nm_retired_seq m = 0
                                then m\<lparr>nm_retired_seq := seq\<rparr> else m) (vc_metadata c)\<rparr>"

definition collection_new ::
  "string \<Rightarrow> string \<Rightarrow> u16 \<Rightarrow> metric \<Rightarrow> quant \<Rightarrow> u32 option \<Rightarrow> bool \<Rightarrow> bool \<Rightarrow> bool \<Rightarrow> vector_collection" where
  "collection_new name model dim met q ef rerank opened calibrate =
     \<lparr>vc_name = name, vc_model = model, vc_dim = dim, vc_metric = met, vc_quant = q,
      vc_arena_len = 0, vc_metadata = [], vc_node_to_arena = Map.empty, vc_count = 0, vc_ef_search = ef,
      vc_sidecar = (if rerank \<and> (q = ScalarU8 \<or> q = Binary) \<and> opened then Some 0 else None),
      vc_bq_center = None, vc_sq8_calibrate = calibrate, vc_sq8_scale = None\<rparr>"

section \<open>The graph\<close>

record graph =
  g_store :: store
  g_local_peer :: string
  g_clock :: u32
  g_ids :: "string \<rightharpoonup> u32"
  g_next_u32 :: u32
  g_trigrams :: "string \<Rightarrow> u32 set"
  g_nodes :: "u32 \<rightharpoonup> node_output"
  g_edges :: "u128 \<rightharpoonup> edge_output"
  g_out :: "u32 \<Rightarrow> u128 set"
  g_in :: "u32 \<Rightarrow> u128 set"
  g_retired :: "u128 \<rightharpoonup> retired_edge"
  g_out_retired :: "string \<Rightarrow> u128 set"
  g_in_retired :: "string \<Rightarrow> u128 set"
  g_tombstones :: "string \<rightharpoonup> node_tombstone"
  g_default_collection :: string
  g_collections :: "string \<rightharpoonup> vector_collection"
  g_definitions :: "string \<rightharpoonup> collection_definition"
  g_jobs :: "(string \<times> u32 \<times> u32 list) list"

definition require_recovery :: "graph \<Rightarrow> graph" where
  "require_recovery g = g\<lparr>g_store := (g_store g)\<lparr>st_recovery_required := True\<rparr>\<rparr>"

definition fetch_max_clock :: "u32 \<Rightarrow> graph \<Rightarrow> graph" where
  "fetch_max_clock t g = g\<lparr>g_clock := max (g_clock g) t\<rparr>"

definition next_clock :: "graph \<Rightarrow> logical_clock \<times> graph" where
  "next_clock g = (LogicalClock (g_clock g + 1) (g_local_peer g), g\<lparr>g_clock := g_clock g + 1\<rparr>)"

definition get_or_intern_id :: "'m graph_env \<Rightarrow> string \<Rightarrow> graph \<Rightarrow> u32 \<times> graph" where
  "get_or_intern_id env i g =
     (case g_ids g i of
        Some u \<Rightarrow> (u, g)
      | None \<Rightarrow>
          let u = g_next_u32 g in
          (u, g\<lparr>g_next_u32 := u + 1, g_ids := (g_ids g)(i \<mapsto> u),
                g_trigrams := (\<lambda>t. if t \<in> set (ge_tokenize env i) then insert u (g_trigrams g t) else g_trigrams g t)\<rparr>))"

definition resolve_collection :: "string option \<Rightarrow> graph \<Rightarrow> (string, vector_collection) result" where
  "resolve_collection name g =
     (let n = (case name of Some n \<Rightarrow> n | None \<Rightarrow> g_default_collection g) in
      ok_or (''collection '' @ [CHR 0x27] @ n @ [CHR 0x27] @ '' not found'') (g_collections g n))"

definition enqueue_one :: "string \<Rightarrow> u32 \<Rightarrow> u32 list \<Rightarrow> graph \<Rightarrow> graph" where
  "enqueue_one name a emb g = g\<lparr>g_jobs := g_jobs g @ [(name, a, emb)]\<rparr>"

definition set_collection :: "string \<Rightarrow> vector_collection \<Rightarrow> graph \<Rightarrow> graph" where
  "set_collection name c g = g\<lparr>g_collections := (g_collections g)(name \<mapsto> c)\<rparr>"

definition replay_vector ::
  "'m graph_env \<Rightarrow> string option \<Rightarrow> string \<Rightarrow> u64 list \<Rightarrow> string \<Rightarrow> bool \<Rightarrow> u64 \<Rightarrow> graph \<Rightarrow> graph" where
  "replay_vector env collection node_id emb lang index seq g =
     (let name = (case collection of Some n \<Rightarrow> n | None \<Rightarrow> g_default_collection g) in
      case g_collections g name of
        None \<Rightarrow> require_recovery g
      | Some c \<Rightarrow>
          if length emb \<noteq> unat (vc_dim c) then require_recovery g
          else (case get_or_intern_id env node_id g of
                  (u, g1) \<Rightarrow>
                    let e = ge_prep env (vc_metric c) emb in
                    (case stage env u e lang seq c of
                       (c', r) \<Rightarrow>
                         let g2 = set_collection name c' g1 in
                         (case r of
                            Inl _ \<Rightarrow> require_recovery g2
                          | Inr a \<Rightarrow> if index then enqueue_one name a e g2 else g2))))"

definition replay_materialized_vector ::
  "'m graph_env \<Rightarrow> vector_event \<Rightarrow> bool \<Rightarrow> u64 \<Rightarrow> graph \<Rightarrow> graph \<times> (string, unit) result" where
  "replay_materialized_vector env v index seq g =
     (case resolve_collection (ve_collection v) g of
        Inl e \<Rightarrow> (g, Inl e)
      | Inr c \<Rightarrow>
          (case get_or_intern_id env (ve_node_id v) g of
             (u, g1) \<Rightarrow>
               let emb = map (ge_as_f32 env) (ve_embedding v);
                   name = (case ve_collection v of Some n \<Rightarrow> n | None \<Rightarrow> g_default_collection g) in
               (case stage env u emb (case ve_lang v of Some l \<Rightarrow> l | None \<Rightarrow> ''en'') seq c of
                  (c', Inl e) \<Rightarrow> (set_collection name c' g1, Inl e)
                | (c', Inr a) \<Rightarrow>
                    let g2 = set_collection name c' g1 in
                    (if index then enqueue_one name a emb g2 else g2, Inr ()))))"

section \<open>Nodes and edges\<close>

definition unlink_out :: "u128 \<Rightarrow> u32 \<Rightarrow> graph \<Rightarrow> graph" where
  "unlink_out k u g = g\<lparr>g_out := (g_out g)(u := g_out g u - {k})\<rparr>"

definition unlink_in :: "u128 \<Rightarrow> u32 \<Rightarrow> graph \<Rightarrow> graph" where
  "unlink_in k u g = g\<lparr>g_in := (g_in g)(u := g_in g u - {k})\<rparr>"

definition unlink_old_edge :: "u128 \<Rightarrow> graph \<Rightarrow> graph" where
  "unlink_old_edge k g =
     (case g_edges g k of
        None \<Rightarrow> g
      | Some old \<Rightarrow>
          let g1 = (case g_ids g (eo_from old) of None \<Rightarrow> g | Some u \<Rightarrow> unlink_out k u g) in
          (case g_ids g1 (eo_to old) of None \<Rightarrow> g1 | Some u \<Rightarrow> unlink_in k u g1))"

definition index_edge_internal :: "'m graph_env \<Rightarrow> string \<Rightarrow> string \<Rightarrow> string \<Rightarrow> graph \<Rightarrow> u128 \<times> graph" where
  "index_edge_internal env i from to g =
     (let k = ge_edge_key env i; g1 = unlink_old_edge k g in
      case get_or_intern_id env from g1 of
        (uf, g2) \<Rightarrow>
          (case get_or_intern_id env to g2 of
             (ut, g3) \<Rightarrow>
               (k, g3\<lparr>g_out := (g_out g3)(uf := insert k (g_out g3 uf)),
                      g_in := (g_in g3)(ut := insert k (g_in g3 ut))\<rparr>)))"

definition put_edge :: "'m graph_env \<Rightarrow> edge_output \<Rightarrow> graph \<Rightarrow> graph" where
  "put_edge env e g =
     (case index_edge_internal env (eo_id e) (eo_from e) (eo_to e) g of
        (k, g1) \<Rightarrow> g1\<lparr>g_edges := (g_edges g1)(k \<mapsto> e)\<rparr>)"

definition lean_props :: "(json_number \<Rightarrow> u64) \<Rightarrow> json \<Rightarrow> json" where
  "lean_props num props =
     (case props of
        JObject m \<Rightarrow>
          (case map_of m LEGACY_IMPACT_PROP of
             Some v \<Rightarrow> if as_f64 num v = None then JNull else props
           | None \<Rightarrow> JNull)
      | _ \<Rightarrow> JNull)"

definition insert_node_lean :: "'m graph_env \<Rightarrow> u32 \<Rightarrow> node_output \<Rightarrow> graph \<Rightarrow> graph" where
  "insert_node_lean env u n g =
     (case migrate_legacy_node_impact (ge_num env) n of
        Inl _ \<Rightarrow> require_recovery g
      | Inr m \<Rightarrow>
          g\<lparr>g_tombstones := (g_tombstones g)(no_id m := None),
            g_nodes := (g_nodes g)(u \<mapsto>
              m\<lparr>no_embedding := None, no_props := lean_props (ge_num env) (no_props m)\<rparr>)\<rparr>)"

definition insert_node_lean_snapshot :: "'m graph_env \<Rightarrow> u32 \<Rightarrow> node_output \<Rightarrow> graph \<Rightarrow> graph" where
  "insert_node_lean_snapshot env u n g =
     (if no_props n = JNull \<and> (case no_impact n of Impact_Number _ \<Rightarrow> True | _ \<Rightarrow> False)
      then g\<lparr>g_tombstones := (g_tombstones g)(no_id n := None),
             g_nodes := (g_nodes g)(u \<mapsto> n\<lparr>no_embedding := None\<rparr>)\<rparr>
      else insert_node_lean env u n g)"

text \<open>Retracting a node. The code walks two hash sets; here they are walked in increasing order, and
  \<open>retire_edges_set\<close> shows that the order does not matter.\<close>

definition retire_edge :: "u64 \<Rightarrow> u128 \<Rightarrow> graph \<Rightarrow> graph" where
  "retire_edge seq k g =
     (case g_edges g k of
        None \<Rightarrow> g
      | Some e \<Rightarrow>
          let g1 = (case (g_ids g (eo_from e), g_ids g (eo_to e)) of
                      (Some uf, Some ut) \<Rightarrow> unlink_in k ut (unlink_out k uf g)
                    | _ \<Rightarrow> g) in
          g1\<lparr>g_edges := (g_edges g1)(k := None),
             g_out_retired := (g_out_retired g1)(eo_from e := insert k (g_out_retired g1 (eo_from e))),
             g_in_retired := (g_in_retired g1)(eo_to e := insert k (g_in_retired g1 (eo_to e))),
             g_retired := (g_retired g1)(k \<mapsto> \<lparr>re_edge = e, re_retired_seq = seq\<rparr>)\<rparr>)"

definition retract_node_memory :: "string \<Rightarrow> u32 \<Rightarrow> u64 \<Rightarrow> graph \<Rightarrow> graph" where
  "retract_node_memory i u seq g =
     (let g1 = fold (retire_edge seq) (sorted_list_of_set (g_out g u) @ sorted_list_of_set (g_in g u)) g in
      g1\<lparr>g_ids := (g_ids g1)(i := None),
         g_out := (g_out g1)(u := {}),
         g_in := (g_in g1)(u := {}),
         g_collections := (\<lambda>name. map_option (\<lambda>c.
             stamp_retired u seq (c\<lparr>vc_node_to_arena := (vc_node_to_arena c)(u := None)\<rparr>)) (g_collections g1 name)),
         g_nodes := (g_nodes g1)(u := None)\<rparr>)"

section \<open>Collections of the database\<close>

definition definition_hash :: "'m graph_env \<Rightarrow> collection_definition \<Rightarrow> string" where
  "definition_hash env d = ge_definition_hash env
     (cd_version d, cd_name d, cd_model d, cd_dim d, cd_metric d, cd_quant d, cd_ef_search d, cd_rerank d,
      cd_sq8_calibrate d)"

definition validate_collection_name :: "string \<Rightarrow> (string, unit) result" where
  "validate_collection_name name =
     (if name = [] then Inl ''collection name must not be empty''
      else if length name > 64 then Inl ''collection name too long''
      else if list_ex (\<lambda>c. \<not> (is_ascii_alphanumeric c \<or> c = CHR ''_'' \<or> c = CHR ''-'')) name
      then Inl ''collection name contains disallowed character''
      else if hd name = CHR ''-'' then Inl ''collection name must not start with -''
      else Inr ())"

definition definition_validate :: "'m graph_env \<Rightarrow> collection_definition \<Rightarrow> (string, unit) result" where
  "definition_validate env d =
     rbind (validate_collection_name (cd_name d)) (\<lambda>_.
       guard_err (cd_version d \<noteq> 1 \<or> cd_dim d = 0 \<or> cd_dim d > 65535
           \<or> (cd_sq8_calibrate d \<and> cd_quant d \<noteq> ScalarU8)
           \<or> (cd_rerank d \<and> \<not> (cd_quant d = ScalarU8 \<or> cd_quant d = Binary))
           \<or> definition_hash env d \<noteq> cd_definition_hash d)
         ''COLLECTION_DEFINITION_INVALID'')"

definition definition_for :: "'m graph_env \<Rightarrow> graph \<Rightarrow> vector_collection \<Rightarrow> collection_definition" where
  "definition_for env g c =
     (case g_definitions g (vc_name c) of
        Some d \<Rightarrow> d
      | None \<Rightarrow>
          let d = \<lparr>cd_version = 1, cd_name = vc_name c, cd_model = vc_model c, cd_dim = ucast (vc_dim c),
                   cd_metric = vc_metric c, cd_quant = vc_quant c, cd_ef_search = vc_ef_search c,
                   cd_rerank = (vc_sidecar c \<noteq> None), cd_sq8_calibrate = vc_sq8_calibrate c,
                   cd_definition_hash = [], cd_clock = LogicalClock 0 (g_local_peer g),
                   cd_provenance = ''legacy-manifest''\<rparr> in
          d\<lparr>cd_definition_hash := definition_hash env d\<rparr>)"

definition apply_collection_definition ::
  "'m graph_env \<Rightarrow> collection_definition \<Rightarrow> graph \<Rightarrow> graph \<times> (string, unit) result" where
  "apply_collection_definition env d g =
     (case definition_validate env d of
        Inl e \<Rightarrow> (g, Inl e)
      | Inr _ \<Rightarrow>
          (case g_definitions g (cd_name d) of
             Some existing \<Rightarrow>
               if cd_definition_hash existing \<noteq> cd_definition_hash d
               then (g, Inl (''COLLECTION_DEFINITION_CONFLICT: '' @ cd_name d))
               else if clock_time (cd_clock d) > clock_time (cd_clock existing)
               then (g\<lparr>g_definitions := (g_definitions g)(cd_name d \<mapsto> d)\<rparr>, Inr ())
               else (g, Inr ())
           | None \<Rightarrow>
               let needs_create = (case g_collections g (cd_name d) of
                                     None \<Rightarrow> True
                                   | Some c \<Rightarrow> definition_hash env (definition_for env g c) \<noteq> definition_hash env d);
                   commit = (\<lambda>g'. (g'\<lparr>g_clock := max (g_clock g') (clock_time (cd_clock d)),
                                       g_definitions := (g_definitions g')(cd_name d \<mapsto> d)\<rparr>, Inr ())) in
               if \<not> needs_create then commit g
               else if (case g_collections g (cd_name d) of None \<Rightarrow> False | Some c \<Rightarrow> vc_count c > 0)
               then (g, Inl (''COLLECTION_DEFINITION_CONFLICT: '' @ cd_name d))
               else (let c = collection_new (cd_name d) (cd_model d) (ucast (cd_dim d)) (cd_metric d) (cd_quant d)
                               (cd_ef_search d) (cd_rerank d) (ge_sidecar_open env (cd_name d)) (cd_sq8_calibrate d) in
                     if cd_rerank d \<and> vc_sidecar c = None
                     then (g, Inl ''COLLECTION_MATERIALIZATION_FAILED: sidecar unavailable'')
                     else commit (set_collection (cd_name d) c g))))"

definition apply_collection_materialization ::
  "'m graph_env \<Rightarrow> collection_materialization \<Rightarrow> graph \<Rightarrow> graph \<times> (string, unit) result" where
  "apply_collection_materialization env m g =
     (case apply_collection_definition env (cm_definition m) g of
        (g1, Inl e) \<Rightarrow> (g1, Inl e)
      | (g1, Inr _) \<Rightarrow>
          (case resolve_collection (Some (cd_name (cm_definition m))) g1 of
             Inl e \<Rightarrow> (g1, Inl e)
           | Inr c \<Rightarrow>
               (if vc_count c = 0
                then set_collection (cd_name (cm_definition m))
                       (c\<lparr>vc_bq_center := cm_bq_center m, vc_sq8_scale := cm_sq8_scale m\<rparr>) g1
                else g1, Inr ())))"

section \<open>Events\<close>

definition or_recovery :: "graph \<times> (string, unit) result \<Rightarrow> graph" where
  "or_recovery p = (case p of (g, Inl _) \<Rightarrow> require_recovery g | (g, Inr _) \<Rightarrow> g)"

definition live_node :: "graph \<Rightarrow> string \<Rightarrow> node_output option" where
  "live_node g i = Option.bind (g_ids g i) (g_nodes g)"

definition lang_or_en :: "string option \<Rightarrow> string" where
  "lang_or_en l = (case l of Some s \<Rightarrow> s | None \<Rightarrow> ''en'')"

definition replay_node_vector :: "'m graph_env \<Rightarrow> node_output \<Rightarrow> bool \<Rightarrow> u64 \<Rightarrow> graph \<Rightarrow> graph" where
  "replay_node_vector env n index seq g =
     (case no_embedding n of
        None \<Rightarrow> g
      | Some emb \<Rightarrow> replay_vector env (no_collection n) (no_id n) emb (lang_or_en (no_lang n)) index seq g)"

definition apply_node :: "'m graph_env \<Rightarrow> u64 \<Rightarrow> node_output \<Rightarrow> bool \<Rightarrow> graph \<Rightarrow> graph" where
  "apply_node env seq n index g =
     (if (case live_node g (no_id n) of Some old \<Rightarrow> no_clock old > no_clock n | None \<Rightarrow> False)
         \<or> (case g_tombstones g (no_id n) of Some t \<Rightarrow> nt_clock t \<ge> no_clock n | None \<Rightarrow> False)
      then g
      else (case get_or_intern_id env (no_id n) g of
              (u, g1) \<Rightarrow> insert_node_lean env u n (replay_node_vector env n index seq g1)))"

definition edge_is_stale :: "'m graph_env \<Rightarrow> edge_output \<Rightarrow> graph \<Rightarrow> bool" where
  "edge_is_stale env e g \<longleftrightarrow>
     (case g_edges g (ge_edge_key env (eo_id e)) of Some old \<Rightarrow> eo_clock old > eo_clock e | None \<Rightarrow> False)"

definition apply_edge :: "'m graph_env \<Rightarrow> edge_output \<Rightarrow> graph \<Rightarrow> graph" where
  "apply_edge env e0 g =
     (case migrate_legacy_edge_impact (ge_num env) e0 of
        Inl _ \<Rightarrow> require_recovery g
      | Inr e \<Rightarrow> if edge_is_stale env e g then g else put_edge env e g)"

definition retract_and_bury :: "string \<Rightarrow> logical_clock \<Rightarrow> string \<Rightarrow> u64 \<Rightarrow> graph \<Rightarrow> graph" where
  "retract_and_bury i clock at seq g =
     (let g1 = (case g_ids g i of Some u \<Rightarrow> retract_node_memory i u seq g | None \<Rightarrow> g) in
      g1\<lparr>g_tombstones := (g_tombstones g1)(i \<mapsto> \<lparr>nt_clock = clock, nt_retracted_at = at\<rparr>)\<rparr>)"

definition apply_node_retract :: "u64 \<Rightarrow> string \<Rightarrow> logical_clock \<Rightarrow> string \<Rightarrow> graph \<Rightarrow> graph" where
  "apply_node_retract seq i clock at g =
     (if (case live_node g i of Some n \<Rightarrow> no_clock n > clock | None \<Rightarrow> False)
         \<or> (case g_tombstones g i of Some t \<Rightarrow> nt_clock t \<ge> clock | None \<Rightarrow> False)
      then g else retract_and_bury i clock at seq g)"

definition apply_vector :: "'m graph_env \<Rightarrow> vector_event \<Rightarrow> bool \<Rightarrow> u64 \<Rightarrow> graph \<Rightarrow> graph" where
  "apply_vector env v index seq g =
     replay_vector env (ve_collection v) (ve_node_id v) (ve_embedding v) (lang_or_en (ve_lang v)) index seq g"

definition transaction_node :: "'m graph_env \<Rightarrow> bool \<Rightarrow> u64 \<Rightarrow> node_output \<Rightarrow> graph \<Rightarrow> graph" where
  "transaction_node env index seq n g =
     (case get_or_intern_id env (no_id n) g of
        (u, g1) \<Rightarrow> insert_node_lean env u n (replay_node_vector env n index seq g1))"

definition transaction_edge :: "'m graph_env \<Rightarrow> edge_output \<Rightarrow> graph \<Rightarrow> graph" where
  "transaction_edge env e g = (if edge_is_stale env e g then g else put_edge env e g)"

definition fetch_max_event_clock :: "'m db_event \<Rightarrow> graph \<Rightarrow> graph" where
  "fetch_max_event_clock ev g = (case event_time ev of Some t \<Rightarrow> fetch_max_clock t g | None \<Rightarrow> g)"

definition apply_transaction_memory ::
  "'m graph_env \<Rightarrow> transaction_event \<Rightarrow> bool \<Rightarrow> u64 \<Rightarrow> graph \<Rightarrow> graph" where
  "apply_transaction_memory env t index seq g =
     (case collect_results (map (migrate_legacy_node_impact (ge_num env)) (te_nodes t)) of
        Inl _ \<Rightarrow> require_recovery g
      | Inr nodes \<Rightarrow>
          (case collect_results (map (migrate_legacy_edge_impact (ge_num env)) (te_edges t)) of
             Inl _ \<Rightarrow> require_recovery g
           | Inr edges \<Rightarrow>
               (let g1 = fold (transaction_node env index seq) nodes g;
                    g2 = fetch_max_event_clock (Ev_Transaction t :: 'm db_event) g1;
                    g3 = fold (transaction_edge env) edges g2;
                    g4 = fold (\<lambda>r. retract_and_bury (nr_id r) (nr_clock r) (nr_retracted_at r) seq)
                           (te_node_retractions t) g3 in
                fold (\<lambda>v. apply_vector env v index seq) (te_vectors t) g4)))"

definition apply_store_event ::
  "store \<times> (string, unit) result \<Rightarrow> graph \<Rightarrow> graph" where
  "apply_store_event p g = or_recovery (g\<lparr>g_store := fst p\<rparr>, snd p)"

fun apply_event_memory :: "'m graph_env \<Rightarrow> u64 \<Rightarrow> bool \<Rightarrow> 'm db_event \<Rightarrow> graph \<Rightarrow> graph" where
  "apply_event_memory env seq index ev g0 =
     (let g = fetch_max_event_clock ev g0 in
      case ev of
        Ev_CollectionDefinition d \<Rightarrow> or_recovery (apply_collection_definition env d g)
      | Ev_CollectionMaterialization m \<Rightarrow> or_recovery (apply_collection_materialization env m g)
      | Ev_VectorMaterialized v \<Rightarrow> or_recovery (replay_materialized_vector env v index seq g)
      | Ev_Node n \<Rightarrow> apply_node env seq n index g
      | Ev_Edge e \<Rightarrow> apply_edge env e g
      | Ev_Vector v \<Rightarrow> apply_vector env v index seq g
      | Ev_Batch es \<Rightarrow> fold (apply_event_memory env seq index) es g
      | Ev_RelationalSchema _ \<Rightarrow> g
      | Ev_RelationalRows _ \<Rightarrow> g
      | Ev_Transaction t \<Rightarrow>
          let tseq = (case te_local_frame_seq t of Some s \<Rightarrow> s | None \<Rightarrow> seq);
              g1 = apply_transaction_memory env t index tseq g in
          if te_advances_txn_frontier t
          then g1\<lparr>g_store := (g_store g1)\<lparr>st_txn_frontier := max (st_txn_frontier (g_store g1)) tseq\<rparr>\<rparr>
          else g1
      | Ev_NodeRetract i clock at \<Rightarrow> apply_node_retract seq i clock at g
      | Ev_GenerationPublished r \<Rightarrow> apply_store_event (apply_generation_event (g_store g) r seq) g
      | Ev_AccessPolicyChanged p \<Rightarrow> apply_store_event (apply_access_policy_event (g_store g) p) g
      | Ev_Schema6MigrationChunk m \<Rightarrow> or_recovery (g, ge_migration_chunk env m seq)
      | Ev_Schema6MigrationCommit m \<Rightarrow> or_recovery (g, ge_migration_commit env m seq)
      | Ev_Schema6Activation _ \<Rightarrow> g)"

definition replay_events :: "'m graph_env \<Rightarrow> bool \<Rightarrow> (u64 \<times> 'm db_event) list \<Rightarrow> graph \<Rightarrow> graph" where
  "replay_events env index frames g = fold (\<lambda>(seq, ev). apply_event_memory env seq index ev) frames g"

end
