(* ===== verification/GB_Graph_Inv.thy ===== *)
theory GB_Graph_Inv
  imports GB_Graph_State
begin

text \<open>
  The invariant of the live graph and its preservation by every event: ids are interned injectively,
  both adjacency indexes hold exactly the live edges under the numbers of their endpoints, a node is
  stored under the number of its id, a tombstone excludes a live node, and every retired edge is found
  from both of its endpoints. The interner counts in 32 bits, so the lemmas ask for room for the ids an
  event may intern.
\<close>

declare apply_event_memory.simps [simp del]

section \<open>Adjacency indexes\<close>

definition index_ok ::
  "(string \<rightharpoonup> u32) \<Rightarrow> (u128 \<rightharpoonup> edge_output) \<Rightarrow> (edge_output \<Rightarrow> string) \<Rightarrow> (u32 \<Rightarrow> u128 set) \<Rightarrow> bool" where
  "index_ok ids edges endpoint idx \<longleftrightarrow>
     (\<forall>k u. k \<in> idx u \<longleftrightarrow> (\<exists>e. edges k = Some e \<and> ids (endpoint e) = Some u))
     \<and> (\<forall>k e. edges k = Some e \<longrightarrow> ids (endpoint e) \<noteq> None)"

lemma index_ok_iff:
  "index_ok ids edges endpoint idx \<Longrightarrow> k \<in> idx u \<longleftrightarrow> (\<exists>e. edges k = Some e \<and> ids (endpoint e) = Some u)"
  by (simp add: index_ok_def)

lemma index_ok_known:
  "index_ok ids edges endpoint idx \<Longrightarrow> edges k = Some e \<Longrightarrow> \<exists>u. ids (endpoint e) = Some u"
  by (auto simp: index_ok_def)

lemma index_ok_remove:
  assumes "index_ok ids edges endpoint idx" "edges k = Some e" "ids (endpoint e) = Some u"
  shows "index_ok ids (edges(k := None)) endpoint (idx(u := idx u - {k}))"
  using assms by (auto simp: index_ok_def)

lemma index_ok_absent:
  "index_ok ids edges endpoint idx \<Longrightarrow> edges k = None \<Longrightarrow> index_ok ids (edges(k := None)) endpoint idx"
  by (simp add: fun_upd_idem)

lemma index_ok_ids_cong:
  assumes "index_ok ids edges endpoint idx" "\<And>k e. edges k = Some e \<Longrightarrow> ids' (endpoint e) = ids (endpoint e)"
  shows "index_ok ids' edges endpoint idx"
proof -
  have "(\<exists>e. edges k = Some e \<and> ids' (endpoint e) = Some u) \<longleftrightarrow> (\<exists>e. edges k = Some e \<and> ids (endpoint e) = Some u)"
    for k u using assms(2) by metis
  then show ?thesis using assms by (simp add: index_ok_def)
qed

lemma index_ok_intern:
  assumes "index_ok ids edges endpoint idx" "ids i = None"
  shows "index_ok (ids(i \<mapsto> u)) edges endpoint idx"
  using assms(1)
proof (rule index_ok_ids_cong)
  fix k e assume "edges k = Some e"
  then show "(ids(i \<mapsto> u)) (endpoint e) = ids (endpoint e)"
    using index_ok_known [OF assms(1)] assms(2) by (metis fun_upd_other option.distinct(1))
qed

lemma index_ok_insert:
  assumes "index_ok ids edges endpoint idx" "edges k = None" "ids (endpoint e) = Some u"
  shows "index_ok ids (edges(k \<mapsto> e)) endpoint (idx(u := insert k (idx u)))"
  using assms by (auto simp: index_ok_def)

lemma index_ok_forget:
  assumes "index_ok ids edges endpoint idx" "ids i = Some u"
    and "\<And>j. ids j = Some u \<Longrightarrow> j = i" "\<And>k e. edges k = Some e \<Longrightarrow> endpoint e \<noteq> i"
  shows "index_ok (ids(i := None)) edges endpoint (idx(u := {}))"
proof -
  have "idx u = {}" using assms index_ok_iff [OF assms(1)] by blast
  then have "idx(u := {}) = idx" by (simp add: fun_upd_idem)
  moreover have "index_ok (ids(i := None)) edges endpoint idx"
    using assms(1) by (rule index_ok_ids_cong) (use assms(4) in auto)
  ultimately show ?thesis by simp
qed

section \<open>The invariant\<close>

definition ids_ok :: "(string \<rightharpoonup> u32) \<Rightarrow> u32 \<Rightarrow> bool" where
  "ids_ok ids nxt \<longleftrightarrow> (\<forall>i u. ids i = Some u \<longrightarrow> u < nxt) \<and> (\<forall>i j u. ids i = Some u \<longrightarrow> ids j = Some u \<longrightarrow> i = j)"

definition nodes_ok :: "(string \<rightharpoonup> u32) \<Rightarrow> (u32 \<rightharpoonup> node_output) \<Rightarrow> (string \<rightharpoonup> node_tombstone) \<Rightarrow> bool" where
  "nodes_ok ids nodes tombs \<longleftrightarrow>
     (\<forall>u n. nodes u = Some n \<longrightarrow> ids (no_id n) = Some u \<and> tombs (no_id n) = None)"

definition retired_ok :: "(u128 \<rightharpoonup> retired_edge) \<Rightarrow> (string \<Rightarrow> u128 set) \<Rightarrow> (string \<Rightarrow> u128 set) \<Rightarrow> bool" where
  "retired_ok retired out_retired in_retired \<longleftrightarrow>
     (\<forall>k r. retired k = Some r \<longrightarrow>
        k \<in> out_retired (eo_from (re_edge r)) \<and> k \<in> in_retired (eo_to (re_edge r)))"

definition graph_wf :: "graph \<Rightarrow> bool" where
  "graph_wf g \<longleftrightarrow>
     ids_ok (g_ids g) (g_next_u32 g)
     \<and> index_ok (g_ids g) (g_edges g) eo_from (g_out g)
     \<and> index_ok (g_ids g) (g_edges g) eo_to (g_in g)
     \<and> nodes_ok (g_ids g) (g_nodes g) (g_tombstones g)
     \<and> retired_ok (g_retired g) (g_out_retired g) (g_in_retired g)"

text \<open>Room for \<open>n\<close> more interned ids.\<close>

definition room :: "nat \<Rightarrow> graph \<Rightarrow> bool" where
  "room n g \<longleftrightarrow> unat (g_next_u32 g) + n < 2 ^ 32"

lemma room_mono: "room n g \<Longrightarrow> m \<le> n \<Longrightarrow> room m g"
  by (simp add: room_def)

section \<open>Interning\<close>

lemma intern_wf:
  assumes "graph_wf g" "room (Suc n) g" "get_or_intern_id env i g = (u, g')"
  shows "graph_wf g'" "room n g'" "g_ids g' i = Some u" "g_ids g \<subseteq>\<^sub>m g_ids g'"
    "g_edges g' = g_edges g" "g_nodes g' = g_nodes g" "g_tombstones g' = g_tombstones g"
    "g_out g' = g_out g" "g_in g' = g_in g" "g_collections g' = g_collections g"
    "g_retired g' = g_retired g" "g_out_retired g' = g_out_retired g" "g_in_retired g' = g_in_retired g"
proof -
  show fields: "g_edges g' = g_edges g" "g_nodes g' = g_nodes g" "g_tombstones g' = g_tombstones g"
    "g_out g' = g_out g" "g_in g' = g_in g" "g_collections g' = g_collections g"
    "g_retired g' = g_retired g" "g_out_retired g' = g_out_retired g" "g_in_retired g' = g_in_retired g"
    using assms(3) by (auto simp: get_or_intern_id_def Let_def split: option.splits)
  have "graph_wf g' \<and> room n g' \<and> g_ids g' i = Some u \<and> g_ids g \<subseteq>\<^sub>m g_ids g'"
  proof (cases "g_ids g i")
    case None
    have ids: "g_ids g' = (g_ids g)(i \<mapsto> g_next_u32 g)" and nxt: "g_next_u32 g' = g_next_u32 g + 1"
      and u: "u = g_next_u32 g"
      using assms(3) None by (auto simp: get_or_intern_id_def Let_def)
    have step: "unat (g_next_u32 g + 1) = unat (g_next_u32 g) + 1"
      using assms(2) by (simp add: room_def unat_word_ariths)
    then have lt: "v < g_next_u32 g + 1 \<longleftrightarrow> v \<le> g_next_u32 g" for v
      by (simp add: word_less_nat_alt word_le_nat_alt less_Suc_eq_le)
    have "ids_ok (g_ids g') (g_next_u32 g')"
      using assms(1) by (auto simp: ids nxt lt graph_wf_def ids_ok_def less_imp_le)
    moreover have "nodes_ok (g_ids g') (g_nodes g') (g_tombstones g')"
      using assms(1) None by (force simp: ids fields graph_wf_def nodes_ok_def)
    ultimately have "graph_wf g'"
      using assms(1) None by (simp add: graph_wf_def fields ids index_ok_intern)
    moreover have "room n g'" using assms(2) step by (simp add: room_def nxt)
    ultimately show ?thesis using None u by (auto simp: ids map_le_def)
  next
    case (Some v)
    then show ?thesis using assms room_mono [of "Suc n" g n] by (simp add: get_or_intern_id_def)
  qed
  then show "graph_wf g'" "room n g'" "g_ids g' i = Some u" "g_ids g \<subseteq>\<^sub>m g_ids g'" by auto
qed

section \<open>Edges\<close>

lemma intern_edges_update:
  "get_or_intern_id env i (g\<lparr>g_edges := E\<rparr>)
     = (fst (get_or_intern_id env i g), (snd (get_or_intern_id env i g))\<lparr>g_edges := E\<rparr>)"
  by (simp add: get_or_intern_id_def Let_def cong: if_cong split: option.splits)

lemma unlink_fields [simp]:
  "g_ids (unlink_out k u g) = g_ids g" "g_ids (unlink_in k u g) = g_ids g"
  "g_edges (unlink_out k u g) = g_edges g" "g_edges (unlink_in k u g) = g_edges g"
  by (simp_all add: unlink_out_def unlink_in_def)

lemma unlink_old_edge_wf:
  assumes "graph_wf g"
  shows "graph_wf ((unlink_old_edge k g)\<lparr>g_edges := (g_edges g)(k := None)\<rparr>)"
    "g_next_u32 (unlink_old_edge k g) = g_next_u32 g" "g_edges (unlink_old_edge k g) = g_edges g"
proof -
  show "g_next_u32 (unlink_old_edge k g) = g_next_u32 g" "g_edges (unlink_old_edge k g) = g_edges g"
    by (auto simp: unlink_old_edge_def unlink_out_def unlink_in_def Let_def split: option.splits)
  show "graph_wf ((unlink_old_edge k g)\<lparr>g_edges := (g_edges g)(k := None)\<rparr>)"
  proof (cases "g_edges g k")
    case None
    then show ?thesis using assms by (simp add: unlink_old_edge_def graph_wf_def index_ok_absent)
  next
    case (Some e)
    obtain uf ut where u: "g_ids g (eo_from e) = Some uf" "g_ids g (eo_to e) = Some ut"
      using assms Some unfolding graph_wf_def by (metis index_ok_known)
    show ?thesis
      using assms Some u index_ok_remove [of "g_ids g" "g_edges g" eo_from "g_out g" k e uf]
        index_ok_remove [of "g_ids g" "g_edges g" eo_to "g_in g" k e ut]
      by (simp add: unlink_old_edge_def graph_wf_def unlink_out_def unlink_in_def)
  qed
qed

lemma put_edge_wf:
  assumes "graph_wf g" "room (Suc (Suc n)) g"
  shows "graph_wf (put_edge env e g)" "room n (put_edge env e g)"
proof -
  let ?k = "ge_edge_key env (eo_id e)"
  let ?h = "(unlink_old_edge ?k g)\<lparr>g_edges := (g_edges g)(?k := None)\<rparr>"
  obtain uf h2 where i1: "get_or_intern_id env (eo_from e) ?h = (uf, h2)" by (cases "get_or_intern_id env (eo_from e) ?h")
  obtain ut h3 where i2: "get_or_intern_id env (eo_to e) h2 = (ut, h3)" by (cases "get_or_intern_id env (eo_to e) h2")
  have h: "graph_wf ?h" "room (Suc (Suc n)) ?h"
    using unlink_old_edge_wf [OF assms(1)] assms(2) by (simp_all add: room_def)
  note h2 = intern_wf [OF h i1]
  note h3 = intern_wf [OF h2(1,2) i2]
  have ids: "g_ids h3 (eo_from e) = Some uf" "g_ids h3 (eo_to e) = Some ut"
    using h2(3) h3(3,4) by (metis domI map_le_def)+
  have E: "g_edges h3 = (g_edges g)(?k := None)" using h2(5) h3(5) by simp
  have put: "put_edge env e g = h3\<lparr>g_edges := (g_edges h3)(?k \<mapsto> e),
      g_out := (g_out h3)(uf := insert ?k (g_out h3 uf)), g_in := (g_in h3)(ut := insert ?k (g_in h3 ut))\<rparr>"
  proof -
    define g1 where "g1 = unlink_old_edge ?k g"
    define g2 where "g2 = snd (get_or_intern_id env (eo_from e) g1)"
    define g3 where "g3 = snd (get_or_intern_id env (eo_to e) g2)"
    have r1: "uf = fst (get_or_intern_id env (eo_from e) g1)" "h2 = g2\<lparr>g_edges := (g_edges g)(?k := None)\<rparr>"
      using i1 by (simp_all add: intern_edges_update g1_def g2_def)
    have r2: "ut = fst (get_or_intern_id env (eo_to e) g2)" "h3 = g3\<lparr>g_edges := (g_edges g)(?k := None)\<rparr>"
      using i2 by (simp_all add: intern_edges_update r1(2) g3_def)
    have "g_edges g3 = g_edges g2" "g_edges g2 = g_edges g1" "g_edges g1 = g_edges g"
      using unlink_old_edge_wf(3) [OF assms(1)]
      by (auto simp: g1_def g2_def g3_def get_or_intern_id_def Let_def split: option.splits)
    then show ?thesis
      by (simp add: put_edge_def index_edge_internal_def Let_def split_def r1(1) r2 g3_def g2_def
          flip: g1_def)
  qed
  have none: "g_edges h3 ?k = None" by (simp add: E)
  show "graph_wf (put_edge env e g)"
    using h3(1) none ids index_ok_insert [of "g_ids h3" "g_edges h3" eo_from "g_out h3" ?k e uf]
      index_ok_insert [of "g_ids h3" "g_edges h3" eo_to "g_in h3" ?k e ut]
    unfolding graph_wf_def put by simp
  show "room n (put_edge env e g)" using h3(2) by (simp add: put room_def)
qed

section \<open>Nodes\<close>

lemma insert_node_lean_wf:
  assumes "graph_wf g" "g_ids g (no_id n) = Some u"
  shows "graph_wf (insert_node_lean env u n g)"
proof (cases "migrate_legacy_node_impact (ge_num env) n")
  case (Inl e)
  then show ?thesis using assms(1) by (simp add: insert_node_lean_def require_recovery_def graph_wf_def)
next
  case (Inr m)
  have "nodes_ok (g_ids g) (g_nodes g) (g_tombstones g)" using assms(1) by (simp add: graph_wf_def)
  then have "nodes_ok (g_ids g) (g_nodes (insert_node_lean env u n g)) (g_tombstones (insert_node_lean env u n g))"
    using Inr migrate_node_Inr(1) [OF Inr] assms(2) by (auto simp: nodes_ok_def insert_node_lean_def)
  then show ?thesis using assms(1) Inr by (simp add: graph_wf_def insert_node_lean_def)
qed

lemma require_recovery_wf [simp]:
  "graph_wf (require_recovery g) \<longleftrightarrow> graph_wf g" "room n (require_recovery g) \<longleftrightarrow> room n g"
  by (simp_all add: require_recovery_def graph_wf_def room_def)

lemma insert_node_lean_room [simp]: "room n (insert_node_lean env u m g) \<longleftrightarrow> room n g"
  by (simp add: insert_node_lean_def room_def require_recovery_def split: sum.splits)

section \<open>Retraction\<close>

lemma retired_ok_insert:
  assumes "retired_ok R outs ins"
  shows "retired_ok (R(k \<mapsto> r)) (outs(eo_from (re_edge r) := insert k (outs (eo_from (re_edge r)))))
           (ins(eo_to (re_edge r) := insert k (ins (eo_to (re_edge r)))))"
  unfolding retired_ok_def
proof (intro allI impI)
  fix j s assume "(R(k \<mapsto> r)) j = Some s"
  then consider "j = k" "s = r" | "R j = Some s" by (cases "j = k") simp_all
  then show "j \<in> (outs(eo_from (re_edge r) := insert k (outs (eo_from (re_edge r))))) (eo_from (re_edge s))
      \<and> j \<in> (ins(eo_to (re_edge r) := insert k (ins (eo_to (re_edge r))))) (eo_to (re_edge s))"
  proof cases
    case 2
    then have "j \<in> outs (eo_from (re_edge s))" "j \<in> ins (eo_to (re_edge s))"
      using assms by (auto simp: retired_ok_def)
    then show ?thesis by (metis fun_upd_apply insertCI)
  qed simp
qed

lemma retire_edge_wf:
  assumes "graph_wf g" shows "graph_wf (retire_edge seq k g)"
proof (cases "g_edges g k")
  case None
  then show ?thesis using assms by (simp add: retire_edge_def)
next
  case (Some e)
  obtain uf ut where u: "g_ids g (eo_from e) = Some uf" "g_ids g (eo_to e) = Some ut"
    using assms Some unfolding graph_wf_def by (metis index_ok_known)
  have "retired_ok (g_retired g) (g_out_retired g) (g_in_retired g)" using assms by (simp add: graph_wf_def)
  from retired_ok_insert [OF this, of k "\<lparr>re_edge = e, re_retired_seq = seq\<rparr>"] show ?thesis
    using assms Some u index_ok_remove [of "g_ids g" "g_edges g" eo_from "g_out g" k e uf]
      index_ok_remove [of "g_ids g" "g_edges g" eo_to "g_in g" k e ut]
    by (simp add: retire_edge_def graph_wf_def unlink_out_def unlink_in_def)
qed

lemma retire_edge_fields [simp]:
  "g_ids (retire_edge seq k g) = g_ids g" "g_next_u32 (retire_edge seq k g) = g_next_u32 g"
  "g_nodes (retire_edge seq k g) = g_nodes g" "g_tombstones (retire_edge seq k g) = g_tombstones g"
  "g_edges (retire_edge seq k g) = (g_edges g)(k := None)"
  by (auto simp: retire_edge_def Let_def unlink_out_def unlink_in_def split: option.splits)

lemma retire_edges_fields [simp]:
  "g_ids (fold (retire_edge seq) ks g) = g_ids g" "g_next_u32 (fold (retire_edge seq) ks g) = g_next_u32 g"
  "g_nodes (fold (retire_edge seq) ks g) = g_nodes g" "g_tombstones (fold (retire_edge seq) ks g) = g_tombstones g"
  "g_edges (fold (retire_edge seq) ks g) = (\<lambda>k. if k \<in> set ks then None else g_edges g k)"
  by (induction ks arbitrary: g) (auto simp: fun_eq_iff)

lemma retire_edges_wf: "graph_wf g \<Longrightarrow> graph_wf (fold (retire_edge seq) ks g)"
  by (induction ks arbitrary: g) (simp_all add: retire_edge_wf)

lemma retract_node_memory_wf:
  assumes "graph_wf g" "g_ids g i = Some u"
  shows "graph_wf (retract_node_memory i u seq g)"
proof -
  define g1 where "g1 = fold (retire_edge seq) (sorted_list_of_set (g_out g u) @ sorted_list_of_set (g_in g u)) g"
  have wf: "graph_wf g1" unfolding g1_def by (rule retire_edges_wf [OF assms(1)])
  have ids: "g_ids g1 = g_ids g" and E: "g_edges g1 = (\<lambda>k. if k \<in> g_out g u \<union> g_in g u then None else g_edges g k)"
    by (simp_all add: g1_def fun_eq_iff del: fold_append)
  have inj: "\<And>j. g_ids g1 j = Some u \<Longrightarrow> j = i"
    using assms unfolding ids by (auto simp: graph_wf_def ids_ok_def)
  have out: "g_edges g1 k = Some e \<Longrightarrow> eo_from e \<noteq> i" and inn: "g_edges g1 k = Some e \<Longrightarrow> eo_to e \<noteq> i" for k e
    using assms index_ok_iff [of "g_ids g" "g_edges g" eo_from "g_out g" k u]
      index_ok_iff [of "g_ids g" "g_edges g" eo_to "g_in g" k u]
    by (auto simp: E graph_wf_def split: if_splits)
  have i1: "g_ids g1 i = Some u" using assms(2) ids by simp
  have nodes: "nodes_ok ((g_ids g1)(i := None)) ((g_nodes g1)(u := None)) (g_tombstones g1)"
    using wf inj i1 by (force simp: graph_wf_def nodes_ok_def ids_ok_def)
  have wf': "index_ok (g_ids g1) (g_edges g1) eo_from (g_out g1)" "index_ok (g_ids g1) (g_edges g1) eo_to (g_in g1)"
    "retired_ok (g_retired g1) (g_out_retired g1) (g_in_retired g1)" using wf by (simp_all add: graph_wf_def)
  have "index_ok ((g_ids g1)(i := None)) (g_edges g1) eo_from ((g_out g1)(u := {}))"
    "index_ok ((g_ids g1)(i := None)) (g_edges g1) eo_to ((g_in g1)(u := {}))"
    by (rule index_ok_forget [OF wf'(1) i1]; use inj out in blast)
      (rule index_ok_forget [OF wf'(2) i1]; use inj inn in blast)
  moreover have "ids_ok ((g_ids g1)(i := None)) (g_next_u32 g1)" using wf by (auto simp: graph_wf_def ids_ok_def)
  ultimately show ?thesis
    unfolding retract_node_memory_def Let_def g1_def [symmetric]
    using wf' nodes by (simp add: graph_wf_def)
qed

lemma retract_and_bury_wf:
  assumes "graph_wf g" shows "graph_wf (retract_and_bury i clock at seq g)"
proof (cases "g_ids g i")
  case None
  then have "no_id n \<noteq> i" if "g_nodes g u = Some n" for u n
    using assms that by (auto simp: graph_wf_def nodes_ok_def)
  then show ?thesis using assms None by (auto simp: retract_and_bury_def graph_wf_def nodes_ok_def)
next
  case (Some u)
  define g1 where "g1 = retract_node_memory i u seq g"
  have "graph_wf g1" unfolding g1_def by (rule retract_node_memory_wf [OF assms Some])
  moreover have "g_ids g1 i = None" by (simp add: g1_def retract_node_memory_def Let_def)
  then have "no_id n \<noteq> i" if "g_nodes g1 v = Some n" for v n
    using \<open>graph_wf g1\<close> that by (auto simp: graph_wf_def nodes_ok_def)
  ultimately show ?thesis
    using Some by (auto simp: retract_and_bury_def graph_wf_def nodes_ok_def simp flip: g1_def)
qed

lemma retract_and_bury_room [simp]: "room n (retract_and_bury i clock at seq g) \<longleftrightarrow> room n g"
  by (simp add: retract_and_bury_def retract_node_memory_def Let_def room_def split: option.splits)

section \<open>Events\<close>

text \<open>What vectors, collections and the store change leaves the core of the graph alone.\<close>

definition same_core :: "graph \<Rightarrow> graph \<Rightarrow> bool" where
  "same_core g h \<longleftrightarrow> g_ids g = g_ids h \<and> g_next_u32 g = g_next_u32 h \<and> g_nodes g = g_nodes h
     \<and> g_edges g = g_edges h \<and> g_out g = g_out h \<and> g_in g = g_in h \<and> g_tombstones g = g_tombstones h
     \<and> g_retired g = g_retired h \<and> g_out_retired g = g_out_retired h \<and> g_in_retired g = g_in_retired h"

lemma same_core_wf: "same_core g h \<Longrightarrow> graph_wf g \<longleftrightarrow> graph_wf h" "same_core g h \<Longrightarrow> room n g \<longleftrightarrow> room n h"
  by (simp_all add: same_core_def graph_wf_def room_def)

lemma same_core_trans: "same_core g h \<Longrightarrow> same_core h f \<Longrightarrow> same_core g f"
  by (simp add: same_core_def)

lemma same_core_simps [simp]:
  "same_core g g" "same_core (require_recovery g) h \<longleftrightarrow> same_core g h"
  "same_core (set_collection name c g) h \<longleftrightarrow> same_core g h" "same_core (enqueue_one name a emb g) h \<longleftrightarrow> same_core g h"
  "same_core (fetch_max_clock t g) h \<longleftrightarrow> same_core g h" "same_core (fetch_max_event_clock ev g) h \<longleftrightarrow> same_core g h"
  "same_core (g\<lparr>g_store := s\<rparr>) h \<longleftrightarrow> same_core g h" "same_core (or_recovery p) h \<longleftrightarrow> same_core (fst p) h"
  "same_core (apply_store_event q g) h \<longleftrightarrow> same_core g h"
  by (simp_all add: same_core_def require_recovery_def set_collection_def enqueue_one_def fetch_max_clock_def
      fetch_max_event_clock_def or_recovery_def apply_store_event_def split: option.splits prod.splits sum.splits)

lemma apply_collection_definition_core [simp]: "same_core (fst (apply_collection_definition env d g)) g"
  by (simp add: apply_collection_definition_def Let_def same_core_def set_collection_def split: sum.splits option.splits)

lemma apply_collection_materialization_core [simp]: "same_core (fst (apply_collection_materialization env m g)) g"
proof -
  obtain g1 r where d: "apply_collection_definition env (cm_definition m) g = (g1, r)"
    by (cases "apply_collection_definition env (cm_definition m) g")
  then have "same_core g1 g" using apply_collection_definition_core by (metis fst_conv)
  then show ?thesis by (simp add: apply_collection_materialization_def d split: sum.splits)
qed

lemma replay_vector_core:
  "same_core (replay_vector env coll i emb lang index seq g) g
   \<or> same_core (replay_vector env coll i emb lang index seq g) (snd (get_or_intern_id env i g))"
  by (cases "get_or_intern_id env i g")
    (auto simp: replay_vector_def Let_def split: option.splits prod.splits sum.splits)

lemma replay_materialized_vector_core:
  "same_core (fst (replay_materialized_vector env v index seq g)) g
   \<or> same_core (fst (replay_materialized_vector env v index seq g)) (snd (get_or_intern_id env (ve_node_id v) g))"
  by (cases "get_or_intern_id env (ve_node_id v) g")
    (auto simp: replay_materialized_vector_def Let_def split: option.splits prod.splits sum.splits)

lemma interned_core_wf:
  assumes "graph_wf g" "room (Suc n) g" "same_core h g \<or> same_core h (snd (get_or_intern_id env i g))"
  shows "graph_wf h" "room n h"
proof -
  have "graph_wf (snd (get_or_intern_id env i g)) \<and> room n (snd (get_or_intern_id env i g))"
    using intern_wf(1,2) [OF assms(1,2)] by (metis prod.collapse)
  then show "graph_wf h" "room n h"
    using assms room_mono [OF assms(2), of n] by (auto simp: same_core_wf)
qed

lemma transaction_node_wf:
  assumes "graph_wf g" "room (Suc n) g"
  shows "graph_wf (transaction_node env index seq m g)" "room n (transaction_node env index seq m g)"
proof -
  obtain u g1 where i: "get_or_intern_id env (no_id m) g = (u, g1)" by (cases "get_or_intern_id env (no_id m) g")
  note g1 = intern_wf [OF assms i]
  let ?g2 = "replay_node_vector env m index seq g1"
  have "get_or_intern_id env (no_id m) g1 = (u, g1)" using g1(3) by (simp add: get_or_intern_id_def)
  then have "same_core ?g2 g1"
    using replay_vector_core [of env "no_collection m" "no_id m" _ "lang_or_en (no_lang m)" index seq g1]
    by (auto simp: replay_node_vector_def split: option.splits)
  then have "graph_wf ?g2" "room n ?g2" "g_ids ?g2 (no_id m) = Some u"
    using g1 by (auto simp: same_core_wf) (simp add: same_core_def)
  then show "graph_wf (transaction_node env index seq m g)" "room n (transaction_node env index seq m g)"
    by (simp_all add: transaction_node_def i insert_node_lean_wf)
qed

lemma apply_node_eq:
  "apply_node env seq m index g = g \<or> apply_node env seq m index g = transaction_node env index seq m g"
  by (simp add: apply_node_def transaction_node_def)

text \<open>A fold of steps that intern at most a given number of ids each.\<close>

lemma fold_wf:
  assumes "\<And>x n g. graph_wf g \<Longrightarrow> room (c x + n) g \<Longrightarrow> x \<in> set xs \<Longrightarrow> graph_wf (f x g) \<and> room n (f x g)"
    and "graph_wf g" "room (sum_list (map c xs) + n) g"
  shows "graph_wf (fold f xs g)" "room n (fold f xs g)"
  using assms
proof (induction xs arbitrary: g)
  case (Cons x xs)
  { case 1
    have "graph_wf (f x g) \<and> room (sum_list (map c xs) + n) (f x g)"
      by (rule 1(1)) (use 1 in \<open>simp_all add: add.assoc\<close>)
    then show ?case using Cons.IH(1) 1(1) by simp
  next
    case 2
    have "graph_wf (f x g) \<and> room (sum_list (map c xs) + n) (f x g)"
      by (rule 2(1)) (use 2 in \<open>simp_all add: add.assoc\<close>)
    then show ?case using Cons.IH(2) 2(1) by simp }
qed simp_all

lemma fold_wf_const:
  assumes "\<And>x n g. graph_wf g \<Longrightarrow> room (c + n) g \<Longrightarrow> graph_wf (f x g) \<and> room n (f x g)"
    and "graph_wf g" "room (c * length xs + n) g"
  shows "graph_wf (fold f xs g) \<and> room n (fold f xs g)"
  using fold_wf [where c = "\<lambda>_. c" and f = f and xs = xs and g = g and n = n] assms
  by (simp add: sum_list_triv mult.commute)

text \<open>How many ids an event may intern.\<close>

fun interns :: "'m db_event \<Rightarrow> nat" where
  "interns (Ev_VectorMaterialized v) = 1"
| "interns (Ev_Node n) = 1"
| "interns (Ev_Edge e) = 2"
| "interns (Ev_Vector v) = 1"
| "interns (Ev_Batch es) = sum_list (map interns es)"
| "interns (Ev_Transaction t) = length (te_nodes t) + 2 * length (te_edges t) + length (te_vectors t)"
| "interns _ = 0"

lemma collect_results_length_Inr: "collect_results (map f xs) = Inr ys \<Longrightarrow> length ys = length xs"
  by (induction xs arbitrary: ys) auto

lemma apply_edge_wf:
  assumes "graph_wf g" "room (Suc (Suc n)) g"
  shows "graph_wf (apply_edge env e g)" "room n (apply_edge env e g)"
  using assms put_edge_wf [OF assms] room_mono [OF assms(2), of n]
  by (auto simp: apply_edge_def split: sum.splits)

lemma transaction_edge_wf:
  assumes "graph_wf g" "room (Suc (Suc n)) g"
  shows "graph_wf (transaction_edge env e g)" "room n (transaction_edge env e g)"
  using assms put_edge_wf [OF assms] room_mono [OF assms(2), of n] by (auto simp: transaction_edge_def)

lemma apply_vector_wf:
  assumes "graph_wf g" "room (Suc n) g"
  shows "graph_wf (apply_vector env v index seq g)" "room n (apply_vector env v index seq g)"
  using interned_core_wf [OF assms replay_vector_core] by (simp_all add: apply_vector_def)

lemma apply_transaction_memory_wf:
  assumes "graph_wf g" "room (length (te_nodes t) + 2 * length (te_edges t) + length (te_vectors t) + n) g"
  shows "graph_wf (apply_transaction_memory env t index seq g) \<and> room n (apply_transaction_memory env t index seq g)"
proof (cases "collect_results (map (migrate_legacy_node_impact (ge_num env)) (te_nodes t))")
  case (Inl e)
  then show ?thesis using assms room_mono by (fastforce simp: apply_transaction_memory_def)
next
  case ns: (Inr nodes)
  show ?thesis
  proof (cases "collect_results (map (migrate_legacy_edge_impact (ge_num env)) (te_edges t))")
    case (Inl e)
    then show ?thesis using ns assms room_mono by (fastforce simp: apply_transaction_memory_def)
  next
    case es: (Inr edges)
    have len: "length nodes = length (te_nodes t)" "length edges = length (te_edges t)"
      using ns es by (simp_all add: collect_results_length_Inr)
    define g1 where "g1 = fold (transaction_node env index seq) nodes g"
    define g3 where "g3 = fold (transaction_edge env) edges (fetch_max_event_clock (Ev_Transaction t :: 'a db_event) g1)"
    define g4 where "g4 = fold (\<lambda>r. retract_and_bury (nr_id r) (nr_clock r) (nr_retracted_at r) seq) (te_node_retractions t) g3"
    have g1: "graph_wf g1 \<and> room (2 * length edges + (length (te_vectors t) + n)) g1"
      unfolding g1_def using assms len
      by (intro fold_wf_const [where c = 1]) (simp_all add: transaction_node_wf ac_simps)
    have g2: "graph_wf (fetch_max_event_clock (Ev_Transaction t :: 'a db_event) g1)"
      "room (2 * length edges + (length (te_vectors t) + n)) (fetch_max_event_clock (Ev_Transaction t :: 'a db_event) g1)"
      using g1 same_core_wf [of "fetch_max_event_clock (Ev_Transaction t :: 'a db_event) g1" g1] by simp_all
    have g3: "graph_wf g3 \<and> room (length (te_vectors t) + n) g3"
      unfolding g3_def using g2 by (intro fold_wf_const [where c = 2]) (simp_all add: transaction_edge_wf)
    have g4: "graph_wf g4 \<and> room (length (te_vectors t) + n) g4"
      unfolding g4_def using g3 by (intro fold_wf_const [where c = 0]) (simp_all add: retract_and_bury_wf)
    have "graph_wf (fold (\<lambda>v. apply_vector env v index seq) (te_vectors t) g4)
        \<and> room n (fold (\<lambda>v. apply_vector env v index seq) (te_vectors t) g4)"
      using g4 by (intro fold_wf_const [where c = 1]) (simp_all add: apply_vector_wf)
    then show ?thesis using ns es by (simp add: apply_transaction_memory_def Let_def g1_def g3_def g4_def)
  qed
qed

lemma same_core_fetch [simp]: "same_core h (fetch_max_event_clock ev g) \<longleftrightarrow> same_core h g"
  by (simp add: same_core_def fetch_max_event_clock_def fetch_max_clock_def split: option.splits)

lemma store_events_core:
  "same_core (apply_event_memory env seq index (Ev_CollectionDefinition d) g) g"
  "same_core (apply_event_memory env seq index (Ev_CollectionMaterialization m) g) g"
  "same_core (apply_event_memory env seq index (Ev_RelationalSchema x) g) g"
  "same_core (apply_event_memory env seq index (Ev_RelationalRows x) g) g"
  "same_core (apply_event_memory env seq index (Ev_GenerationPublished r) g) g"
  "same_core (apply_event_memory env seq index (Ev_AccessPolicyChanged p) g) g"
  "same_core (apply_event_memory env seq index (Ev_Schema6MigrationChunk x) g) g"
  "same_core (apply_event_memory env seq index (Ev_Schema6MigrationCommit x) g) g"
  "same_core (apply_event_memory env seq index (Ev_Schema6Activation x) g) g"
  using apply_collection_definition_core [of env d "fetch_max_event_clock (Ev_CollectionDefinition d :: 'a db_event) g"]
    apply_collection_materialization_core [of env m "fetch_max_event_clock (Ev_CollectionMaterialization m :: 'a db_event) g"]
  by (simp_all add: apply_event_memory.simps Let_def del: apply_collection_definition_core apply_collection_materialization_core)

lemma apply_event_memory_wf:
  fixes ev :: "'a db_event"
  shows "graph_wf g \<Longrightarrow> room (interns ev + n) g
   \<Longrightarrow> graph_wf (apply_event_memory env seq index ev g) \<and> room n (apply_event_memory env seq index ev g)"
proof (induction ev arbitrary: g n)
  case (Ev_Batch es)
  let ?g = "fetch_max_event_clock (Ev_Batch es :: 'a db_event) g"
  have "graph_wf ?g" "room (sum_list (map interns es) + n) ?g"
    using Ev_Batch.prems same_core_wf [of ?g g] by simp_all
  then show ?case
    using Ev_Batch.IH fold_wf [where c = interns and xs = es and f = "apply_event_memory env seq index" and g = ?g and n = n]
    by (simp add: apply_event_memory.simps [of env seq index "Ev_Batch es"] Let_def add.commute)
next
  case (Ev_Transaction t)
  let ?g = "fetch_max_event_clock (Ev_Transaction t :: 'a db_event) g"
  have "graph_wf ?g" "room (length (te_nodes t) + 2 * length (te_edges t) + length (te_vectors t) + n) ?g"
    using Ev_Transaction.prems same_core_wf [of ?g g] by simp_all
  from apply_transaction_memory_wf [OF this] show ?case
    by (simp add: apply_event_memory.simps [of env seq index "Ev_Transaction t"] Let_def graph_wf_def room_def)
next
  case (Ev_Node m)
  let ?g = "fetch_max_event_clock (Ev_Node m :: 'a db_event) g"
  have "graph_wf ?g" "room (Suc n) ?g" using Ev_Node.prems same_core_wf [of ?g g] by simp_all
  then show ?case
    using transaction_node_wf [of ?g n env index seq m] apply_node_eq [of env seq m index ?g] room_mono [of "Suc n" ?g n]
    by (auto simp: apply_event_memory.simps [of env seq index "Ev_Node m"] Let_def)
next
  case (Ev_Edge e)
  let ?g = "fetch_max_event_clock (Ev_Edge e :: 'a db_event) g"
  have "graph_wf ?g" "room (Suc (Suc n)) ?g" using Ev_Edge.prems same_core_wf [of ?g g] by simp_all
  from apply_edge_wf [OF this, of env e] show ?case by (simp add: apply_event_memory.simps [of env seq index "Ev_Edge e"] Let_def)
next
  case (Ev_Vector v)
  let ?g = "fetch_max_event_clock (Ev_Vector v :: 'a db_event) g"
  have "graph_wf ?g" "room (Suc n) ?g" using Ev_Vector.prems same_core_wf [of ?g g] by simp_all
  from apply_vector_wf [OF this, of env v index seq] show ?case by (simp add: apply_event_memory.simps [of env seq index "Ev_Vector v"] Let_def)
next
  case (Ev_VectorMaterialized v)
  let ?g = "fetch_max_event_clock (Ev_VectorMaterialized v :: 'a db_event) g"
  have "graph_wf ?g" "room (Suc n) ?g" using Ev_VectorMaterialized.prems same_core_wf [of ?g g] by simp_all
  from interned_core_wf [OF this, of "or_recovery (replay_materialized_vector env v index seq ?g)" env "ve_node_id v"]
  show ?case using replay_materialized_vector_core [of env v index seq ?g]
    by (simp add: apply_event_memory.simps [of env seq index "Ev_VectorMaterialized v"] Let_def)
next
  case (Ev_NodeRetract i c at)
  let ?g = "fetch_max_event_clock (Ev_NodeRetract i c at :: 'a db_event) g"
  have "graph_wf ?g" "room n ?g" using Ev_NodeRetract.prems same_core_wf [of ?g g] by simp_all
  then show ?case
    by (simp add: apply_event_memory.simps [of env seq index "Ev_NodeRetract i c at"] Let_def apply_node_retract_def
        retract_and_bury_wf)
qed (simp_all add: same_core_wf [OF store_events_core(1)] same_core_wf [OF store_events_core(2)]
    same_core_wf [OF store_events_core(3)] same_core_wf [OF store_events_core(4)] same_core_wf [OF store_events_core(5)]
    same_core_wf [OF store_events_core(6)] same_core_wf [OF store_events_core(7)] same_core_wf [OF store_events_core(8)]
    same_core_wf [OF store_events_core(9)])

section \<open>The order in which edges are retired\<close>

lemma retire_edge_at:
  "g_out (retire_edge seq k g) u = (case g_edges g k of
     Some e \<Rightarrow> if g_ids g (eo_from e) = Some u \<and> g_ids g (eo_to e) \<noteq> None then g_out g u - {k} else g_out g u
   | None \<Rightarrow> g_out g u)"
  "g_in (retire_edge seq k g) u = (case g_edges g k of
     Some e \<Rightarrow> if g_ids g (eo_to e) = Some u \<and> g_ids g (eo_from e) \<noteq> None then g_in g u - {k} else g_in g u
   | None \<Rightarrow> g_in g u)"
  "g_out_retired (retire_edge seq k g) i = (case g_edges g k of
     Some e \<Rightarrow> if eo_from e = i then insert k (g_out_retired g i) else g_out_retired g i | None \<Rightarrow> g_out_retired g i)"
  "g_in_retired (retire_edge seq k g) i = (case g_edges g k of
     Some e \<Rightarrow> if eo_to e = i then insert k (g_in_retired g i) else g_in_retired g i | None \<Rightarrow> g_in_retired g i)"
  "g_retired (retire_edge seq k g) j = (case g_edges g k of
     Some e \<Rightarrow> if j = k then Some \<lparr>re_edge = e, re_retired_seq = seq\<rparr> else g_retired g j | None \<Rightarrow> g_retired g j)"
  "g_edges (retire_edge seq k g) j = (if j = k then None else g_edges g j)"
  "g_ids (retire_edge seq k g) = g_ids g"
  by (auto simp: retire_edge_def unlink_out_def unlink_in_def Let_def split: option.splits)

lemma retire_edge_other:
  "g_store (retire_edge seq k g) = g_store g" "g_local_peer (retire_edge seq k g) = g_local_peer g"
  "g_clock (retire_edge seq k g) = g_clock g" "g_next_u32 (retire_edge seq k g) = g_next_u32 g"
  "g_trigrams (retire_edge seq k g) = g_trigrams g" "g_nodes (retire_edge seq k g) = g_nodes g"
  "g_tombstones (retire_edge seq k g) = g_tombstones g"
  "g_default_collection (retire_edge seq k g) = g_default_collection g"
  "g_collections (retire_edge seq k g) = g_collections g" "g_definitions (retire_edge seq k g) = g_definitions g"
  "g_jobs (retire_edge seq k g) = g_jobs g" "graph.more (retire_edge seq k g) = graph.more g"
  by (auto simp: retire_edge_def unlink_out_def unlink_in_def Let_def split: option.splits)

lemma retire_edge_commute: "retire_edge seq j (retire_edge seq k g) = retire_edge seq k (retire_edge seq j g)"
  by (rule graph.equality; (simp add: retire_edge_other retire_edge_at fun_eq_iff)?; (intro allI)?;
      (auto simp: retire_edge_at retire_edge_other split: option.splits)?)

lemma retire_edge_again: "retire_edge seq k (retire_edge seq k g) = retire_edge seq k g"
  using retire_edge_at(6) [of seq k g k] by (simp add: retire_edge_def [of seq k "retire_edge seq k g"])

interpretation retire: comp_fun_idem "retire_edge seq" for seq
  by unfold_locales (simp_all add: fun_eq_iff retire_edge_commute retire_edge_again)

lemma retire_edges_set: "set ks = set js \<Longrightarrow> fold (retire_edge seq) ks g = fold (retire_edge seq) js g"
  by (simp add: retire.fold_set_fold [symmetric])

end
