(* ===== verification/GB_Graph_LWW.thy ===== *)
theory GB_Graph_LWW
  imports GB_Graph_Inv "HOL-Library.Product_Lexorder" "HOL-Library.Option_ord"
begin

text \<open>
  The last-writer-wins contract of node events. A node id is a register that is absent, live or dead;
  events offer new contents for it, and the contents of the greatest rank win, where the rank is the
  logical clock and, at equal clocks, a retraction beats a node. The application of events refines this
  specification; it follows that the order and multiplicity in which replicas receive them do not
  matter.
\<close>

section \<open>Registers\<close>

datatype register = Absent | Live node_output | Dead node_tombstone

fun reg_rank :: "register \<Rightarrow> (logical_clock \<times> bool) option" where
  "reg_rank Absent = None"
| "reg_rank (Live n) = Some (no_clock n, False)"
| "reg_rank (Dead t) = Some (nt_clock t, True)"

definition reg_join :: "register \<Rightarrow> register \<Rightarrow> register" where
  "reg_join old new =
     (if reg_rank new < reg_rank old \<or> (reg_rank new = reg_rank old \<and> (\<exists>t. old = Dead t)) then old else new)"

definition register_at ::
  "(string \<rightharpoonup> u32) \<Rightarrow> (u32 \<rightharpoonup> node_output) \<Rightarrow> (string \<rightharpoonup> node_tombstone) \<Rightarrow> string \<Rightarrow> register" where
  "register_at ids nodes tombs i =
     (case Option.bind (ids i) nodes of
        Some n \<Rightarrow> Live n
      | None \<Rightarrow> (case tombs i of Some t \<Rightarrow> Dead t | None \<Rightarrow> Absent))"

definition node_register :: "graph \<Rightarrow> string \<Rightarrow> register" where
  "node_register g = register_at (g_ids g) (g_nodes g) (g_tombstones g)"

lemma reg_join_rank: "reg_rank (reg_join a b) = max (reg_rank a) (reg_rank b)"
  by (auto simp: reg_join_def max_def)

lemma reg_join_in: "reg_join a b = a \<or> reg_join a b = b"
  by (simp add: reg_join_def)

lemma reg_join_Absent [simp]: "reg_join a Absent = a" "reg_join Absent b = b"
  by (cases a; simp add: reg_join_def) (cases b; simp add: reg_join_def)

lemma fold_reg_join:
  "fold (\<lambda>b a. reg_join a b) bs a \<in> insert a (set bs)
   \<and> (\<forall>b\<in>insert a (set bs). reg_rank b \<le> reg_rank (fold (\<lambda>b a. reg_join a b) bs a))"
proof (induction bs arbitrary: a)
  case (Cons b bs)
  have "reg_rank a \<le> reg_rank (reg_join a b)" "reg_rank b \<le> reg_rank (reg_join a b)"
    by (simp_all add: reg_join_rank)
  then show ?case using Cons [of "reg_join a b"] reg_join_in [of a b] by fastforce
qed simp

text \<open>If the rank identifies the contents, the winner depends on the set of contents only.\<close>

lemma fold_reg_join_set:
  assumes "set xs = set ys" "inj_on reg_rank (insert a (set xs))"
  shows "fold (\<lambda>b a. reg_join a b) xs a = fold (\<lambda>b a. reg_join a b) ys a"
proof -
  let ?x = "fold (\<lambda>b a. reg_join a b) xs a" and ?y = "fold (\<lambda>b a. reg_join a b) ys a"
  note x = fold_reg_join [of xs a] and y = fold_reg_join [of ys a]
  have "?x \<in> insert a (set xs)" "?y \<in> insert a (set xs)" using x y assms(1) by auto
  moreover from this have "reg_rank ?x = reg_rank ?y" using x y assms(1) by (intro antisym) blast+
  ultimately show ?thesis using assms(2) by (metis inj_on_eq_iff)
qed

section \<open>What an event offers\<close>

definition lean_node :: "'m graph_env \<Rightarrow> node_output \<Rightarrow> register" where
  "lean_node env n =
     (case migrate_legacy_node_impact (ge_num env) n of
        Inl _ \<Rightarrow> Absent
      | Inr m \<Rightarrow> Live (m\<lparr>no_embedding := None, no_props := lean_props (ge_num env) (no_props m)\<rparr>))"

fun offers :: "'m graph_env \<Rightarrow> string \<Rightarrow> 'm db_event \<Rightarrow> register list" where
  "offers env i (Ev_Node n) = (if no_id n = i then [lean_node env n] else [])"
| "offers env i (Ev_NodeRetract j clock at) =
     (if j = i then [Dead \<lparr>nt_clock = clock, nt_retracted_at = at\<rparr>] else [])"
| "offers env i (Ev_Batch es) = concat (map (offers env i) es)"
| "offers env i _ = []"

fun transaction_free :: "'m db_event \<Rightarrow> bool" where
  "transaction_free (Ev_Transaction t) = False"
| "transaction_free (Ev_Batch es) = list_all transaction_free es"
| "transaction_free _ = True"

lemma node_register_core: "same_core g h \<Longrightarrow> node_register g = node_register h"
  by (simp add: node_register_def same_core_def)

lemma fresh_number:
  assumes "graph_wf g" "\<not> u < g_next_u32 g" shows "g_nodes g u = None"
proof (cases "g_nodes g u")
  case (Some n)
  then have "g_ids g (no_id n) = Some u" using assms(1) by (simp add: graph_wf_def nodes_ok_def)
  then show ?thesis using assms by (auto simp: graph_wf_def ids_ok_def)
qed

lemma register_at_intern:
  "ids i = None \<Longrightarrow> nodes u = None \<Longrightarrow> register_at (ids(i \<mapsto> u)) nodes tombs = register_at ids nodes tombs"
  by (auto simp: fun_eq_iff register_at_def split: option.splits)

lemma intern_register:
  "g_nodes g (g_next_u32 g) = None \<Longrightarrow> node_register (snd (get_or_intern_id env i g)) = node_register g"
  by (simp add: node_register_def get_or_intern_id_def Let_def register_at_intern split: option.splits)

lemma interned_core_register:
  assumes "graph_wf g" "same_core h g \<or> same_core h (snd (get_or_intern_id env i g))"
  shows "node_register h = node_register g"
  using assms(2) intern_register [of g env i] fresh_number [OF assms(1)] node_register_core by fastforce

lemma put_edge_register:
  assumes "graph_wf g" "room (Suc (Suc n)) g"
  shows "node_register (put_edge env e g) = node_register g"
proof -
  let ?g1 = "unlink_old_edge (ge_edge_key env (eo_id e)) g"
  let ?g2 = "snd (get_or_intern_id env (eo_from e) ?g1)"
  let ?g3 = "snd (get_or_intern_id env (eo_to e) ?g2)"
  have same: "g_ids ?g1 = g_ids g" "g_nodes ?g1 = g_nodes g" "g_tombstones ?g1 = g_tombstones g"
    "g_next_u32 ?g1 = g_next_u32 g"
    by (auto simp: unlink_old_edge_def unlink_out_def unlink_in_def Let_def split: option.splits)
  have step: "unat (g_next_u32 g + 1) = unat (g_next_u32 g) + 1"
    using assms(2) by (simp add: room_def unat_word_ariths)
  then have "\<not> g_next_u32 g + 1 < g_next_u32 g" by (simp add: word_less_nat_alt)
  then have fresh: "g_nodes g (g_next_u32 g) = None" "g_nodes g (g_next_u32 g + 1) = None"
    using fresh_number [OF assms(1)] by auto
  have "node_register (put_edge env e g) = node_register ?g3"
    by (simp add: put_edge_def index_edge_internal_def Let_def split_def node_register_def)
  also have "\<dots> = node_register ?g2"
    using fresh by (intro intern_register) (auto simp: get_or_intern_id_def Let_def same split: option.splits)
  also have "\<dots> = node_register ?g1" using fresh by (intro intern_register) (simp add: same)
  also have "\<dots> = node_register g" by (simp add: node_register_def same)
  finally show ?thesis .
qed

lemma insert_node_register:
  assumes "graph_wf g" "g_ids g (no_id n) = Some u"
  shows "node_register (insert_node_lean env u n g) i =
     (if i = no_id n \<and> lean_node env n \<noteq> Absent then lean_node env n else node_register g i)"
proof (cases "migrate_legacy_node_impact (ge_num env) n")
  case (Inl e)
  then show ?thesis by (simp add: insert_node_lean_def lean_node_def node_register_def require_recovery_def)
next
  case (Inr m)
  have "g_ids g i \<noteq> Some u" if "i \<noteq> no_id n"
    using assms that by (auto simp: graph_wf_def ids_ok_def)
  then show ?thesis
    using Inr assms(2) migrate_node_Inr(1) [OF Inr]
    by (auto simp: insert_node_lean_def lean_node_def node_register_def register_at_def bind_eq_None_conv
        split: option.splits bind_splits)
qed

lemma retract_and_bury_register:
  assumes "graph_wf g"
  shows "node_register (retract_and_bury i clock at seq g) j =
     (if j = i then Dead \<lparr>nt_clock = clock, nt_retracted_at = at\<rparr> else node_register g j)"
proof -
  have "g_ids g j \<noteq> g_ids g i" if "j \<noteq> i" "g_ids g i \<noteq> None"
    using assms that by (auto simp: graph_wf_def ids_ok_def)
  then show ?thesis
    by (auto simp: retract_and_bury_def retract_node_memory_def Let_def node_register_def register_at_def
        split: option.splits bind_splits)
qed

section \<open>Refinement\<close>

lemma transaction_node_register:
  assumes "graph_wf g" "room (Suc n) g"
  shows "node_register (transaction_node env index seq m g) i =
     (if i = no_id m \<and> lean_node env m \<noteq> Absent then lean_node env m else node_register g i)"
proof -
  obtain u g1 where i: "get_or_intern_id env (no_id m) g = (u, g1)" by (cases "get_or_intern_id env (no_id m) g")
  note g1 = intern_wf [OF assms i]
  let ?g2 = "replay_node_vector env m index seq g1"
  have "get_or_intern_id env (no_id m) g1 = (u, g1)" using g1(3) by (simp add: get_or_intern_id_def)
  then have core: "same_core ?g2 g1"
    using replay_vector_core [of env "no_collection m" "no_id m" _ "lang_or_en (no_lang m)" index seq g1]
    by (auto simp: replay_node_vector_def split: option.splits)
  then have "graph_wf ?g2" "g_ids ?g2 (no_id m) = Some u"
    using g1 by (auto simp: same_core_wf) (simp add: same_core_def)
  moreover have "node_register ?g2 = node_register g"
    using node_register_core [OF core] intern_register [of g env "no_id m"] fresh_number [OF assms(1)] i by simp
  ultimately show ?thesis by (simp add: transaction_node_def i insert_node_register)
qed

lemma register_live: "node_register g i = Live n \<longleftrightarrow> live_node g i = Some n"
  by (simp add: node_register_def register_at_def live_node_def split: option.splits)

lemma wf_live_no_tombstone:
  assumes "graph_wf g" "live_node g i = Some n"
  shows "g_tombstones g i = None" "no_id n = i"
proof -
  obtain u where u: "g_ids g i = Some u" "g_nodes g u = Some n"
    using assms(2) by (auto simp: live_node_def bind_eq_Some_conv)
  then show "no_id n = i" using assms(1) by (auto simp: graph_wf_def nodes_ok_def ids_ok_def)
  then show "g_tombstones g i = None" using assms(1) u by (auto simp: graph_wf_def nodes_ok_def)
qed

text \<open>The gates of the two node events compare ranks.\<close>

lemma gate_rank:
  assumes "graph_wf g"
  shows "((case live_node g i of Some old \<Rightarrow> no_clock old > c | None \<Rightarrow> False)
      \<or> (case g_tombstones g i of Some t \<Rightarrow> nt_clock t \<ge> c | None \<Rightarrow> False))
     \<longleftrightarrow> (case node_register g i of Absent \<Rightarrow> False | Live n \<Rightarrow> c < no_clock n | Dead t \<Rightarrow> c \<le> nt_clock t)"
  using wf_live_no_tombstone(1) [OF assms, of i]
  by (auto simp: node_register_def register_at_def live_node_def split: option.splits bind_splits)

lemma lean_node_rank: "lean_node env m \<noteq> Absent \<Longrightarrow> reg_rank (lean_node env m) = Some (no_clock m, False)"
  by (auto simp: lean_node_def dest: migrate_node_Inr(2) split: sum.splits)

lemma apply_node_register:
  assumes "graph_wf g" "room (Suc n) g"
  shows "node_register (apply_node env seq m index g) i =
     (if i = no_id m then reg_join (node_register g i) (lean_node env m) else node_register g i)"
proof -
  let ?gate = "case node_register g (no_id m) of Absent \<Rightarrow> False | Live n \<Rightarrow> no_clock m < no_clock n
      | Dead t \<Rightarrow> no_clock m \<le> nt_clock t"
  have "apply_node env seq m index g = (if ?gate then g else transaction_node env index seq m g)"
    unfolding apply_node_def transaction_node_def gate_rank [OF assms(1)] by simp
  moreover have "reg_join (node_register g (no_id m)) (lean_node env m) =
      (if ?gate \<or> lean_node env m = Absent then node_register g (no_id m) else lean_node env m)"
  proof (cases "lean_node env m = Absent")
    case False
    then show ?thesis using lean_node_rank [OF False]
      by (cases "node_register g (no_id m)") (auto simp: reg_join_def)
  qed simp
  ultimately show ?thesis using transaction_node_register [OF assms, of env index seq m i] by auto
qed

lemma apply_node_retract_register:
  assumes "graph_wf g"
  shows "node_register (apply_node_retract seq j clock at g) i =
     (if i = j then reg_join (node_register g i) (Dead \<lparr>nt_clock = clock, nt_retracted_at = at\<rparr>)
      else node_register g i)"
proof -
  let ?gate = "case node_register g j of Absent \<Rightarrow> False | Live n \<Rightarrow> clock < no_clock n | Dead t \<Rightarrow> clock \<le> nt_clock t"
  have "apply_node_retract seq j clock at g = (if ?gate then g else retract_and_bury j clock at seq g)"
    unfolding apply_node_retract_def gate_rank [OF assms] by simp
  moreover have "reg_join (node_register g j) (Dead \<lparr>nt_clock = clock, nt_retracted_at = at\<rparr>) =
      (if ?gate then node_register g j else Dead \<lparr>nt_clock = clock, nt_retracted_at = at\<rparr>)"
    by (cases "node_register g j") (auto simp: reg_join_def)
  ultimately show ?thesis using retract_and_bury_register [OF assms, of j clock at seq i] by auto
qed

abbreviation join_all :: "register \<Rightarrow> register list \<Rightarrow> register" where
  "join_all a bs \<equiv> fold (\<lambda>b a. reg_join a b) bs a"

lemma apply_event_register:
  fixes ev :: "'a db_event"
  shows "transaction_free ev \<Longrightarrow> graph_wf g \<Longrightarrow> room (interns ev + n) g
   \<Longrightarrow> node_register (apply_event_memory env seq index ev g) i = join_all (node_register g i) (offers env i ev)"
proof (induction ev arbitrary: g n)
  case (Ev_Batch es)
  have steps: "\<And>e h m. e \<in> set es \<Longrightarrow> transaction_free e \<Longrightarrow> graph_wf h \<Longrightarrow> room (interns e + m) h
      \<Longrightarrow> node_register (apply_event_memory env seq index e h) i = join_all (node_register h i) (offers env i e)"
    using Ev_Batch.IH by blast
  have "node_register (fold (apply_event_memory env seq index) es h) i
      = join_all (node_register h i) (concat (map (offers env i) es))"
    if "graph_wf h" "room (sum_list (map interns es) + n) h" for h
    using that steps Ev_Batch.prems(1)
  proof (induction es arbitrary: h)
    case (Cons e es)
    have r: "room (interns e + (sum_list (map interns es) + n)) h" using Cons.prems(2) by (simp add: add.assoc)
    note e = apply_event_memory_wf [OF Cons.prems(1) r, of env seq index]
    have "node_register (apply_event_memory env seq index e h) i = join_all (node_register h i) (offers env i e)"
      using Cons.prems(1,3,4) r by simp
    then show ?case using Cons.IH [of "apply_event_memory env seq index e h"] Cons.prems(3,4) e by simp
  qed simp
  from this [of "fetch_max_event_clock (Ev_Batch es) g"] show ?case
    using Ev_Batch.prems same_core_wf [of "fetch_max_event_clock (Ev_Batch es) g" g]
      node_register_core [of "fetch_max_event_clock (Ev_Batch es) g" g]
    by (simp add: apply_event_memory.simps [of env seq index "Ev_Batch es"] Let_def)
next
  case (Ev_Node m)
  let ?g = "fetch_max_event_clock (Ev_Node m :: 'a db_event) g"
  have "graph_wf ?g" "room (Suc n) ?g" "node_register ?g = node_register g"
    using Ev_Node.prems same_core_wf [of ?g g] node_register_core [of ?g g] by simp_all
  then show ?case
    using apply_node_register [of ?g n env seq m index i]
    by (simp add: apply_event_memory.simps [of env seq index "Ev_Node m"] Let_def)
next
  case (Ev_Edge e)
  let ?g = "fetch_max_event_clock (Ev_Edge e :: 'a db_event) g"
  have g: "graph_wf ?g" "room (Suc (Suc n)) ?g" "node_register ?g = node_register g"
    using Ev_Edge.prems same_core_wf [of ?g g] node_register_core [of ?g g] by simp_all
  have "node_register (require_recovery ?g) = node_register ?g" by (intro node_register_core) simp
  then show ?case
    using g(3) put_edge_register [OF g(1,2), of env]
    by (simp add: apply_event_memory.simps [of env seq index "Ev_Edge e"] Let_def apply_edge_def split: sum.splits)
next
  case (Ev_Vector v)
  let ?g = "fetch_max_event_clock (Ev_Vector v :: 'a db_event) g"
  have "graph_wf ?g" "node_register ?g = node_register g"
    using Ev_Vector.prems same_core_wf [of ?g g] node_register_core [of ?g g] by simp_all
  then show ?case
    using interned_core_register [OF _ replay_vector_core, of ?g env]
    by (simp add: apply_event_memory.simps [of env seq index "Ev_Vector v"] Let_def apply_vector_def)
next
  case (Ev_VectorMaterialized v)
  let ?g = "fetch_max_event_clock (Ev_VectorMaterialized v :: 'a db_event) g"
  let ?h = "or_recovery (replay_materialized_vector env v index seq ?g)"
  have "graph_wf ?g" "node_register ?g = node_register g"
    using Ev_VectorMaterialized.prems same_core_wf [of ?g g] node_register_core [of ?g g] by simp_all
  then show ?case
    using interned_core_register [of ?g ?h env "ve_node_id v"] replay_materialized_vector_core [of env v index seq ?g]
    by (simp add: apply_event_memory.simps [of env seq index "Ev_VectorMaterialized v"] Let_def)
next
  case (Ev_NodeRetract j c at)
  let ?g = "fetch_max_event_clock (Ev_NodeRetract j c at :: 'a db_event) g"
  have "graph_wf ?g" "node_register ?g = node_register g"
    using Ev_NodeRetract.prems same_core_wf [of ?g g] node_register_core [of ?g g] by simp_all
  then show ?case
    using apply_node_retract_register [of ?g seq j c at i]
    by (simp add: apply_event_memory.simps [of env seq index "Ev_NodeRetract j c at"] Let_def)
qed (simp_all add: node_register_core [OF store_events_core(1)] node_register_core [OF store_events_core(2)]
    node_register_core [OF store_events_core(3)] node_register_core [OF store_events_core(4)]
    node_register_core [OF store_events_core(5)] node_register_core [OF store_events_core(6)]
    node_register_core [OF store_events_core(7)] node_register_core [OF store_events_core(8)]
    node_register_core [OF store_events_core(9)])

section \<open>Replay\<close>

definition replay_room :: "(u64 \<times> 'm db_event) list \<Rightarrow> graph \<Rightarrow> bool" where
  "replay_room frames g \<longleftrightarrow> room (sum_list (map (\<lambda>(_, ev). interns ev) frames)) g"

lemma replay_events_wf:
  fixes frames :: "(u64 \<times> 'a db_event) list"
  assumes "graph_wf g" "replay_room frames g" shows "graph_wf (replay_events env index frames g)"
  unfolding replay_events_def
proof (rule fold_wf(1) [where n = 0])
  fix x :: "u64 \<times> 'a db_event" and n h assume "graph_wf h" "room ((\<lambda>(_, ev). interns ev) x + n) h"
  then show "graph_wf ((\<lambda>(seq, ev). apply_event_memory env seq index ev) x h)
      \<and> room n ((\<lambda>(seq, ev). apply_event_memory env seq index ev) x h)"
    by (cases x) (simp add: apply_event_memory_wf)
qed (use assms in \<open>simp_all add: replay_room_def\<close>)

lemma replay_register:
  assumes "graph_wf g" "replay_room frames g" "list_all (\<lambda>(_, ev). transaction_free ev) frames"
  shows "node_register (replay_events env index frames g) i
     = join_all (node_register g i) (concat (map (\<lambda>(_, ev). offers env i ev) frames))"
  using assms
proof (induction frames arbitrary: g)
  case (Cons f frames)
  obtain seq ev where f: "f = (seq, ev)" by (cases f)
  let ?g = "apply_event_memory env seq index ev g"
  have r: "room (interns ev + sum_list (map (\<lambda>(_, ev). interns ev) frames)) g"
    using Cons.prems(2) by (simp add: replay_room_def f)
  have "graph_wf ?g" "replay_room frames ?g"
    using apply_event_memory_wf [OF Cons.prems(1) r] by (simp_all add: replay_room_def)
  then have "node_register (replay_events env index frames ?g) i
      = join_all (node_register ?g i) (concat (map (\<lambda>(_, ev). offers env i ev) frames))"
    using Cons.prems(3) by (intro Cons.IH) simp_all
  moreover have "node_register ?g i = join_all (node_register g i) (offers env i ev)"
    using Cons.prems(3) by (intro apply_event_register [OF _ Cons.prems(1) r]) (simp add: f)
  ultimately show ?case by (simp add: replay_events_def f)
qed (simp add: replay_events_def)

text \<open>Two contents of one id never share a clock unless they are the same.\<close>

definition clocks_identify :: "'m graph_env \<Rightarrow> 'm db_event list \<Rightarrow> graph \<Rightarrow> bool" where
  "clocks_identify env evs g \<longleftrightarrow>
     (\<forall>i. inj_on reg_rank (insert (node_register g i) (set (concat (map (offers env i) evs)))))"

lemma lww_replicas_agree:
  fixes xs ys :: "(u64 \<times> 'a db_event) list"
  assumes "graph_wf g" "replay_room xs g" "replay_room ys g"
    and "list_all (\<lambda>(_, ev). transaction_free ev) xs" "set (map snd xs) = set (map snd ys)"
    and "clocks_identify env (map snd xs) g"
  shows "node_register (replay_events env a xs g) = node_register (replay_events env b ys g)"
proof
  fix i
  have offs: "concat (map (\<lambda>(_, ev). offers env i ev) fs) = concat (map (offers env i) (map snd fs))" for fs :: "(u64 \<times> 'a db_event) list"
    by (induction fs) auto
  have "\<forall>p\<in>set ys. transaction_free (snd p)"
    using assms(4,5) by (metis (no_types, lifting) case_prod_beta image_iff list_all_iff list.set_map)
  then have ys: "list_all (\<lambda>(_, ev). transaction_free ev) ys" by (auto simp: list_all_iff)
  have "set (concat (map (offers env i) (map snd xs))) = set (concat (map (offers env i) (map snd ys)))"
    using assms(5) by (simp only: set_concat set_map)
  then show "node_register (replay_events env a xs g) i = node_register (replay_events env b ys g) i"
    unfolding replay_register [OF assms(1,2,4)] replay_register [OF assms(1,3) ys] offs
    using assms(6) unfolding clocks_identify_def by (intro fold_reg_join_set) blast+
qed

section \<open>Transactions and clocks\<close>

text \<open>A transaction writes its nodes without the gate of a node event.\<close>

lemma transaction_of_node:
  fixes env :: "'a graph_env"
  assumes "graph_wf g" "room 1 g" "no_impact n = Impact_Absent"
    and t: "te_nodes t = [n]" "te_edges t = []" "te_vectors t = []" "te_node_retractions t = []"
  shows "node_register (apply_event_memory env seq index (Ev_Transaction t) g) (no_id n) = lean_node env n"
proof -
  let ?g = "fetch_max_event_clock (Ev_Transaction t :: 'a db_event) g"
  let ?seq = "case te_local_frame_seq t of Some s \<Rightarrow> s | None \<Rightarrow> seq"
  have g: "graph_wf ?g" "room (Suc 0) ?g" using assms(1,2) same_core_wf [of ?g g] by simp_all
  have lean: "lean_node env n \<noteq> Absent" using assms(3) by (simp add: lean_node_def)
  have mem: "apply_transaction_memory env t index ?seq ?g
      = fetch_max_event_clock (Ev_Transaction t :: 'a db_event) (transaction_node env index ?seq n ?g)"
    using assms(3) by (simp add: apply_transaction_memory_def t)
  have "node_register (apply_event_memory env seq index (Ev_Transaction t) g)
      = node_register (transaction_node env index ?seq n ?g)"
    by (intro node_register_core) (simp add: apply_event_memory.simps [of env seq index "Ev_Transaction t"] Let_def mem)
  then show ?thesis using transaction_node_register [OF g, of env index ?seq n "no_id n"] lean by simp
qed

lemma fetch_max_event_clock_ge:
  "g_clock g \<le> g_clock (fetch_max_event_clock ev g)"
  "event_time ev = Some t \<Longrightarrow> t \<le> g_clock (fetch_max_event_clock ev g)"
  by (simp_all add: fetch_max_event_clock_def fetch_max_clock_def split: option.splits)

lemma g_clock_simps [simp]:
  "g_clock (require_recovery g) = g_clock g" "g_clock (or_recovery p) = g_clock (fst p)"
  "g_clock (set_collection name c g) = g_clock g" "g_clock (enqueue_one name a emb g) = g_clock g"
  "g_clock (snd (get_or_intern_id env i g)) = g_clock g" "g_clock (insert_node_lean env u n g) = g_clock g"
  "g_clock (unlink_old_edge k g) = g_clock g" "g_clock (retire_edge seq k g) = g_clock g"
  by (auto simp: require_recovery_def or_recovery_def set_collection_def enqueue_one_def get_or_intern_id_def Let_def
      insert_node_lean_def unlink_old_edge_def retire_edge_def unlink_out_def unlink_in_def
      split: prod.splits sum.splits option.splits)

lemma g_clock_retire_all [simp]: "g_clock (fold (retire_edge seq) ks g) = g_clock g"
  by (induction ks arbitrary: g) simp_all

lemma intern_clock: "get_or_intern_id env i g = (u, g') \<Longrightarrow> g_clock g' = g_clock g"
  using g_clock_simps(5) [of env i g] by simp

lemma g_clock_ops [simp]:
  "g_clock (put_edge env e g) = g_clock g" "g_clock (replay_vector env c i emb l index seq g) = g_clock g"
  "g_clock (retract_and_bury i clock at seq g) = g_clock g"
  "g_clock (fst (replay_materialized_vector env v index seq g)) = g_clock g"
proof -
  show "g_clock (put_edge env e g) = g_clock g" "g_clock (replay_vector env c i emb l index seq g) = g_clock g"
    "g_clock (fst (replay_materialized_vector env v index seq g)) = g_clock g"
    by (auto simp: put_edge_def index_edge_internal_def replay_vector_def replay_materialized_vector_def Let_def
        dest!: intern_clock split: prod.splits option.splits sum.splits)
  show "g_clock (retract_and_bury i clock at seq g) = g_clock g"
    by (simp add: retract_and_bury_def retract_node_memory_def Let_def split: option.splits)
qed

lemma g_clock_transaction_node [simp]: "g_clock (transaction_node env index seq n g) = g_clock g"
  by (auto simp: transaction_node_def replay_node_vector_def dest!: intern_clock split: prod.splits option.splits)

lemma g_clock_apply_node [simp]: "g_clock (apply_node env seq n index g) = g_clock g"
  using apply_node_eq [of env seq n index g] by (metis g_clock_transaction_node)

lemma fold_clock_ge:
  assumes "\<And>x g. x \<in> set xs \<Longrightarrow> g_clock g \<le> g_clock (f x g)"
  shows "g_clock g \<le> g_clock (fold f xs g)"
  using assms by (induction xs arbitrary: g) (auto intro: order_trans)

lemma apply_collection_clock_ge:
  "g_clock g \<le> g_clock (fst (apply_collection_definition env d g))"
  "g_clock g \<le> g_clock (fst (apply_collection_materialization env m g))"
proof -
  show d: "g_clock g \<le> g_clock (fst (apply_collection_definition env d g))" for d
    by (simp add: apply_collection_definition_def Let_def split: sum.splits option.splits)
  show "g_clock g \<le> g_clock (fst (apply_collection_materialization env m g))"
    using d [of "cm_definition m"] by (auto simp: apply_collection_materialization_def split: prod.splits sum.splits)
qed

lemma apply_transaction_clock_ge:
  fixes env :: "'a graph_env"
  shows "g_clock g \<le> g_clock (apply_transaction_memory env t index seq g)"
proof -
  have "g_clock g \<le> g_clock (fold (\<lambda>v. apply_vector env v index seq) vs
      (fold (\<lambda>r. retract_and_bury (nr_id r) (nr_clock r) (nr_retracted_at r) seq) rs
        (fold (transaction_edge env) es (fetch_max_event_clock ev (fold (transaction_node env index seq) ns g)))))"
    for vs es ns and rs :: "node_retraction_event list" and ev :: "'a db_event"
    by (intro order_trans [OF _ fold_clock_ge] order_trans [OF _ fetch_max_event_clock_ge(1)] fold_clock_ge)
      (simp_all add: apply_vector_def transaction_edge_def)
  then show ?thesis by (simp add: apply_transaction_memory_def Let_def split: sum.splits)
qed

lemma apply_event_clock_ge:
  fixes ev :: "'a db_event"
  shows "g_clock (fetch_max_event_clock ev g) \<le> g_clock (apply_event_memory env seq index ev g)"
proof (induction ev arbitrary: g)
  case (Ev_Batch es)
  have "g_clock h \<le> g_clock (fold (apply_event_memory env seq index) es h)" for h
    using Ev_Batch fetch_max_event_clock_ge(1) by (intro fold_clock_ge) (blast intro: order_trans)
  then show ?case by (simp add: apply_event_memory.simps [of env seq index "Ev_Batch es"] Let_def)
qed (simp_all add: apply_event_memory.simps [of env seq index] Let_def apply_collection_clock_ge
    apply_transaction_clock_ge apply_edge_def apply_vector_def apply_node_retract_def
    apply_store_event_def split: sum.splits)

text \<open>C8: every event keeps the live graph consistent. Starting from a consistent graph, replaying any
  frames leaves the ids interned injectively, both adjacency indexes equal to the live edges under the
  numbers of their endpoints, every node under the number of its id and without a tombstone, and every
  retired edge reachable from both of its endpoints, as long as the 32-bit interner has room for the
  ids the frames may introduce.\<close>

theorem replay_keeps_the_graph_consistent:
  assumes "graph_wf g" "replay_room frames g"
  shows "graph_wf (replay_events env index frames g)"
  using assms by (rule replay_events_wf)

text \<open>C6: the application of events refines a last-writer-wins register per node id. Replaying frames
  without transactions, batches included, leaves each id with the fold of the join over what the events
  offer for it: the contents with the greatest clock, a retraction before a node at equal clocks.\<close>

theorem replay_refines_lww_registers:
  assumes "graph_wf g" "replay_room frames g" "list_all (\<lambda>(_, ev). transaction_free ev) frames"
  shows "node_register (replay_events env index frames g) i
     = join_all (node_register g i) (concat (map (\<lambda>(_, ev). offers env i ev) frames))"
  using assms by (rule replay_register)



text \<open>C37: a transaction is not a last-writer-wins write: its nodes go in whatever the clocks say. Where
  a node event older than a tombstone is dropped, a transaction with the same node brings the node back
  to life, so replicas that receive the node in a transaction before or after the retraction differ.\<close>

theorem transaction_revives_a_retracted_node:
  fixes env :: "'a graph_env"
  assumes "graph_wf g" "room 1 g" "no_impact n = Impact_Absent"
    and "g_tombstones g (no_id n) = Some stone" "no_clock n \<le> nt_clock stone"
    and t: "te_nodes t = [n]" "te_edges t = []" "te_vectors t = []" "te_node_retractions t = []"
  shows "node_register (apply_event_memory env seq index (Ev_Node n) g) (no_id n) = Dead stone
    \<and> node_register (apply_event_memory env seq index (Ev_Transaction t) g) (no_id n) = lean_node env n
    \<and> lean_node env n \<noteq> Absent"
proof (intro conjI)
  show lean: "lean_node env n \<noteq> Absent" using assms(3) by (simp add: lean_node_def)
  have "live_node g (no_id n) = None" using wf_live_no_tombstone(1) [OF assms(1)] assms(4) by fastforce
  then have "node_register g (no_id n) = Dead stone"
    using assms(4) by (simp add: node_register_def register_at_def live_node_def)
  moreover have "reg_join (Dead stone) (lean_node env n) = Dead stone"
    using lean_node_rank [OF lean] assms(5) by (auto simp: reg_join_def)
  ultimately show "node_register (apply_event_memory env seq index (Ev_Node n) g) (no_id n) = Dead stone"
    using apply_event_register [of "Ev_Node n :: 'a db_event" g 0 env seq index "no_id n"] assms(1,2) by simp
  show "node_register (apply_event_memory env seq index (Ev_Transaction t) g) (no_id n) = lean_node env n"
    by (rule transaction_of_node [OF assms(1-3) t])
qed

text \<open>C38: the logical clock. After replaying an event, the clock is at or above the time of every event
  in it, so the next local write is stamped strictly above it, until the 32-bit clock is full; an event
  stamped with the greatest time makes the next local stamp zero, below every other.\<close>

theorem next_clock_after_replay:
  fixes ev :: "'a db_event"
  assumes "event_time ev = Some t" and g': "g' = apply_event_memory env seq index ev g"
  shows "t \<le> g_clock g' \<and> (g_clock g' \<noteq> - 1 \<longrightarrow> t < clock_time (fst (next_clock g')))
    \<and> (t = - 1 \<longrightarrow> clock_time (fst (next_clock g')) = 0)"
proof (intro conjI impI)
  show le: "t \<le> g_clock g'"
    using fetch_max_event_clock_ge(2) [OF assms(1), of g] apply_event_clock_ge [of ev g env seq index]
    unfolding g' by (rule order_trans)
  show "t < clock_time (fst (next_clock g'))" if "g_clock g' \<noteq> - 1"
  proof -
    have "g_clock g' < g_clock g' + 1" using that by (metis inc_less_eq_self_iff_eq not_le)
    then show ?thesis using le by (simp add: next_clock_def)
  qed
  show "clock_time (fst (next_clock g')) = 0" if "t = - 1"
  proof -
    have "g_clock g' = - 1" using le that by (simp add: word_order.extremum_unique)
    then show ?thesis by (simp add: next_clock_def)
  qed
qed

section \<open>Examples\<close>

definition example_env :: "unit graph_env" where
  "example_env = \<lparr>ge_edge_key = (\<lambda>i. of_nat (length i)), ge_tokenize = (\<lambda>i. [i]), ge_num = (\<lambda>_. 0),
     ge_prep = (\<lambda>_ _. []), ge_as_f32 = (\<lambda>_. 0), ge_sidecar_write = (\<lambda>_ _. Sidecar_Ok), ge_sidecar_open = (\<lambda>_. True),
     ge_definition_hash = (\<lambda>_. ''h''), ge_migration_chunk = (\<lambda>_ _. Inr ()), ge_migration_commit = (\<lambda>_ _. Inr ())\<rparr>"

definition example_store :: store where
  "example_store = \<lparr>st_owner_token = ''o'', st_read_only = False, st_schema_version = 6, st_recovery_required = False,
     st_commit_sequence = 0, st_txn_frontier = 0, st_fencing_epoch = 0, st_access_policy = default_access_policy,
     st_published_generation = None\<rparr>"

definition empty_graph :: graph where
  "empty_graph = \<lparr>g_store = example_store, g_local_peer = ''p'', g_clock = 0, g_ids = Map.empty, g_next_u32 = 0,
     g_trigrams = (\<lambda>_. {}), g_nodes = Map.empty, g_edges = Map.empty, g_out = (\<lambda>_. {}), g_in = (\<lambda>_. {}),
     g_retired = Map.empty, g_out_retired = (\<lambda>_. {}), g_in_retired = (\<lambda>_. {}), g_tombstones = Map.empty,
     g_default_collection = ''default'', g_collections = Map.empty, g_definitions = Map.empty, g_jobs = []\<rparr>"

definition example_node :: "u32 \<Rightarrow> node_output" where
  "example_node t = \<lparr>no_id = ''a'', no_labels = [], no_props = JNull, no_impact = Impact_Absent, no_embedding = None,
     no_lang = None, no_valid_from = [], no_valid_to = None, no_caused_by = None, no_expires_at = None,
     no_clock = LogicalClock t ''p'', no_collection = None\<rparr>"

definition example_edge :: edge_output where
  "example_edge = \<lparr>eo_id = ''e'', eo_from = ''a'', eo_to = ''b'', eo_rel = ''r'', eo_props = JNull, eo_valid_from = [],
     eo_valid_to = None, eo_recorded_at = [], eo_superseded_by = None, eo_impact = Impact_Absent,
     eo_caused_by = None, eo_clock = LogicalClock 2 ''p''\<rparr>"

definition retract_a :: "u32 \<Rightarrow> unit db_event" where
  "retract_a t = Ev_NodeRetract ''a'' (LogicalClock t ''p'') []"

definition stone_a :: "u32 \<Rightarrow> node_tombstone" where
  "stone_a t = \<lparr>nt_clock = LogicalClock t ''p'', nt_retracted_at = []\<rparr>"

definition example_frames :: "(u64 \<times> unit db_event) list" where
  "example_frames = [(1, Ev_Node (example_node 1)), (2, Ev_Edge example_edge), (3, retract_a 3)]"

lemma empty_graph_wf: "graph_wf empty_graph"
  by (simp add: graph_wf_def empty_graph_def ids_ok_def index_ok_def nodes_ok_def retired_ok_def)

lemma example_lean: "lean_node example_env (example_node t) = Live (example_node t)"
  by (simp add: lean_node_def example_node_def lean_props_def)

lemma example_node_simps [simp]: "no_id (example_node t) = ''a''" "no_clock (example_node t) = LogicalClock t ''p''"
  by (simp_all add: example_node_def)

lemma empty_register: "node_register empty_graph = (\<lambda>_. Absent)"
  by (simp add: fun_eq_iff node_register_def register_at_def empty_graph_def)

lemma example_room: "replay_room example_frames empty_graph"
  by (simp add: replay_room_def room_def example_frames_def empty_graph_def retract_a_def)

theorem replay_keeps_the_graph_consistent_witness:
  "graph_wf (replay_events example_env False example_frames empty_graph)"
  by (rule replay_keeps_the_graph_consistent [OF empty_graph_wf example_room])

theorem replay_refines_lww_registers_witness:
  "node_register (replay_events example_env False example_frames empty_graph) ''a'' = Dead (stone_a 3)"
proof -
  have "list_all (\<lambda>(_, ev). transaction_free ev) example_frames" by (simp add: example_frames_def retract_a_def)
  from replay_refines_lww_registers [OF empty_graph_wf example_room this, of example_env False "''a''"]
  show ?thesis
    by (simp add: example_frames_def retract_a_def stone_a_def empty_register example_lean reg_join_def
        less_logical_clock_def)
qed


theorem transaction_revives_a_retracted_node_witness:
  "node_register (apply_event_memory example_env 5 False (Ev_Transaction
       \<lparr>te_transaction_id = ''t'', te_origin_commit_seq = 0, te_local_frame_seq = None, te_payload_hash = [],
        te_nodes = [example_node 1], te_edges = [], te_vectors = [], te_node_retractions = [],
        te_advances_txn_frontier = True\<rparr>) (empty_graph\<lparr>g_tombstones := [''a'' \<mapsto> stone_a 3]\<rparr>)) ''a''
   = Live (example_node 1)" (is "node_register (apply_event_memory _ _ _ (Ev_Transaction ?t) ?g) _ = _")
proof -
  have "graph_wf ?g" using empty_graph_wf by (simp add: graph_wf_def empty_graph_def nodes_ok_def)
  moreover have "room 1 ?g" by (simp add: room_def empty_graph_def)
  ultimately show ?thesis
    using transaction_revives_a_retracted_node [of ?g "example_node 1" "stone_a 3" ?t example_env 5 False]
    by (simp add: example_lean) (simp add: example_node_def stone_a_def less_eq_logical_clock_def)
qed

theorem next_clock_after_replay_witness:
  "clock_time (fst (next_clock (apply_event_memory example_env 1 False (Ev_Node (example_node (- 1))) empty_graph))) = 0"
  using next_clock_after_replay [of "Ev_Node (example_node (- 1)) :: unit db_event" "- 1"
      "apply_event_memory example_env 1 False (Ev_Node (example_node (- 1))) empty_graph" example_env 1 False empty_graph]
  by (simp add: example_node_def)

end
