(* ===== verification/GB_Graph_Writes.thy ===== *)
theory GB_Graph_Writes
  imports GB_Graph_LWW
begin

text \<open>
  The local graph writes of \<open>src/src/lib.rs\<close>: the event a write journals, the gates of \<open>persist\<close>, and
  adding an edge or a node, retracting an edge or a node, and superseding a node. A write journals
  first and then changes the live graph. The outcomes of everything outside the live graph are in
  \<open>write_io\<close>: authority and preflight checks, the journal append, the relational projection, fresh
  identifiers and the readings of the wall clock (\<open>wi_now\<close> the first, \<open>wi_now_later\<close> the second of an operation).
\<close>

section \<open>Journalling an event\<close>

record write_io =
  wi_now :: string
  wi_now_later :: string
  wi_uuid :: string
  wi_transaction_id :: string
  wi_payload_hash :: string
  wi_expires_at :: "u32 \<Rightarrow> string"
  wi_mutation_check :: "(string, unit) result"
  wi_local_master :: bool
  wi_requires_master :: bool
  wi_preflight_collection :: "(string, unit) result"
  wi_preflight_relational :: "(string, unit) result"
  wi_revisions :: "(string, unit) result"
  wi_append :: wal_outcome
  wi_projection :: "(string, unit) result"

fun collect_p6_control_events :: "'m db_event \<Rightarrow> 'm db_event list" where
  "collect_p6_control_events (Ev_GenerationPublished r) = [Ev_GenerationPublished r]"
| "collect_p6_control_events (Ev_AccessPolicyChanged p) = [Ev_AccessPolicyChanged p]"
| "collect_p6_control_events (Ev_Schema6MigrationChunk m) = [Ev_Schema6MigrationChunk m]"
| "collect_p6_control_events (Ev_Schema6MigrationCommit m) = [Ev_Schema6MigrationCommit m]"
| "collect_p6_control_events (Ev_Schema6Activation m) = [Ev_Schema6Activation m]"
| "collect_p6_control_events (Ev_Batch es) = concat (map collect_p6_control_events es)"
| "collect_p6_control_events _ = []"

definition contains_p6_control_event :: "'m db_event \<Rightarrow> bool" where
  "contains_p6_control_event ev \<longleftrightarrow> collect_p6_control_events ev \<noteq> []"

definition persist_guards :: "write_io \<Rightarrow> 'm db_event \<Rightarrow> graph \<Rightarrow> (string, unit) result" where
  "persist_guards io ev g =
     rbind (ensure_readable (g_store g)) (\<lambda>_.
     rbind (ensure_writable (g_store g)) (\<lambda>_.
     rbind (guard_err (event_has_legacy_impact ev)
       ''KIMPACT_REMOVED: legacy impact fields are accepted only when reading historical signed events'') (\<lambda>_.
     rbind (guard_err (contains_p6_control_event ev) ''P6_LOCAL_ONLY'') (\<lambda>_.
     rbind (guard_err (wi_requires_master io \<and> \<not> wi_local_master io)
       ''GOVERNANCE_AUTH_REQUIRED: local peer lacks MASTER authority'') (\<lambda>_.
     rbind (wi_preflight_collection io) (\<lambda>_. wi_preflight_relational io))))))"

definition persist :: "write_io \<Rightarrow> 'm db_event \<Rightarrow> graph \<Rightarrow> graph \<times> (string, u64) result" where
  "persist io ev g =
     (case persist_guards io ev g of
        Inl e \<Rightarrow> (g, Inl e)
      | Inr _ \<Rightarrow>
          (case append_wal_event (wi_append io) (g_store g) of
             (s, Inl e) \<Rightarrow> (g\<lparr>g_store := s\<rparr>, Inl e)
           | (s, Inr seq) \<Rightarrow>
               (case wi_projection io of
                  Inl e \<Rightarrow> (case durable_apply_error s seq e of (s', e') \<Rightarrow> (g\<lparr>g_store := s'\<rparr>, Inl e'))
                | Inr _ \<Rightarrow> (g\<lparr>g_store := s\<rparr>, Inr seq))))"

text \<open>Of several edges with one id, the last is kept.\<close>

definition effective_edges :: "edge_output list \<Rightarrow> edge_output list" where
  "effective_edges es =
     map snd (filter (\<lambda>(k, e). \<forall>j\<in>set [Suc k..<length es]. eo_id (es ! j) \<noteq> eo_id e) (zip [0..<length es] es))"

definition local_graph_event ::
  "write_io \<Rightarrow> u32 \<Rightarrow> node_output list \<Rightarrow> edge_output list \<Rightarrow> node_retraction_event list \<Rightarrow> 'm db_event" where
  "local_graph_event io schema nodes edges retractions =
     (if schema \<noteq> SCHEMA_VERSION then
        (case retractions of
           [r] \<Rightarrow> Ev_NodeRetract (nr_id r) (nr_clock r) (nr_retracted_at r)
         | _ \<Rightarrow> (case map Ev_Node nodes @ map Ev_Edge edges of [ev] \<Rightarrow> ev | evs \<Rightarrow> Ev_Batch evs))
      else Ev_Transaction
        \<lparr>te_transaction_id = wi_transaction_id io, te_origin_commit_seq = 0, te_local_frame_seq = None,
         te_payload_hash = wi_payload_hash io, te_nodes = nodes, te_edges = effective_edges edges, te_vectors = [],
         te_node_retractions = retractions, te_advances_txn_frontier = False\<rparr>)"

definition persist_local_graph_mutations ::
  "'m itself \<Rightarrow> write_io \<Rightarrow> node_output list \<Rightarrow> edge_output list \<Rightarrow> node_retraction_event list \<Rightarrow> graph
     \<Rightarrow> graph \<times> (string, u64) result" where
  "persist_local_graph_mutations T io nodes edges retractions g =
     (let schema = st_schema_version (g_store g); ev = (local_graph_event io schema nodes edges retractions :: 'm db_event) in
      if schema = SCHEMA_VERSION
      then (case wi_revisions io of Inl e \<Rightarrow> (g, Inl e) | Inr _ \<Rightarrow> persist io ev g)
      else persist io ev g)"

section \<open>The writes\<close>

record edge_input =
  ei_id :: "string option"
  ei_from :: string
  ei_to :: string
  ei_rel :: string
  ei_props :: "json option"
  ei_valid_from :: "string option"
  ei_supersede :: "bool option"
  ei_impact :: "u64 option"
  ei_caused_by :: "string option"

record node_input =
  ni_id :: "string option"
  ni_labels :: "string list"
  ni_props :: "json option"
  ni_embedding :: "u64 list option"
  ni_lang :: "string option"
  ni_valid_from :: "string option"
  ni_caused_by :: "string option"
  ni_ttl :: "u32 option"
  ni_collection :: "string option"

definition or_default :: "'a \<Rightarrow> 'a option \<Rightarrow> 'a" where
  "or_default d x = (case x of Some v \<Rightarrow> v | None \<Rightarrow> d)"

definition writable_and_readable :: "graph \<Rightarrow> (string, unit) result" where
  "writable_and_readable g = rbind (ensure_writable (g_store g)) (\<lambda>_. ensure_readable (g_store g))"

definition new_edge :: "write_io \<Rightarrow> edge_input \<Rightarrow> logical_clock \<Rightarrow> edge_output" where
  "new_edge io args clock =
     \<lparr>eo_id = or_default (wi_uuid io) (ei_id args), eo_from = ei_from args, eo_to = ei_to args, eo_rel = ei_rel args,
      eo_props = or_default (JObject []) (ei_props args), eo_valid_from = or_default (wi_now io) (ei_valid_from args),
      eo_valid_to = None, eo_recorded_at = wi_now_later io, eo_superseded_by = None, eo_impact = Impact_Absent,
      eo_caused_by = ei_caused_by args, eo_clock = clock\<rparr>"

definition add_edge ::
  "'m graph_env \<Rightarrow> write_io \<Rightarrow> edge_input \<Rightarrow> graph \<Rightarrow> graph \<times> (string, edge_output) result" where
  "add_edge env io args g =
     (case rbind (reject_legacy_impact (ei_impact args)) (\<lambda>_. writable_and_readable g) of
        Inl e \<Rightarrow> (g, Inl e)
      | Inr _ \<Rightarrow>
          (case next_clock g of
             (clock, g1) \<Rightarrow>
               let e = new_edge io args clock in
               (case persist_local_graph_mutations TYPE('m) io [] [e] [] g1 of
                  (g2, Inl err) \<Rightarrow> (g2, Inl err)
                | (g2, Inr _) \<Rightarrow> (put_edge env e g2, Inr e))))"

definition retract_edge ::
  "'m graph_env \<Rightarrow> write_io \<Rightarrow> string \<Rightarrow> string option \<Rightarrow> graph \<Rightarrow> graph \<times> (string, edge_output option) result" where
  "retract_edge env io i at g =
     (case writable_and_readable g of
        Inl e \<Rightarrow> (g, Inl e)
      | Inr _ \<Rightarrow>
          let k = ge_edge_key env i in
          (case g_edges g k of
             None \<Rightarrow> (g, Inr None)
           | Some old \<Rightarrow>
               (case next_clock g of
                  (clock, g1) \<Rightarrow>
                    let e = old\<lparr>eo_valid_to := Some (or_default (wi_now io) at), eo_clock := clock\<rparr> in
                    (case persist_local_graph_mutations TYPE('m) io [] [e] [] g1 of
                       (g2, Inl err) \<Rightarrow> (g2, Inl err)
                     | (g2, Inr _) \<Rightarrow> (g2\<lparr>g_edges := (g_edges g2)(k \<mapsto> e)\<rparr>, Inr (Some e))))))"

definition retract_node ::
  "'m graph_env \<Rightarrow> write_io \<Rightarrow> string \<Rightarrow> graph \<Rightarrow> graph \<times> (string, unit) result" where
  "retract_node env io i g =
     (case writable_and_readable g of
        Inl e \<Rightarrow> (g, Inl e)
      | Inr _ \<Rightarrow>
          (case g_ids g i of
             None \<Rightarrow> (g, Inr ())
           | Some u \<Rightarrow>
               if \<not> wi_local_master io
               then (g, Inl ''GOVERNANCE_AUTH_REQUIRED: local peer lacks MASTER authority for node retraction'')
               else (case next_clock g of
                       (clock, g1) \<Rightarrow>
                         (case persist_local_graph_mutations TYPE('m) io [] []
                                 [\<lparr>nr_id = i, nr_clock = clock, nr_retracted_at = wi_now io\<rparr>] g1 of
                            (g2, Inl err) \<Rightarrow> (g2, Inl err)
                          | (g2, Inr seq) \<Rightarrow>
                              let g3 = retract_node_memory i u seq g2 in
                              (g3\<lparr>g_tombstones := (g_tombstones g3)(i \<mapsto>
                                  \<lparr>nt_clock = clock, nt_retracted_at = wi_now io\<rparr>)\<rparr>, Inr ())))))"

definition dim_error :: "u64 list \<Rightarrow> vector_collection \<Rightarrow> string" where
  "dim_error emb c = ''embedding dim '' @ dec (length emb) @ '' != collection '' @ [CHR 0x27] @ vc_name c @ [CHR 0x27]
     @ '' dim '' @ dec (unat (vc_dim c))"

definition check_embedding :: "node_input \<Rightarrow> graph \<Rightarrow> (string, (u64 list \<times> string) option) result" where
  "check_embedding args g =
     (case ni_embedding args of
        None \<Rightarrow> Inr None
      | Some emb \<Rightarrow>
          rbind (resolve_collection (ni_collection args) g) (\<lambda>c.
          if length emb \<noteq> unat (vc_dim c) then Inl (dim_error emb c)
          else if list_ex (\<lambda>v. \<not> f64_is_finite v) emb
          then Inl ''VECTOR_VALUES_INVALID: embedding must contain only finite values''
          else Inr (Some (emb, vc_name c))))"

definition add_vector_internal ::
  "'m graph_env \<Rightarrow> string option \<Rightarrow> string \<Rightarrow> u64 list \<Rightarrow> string \<Rightarrow> u64 \<Rightarrow> graph \<Rightarrow> graph \<times> (string, unit) result" where
  "add_vector_internal env collection node_id emb lang seq g =
     (case resolve_collection collection g of
        Inl e \<Rightarrow> (g, Inl e)
      | Inr c \<Rightarrow>
          if length emb \<noteq> unat (vc_dim c) then (g, Inl (dim_error emb c))
          else if list_ex (\<lambda>v. \<not> f64_is_finite v) emb
          then (g, Inl ''VECTOR_VALUES_INVALID: embedding must contain only finite values'')
          else (case get_or_intern_id env node_id g of
                  (u, g1) \<Rightarrow>
                    let e = ge_prep env (vc_metric c) emb; name = or_default (g_default_collection g) collection in
                    (case stage env u e lang seq c of
                       (c', Inl err) \<Rightarrow> (set_collection name c' g1, Inl err)
                     | (c', Inr a) \<Rightarrow> (enqueue_one name a e (set_collection name c' g1), Inr ()))))"

definition new_node ::
  "write_io \<Rightarrow> node_input \<Rightarrow> string \<Rightarrow> (u64 list \<times> string) option \<Rightarrow> logical_clock \<Rightarrow> node_output" where
  "new_node io args i vec clock =
     \<lparr>no_id = i, no_labels = ni_labels args, no_props = or_default (JObject []) (ni_props args),
      no_impact = Impact_Absent, no_embedding = map_option fst vec, no_lang = Some (or_default ''en'' (ni_lang args)),
      no_valid_from = or_default (wi_now io) (ni_valid_from args), no_valid_to = None,
      no_caused_by = ni_caused_by args, no_expires_at = map_option (wi_expires_at io) (ni_ttl args),
      no_clock = clock, no_collection = map_option snd vec\<rparr>"

definition add_node ::
  "'m graph_env \<Rightarrow> write_io \<Rightarrow> node_input \<Rightarrow> graph \<Rightarrow> graph \<times> (string, node_output) result" where
  "add_node env io args g =
     (case rbind (writable_and_readable g) (\<lambda>_. wi_mutation_check io) of
        Inl e \<Rightarrow> (g, Inl e)
      | Inr _ \<Rightarrow>
          let i = or_default (''N-'' @ wi_uuid io) (ni_id args) in
          (case next_clock g of
             (clock, g1) \<Rightarrow>
               (case check_embedding args g1 of
                  Inl e \<Rightarrow> (g1, Inl e)
                | Inr vec \<Rightarrow>
                    let n = new_node io args i vec clock in
                    (case persist_local_graph_mutations TYPE('m) io [n] [] [] g1 of
                       (g2, Inl e) \<Rightarrow> (g2, Inl e)
                     | (g2, Inr seq) \<Rightarrow>
                         (case get_or_intern_id env i g2 of
                            (u, g3) \<Rightarrow>
                              let g4 = insert_node_lean env u n g3 in
                              (case ni_embedding args of
                                 None \<Rightarrow> (g4, Inr n)
                               | Some emb \<Rightarrow>
                                   (case add_vector_internal env (ni_collection args) i emb
                                           (or_default ''en'' (ni_lang args)) seq g4 of
                                      (g5, Inl e) \<Rightarrow>
                                        (case durable_apply_error (g_store g5) seq e of
                                           (s, e') \<Rightarrow> (g5\<lparr>g_store := s\<rparr>, Inl e'))
                                    | (g5, Inr _) \<Rightarrow> (g5, Inr n))))))))"

text \<open>The stored node is lean, so superseding first reads its properties back from the projection;
  \<open>hydrate\<close> is what that yields.\<close>

definition supersede_node ::
  "'m graph_env \<Rightarrow> (write_io \<times> write_io) \<Rightarrow> (u32 \<Rightarrow> node_output \<Rightarrow> (string, node_output) result) \<Rightarrow> string
     \<Rightarrow> json option \<Rightarrow> string option \<Rightarrow> graph \<Rightarrow> graph \<times> (string, node_output) result" where
  "supersede_node env ios hydrate i new_props caused_by g =
     (case writable_and_readable g of
        Inl e \<Rightarrow> (g, Inl e)
      | Inr _ \<Rightarrow>
          (case g_ids g i of
             None \<Rightarrow> (g, Inl (''Node '' @ i @ '' not found''))
           | Some u \<Rightarrow>
               (case g_nodes g u of
                  None \<Rightarrow> (g, Inl ''Node not in memory index'')
                | Some n \<Rightarrow>
                    (case hydrate u n of
                       Inl e \<Rightarrow> (require_recovery g, Inl e)
                     | Inr h \<Rightarrow>
                         (case wi_mutation_check (fst ios) of
                            Inl e \<Rightarrow> (g, Inl e)
                          | Inr _ \<Rightarrow>
                              let old = h\<lparr>no_valid_to := Some (wi_now (fst ios))\<rparr> in
                              (case persist_local_graph_mutations TYPE('m) (fst ios) [old] [] [] g of
                                 (g1, Inl e) \<Rightarrow> (g1, Inl e)
                               | (g1, Inr closed_seq) \<Rightarrow>
                                   (case next_clock g1 of
                                      (clock, g2) \<Rightarrow>
                                        let new = old\<lparr>no_valid_from := wi_now (fst ios), no_valid_to := None,
                                              no_caused_by := Some (or_default (i @ ''@'' @ dec (unat closed_seq)) caused_by),
                                              no_props := or_default (no_props old) new_props, no_clock := clock\<rparr> in
                                        (case persist_local_graph_mutations TYPE('m) (snd ios) [new] [] [] g2 of
                                           (g3, Inl e) \<Rightarrow>
                                             (case durable_apply_error (g_store g3) closed_seq e of
                                                (s, e') \<Rightarrow> (g3\<lparr>g_store := s\<rparr>, Inl e'))
                                         | (g3, Inr _) \<Rightarrow> (insert_node_lean env u new g3, Inr new)))))))))"

section \<open>Keys and clocks of what is stored\<close>

text \<open>Every stored edge is under the key of its id, every collection under its name, and no stored clock is
  ahead of the logical clock.\<close>

definition edges_keyed :: "(string \<Rightarrow> u128) \<Rightarrow> u32 \<Rightarrow> (u128 \<rightharpoonup> edge_output) \<Rightarrow> bool" where
  "edges_keyed key now E \<longleftrightarrow> (\<forall>k e. E k = Some e \<longrightarrow> k = key (eo_id e) \<and> clock_time (eo_clock e) \<le> now)"

definition nodes_stamped :: "u32 \<Rightarrow> (u32 \<rightharpoonup> node_output) \<Rightarrow> (string \<rightharpoonup> node_tombstone) \<Rightarrow> bool" where
  "nodes_stamped now N T \<longleftrightarrow>
     (\<forall>u n. N u = Some n \<longrightarrow> clock_time (no_clock n) \<le> now) \<and> (\<forall>i t. T i = Some t \<longrightarrow> clock_time (nt_clock t) \<le> now)"

definition collections_named :: "(string \<rightharpoonup> vector_collection) \<Rightarrow> bool" where
  "collections_named C \<longleftrightarrow> (\<forall>n c. C n = Some c \<longrightarrow> vc_name c = n)"

definition keyed :: "'m graph_env \<Rightarrow> graph \<Rightarrow> bool" where
  "keyed env g \<longleftrightarrow> edges_keyed (ge_edge_key env) (g_clock g) (g_edges g)
     \<and> nodes_stamped (g_clock g) (g_nodes g) (g_tombstones g) \<and> collections_named (g_collections g)"

lemma keyed_later:
  assumes "keyed env g" "g_clock g \<le> g_clock h" "g_edges h = g_edges g" "g_nodes h = g_nodes g"
    "g_tombstones h = g_tombstones g" "collections_named (g_collections h)"
  shows "keyed env h"
proof -
  have "edges_keyed (ge_edge_key env) (g_clock h) (g_edges h)"
    using assms(1,2) unfolding keyed_def edges_keyed_def assms(3) by (blast intro: order_trans)
  moreover have "nodes_stamped (g_clock h) (g_nodes h) (g_tombstones h)"
    using assms(1,2) unfolding keyed_def nodes_stamped_def assms(4,5) by (blast intro: order_trans)
  ultimately show ?thesis using assms(6) by (simp add: keyed_def)
qed

lemma intern_stored:
  assumes "get_or_intern_id env i g = (u, h)"
  shows "g_edges h = g_edges g" "g_nodes h = g_nodes g" "g_tombstones h = g_tombstones g"
    "g_collections h = g_collections g" "g_clock h = g_clock g"
  using assms by (auto simp: get_or_intern_id_def Let_def split: option.splits)

lemma unlink_stored:
  "g_nodes (unlink_old_edge k g) = g_nodes g" "g_tombstones (unlink_old_edge k g) = g_tombstones g"
  "g_collections (unlink_old_edge k g) = g_collections g" "g_edges (unlink_old_edge k g) = g_edges g"
  by (auto simp: unlink_old_edge_def unlink_out_def unlink_in_def Let_def split: option.splits)

lemma put_edge_stored:
  "g_edges (put_edge env e g) = (g_edges g)(ge_edge_key env (eo_id e) \<mapsto> e)"
  "g_nodes (put_edge env e g) = g_nodes g" "g_tombstones (put_edge env e g) = g_tombstones g"
  "g_collections (put_edge env e g) = g_collections g"
proof -
  let ?g1 = "unlink_old_edge (ge_edge_key env (eo_id e)) g"
  obtain uf g2 where i1: "get_or_intern_id env (eo_from e) ?g1 = (uf, g2)" by (cases "get_or_intern_id env (eo_from e) ?g1")
  obtain ut g3 where i2: "get_or_intern_id env (eo_to e) g2 = (ut, g3)" by (cases "get_or_intern_id env (eo_to e) g2")
  show "g_edges (put_edge env e g) = (g_edges g)(ge_edge_key env (eo_id e) \<mapsto> e)"
    "g_nodes (put_edge env e g) = g_nodes g" "g_tombstones (put_edge env e g) = g_tombstones g"
    "g_collections (put_edge env e g) = g_collections g"
    using intern_stored [OF i1] intern_stored [OF i2]
    by (simp_all add: put_edge_def index_edge_internal_def Let_def i1 i2 unlink_stored)
qed

lemma put_edge_keyed:
  assumes "keyed env g" "clock_time (eo_clock e) \<le> g_clock g" shows "keyed env (put_edge env e g)"
  using assms by (auto simp: keyed_def put_edge_stored edges_keyed_def)

lemma insert_node_keyed:
  assumes "keyed env g" "clock_time (no_clock n) \<le> g_clock g" shows "keyed env (insert_node_lean env u n g)"
proof (cases "migrate_legacy_node_impact (ge_num env) n")
  case (Inl e)
  then show ?thesis using assms(1) by (simp add: insert_node_lean_def require_recovery_def keyed_def)
next
  case (Inr m)
  then show ?thesis using assms migrate_node_Inr(2) [OF Inr]
    by (auto simp: insert_node_lean_def keyed_def nodes_stamped_def)
qed

lemma stage_name: "vc_name (fst (stage env u emb lang seq c)) = vc_name c"
  by (auto simp: stage_def push_row_def Let_def split: option.splits sidecar_io.splits)

lemma collections_named_upd: "collections_named C \<Longrightarrow> vc_name c = n \<Longrightarrow> collections_named (C(n \<mapsto> c))"
  by (simp add: collections_named_def)

lemma replay_vector_stored:
  "g_edges (replay_vector env co i emb l index seq g) = g_edges g"
  "g_nodes (replay_vector env co i emb l index seq g) = g_nodes g"
  "g_tombstones (replay_vector env co i emb l index seq g) = g_tombstones g"
  "collections_named (g_collections g) \<Longrightarrow> collections_named (g_collections (replay_vector env co i emb l index seq g))"
proof -
  let ?name = "case co of Some n \<Rightarrow> n | None \<Rightarrow> g_default_collection g"
  obtain u h where i: "get_or_intern_id env i g = (u, h)" by (cases "get_or_intern_id env i g")
  have c: "vc_name c' = vc_name c" if "stage env u e l seq c = (c', r)" for e c c' r
    using that stage_name [of env u e l seq c] by simp
  have "vc_name c = ?name" if "collections_named (g_collections g)" "g_collections g ?name = Some c" for c
    using that by (simp add: collections_named_def)
  then show "g_edges (replay_vector env co i emb l index seq g) = g_edges g"
    "g_nodes (replay_vector env co i emb l index seq g) = g_nodes g"
    "g_tombstones (replay_vector env co i emb l index seq g) = g_tombstones g"
    "collections_named (g_collections g) \<Longrightarrow> collections_named (g_collections (replay_vector env co i emb l index seq g))"
    using intern_stored [OF i] c
    by (auto simp: replay_vector_def Let_def i require_recovery_def set_collection_def enqueue_one_def
        split: option.splits prod.splits sum.splits intro!: collections_named_upd)
qed

lemma replay_vector_keyed: "keyed env g \<Longrightarrow> keyed env (replay_vector env co i emb l index seq g)"
  by (rule keyed_later) (simp_all add: replay_vector_stored keyed_def)

lemma retract_and_bury_keyed:
  assumes "keyed env g" "clock_time clock \<le> g_clock g" shows "keyed env (retract_and_bury i clock at seq g)"
proof -
  let ?h = "retract_and_bury i clock at seq g"
  have E: "g_edges ?h k = Some e \<Longrightarrow> g_edges g k = Some e" for k e
    by (auto simp: retract_and_bury_def retract_node_memory_def Let_def simp del: fold_append split: option.splits if_splits)
  have N: "g_nodes ?h u = Some n \<Longrightarrow> g_nodes g u = Some n" for u n
    by (auto simp: retract_and_bury_def retract_node_memory_def Let_def simp del: fold_append split: option.splits if_splits)
  have T: "g_tombstones ?h = (g_tombstones g)(i \<mapsto> \<lparr>nt_clock = clock, nt_retracted_at = at\<rparr>)"
    by (auto simp: retract_and_bury_def retract_node_memory_def Let_def simp del: fold_append split: option.splits)
  have C: "g_collections (fold (retire_edge seq) ks g) = g_collections g" for ks g
    by (induction ks arbitrary: g) (auto simp: retire_edge_def Let_def unlink_out_def unlink_in_def split: option.splits)
  have "collections_named (g_collections ?h)"
    using assms(1)
    by (auto simp: retract_and_bury_def retract_node_memory_def Let_def C keyed_def collections_named_def stamp_retired_def
        simp del: fold_append split: option.splits)
  moreover have "edges_keyed (ge_edge_key env) (g_clock ?h) (g_edges ?h)"
    using assms(1) E by (auto simp: keyed_def edges_keyed_def)
  moreover have "nodes_stamped (g_clock ?h) (g_nodes ?h) (g_tombstones ?h)"
    using assms N by (auto simp: keyed_def nodes_stamped_def T)
  ultimately show ?thesis by (simp add: keyed_def)
qed

lemma transaction_node_keyed:
  assumes "keyed env g" "clock_time (no_clock n) \<le> g_clock g"
  shows "keyed env (transaction_node env index seq n g)"
proof -
  obtain u h where i: "get_or_intern_id env (no_id n) g = (u, h)" by (cases "get_or_intern_id env (no_id n) g")
  have "keyed env h" using assms(1) intern_stored [OF i] by (intro keyed_later [OF assms(1)]) (simp_all add: keyed_def)
  then have "keyed env (replay_node_vector env n index seq h)"
    by (simp add: replay_node_vector_def replay_vector_keyed split: option.splits)
  moreover have "g_clock (replay_node_vector env n index seq h) = g_clock g"
    using intern_stored [OF i] by (simp add: replay_node_vector_def split: option.splits)
  ultimately show ?thesis using assms(2) by (simp add: transaction_node_def i insert_node_keyed)
qed

lemma fold_keyed:
  assumes "\<And>x g. x \<in> set xs \<Longrightarrow> keyed env g \<Longrightarrow> now \<le> g_clock g \<Longrightarrow> keyed env (f x g)"
    and "\<And>x g. x \<in> set xs \<Longrightarrow> g_clock g \<le> g_clock (f x g)"
    and "keyed env g" "now \<le> g_clock g"
  shows "keyed env (fold f xs g)"
  using assms
proof (induction xs arbitrary: g)
  case (Cons x xs)
  have "keyed env (f x g)" using Cons.prems by simp
  moreover have "now \<le> g_clock (f x g)" using Cons.prems(2,4) by (meson list.set_intros(1) order_trans)
  ultimately show ?case using Cons by simp
qed simp

lemma collection_events_keyed:
  assumes "keyed env g"
  shows "keyed env (fst (apply_collection_definition env d g))"
    "keyed env (fst (apply_collection_materialization env m g))"
proof -
  have named: "collections_named (g_collections (fst (apply_collection_definition env d g)))" for d
    using assms by (auto simp: apply_collection_definition_def Let_def set_collection_def keyed_def collection_new_def
        intro!: collections_named_upd split: sum.splits option.splits)
  have core: "same_core (fst (apply_collection_definition env d g)) g" for d by simp
  show d: "keyed env (fst (apply_collection_definition env d g))" for d
    using core [of d] named [of d] apply_collection_clock_ge(1) [of g env d]
    by (intro keyed_later [OF assms]) (simp_all add: same_core_def)
  obtain h r where h: "apply_collection_definition env (cm_definition m) g = (h, r)"
    by (cases "apply_collection_definition env (cm_definition m) g")
  have kh: "keyed env h" using d [of "cm_definition m"] h by simp
  have "keyed env (set_collection n (c\<lparr>vc_bq_center := x, vc_sq8_scale := y\<rparr>) h)"
    if "resolve_collection (Some n) h = Inr c" for n c x y
    using kh that by (auto simp: set_collection_def keyed_def resolve_collection_def collections_named_def)
  then show "keyed env (fst (apply_collection_materialization env m g))"
    using kh by (auto simp: apply_collection_materialization_def h split: sum.splits)
qed

lemma materialized_vector_keyed:
  assumes "keyed env g" shows "keyed env (fst (replay_materialized_vector env v index seq g))"
proof (cases "resolve_collection (ve_collection v) g")
  case (Inr c)
  let ?name = "case ve_collection v of Some n \<Rightarrow> n | None \<Rightarrow> g_default_collection g"
  obtain u h where i: "get_or_intern_id env (ve_node_id v) g = (u, h)" by (cases "get_or_intern_id env (ve_node_id v) g")
  obtain c' r where st: "stage env u (map (ge_as_f32 env) (ve_embedding v))
      (case ve_lang v of Some l \<Rightarrow> l | None \<Rightarrow> ''en'') seq c = (c', r)"
    by (cases "stage env u (map (ge_as_f32 env) (ve_embedding v)) (case ve_lang v of Some l \<Rightarrow> l | None \<Rightarrow> ''en'') seq c")
  have "vc_name c = ?name" using Inr assms by (auto simp: resolve_collection_def Let_def keyed_def collections_named_def)
  then have "vc_name c' = ?name" using stage_name by (metis st fst_conv)
  then have "keyed env (set_collection ?name c' h)"
    using assms intern_stored [OF i] by (simp add: set_collection_def keyed_def collections_named_upd)
  then show ?thesis using Inr i st
    by (auto simp: replay_materialized_vector_def Let_def enqueue_one_def keyed_def split: sum.splits)
qed (use assms in \<open>simp add: replay_materialized_vector_def\<close>)

lemma collect_results_source:
  "collect_results (map f xs) = Inr ys \<Longrightarrow> y \<in> set ys \<Longrightarrow> \<exists>x\<in>set xs. f x = Inr y"
  by (induction xs arbitrary: ys) auto

lemma transaction_keyed:
  fixes env :: "'a graph_env"
  assumes "keyed env g" "\<And>time. event_time (Ev_Transaction t :: 'a db_event) = Some time \<Longrightarrow> time \<le> g_clock g"
  shows "keyed env (apply_transaction_memory env t index seq g)"
proof -
  let ?times = "map (clock_time \<circ> no_clock) (te_nodes t) @ map (clock_time \<circ> eo_clock) (te_edges t)
      @ map (clock_time \<circ> ve_clock) (te_vectors t) @ map (clock_time \<circ> nr_clock) (te_node_retractions t)"
  have le: "x \<le> g_clock g" if "x \<in> set ?times" for x
    using max_option_ge [OF that] assms(2) by (auto intro: order_trans)
  have nodes: "clock_time (no_clock n) \<le> g_clock g"
    if "collect_results (map (migrate_legacy_node_impact (ge_num env)) (te_nodes t)) = Inr ns" "n \<in> set ns" for n ns
  proof -
    from collect_results_source [OF that] obtain m where
      "m \<in> set (te_nodes t)" "migrate_legacy_node_impact (ge_num env) m = Inr n" by blast
    then show ?thesis using le [of "clock_time (no_clock m)"] migrate_node_Inr(2) by force
  qed
  have edges: "clock_time (eo_clock e) \<le> g_clock g"
    if "collect_results (map (migrate_legacy_edge_impact (ge_num env)) (te_edges t)) = Inr es" "e \<in> set es" for e es
  proof -
    from collect_results_source [OF that] obtain m where
      "m \<in> set (te_edges t)" "migrate_legacy_edge_impact (ge_num env) m = Inr e" by blast
    then show ?thesis using le [of "clock_time (eo_clock m)"] migrate_edge_Inr(2) by force
  qed
  have rets: "clock_time (nr_clock r) \<le> g_clock g" if "r \<in> set (te_node_retractions t)" for r
    using le [of "clock_time (nr_clock r)"] that by auto
  show ?thesis
  proof (cases "collect_results (map (migrate_legacy_node_impact (ge_num env)) (te_nodes t))")
    case ns: (Inr ns)
    show ?thesis
    proof (cases "collect_results (map (migrate_legacy_edge_impact (ge_num env)) (te_edges t))")
      case es: (Inr es)
      define g1 where "g1 = fold (transaction_node env index seq) ns g"
      define g2 where "g2 = fetch_max_event_clock (Ev_Transaction t :: 'a db_event) g1"
      define g3 where "g3 = fold (transaction_edge env) es g2"
      define g4 where "g4 = fold (\<lambda>r. retract_and_bury (nr_id r) (nr_clock r) (nr_retracted_at r) seq) (te_node_retractions t) g3"
      have g1: "keyed env g1" "g_clock g \<le> g_clock g1"
        unfolding g1_def using assms(1) nodes [OF ns]
        by (auto intro!: fold_keyed [where now = "g_clock g"] transaction_node_keyed fold_clock_ge intro: order_trans)
      have g2: "keyed env g2" "g_clock g \<le> g_clock g2"
        using g1 keyed_later [OF g1(1), of g2] fetch_max_event_clock_ge(1) [of g1 "Ev_Transaction t :: 'a db_event"]
        by (auto simp: g2_def fetch_max_event_clock_def fetch_max_clock_def keyed_def intro: order_trans split: option.splits)
      have "keyed env g3"
        unfolding g3_def
      proof (rule fold_keyed [where now = "g_clock g"])
        fix e h assume "e \<in> set es" "keyed env h" "g_clock g \<le> g_clock h"
        then show "keyed env (transaction_edge env e h)"
          using order_trans [OF edges [OF es]] by (simp add: transaction_edge_def put_edge_keyed)
      qed (use g2 in \<open>simp_all add: transaction_edge_def\<close>)
      moreover have "g_clock g \<le> g_clock g3"
        unfolding g3_def by (rule order_trans [OF g2(2) fold_clock_ge]) (simp add: transaction_edge_def)
      ultimately have g3: "keyed env g3" "g_clock g \<le> g_clock g3" by auto
      have g4: "keyed env g4"
        unfolding g4_def using g3 rets
        by (auto intro!: fold_keyed [where now = "g_clock g"] retract_and_bury_keyed intro: order_trans)
      have "keyed env (fold (\<lambda>v. apply_vector env v index seq) (te_vectors t) g4)"
        using g4 by (auto intro!: fold_keyed [where now = "g_clock g4"] simp: apply_vector_def replay_vector_keyed)
      then show ?thesis by (simp add: apply_transaction_memory_def Let_def ns es g1_def g2_def g3_def g4_def)
    qed (use assms(1) ns in \<open>simp add: apply_transaction_memory_def require_recovery_def keyed_def\<close>)
  qed (use assms(1) in \<open>simp add: apply_transaction_memory_def require_recovery_def keyed_def\<close>)
qed

lemma fetch_keyed:
  assumes "keyed env g" shows "keyed env (fetch_max_event_clock ev g)"
  using assms fetch_max_event_clock_ge(1)
  by (rule keyed_later) (use assms in \<open>simp_all add: keyed_def fetch_max_event_clock_def fetch_max_clock_def split: option.splits\<close>)

lemma keyed_store [simp]: "keyed env (g\<lparr>g_store := s\<rparr>) \<longleftrightarrow> keyed env g"
  by (simp add: keyed_def)

lemma keyed_or_recovery [simp]: "keyed env (or_recovery p) \<longleftrightarrow> keyed env (fst p)" "keyed env (require_recovery g) \<longleftrightarrow> keyed env g"
  by (simp_all add: or_recovery_def require_recovery_def keyed_def split: prod.splits sum.splits)

lemma apply_event_keyed:
  fixes ev :: "'a db_event"
  shows "keyed env g \<Longrightarrow> keyed env (apply_event_memory env seq index ev g)"
proof (induction ev arbitrary: g)
  case (Ev_Batch es)
  let ?g = "fetch_max_event_clock (Ev_Batch es) g"
  have "keyed env (fold (apply_event_memory env seq index) es ?g)"
  proof (rule fold_keyed [where now = "g_clock ?g"])
    show "g_clock h \<le> g_clock (apply_event_memory env seq index e h)" for e :: "'a db_event" and h
      using fetch_max_event_clock_ge(1) apply_event_clock_ge by (rule order_trans)
  qed (use Ev_Batch fetch_keyed in \<open>auto\<close>)
  then show ?case by (simp add: apply_event_memory.simps [of env seq index "Ev_Batch es"] Let_def)
next
  case (Ev_Transaction t)
  let ?g = "fetch_max_event_clock (Ev_Transaction t :: 'a db_event) g"
  have "keyed env (apply_transaction_memory env t index s ?g)" for s
    using fetch_keyed [OF Ev_Transaction] fetch_max_event_clock_ge(2) by (intro transaction_keyed) blast+
  then show ?case by (simp add: apply_event_memory.simps [of env seq index "Ev_Transaction t"] Let_def)
next
  case (Ev_Node n)
  let ?g = "fetch_max_event_clock (Ev_Node n :: 'a db_event) g"
  have "keyed env ?g" "clock_time (no_clock n) \<le> g_clock ?g"
    using fetch_keyed [OF Ev_Node] fetch_max_event_clock_ge(2) [of "Ev_Node n :: 'a db_event"] by simp_all
  then show ?case using apply_node_eq [of env seq n index ?g] transaction_node_keyed [of env ?g n index seq]
    by (auto simp: apply_event_memory.simps [of env seq index "Ev_Node n"] Let_def)
next
  case (Ev_Edge e)
  let ?g = "fetch_max_event_clock (Ev_Edge e :: 'a db_event) g"
  have "keyed env ?g" "clock_time (eo_clock e) \<le> g_clock ?g"
    using fetch_keyed [OF Ev_Edge] fetch_max_event_clock_ge(2) [of "Ev_Edge e :: 'a db_event"] by simp_all
  then show ?case
    by (auto simp: apply_event_memory.simps [of env seq index "Ev_Edge e"] Let_def apply_edge_def migrate_edge_Inr(2)
        intro!: put_edge_keyed split: sum.splits)
next
  case (Ev_NodeRetract i c at)
  let ?g = "fetch_max_event_clock (Ev_NodeRetract i c at :: 'a db_event) g"
  have "keyed env ?g" "clock_time c \<le> g_clock ?g"
    using fetch_keyed [OF Ev_NodeRetract] fetch_max_event_clock_ge(2) [of "Ev_NodeRetract i c at :: 'a db_event"] by simp_all
  then show ?case
    by (simp add: apply_event_memory.simps [of env seq index "Ev_NodeRetract i c at"] Let_def apply_node_retract_def
        retract_and_bury_keyed)
qed (simp_all add: apply_event_memory.simps [of env seq index] Let_def fetch_keyed collection_events_keyed
    materialized_vector_keyed apply_vector_def replay_vector_keyed apply_store_event_def)

section \<open>A write and the replay of its event\<close>

text \<open>The memory of a graph: everything but the store, the clock and the queue of vectors to index, which
  replay rebuilds separately.\<close>

definition memory :: "graph \<Rightarrow> graph" where
  "memory g = g\<lparr>g_store := example_store, g_clock := 0, g_jobs := []\<rparr>"

lemma memory_fields [simp]:
  "g_ids (memory g) = g_ids g" "g_next_u32 (memory g) = g_next_u32 g" "g_trigrams (memory g) = g_trigrams g"
  "g_nodes (memory g) = g_nodes g" "g_edges (memory g) = g_edges g" "g_out (memory g) = g_out g"
  "g_in (memory g) = g_in g" "g_retired (memory g) = g_retired g" "g_out_retired (memory g) = g_out_retired g"
  "g_in_retired (memory g) = g_in_retired g" "g_tombstones (memory g) = g_tombstones g"
  "g_default_collection (memory g) = g_default_collection g" "g_collections (memory g) = g_collections g"
  by (simp_all add: memory_def)

lemma memory_simps [simp]:
  "memory (memory g) = memory g" "memory (g\<lparr>g_store := s\<rparr>) = memory g" "memory (g\<lparr>g_clock := c\<rparr>) = memory g"
  "memory (fetch_max_event_clock ev g) = memory g" "memory (require_recovery g) = memory g"
  "memory (snd (next_clock g)) = memory g" "memory (enqueue_one name a e g) = memory g"
  by (simp_all add: memory_def fetch_max_event_clock_def fetch_max_clock_def require_recovery_def next_clock_def
      enqueue_one_def split: option.splits)

lemma intern_memory: "get_or_intern_id env i g = (u, h) \<Longrightarrow> get_or_intern_id env i (memory g) = (u, memory h)"
  by (auto simp: get_or_intern_id_def memory_def Let_def cong: if_cong split: option.splits)

lemma unlink_old_edge_memory: "memory (unlink_old_edge k g) = unlink_old_edge k (memory g)"
  by (auto simp: unlink_old_edge_def unlink_out_def unlink_in_def memory_def Let_def split: option.splits)

lemma put_edge_memory: "memory (put_edge env e g) = put_edge env e (memory g)"
proof -
  let ?g1 = "unlink_old_edge (ge_edge_key env (eo_id e)) g"
  obtain uf g2 where i1: "get_or_intern_id env (eo_from e) ?g1 = (uf, g2)" by (cases "get_or_intern_id env (eo_from e) ?g1")
  obtain ut g3 where i2: "get_or_intern_id env (eo_to e) g2 = (ut, g3)" by (cases "get_or_intern_id env (eo_to e) g2")
  show ?thesis
    using intern_memory [OF i1] intern_memory [OF i2]
    by (simp add: put_edge_def index_edge_internal_def Let_def i1 i2 unlink_old_edge_memory [symmetric])
      (simp add: memory_def)
qed

lemma retire_edge_memory: "memory (retire_edge seq k g) = retire_edge seq k (memory g)"
  by (auto simp: retire_edge_def unlink_out_def unlink_in_def memory_def Let_def split: option.splits)

lemma retract_and_bury_memory: "memory (retract_and_bury i c at seq g) = retract_and_bury i c at seq (memory g)"
proof -
  have f: "memory (fold (retire_edge seq) ks g) = fold (retire_edge seq) ks (memory g)" for ks
    by (induction ks arbitrary: g) (simp_all add: retire_edge_memory)
  show ?thesis
    unfolding retract_and_bury_def retract_node_memory_def Let_def memory_fields f [symmetric]
    by (auto simp: memory_def split: option.splits)
qed

lemma insert_node_lean_memory:
  "memory (insert_node_lean env u n g) = memory (insert_node_lean env u n (memory g))"
  by (simp add: insert_node_lean_def memory_def require_recovery_def split: sum.splits)

lemma stored_edge_not_stale:
  assumes "keyed env g" "g_clock g < clock_time (eo_clock e)" shows "\<not> edge_is_stale env e g"
proof (cases "g_edges g (ge_edge_key env (eo_id e))")
  case (Some old)
  then have "clock_time (eo_clock old) < clock_time (eo_clock e)"
    using assms by (auto simp: keyed_def edges_keyed_def intro: le_less_trans)
  then show ?thesis using Some by (auto simp: edge_is_stale_def less_logical_clock_def)
qed (simp add: edge_is_stale_def)

lemma edge_is_stale_same [simp]:
  "edge_is_stale env e (fetch_max_event_clock ev g) \<longleftrightarrow> edge_is_stale env e g"
  by (simp add: edge_is_stale_def fetch_max_event_clock_def fetch_max_clock_def split: option.splits)

lemma replay_edge_event:
  fixes env :: "'a graph_env"
  assumes "keyed env g" "g_clock g < clock_time (eo_clock e)" "eo_impact e = Impact_Absent"
  shows "memory (apply_event_memory env seq index (local_graph_event io schema [] [e] []) g) = put_edge env e (memory g)"
proof (cases "schema = SCHEMA_VERSION")
  case True
  let ?t = "\<lparr>te_transaction_id = wi_transaction_id io, te_origin_commit_seq = 0, te_local_frame_seq = None,
         te_payload_hash = wi_payload_hash io, te_nodes = [], te_edges = [e], te_vectors = [],
         te_node_retractions = [], te_advances_txn_frontier = False\<rparr>"
  have ev: "(local_graph_event io schema [] [e] [] :: 'a db_event) = Ev_Transaction ?t"
    by (simp add: local_graph_event_def True effective_edges_def)
  show ?thesis
    unfolding ev using stored_edge_not_stale [OF assms(1,2)] assms(3)
    by (simp add: apply_event_memory.simps [of env seq index "Ev_Transaction ?t"] apply_transaction_memory_def
        transaction_edge_def put_edge_memory)
next
  case False
  have ev: "(local_graph_event io schema [] [e] [] :: 'a db_event) = Ev_Edge e"
    by (simp add: local_graph_event_def False)
  show ?thesis
    unfolding ev using stored_edge_not_stale [OF assms(1,2)] assms(3)
    by (simp add: apply_event_memory.simps [of env seq index "Ev_Edge e"] Let_def apply_edge_def put_edge_memory)
qed

text \<open>Writing an edge with the endpoints it already has changes only the edge.\<close>

lemma put_edge_same_endpoints:
  assumes "graph_wf g" "g_edges g k = Some old" "ge_edge_key env (eo_id e) = k"
    and "eo_from e = eo_from old" "eo_to e = eo_to old"
  shows "put_edge env e g = g\<lparr>g_edges := (g_edges g)(k \<mapsto> e)\<rparr>"
proof -
  obtain uf ut where u: "g_ids g (eo_from old) = Some uf" "g_ids g (eo_to old) = Some ut"
    using assms(1,2) unfolding graph_wf_def by (metis index_ok_known)
  then have k: "k \<in> g_out g uf" "k \<in> g_in g ut"
    using assms(1,2) by (auto simp: graph_wf_def index_ok_def)
  have "insert k (g_out g uf - {k}) = g_out g uf" "insert k (g_in g ut - {k}) = g_in g ut" using k by auto
  then show ?thesis
    using assms(2-5) u
    by (simp add: put_edge_def index_edge_internal_def unlink_old_edge_def unlink_out_def unlink_in_def
        get_or_intern_id_def fun_upd_idem)
qed

lemma persist_Inr:
  "persist io ev g = (h, Inr seq) \<Longrightarrow> wi_append io = Wal_Acked seq \<and> (\<exists>s. h = g\<lparr>g_store := s\<rparr>)"
  by (auto simp: persist_def append_wal_event_def durable_apply_error_def split: sum.splits prod.splits wal_outcome.splits)

lemma persist_local_Inr:
  "persist_local_graph_mutations T io ns es rs g = (h, Inr seq)
   \<Longrightarrow> wi_append io = Wal_Acked seq \<and> (\<exists>s. h = g\<lparr>g_store := s\<rparr>)"
  by (auto simp: persist_local_graph_mutations_def Let_def dest: persist_Inr split: if_splits sum.splits)

lemma next_clock_time:
  assumes "g_clock g \<noteq> - 1" "next_clock g = (clock, g1)"
  shows "g_clock g < clock_time clock" "g1 = g\<lparr>g_clock := g_clock g + 1\<rparr>"
proof -
  have "g_clock g < g_clock g + 1" using assms(1) by (metis inc_less_eq_self_iff_eq not_le)
  then show "g_clock g < clock_time clock" "g1 = g\<lparr>g_clock := g_clock g + 1\<rparr>"
    using assms(2) by (auto simp: next_clock_def)
qed

lemma add_edge_replay:
  fixes env :: "'a graph_env"
  assumes "keyed env g" "g_clock g \<noteq> - 1" "add_edge env io args g = (g', Inr e)"
  shows "memory g' = memory (apply_event_memory env seq index
           (local_graph_event io (st_schema_version (g_store g)) [] [e] []) g)"
proof -
  obtain clock g1 where c: "next_clock g = (clock, g1)" by (cases "next_clock g")
  note n = next_clock_time [OF assms(2) c]
  obtain g2 r where p': "persist_local_graph_mutations TYPE('a) io [] [new_edge io args clock] [] g1 = (g2, r)"
    by (cases "persist_local_graph_mutations TYPE('a) io [] [new_edge io args clock] [] g1")
  have e: "e = new_edge io args clock" and g': "g' = put_edge env e g2" and "\<exists>q. r = Inr q"
    using assms(3) by (auto simp: add_edge_def c Let_def p' split: sum.splits)
  then obtain q where p: "persist_local_graph_mutations TYPE('a) io [] [e] [] g1 = (g2, Inr q)" using p' by auto
  have "memory g2 = memory g" using persist_local_Inr [OF p] n(2) by auto
  then show ?thesis
    using replay_edge_event [OF assms(1), of e seq index io] n(1) by (simp add: g' put_edge_memory e new_edge_def)
qed

lemma retract_edge_replay:
  fixes env :: "'a graph_env"
  assumes "graph_wf g" "keyed env g" "g_clock g \<noteq> - 1" "retract_edge env io i at g = (g', Inr (Some e))"
    and "eo_impact e = Impact_Absent"
  shows "memory g' = memory (apply_event_memory env seq index
           (local_graph_event io (st_schema_version (g_store g)) [] [e] []) g)"
proof -
  let ?k = "ge_edge_key env i"
  obtain clock g1 where c: "next_clock g = (clock, g1)" by (cases "next_clock g")
  note n = next_clock_time [OF assms(3) c]
  obtain old where old: "g_edges g ?k = Some old"
    using assms(4) by (cases "g_edges g ?k") (auto simp: retract_edge_def Let_def split: sum.splits)
  let ?e = "old\<lparr>eo_valid_to := Some (or_default (wi_now io) at), eo_clock := clock\<rparr>"
  obtain g2 r where p': "persist_local_graph_mutations TYPE('a) io [] [?e] [] g1 = (g2, r)"
    by (cases "persist_local_graph_mutations TYPE('a) io [] [?e] [] g1")
  have e: "e = ?e" and g': "g' = g2\<lparr>g_edges := (g_edges g2)(?k \<mapsto> e)\<rparr>" and "\<exists>q. r = Inr q"
    using assms(4) by (auto simp: retract_edge_def c Let_def old p' split: sum.splits)
  then obtain q where p: "persist_local_graph_mutations TYPE('a) io [] [e] [] g1 = (g2, Inr q)" using p' by auto
  obtain s where "g2 = g1\<lparr>g_store := s\<rparr>" using persist_local_Inr [OF p] by blast
  then have live: "memory g' = (memory g)\<lparr>g_edges := (g_edges g)(?k \<mapsto> e)\<rparr>" by (simp add: g' n(2) memory_def)
  have wf: "graph_wf (memory g)" using assms(1) by (simp add: graph_wf_def)
  have key: "ge_edge_key env (eo_id e) = ?k" using assms(2) old by (auto simp: keyed_def edges_keyed_def e)
  have "put_edge env e (memory g) = (memory g)\<lparr>g_edges := (g_edges (memory g))(?k \<mapsto> e)\<rparr>"
    using wf old key by (intro put_edge_same_endpoints [of _ _ old]) (simp_all add: e)
  then show ?thesis
    using replay_edge_event [OF assms(2), of e seq index io] n(1) assms(5) live by (simp add: e)
qed

lemma not_buried:
  assumes "graph_wf g" "keyed env g" "g_clock g < clock_time clock"
  shows "\<not> ((case live_node g i of Some n \<Rightarrow> no_clock n > clock | None \<Rightarrow> False)
         \<or> (case g_tombstones g i of Some t \<Rightarrow> nt_clock t \<ge> clock | None \<Rightarrow> False))"
proof -
  have "clock_time (no_clock n) < clock_time clock" if "live_node g i = Some n" for n
    using assms(2,3) that unfolding keyed_def nodes_stamped_def live_node_def
    by (metis bind_eq_Some_conv le_less_trans)
  moreover have "clock_time (nt_clock t) < clock_time clock" if "g_tombstones g i = Some t" for t
    using assms(2,3) that unfolding keyed_def nodes_stamped_def by (metis le_less_trans)
  ultimately show ?thesis
    by (fastforce simp: less_logical_clock_def less_eq_logical_clock_def split: option.splits)
qed

lemma fetch_live [simp]: "live_node (fetch_max_event_clock ev g) = live_node g"
  "g_tombstones (fetch_max_event_clock ev g) = g_tombstones g"
  by (simp_all add: fun_eq_iff live_node_def fetch_max_event_clock_def fetch_max_clock_def split: option.splits)

lemma replay_retract_event:
  fixes env :: "'a graph_env"
  assumes "graph_wf g" "keyed env g" "g_clock g < clock_time (nr_clock r)"
  shows "memory (apply_event_memory env seq index (local_graph_event io schema [] [] [r]) g)
     = retract_and_bury (nr_id r) (nr_clock r) (nr_retracted_at r) seq (memory g)"
proof (cases "schema = SCHEMA_VERSION")
  case True
  let ?t = "\<lparr>te_transaction_id = wi_transaction_id io, te_origin_commit_seq = 0, te_local_frame_seq = None,
         te_payload_hash = wi_payload_hash io, te_nodes = [], te_edges = [], te_vectors = [],
         te_node_retractions = [r], te_advances_txn_frontier = False\<rparr>"
  have ev: "(local_graph_event io schema [] [] [r] :: 'a db_event) = Ev_Transaction ?t"
    by (simp add: local_graph_event_def True effective_edges_def)
  show ?thesis
    unfolding ev by (simp add: apply_event_memory.simps [of env seq index "Ev_Transaction ?t"]
        apply_transaction_memory_def retract_and_bury_memory)
next
  case False
  have ev: "(local_graph_event io schema [] [] [r] :: 'a db_event) = Ev_NodeRetract (nr_id r) (nr_clock r) (nr_retracted_at r)"
    by (simp add: local_graph_event_def False)
  have "\<not> ((case live_node g (nr_id r) of Some n \<Rightarrow> no_clock n > nr_clock r | None \<Rightarrow> False)
         \<or> (case g_tombstones g (nr_id r) of Some t \<Rightarrow> nt_clock t \<ge> nr_clock r | None \<Rightarrow> False))"
    by (rule not_buried [OF assms])
  then show ?thesis
    unfolding ev by (simp add: apply_event_memory.simps [of env seq index "Ev_NodeRetract _ _ _"] Let_def
        apply_node_retract_def retract_and_bury_memory)
qed

lemma retract_node_replay:
  fixes env :: "'a graph_env"
  assumes "graph_wf g" "keyed env g" "g_clock g \<noteq> - 1" "retract_node env io i g = (g', Inr ())" "g_ids g i \<noteq> None"
    and "wi_append io = Wal_Acked seq" "fst (next_clock g) = clock"
  shows "memory g' = memory (apply_event_memory env seq index (local_graph_event io (st_schema_version (g_store g)) [] []
           [\<lparr>nr_id = i, nr_clock = clock, nr_retracted_at = wi_now io\<rparr>]) g)"
proof -
  let ?r = "\<lparr>nr_id = i, nr_clock = clock, nr_retracted_at = wi_now io\<rparr>"
  obtain g1 where c: "next_clock g = (clock, g1)" using assms(7) by (cases "next_clock g") auto
  note n = next_clock_time [OF assms(3) c]
  obtain u where u: "g_ids g i = Some u" using assms(5) by auto
  obtain g2 r where p': "persist_local_graph_mutations TYPE('a) io [] [] [?r] g1 = (g2, r)"
    by (cases "persist_local_graph_mutations TYPE('a) io [] [] [?r] g1")
  then obtain q where p: "persist_local_graph_mutations TYPE('a) io [] [] [?r] g1 = (g2, Inr q)"
    and g': "g' = (retract_node_memory i u q g2)\<lparr>g_tombstones := (g_tombstones (retract_node_memory i u q g2))(i \<mapsto>
        \<lparr>nt_clock = clock, nt_retracted_at = wi_now io\<rparr>)\<rparr>"
    using assms(4) u by (auto simp: retract_node_def c Let_def split: sum.splits if_splits)
  have "memory g2 = memory g" "g_ids g2 i = Some u" "q = seq"
    using persist_local_Inr [OF p] n(2) u assms(6) by auto
  moreover have "g' = retract_and_bury i clock (wi_now io) q g2"
    using \<open>g_ids g2 i = Some u\<close> by (simp add: g' retract_and_bury_def Let_def)
  ultimately show ?thesis
    using replay_retract_event [OF assms(1,2), of ?r seq index io] n(1) by (simp add: retract_and_bury_memory)
qed

subsection \<open>Adding a node\<close>

text \<open>The live write puts the node in place first and stages its vector after; replay does it in the other order.\<close>

lemma stage_after_insert:
  assumes "get_or_intern_id env i g = (u, h)" "no_impact n = Impact_Absent"
    and "add_vector_internal env co i emb lang seq (insert_node_lean env u n h) = (g', Inr ())"
    and "resolve_collection co g = Inr c" "collections_named (g_collections g)"
  shows "memory g' = memory (insert_node_lean env u n (replay_vector env (Some (vc_name c)) i emb lang index seq h))"
proof -
  let ?name = "or_default (g_default_collection g) co"
  have c: "g_collections g ?name = Some c" "vc_name c = ?name"
    using assms(4,5) by (auto simp: resolve_collection_def or_default_def collections_named_def Let_def split: option.splits)
  have h: "g_ids h i = Some u" "g_collections h = g_collections g" "g_default_collection h = g_default_collection g"
    using assms(1) by (auto simp: get_or_intern_id_def Let_def split: option.splits)
  obtain c' r where st: "stage env u (ge_prep env (vc_metric c) emb) lang seq c = (c', r)"
    by (cases "stage env u (ge_prep env (vc_metric c) emb) lang seq c")
  have res: "resolve_collection co (insert_node_lean env u n h) = Inr c"
    using assms(4) by (simp add: resolve_collection_def insert_node_lean_def assms(2) h Let_def cong: option.case_cong)
  have ins: "get_or_intern_id env i (insert_node_lean env u n h) = (u, insert_node_lean env u n h)"
    "g_default_collection (insert_node_lean env u n h) = g_default_collection g"
    using h by (simp_all add: get_or_intern_id_def insert_node_lean_def assms(2))
  have "length emb = unat (vc_dim c)" "\<exists>a. r = Inr a" and g': "memory g' = memory (set_collection ?name c' (insert_node_lean env u n h))"
    using assms(3) st by (auto simp: add_vector_internal_def res ins Let_def split: if_splits sum.splits)
  then show ?thesis
    using c st h
    by (auto simp: replay_vector_def get_or_intern_id_def insert_node_lean_def assms(2) set_collection_def
        memory_def enqueue_one_def Let_def)
qed

lemma replay_vector_memory:
  "memory (replay_vector env co i emb lang index seq (memory g)) = memory (replay_vector env co i emb lang index seq g)"
proof -
  obtain u h where i: "get_or_intern_id env i g = (u, h)" by (cases "get_or_intern_id env i g")
  have m: "memory (set_collection name c (memory h)) = memory (set_collection name c h)" for name c
    by (simp add: set_collection_def memory_def)
  let ?name = "case co of Some n \<Rightarrow> n | None \<Rightarrow> g_default_collection g"
  show ?thesis
  proof (cases "g_collections g ?name")
    case (Some c)
    obtain c' r where st: "stage env u (ge_prep env (vc_metric c) emb) lang seq c = (c', r)"
      by (cases "stage env u (ge_prep env (vc_metric c) emb) lang seq c")
    show ?thesis
      by (simp add: replay_vector_def Let_def i intern_memory [OF i] m Some st cong: option.case_cong split: sum.splits)
  qed (simp add: replay_vector_def Let_def cong: option.case_cong)
qed

lemma transaction_node_memory:
  "memory (transaction_node env index seq n (memory g)) = memory (transaction_node env index seq n g)"
proof -
  obtain u h where i: "get_or_intern_id env (no_id n) g = (u, h)" by (cases "get_or_intern_id env (no_id n) g")
  have "memory (replay_node_vector env n index seq (memory h)) = memory (replay_node_vector env n index seq h)"
    by (simp add: replay_node_vector_def replay_vector_memory split: option.splits)
  then show ?thesis
    unfolding transaction_node_def i intern_memory [OF i] prod.case by (metis insert_node_lean_memory)
qed

lemma transaction_node_cong:
  "memory g = memory h \<Longrightarrow> memory (transaction_node env index seq n g) = memory (transaction_node env index seq n h)"
  by (metis transaction_node_memory)

lemma replay_node_event:
  fixes env :: "'a graph_env"
  assumes "graph_wf g" "keyed env g" "g_clock g < clock_time (no_clock n)" "no_impact n = Impact_Absent"
  shows "memory (apply_event_memory env seq index (local_graph_event io schema [n] [] []) g)
     = memory (transaction_node env index seq n g)"
proof (cases "schema = SCHEMA_VERSION")
  case True
  let ?t = "\<lparr>te_transaction_id = wi_transaction_id io, te_origin_commit_seq = 0, te_local_frame_seq = None,
         te_payload_hash = wi_payload_hash io, te_nodes = [n], te_edges = [], te_vectors = [],
         te_node_retractions = [], te_advances_txn_frontier = False\<rparr>"
  have ev: "(local_graph_event io schema [n] [] [] :: 'a db_event) = Ev_Transaction ?t"
    by (simp add: local_graph_event_def True effective_edges_def)
  show ?thesis
    unfolding ev using assms(4)
    by (simp add: apply_event_memory.simps [of env seq index "Ev_Transaction ?t"] apply_transaction_memory_def)
      (rule transaction_node_cong, simp)
next
  case False
  have ev: "(local_graph_event io schema [n] [] [] :: 'a db_event) = Ev_Node n"
    by (simp add: local_graph_event_def False)
  have "\<not> ((case live_node g (no_id n) of Some old \<Rightarrow> no_clock old > no_clock n | None \<Rightarrow> False)
         \<or> (case g_tombstones g (no_id n) of Some t \<Rightarrow> nt_clock t \<ge> no_clock n | None \<Rightarrow> False))"
    by (rule not_buried [OF assms(1-3)])
  then have "apply_node env seq n index (fetch_max_event_clock (Ev_Node n :: 'a db_event) g)
      = transaction_node env index seq n (fetch_max_event_clock (Ev_Node n :: 'a db_event) g)"
    by (simp add: apply_node_def transaction_node_def)
  then show ?thesis
    unfolding ev by (simp add: apply_event_memory.simps [of env seq index "Ev_Node n"]) (rule transaction_node_cong, simp)
qed

lemma add_node_replay:
  fixes env :: "'a graph_env"
  assumes "graph_wf g" "keyed env g" "g_clock g \<noteq> - 1" "add_node env io args g = (g', Inr n)"
    and "wi_append io = Wal_Acked seq"
  shows "memory g' = memory (apply_event_memory env seq index
           (local_graph_event io (st_schema_version (g_store g)) [n] [] []) g)"
proof -
  obtain clock g1 where c: "next_clock g = (clock, g1)" by (cases "next_clock g")
  note nc = next_clock_time [OF assms(3) c]
  define i where "i = or_default (''N-'' @ wi_uuid io) (ni_id args)"
  note run = assms(4) [unfolded add_node_def Let_def c prod.case i_def [symmetric]]
  obtain vec where vec: "check_embedding args g1 = Inr vec"
    using run by (cases "check_embedding args g1") (auto split: sum.splits)
  let ?n = "new_node io args i vec clock"
  obtain g2 r where p: "persist_local_graph_mutations TYPE('a) io [?n] [] [] g1 = (g2, r)"
    by (cases "persist_local_graph_mutations TYPE('a) io [?n] [] [] g1")
  obtain q where r: "r = Inr q"
    using run by (cases r) (auto simp: vec p split: sum.splits)
  have q: "q = seq" "\<exists>s. g2 = g1\<lparr>g_store := s\<rparr>" using persist_local_Inr [OF p [unfolded r]] assms(5) by auto
  obtain u g3 where u: "get_or_intern_id env i g2 = (u, g3)" by (cases "get_or_intern_id env i g2")
  have n: "n = ?n"
    using run by (auto simp: vec p r u split: sum.splits option.splits prod.splits)
  have m: "memory g2 = memory g" "g_collections g2 = g_collections g" "resolve_collection co g1 = resolve_collection co g2" for co
    using q(2) nc(2) by (auto simp: resolve_collection_def cong: option.case_cong)
  have same: "memory g' = memory (transaction_node env index seq n g2)"
  proof (cases "ni_embedding args")
    case None
    then have v: "vec = None" using vec by (simp add: check_embedding_def)
    have "g' = insert_node_lean env u ?n g3"
      using run None by (auto simp: vec p r u split: sum.splits)
    with v show ?thesis
      using u by (simp add: transaction_node_def n new_node_def replay_node_vector_def)
  next
    case (Some emb)
    then obtain co where co: "resolve_collection (ni_collection args) g2 = Inr co" "vec = Some (emb, vc_name co)"
      using vec m(3) by (auto simp: check_embedding_def split: if_splits)
    have "add_vector_internal env (ni_collection args) i emb (or_default ''en'' (ni_lang args)) seq
        (insert_node_lean env u ?n g3) = (g', Inr ())"
      using run by (auto simp: vec p r u Some q(1) split: sum.splits prod.splits)
    from stage_after_insert [OF u _ this co(1), of index] assms(2) m(2)
    have "memory g' = memory (insert_node_lean env u ?n
        (replay_vector env (Some (vc_name co)) i emb (or_default ''en'' (ni_lang args)) index seq g3))"
      by (simp add: new_node_def keyed_def)
    then show ?thesis
      using u co(2) by (simp add: transaction_node_def n replay_node_vector_def new_node_def lang_or_en_def)
  qed
  show ?thesis
    using same transaction_node_cong [OF m(1)] replay_node_event [OF assms(1,2), of n] nc(1) by (simp add: n new_node_def)
qed

section \<open>What the writes promise\<close>

text \<open>C9 (equivalence): a local write leaves the live graph exactly as replaying the event it journalled would, for
  adding a node (with or without a vector), adding an edge, retracting an edge and retracting a node, in both
  forms of the event: one transaction on the current schema, plain events on an older one. The live code and the
  replay code are separate, and stage a node's vector in opposite orders; what a restart rebuilds is what the
  writer saw. The graph is consistent, no stored clock is ahead of the logical clock, and the clock has not
  reached the last value of 32 bits.
\<close>

theorem local_writes_are_what_replay_rebuilds:
  fixes env :: "'a graph_env"
  assumes "graph_wf g" "keyed env g" "g_clock g \<noteq> - 1" "wi_append io = Wal_Acked seq"
  shows "(add_node env io nargs g = (g1, Inr n) \<longrightarrow>
       memory g1 = memory (apply_event_memory env seq index
         (local_graph_event io (st_schema_version (g_store g)) [n] [] []) g))
    \<and> (add_edge env io eargs g = (g2, Inr e) \<longrightarrow>
       memory g2 = memory (apply_event_memory env seq index
         (local_graph_event io (st_schema_version (g_store g)) [] [e] []) g))
    \<and> (retract_edge env io i at g = (g3, Inr (Some e)) \<and> eo_impact e = Impact_Absent \<longrightarrow>
       memory g3 = memory (apply_event_memory env seq index
         (local_graph_event io (st_schema_version (g_store g)) [] [e] []) g))
    \<and> (retract_node env io i g = (g4, Inr ()) \<and> g_ids g i \<noteq> None \<longrightarrow>
       memory g4 = memory (apply_event_memory env seq index
         (local_graph_event io (st_schema_version (g_store g)) [] []
            [\<lparr>nr_id = i, nr_clock = fst (next_clock g), nr_retracted_at = wi_now io\<rparr>]) g))"
  by (intro conjI impI; (elim conjE)?)
    (rule add_node_replay [OF assms(1-3) _ assms(4)] add_edge_replay [OF assms(2,3)] retract_edge_replay [OF assms(1-3)]
      retract_node_replay [OF assms(1-3) _ _ assms(4) refl]; assumption)+

lemma persist_memory: "memory (fst (persist io ev g)) = memory g"
  by (auto simp: persist_def split: sum.splits prod.splits)

lemma persist_local_memory: "memory (fst (persist_local_graph_mutations T io ns es rs g)) = memory g"
  by (auto simp: persist_local_graph_mutations_def Let_def persist_memory split: sum.splits)

lemma persist_local_Inl:
  "persist_local_graph_mutations T io ns es rs g = (h, Inl e) \<Longrightarrow> memory h = memory g"
  using persist_local_memory [of T io ns es rs g] by simp

text \<open>C10 (error): a write of an edge or a retraction that fails leaves the live graph as it was, at whatever step it
  fails; and a write whose event was journalled and whose relational projection then failed puts the store into
  the state that requires recovery, so that the journalled event is applied by replay.
\<close>

theorem failed_writes_leave_the_graph:
  fixes env :: "'a graph_env" and ev :: "'a db_event"
  shows "(add_edge env io eargs g = (g', Inl err) \<longrightarrow> memory g' = memory g)
    \<and> (retract_edge env io i at g = (g', Inl err) \<longrightarrow> memory g' = memory g)
    \<and> (retract_node env io i g = (g', Inl err) \<longrightarrow> memory g' = memory g)
    \<and> (persist io ev g = (g', Inl err) \<and> persist_guards io ev g = Inr () \<and> wi_append io = Wal_Acked seq \<longrightarrow>
         memory g' = memory g \<and> st_recovery_required (g_store g'))"
proof (intro conjI impI)
  have m: "memory g1 = memory g" if "next_clock g = (c, g1)" for c g1
    using that memory_simps(6) [of g] by simp
  show "memory g' = memory g" if "add_edge env io eargs g = (g', Inl err)"
    using that
    by (auto simp: add_edge_def Let_def split: sum.splits prod.splits dest!: persist_local_Inl m)
  show "memory g' = memory g" if "retract_edge env io i at g = (g', Inl err)"
    using that
    by (auto simp: retract_edge_def Let_def split: sum.splits prod.splits option.splits dest!: persist_local_Inl m)
  show "memory g' = memory g" if "retract_node env io i g = (g', Inl err)"
    using that
    by (auto simp: retract_node_def Let_def split: sum.splits prod.splits option.splits if_splits
        dest!: persist_local_Inl m)
  assume p: "persist io ev g = (g', Inl err) \<and> persist_guards io ev g = Inr () \<and> wi_append io = Wal_Acked seq"
  then show "memory g' = memory g" using persist_memory [of io ev g] by simp
  show "st_recovery_required (g_store g')"
    using p by (auto simp: persist_def append_wal_event_def durable_apply_error_def Let_def split: sum.splits prod.splits)
qed

section \<open>Examples of writes\<close>

definition example_io :: write_io where
  "example_io = \<lparr>wi_now = ''t'', wi_now_later = ''t'', wi_uuid = ''u'', wi_transaction_id = ''x'', wi_payload_hash = ''h'',
     wi_expires_at = (\<lambda>_. ''t''), wi_mutation_check = Inr (), wi_local_master = True, wi_requires_master = False,
     wi_preflight_collection = Inr (), wi_preflight_relational = Inr (), wi_revisions = Inr (), wi_append = Wal_Acked 5,
     wi_projection = Inr ()\<rparr>"

definition example_edge_input :: edge_input where
  "example_edge_input = \<lparr>ei_id = Some ''e'', ei_from = ''a'', ei_to = ''b'', ei_rel = ''r'', ei_props = None,
     ei_valid_from = None, ei_supersede = None, ei_impact = None, ei_caused_by = None\<rparr>"

lemma empty_graph_keyed: "keyed env empty_graph"
  by (simp add: keyed_def empty_graph_def edges_keyed_def nodes_stamped_def collections_named_def)

lemma example_add_edge:
  "add_edge example_env example_io example_edge_input empty_graph
   = (put_edge example_env (new_edge example_io example_edge_input (LogicalClock 1 ''p''))
        (empty_graph\<lparr>g_clock := 1, g_store := example_store\<lparr>st_commit_sequence := 5\<rparr>\<rparr>),
      Inr (new_edge example_io example_edge_input (LogicalClock 1 ''p'')))"
  by (simp add: add_edge_def writable_and_readable_def next_clock_def persist_local_graph_mutations_def persist_def
      persist_guards_def ensure_readable_def ensure_writable_def empty_graph_def example_store_def example_io_def
      example_edge_input_def local_graph_event_def SCHEMA_VERSION_def effective_edges_def contains_p6_control_event_def
      append_wal_event_def reject_legacy_impact_def new_edge_def guard_err_def max_def Let_def)

theorem local_writes_are_what_replay_rebuilds_witness:
  "memory (fst (add_edge example_env example_io example_edge_input empty_graph))
   = memory (apply_event_memory example_env 5 False (local_graph_event example_io 6 []
       [new_edge example_io example_edge_input (LogicalClock 1 ''p'')] []) empty_graph)"
proof -
  have "g_clock empty_graph \<noteq> - 1" "wi_append example_io = Wal_Acked 5" "st_schema_version (g_store empty_graph) = 6"
    by (simp_all add: empty_graph_def example_io_def example_store_def)
  with local_writes_are_what_replay_rebuilds [OF empty_graph_wf empty_graph_keyed [of example_env],
      of example_io 5 _ _ _ False example_edge_input]
  show ?thesis by (metis example_add_edge fst_conv)
qed

theorem failed_writes_leave_the_graph_witness:
  "st_recovery_required (g_store (fst (persist (example_io\<lparr>wi_projection := Inl ''disk''\<rparr>) (Ev_Edge example_edge :: unit db_event) empty_graph)))"
proof -
  let ?io = "example_io\<lparr>wi_projection := Inl ''disk''\<rparr>" and ?ev = "Ev_Edge example_edge :: unit db_event"
  have "persist_guards ?io ?ev empty_graph = Inr ()" "\<exists>g err. persist ?io ?ev empty_graph = (g, Inl err)"
    by (simp_all add: persist_def persist_guards_def ensure_readable_def ensure_writable_def empty_graph_def example_store_def
        example_io_def example_edge_def contains_p6_control_event_def append_wal_event_def durable_apply_error_def guard_err_def)
  moreover have "wi_append ?io = Wal_Acked 5" by (simp add: example_io_def)
  ultimately show ?thesis
    using failed_writes_leave_the_graph [of example_env ?io _ empty_graph _ _ _ _ ?ev 5] by (metis fst_conv)
qed

end
