(* ===== verification/GB_Postorder.thy ===== *)
theory GB_Postorder
  imports GB_Prelude
begin

text \<open>
  Binding and evaluation in the second query engine walk expressions without recursion: a stack
  of nodes, each pushed again behind its operands, and a map from visited nodes to their results,
  keyed by the address of the node. The interface below says what such a walk consists of; every
  walk that fits it computes what the recursion over the tree computes, first error included. An
  address is modelled as the path of operand numbers from the root.
\<close>

type_synonym path = "nat list"
type_synonym 'b ready = "path \<rightharpoonup> 'b"
type_synonym ('e, 'd) frame = "path \<times> 'e \<times> 'd \<times> bool"

text \<open>Running a fallible step on every element, with the state passed along.\<close>

fun map_st :: "('a \<Rightarrow> 's \<Rightarrow> ('err, 'b \<times> 's) result) \<Rightarrow> 'a list \<Rightarrow> 's \<Rightarrow> ('err, 'b list \<times> 's) result" where
  "map_st f [] s = Inr ([], s)"
| "map_st f (x # xs) s =
     rbind (f x s) (\<lambda>(y, s1). rbind (map_st f xs s1) (\<lambda>(ys, s2). Inr (y # ys, s2)))"

lemma map_st_Inr_length: "map_st f xs s = Inr (ys, s') \<Longrightarrow> length ys = length xs"
  by (induction xs arbitrary: s ys) auto

lemma map_st_cong [fundef_cong]:
  assumes "xs = ys" "s = t" "\<And>x u. x \<in> set ys \<Longrightarrow> f x u = g x u"
  shows "map_st f xs s = map_st g ys t"
  unfolding assms(1,2) using assms(3)
  by (induction ys arbitrary: t) (auto split: prod.splits intro!: arg_cong2 [where f = rbind] ext)

text \<open>The operands of a node as frames, numbered from \<open>n\<close>.\<close>

fun operand_frames :: "path \<Rightarrow> nat \<Rightarrow> 'e list \<Rightarrow> 'd \<Rightarrow> ('e, 'd) frame list" where
  "operand_frames p n [] d = []"
| "operand_frames p n (e # es) d = (p @ [n], e, d, False) # operand_frames p (Suc n) es d"

fun put_operands :: "path \<Rightarrow> nat \<Rightarrow> 'b list \<Rightarrow> 'b ready \<Rightarrow> 'b ready" where
  "put_operands p n [] r = r"
| "put_operands p n (b # bs) r = put_operands p (Suc n) bs (r(p @ [n] \<mapsto> b))"

text \<open>Taking the result of an operand out of the map.\<close>

definition take_ready :: "'err \<Rightarrow> path \<Rightarrow> 'b ready \<Rightarrow> ('err, 'b \<times> 'b ready) result" where
  "take_ready err p r = (case r p of None \<Rightarrow> Inl err | Some b \<Rightarrow> Inr (b, r(p := None)))"

definition nothing_below :: "path \<Rightarrow> nat \<Rightarrow> 'b ready \<Rightarrow> bool" where
  "nothing_below p n r \<longleftrightarrow> (\<forall>i q. n \<le> i \<longrightarrow> r (p @ i # q) = None)"

lemma nothing_below_empty [simp]: "nothing_below p n Map.empty"
  by (simp add: nothing_below_def)

lemma nothing_below_operand: "nothing_below p n r \<Longrightarrow> n \<le> i \<Longrightarrow> nothing_below (p @ [i]) 0 r"
  by (auto simp: nothing_below_def)

lemma nothing_below_put: "nothing_below p n r \<Longrightarrow> nothing_below p (Suc n) (r(p @ [n] \<mapsto> b))"
  by (auto simp: nothing_below_def)

lemma put_operands_other: "(\<And>i. i < length bs \<Longrightarrow> q \<noteq> p @ [n + i]) \<Longrightarrow> put_operands p n bs r q = r q"
proof (induction bs arbitrary: n r)
  case (Cons b bs)
  have "q \<noteq> p @ [n]" using Cons.prems [of 0] by simp
  moreover have "q \<noteq> p @ [Suc n + i]" if "i < length bs" for i using Cons.prems [of "Suc i"] that by simp
  ultimately show ?case using Cons.IH by simp
qed simp

lemma put_operands_update:
  "m < n \<Longrightarrow> put_operands p n bs (r(p @ [m] := x)) = (put_operands p n bs r)(p @ [m] := x)"
proof (induction bs arbitrary: n r)
  case (Cons b bs)
  have "r(p @ [m] := x, p @ [n] \<mapsto> b) = r(p @ [n] \<mapsto> b, p @ [m] := x)"
    using Cons.prems by (intro fun_upd_twist) simp
  then show ?case unfolding put_operands.simps using Cons.IH [of "Suc n"] Cons.prems by (metis less_SucI)
qed simp

lemma take_first_operand:
  assumes "nothing_below p n r"
  shows "take_ready err (p @ [n]) (put_operands p n (b # bs) r) = Inr (b, put_operands p (Suc n) bs r)"
proof -
  have "put_operands p (Suc n) bs r (p @ [n]) = None"
    using assms by (subst put_operands_other) (auto simp: nothing_below_def)
  then have "(put_operands p (Suc n) bs r)(p @ [n] := None) = put_operands p (Suc n) bs r" by (simp add: fun_upd_idem)
  then show ?thesis by (simp add: put_operands_update take_ready_def)
qed

text \<open>Taking all operands of a node, in order.\<close>

fun take_operands :: "'err \<Rightarrow> path \<Rightarrow> nat \<Rightarrow> nat \<Rightarrow> 'b ready \<Rightarrow> ('err, 'b list \<times> 'b ready) result" where
  "take_operands err p n 0 r = Inr ([], r)"
| "take_operands err p n (Suc k) r =
     rbind (take_ready err (p @ [n]) r) (\<lambda>(b, r1).
     rbind (take_operands err p (Suc n) k r1) (\<lambda>(bs, r2). Inr (b # bs, r2)))"

lemma take_operands_put:
  "nothing_below p n r \<Longrightarrow> take_operands err p n (length bs) (put_operands p n bs r) = Inr (bs, r)"
proof (induction bs arbitrary: n)
  case (Cons b bs)
  have "nothing_below p (Suc n) r" using Cons.prems by (auto simp: nothing_below_def)
  then show ?case
    using Cons.IH take_first_operand [OF Cons.prems, of err b bs] by (simp del: put_operands.simps)
qed simp

text \<open>A weight of the stack for termination: entering a node costs more than all that it pushes.\<close>

fun frame_weight :: "('e \<Rightarrow> nat) \<Rightarrow> ('e, 'd) frame \<Rightarrow> nat" where
  "frame_weight w (p, e, d, visited) = (if visited then 1 else 4 * w e + 2)"

definition stack_weight :: "('e \<Rightarrow> nat) \<Rightarrow> ('e, 'd) frame list \<Rightarrow> nat" where
  "stack_weight w st = sum_list (map (frame_weight w) st)"

lemma stack_weight_simps [simp]:
  "stack_weight w [] = 0" "stack_weight w (f # st) = frame_weight w f + stack_weight w st"
  "stack_weight w (st @ st') = stack_weight w st + stack_weight w st'"
  by (simp_all add: stack_weight_def)

lemma stack_weight_operands [simp]:
  "stack_weight w (operand_frames p n ks d) = (\<Sum>k\<leftarrow>ks. 4 * w k + 2)"
  by (induction ks arbitrary: n) simp_all

section \<open>The interface of a walk\<close>

locale postorder =
  fixes loop :: "('e, 'd) frame list \<Rightarrow> 'b ready \<Rightarrow> 's \<Rightarrow> ('err, 'b ready \<times> 's) result"
    and enter :: "'e \<Rightarrow> 'd \<Rightarrow> 's \<Rightarrow> ('err, 's) result"
    and again :: "'e \<Rightarrow> 'd \<Rightarrow> 's \<Rightarrow> ('err, 's) result"
    and operands :: "'e \<Rightarrow> 'e list"
    and down :: "'d \<Rightarrow> 'd"
    and node :: "path \<Rightarrow> 'e \<Rightarrow> 'b ready \<Rightarrow> 's \<Rightarrow> ('err, 'b \<times> 'b ready \<times> 's) result"
    and build :: "'e \<Rightarrow> 'b list \<Rightarrow> 's \<Rightarrow> ('err, 'b \<times> 's) result"
    and recursive :: "'d \<Rightarrow> 'e \<Rightarrow> 's \<Rightarrow> ('err, 'b \<times> 's) result"
    and weight :: "'e \<Rightarrow> nat"
  assumes loop_Nil: "loop [] r s = Inr (r, s)"
    and loop_enter: "loop ((p, e, d, False) # st) r s =
      rbind (enter e d s) (\<lambda>s1. loop (operand_frames p 0 (operands e) (down d) @ (p, e, d, True) # st) r s1)"
    and loop_again: "loop ((p, e, d, True) # st) r s =
      rbind (again e d s) (\<lambda>s1. rbind (node p e r s1) (\<lambda>(b, r1, s2). loop st (r1(p \<mapsto> b)) s2))"
    and node_build: "nothing_below p 0 r \<Longrightarrow> length bs = length (operands e) \<Longrightarrow>
      node p e (put_operands p 0 bs r) s = rbind (build e bs s) (\<lambda>(b, s1). Inr (b, r, s1))"
    and recursion: "recursive d e s =
      rbind (enter e d s) (\<lambda>s1. rbind (map_st (recursive (down d)) (operands e) s1) (\<lambda>(bs, s2).
      rbind (again e d s2) (build e bs)))"
    and lighter: "k \<in> set (operands e) \<Longrightarrow> weight k < weight e"
begin

lemma loop_operands:
  assumes "\<And>k p st r s. k \<in> set ks \<Longrightarrow> nothing_below p 0 r \<Longrightarrow>
      loop ((p, k, d, False) # st) r s = rbind (recursive d k s) (\<lambda>(b, s1). loop st (r(p \<mapsto> b)) s1)"
    and "nothing_below p n r"
  shows "loop (operand_frames p n ks d @ st) r s =
      rbind (map_st (recursive d) ks s) (\<lambda>(bs, s1). loop st (put_operands p n bs r) s1)"
  using assms
proof (induction ks arbitrary: n r s)
  case (Cons k ks)
  have k: "loop ((p @ [n], k, d, False) # operand_frames p (Suc n) ks d @ st) r s =
      rbind (recursive d k s) (\<lambda>(b, s1). loop (operand_frames p (Suc n) ks d @ st) (r(p @ [n] \<mapsto> b)) s1)"
    using Cons.prems nothing_below_operand [OF Cons.prems(2) order_refl] by (intro Cons.prems(1)) auto
  have "loop (operand_frames p (Suc n) ks d @ st) (r(p @ [n] \<mapsto> b)) s1 =
      rbind (map_st (recursive d) ks s1) (\<lambda>(bs, s2). loop st (put_operands p (Suc n) bs (r(p @ [n] \<mapsto> b))) s2)" for b s1
    using Cons.prems by (intro Cons.IH nothing_below_put) auto
  note rest = this
  show ?case
  proof (cases "recursive d k s")
    case (Inr bs1)
    obtain b s1 where "bs1 = (b, s1)" by (cases bs1)
    with Inr rest [of b s1] show ?thesis by (simp add: k rbind_assoc split_def)
  qed (simp add: k)
qed simp

lemma loop_node:
  assumes "nothing_below p 0 r"
  shows "loop ((p, e, d, False) # st) r s = rbind (recursive d e s) (\<lambda>(b, s1). loop st (r(p \<mapsto> b)) s1)"
  using assms
proof (induction e arbitrary: p d st r s rule: measure_induct_rule [where f = weight])
  case (less e)
  have ks: "loop (operand_frames p 0 (operands e) (down d) @ st') r s1 =
      rbind (map_st (recursive (down d)) (operands e) s1) (\<lambda>(bs, s2). loop st' (put_operands p 0 bs r) s2)" for st' s1
    using less.IH [OF lighter] less.prems by (intro loop_operands)
  have "loop ((p, e, d, True) # st) (put_operands p 0 bs r) s2 =
      rbind (again e d s2) (\<lambda>s3. rbind (build e bs s3) (\<lambda>(b, s4). loop st (r(p \<mapsto> b)) s4))"
    if "map_st (recursive (down d)) (operands e) s1 = Inr (bs, s2)" for bs s1 s2
    using node_build [OF less.prems map_st_Inr_length [OF that]]
    by (simp add: loop_again rbind_assoc split_def)
  then show ?case
    unfolding loop_enter ks recursion [of d e] rbind_assoc
    by (intro rbind_cong refl) (auto simp: rbind_assoc split_def intro!: rbind_cong)
qed

text \<open>A walk from the root computes the recursion.\<close>

theorem loop_is_recursive:
  "rbind (loop [([], e, d, False)] Map.empty s) (\<lambda>(r, s1). rbind (ok_or err (r [])) (\<lambda>b. Inr (b, s1))) = recursive d e s"
  by (cases "recursive d e s") (auto simp: loop_node loop_Nil)

end

end
