(* ===== verification/GB_Bind.thy ===== *)
theory GB_Bind
  imports GB_Wire GB_Postorder
begin

text \<open>
  Binding of the second query engine (\<open>src/src/query/hql2/bind.rs\<close>): typed parameters, and the
  binding of expressions, an explicit stack walk with a map from the addresses of visited nodes to
  their bound form. The conversions of floats and the derived decoder of record references are the
  parameters \<open>F\<close> and \<open>R\<close> of the value decoder. The walk is shown to be the recursion over the
  expression, and what it returns to be well typed.
\<close>

section \<open>Parameters\<close>

fun contains_entity_type :: "query_type \<Rightarrow> bool" where
  "contains_entity_type TEntity = True"
| "contains_entity_type (TNullable t) = contains_entity_type t"
| "contains_entity_type (TList t) = contains_entity_type t"
| "contains_entity_type _ = False"

fun contains_json :: "query_type \<Rightarrow> bool" where
  "contains_json TJson = True"
| "contains_json (TNullable t) = contains_json t"
| "contains_json (TList t) = contains_json t"
| "contains_json _ = False"

type_synonym bound_parameters = "string \<rightharpoonup> query_type \<times> query_value"

definition json_text :: "json_map \<Rightarrow> string \<Rightarrow> string option" where
  "json_text obj key = Option.bind (map_of obj key) as_string"

definition vector_parameter_type ::
  "(string \<times> string) list option \<Rightarrow> string \<Rightarrow> json_map \<Rightarrow> (query_error, query_type) result" where
  "vector_parameter_type types nm obj =
     (case types of
        Some declared \<Rightarrow>
          rbind (ok_or (bind_error ''vector_type_unresolved'') (map_of declared nm)) parse_type
      | None \<Rightarrow>
          rbind (ok_or (bind_error ''vector_type_unresolved'')
            (case json_text obj ''space_id'' of Some s \<Rightarrow> if s = [] then None else Some s | None \<Rightarrow> None)) (\<lambda>space.
          rbind (ok_or (bind_error ''vector_type_unresolved'')
            (case Option.bind (map_of obj ''values'') as_array of
               Some vs \<Rightarrow> if length vs < 65536 \<and> 0 < length vs then Some (of_nat (length vs)) else None
             | None \<Rightarrow> None)) (\<lambda>dimension.
          Inr (TVector space dimension F64))))"

definition decode_parameter ::
  "float_ops \<Rightarrow> (json \<Rightarrow> record_ref contract) \<Rightarrow> (string \<times> string) list option \<Rightarrow> string \<Rightarrow> json
     \<Rightarrow> (query_error, query_type \<times> query_value) result" where
  "decode_parameter F R types nm v =
     (case v of
        JObject obj \<Rightarrow>
          (if json_text obj ''type'' = Some ''vector'' then
             (if length obj \<noteq> 3 then Inl (bind_error ''typed_parameter'')
              else rbind (vector_parameter_type types nm obj) (\<lambda>ty.
                case ty of
                  TVector space _ _ \<Rightarrow>
                    if json_text obj ''space_id'' \<noteq> Some space
                    then Inl (query_error_new ''COLLECTION_SPACE_MISMATCH'' ''bind'' ''vector_space'')
                    else rbind (ok_or (bind_error ''typed_parameter'') (map_of obj ''values'')) (\<lambda>vec.
                      rbind (decode_value F R ty vec) (\<lambda>x. Inr (ty, x)))
                | _ \<Rightarrow> Inl (bind_error ''parameter_type_mismatch'')))
           else
             (case map_of obj ''value'' of
                None \<Rightarrow> Inl (bind_error ''typed_parameter'')
              | Some val \<Rightarrow>
                  if length obj \<noteq> 2 then Inl (bind_error ''typed_parameter'')
                  else rbind (ok_or (bind_error ''typed_parameter'') (json_text obj ''type'')) (\<lambda>tn.
                    rbind (parse_type tn) (\<lambda>ty.
                    if ty = TNull \<or> contains_json ty
                    then Inl (unsupported_parameter ''json_parameter_unavailable'')
                    else if ty \<noteq> TEntity \<and> contains_entity_type ty
                    then Inl (unsupported_parameter ''entity_parameter_scope'')
                    else rbind (decode_value F R ty val) (\<lambda>x. Inr (ty, x))))))
      | _ \<Rightarrow> Inl (bind_error ''typed_parameter''))"

fun decode_parameters ::
  "float_ops \<Rightarrow> (json \<Rightarrow> record_ref contract) \<Rightarrow> (string \<times> string) list option \<Rightarrow> json_map \<Rightarrow> bound_parameters
     \<Rightarrow> (query_error, bound_parameters) result" where
  "decode_parameters F R types [] vals = Inr vals"
| "decode_parameters F R types ((nm, v) # params) vals =
     rbind (decode_parameter F R types nm v) (\<lambda>tv. decode_parameters F R types params (vals(nm \<mapsto> tv)))"

definition get_parameter :: "bound_parameters \<Rightarrow> string \<Rightarrow> (query_error, query_type \<times> query_value) result" where
  "get_parameter vals nm = ok_or (bind_error ''undeclared_parameter'') (vals nm)"

definition parameter_decimal_u64 :: "bound_parameters \<Rightarrow> string \<Rightarrow> (query_error, u64) result" where
  "parameter_decimal_u64 vals nm =
     rbind (get_parameter vals nm) (\<lambda>(ty, x).
     if ty \<noteq> TDecimalU64 then Inl (bind_error ''parameter_type_mismatch'')
     else (case x of VDecimalU64 n \<Rightarrow> Inr n | _ \<Rightarrow> Inl (bind_error ''parameter_type_mismatch'')))"

section \<open>Bound expressions\<close>

record column = col_name :: string  col_ty :: query_type

record field_id = fi_index :: u32  fi_name :: "string option"  fi_has_property :: bool

datatype bound_expr = Bound (be_ty: query_type) (be_kind: expr_kind)
and expr_kind =
    XLiteral query_value
  | XField nat
  | XEntityRefField nat string
  | XScoreField nat string
  | XHistoryField nat string
  | XChangeField nat string
  | XProperty bound_expr bound_expr bool field_id
  | XBinary binary_op bound_expr bound_expr
  | XUnary unary_op bound_expr
  | XLower bound_expr
  | XLength bound_expr
  | XIn bound_expr "bound_expr list" bool

definition ordered_type :: "query_type \<Rightarrow> bool" where
  "ordered_type t \<longleftrightarrow> base_type t \<in> {TBool, TI64, TDecimalU64, TF64Finite, TUtf8}"

definition equality_comparable :: "query_type \<Rightarrow> bool" where
  "equality_comparable t \<longleftrightarrow> ordered_type t \<or> base_type t = TJson"

definition numeric_type :: "query_type \<Rightarrow> bool" where
  "numeric_type t \<longleftrightarrow> base_type t \<in> {TI64, TF64Finite}"

definition boolean_type :: "query_type \<Rightarrow> (query_error, unit) result" where
  "boolean_type t = guard_err (base_type t \<noteq> TBool) (bind_error ''boolean_type'')"

definition nullable_if :: "query_type \<Rightarrow> bool \<Rightarrow> query_type" where
  "nullable_if t yes = (if yes then as_nullable t else t)"

definition contextual_null :: "bound_expr \<Rightarrow> query_type \<Rightarrow> (query_error, bound_expr) result" where
  "contextual_null b context =
     (if be_ty b \<noteq> TNull \<or> base_type context = TNull then Inl (bind_error ''ambiguous_null_literal'')
      else Inr (Bound (as_nullable context) (be_kind b)))"

definition issue_field :: "bool \<Rightarrow> string option \<Rightarrow> u32 \<Rightarrow> (query_error, field_id \<times> u32) result" where
  "issue_field has_property bound_name nxt =
     rbind (ok_or (bind_error ''field_count'') (checked_add nxt 1)) (\<lambda>nxt'.
       Inr (\<lparr>fi_index = nxt, fi_name = bound_name, fi_has_property = has_property\<rparr>, nxt'))"

section \<open>Binding a node\<close>

definition bind_literal ::
  "float_ops \<Rightarrow> (json \<Rightarrow> record_ref contract) \<Rightarrow> json \<Rightarrow> string \<Rightarrow> (query_error, bound_expr) result" where
  "bind_literal F R lit tn =
     rbind (parse_type tn) (\<lambda>ty.
     if ty = TNull then
       (if lit \<noteq> JNull then Inl (bind_error ''null_literal'') else Inr (Bound ty (XLiteral VNull)))
     else if ty = TEntity then Inl (unsupported_parameter ''entity_literal_scope'')
     else rbind (decode_value F R ty lit) (\<lambda>v. Inr (Bound ty (XLiteral v))))"

definition bind_parameter :: "bound_parameters \<Rightarrow> string \<Rightarrow> (query_error, bound_expr) result" where
  "bind_parameter P nm =
     rbind (get_parameter P nm) (\<lambda>(ty, v).
     if ty = TEntity then Inl (unsupported_parameter ''entity_parameter_scope'')
     else Inr (Bound ty (XLiteral v)))"

fun find_column :: "column list \<Rightarrow> string \<Rightarrow> (nat \<times> column) option" where
  "find_column [] nm = None"
| "find_column (c # cs) nm =
     (if col_name c = nm then Some (0, c) else map_option (\<lambda>(i, d). (Suc i, d)) (find_column cs nm))"

definition score_field_type :: "string \<Rightarrow> query_type option" where
  "score_field_type f = map_of
     [(''value'', TF64Finite), (''distance'', TF64Finite), (''owner'', TEntity), (''source'', TUtf8),
      (''scope'', TUtf8), (''metric'', TUtf8)] f"

definition history_field_type :: "string \<Rightarrow> query_type option" where
  "history_field_type f = map_of
     [(''subject'', TEntity), (''operation'', TUtf8), (''valid_from'', TUtf8), (''tx_from'', TDecimalU64),
      (''tx_to'', as_nullable TDecimalU64), (''valid_to'', as_nullable TUtf8), (''id'', TUtf8), (''kind'', TUtf8),
      (''revision_id'', TUtf8)] f"

definition change_field_type :: "string \<Rightarrow> query_type option" where
  "change_field_type f = map_of
     [(''sequence'', TDecimalU64), (''operation'', TUtf8), (''subject'', TEntity)] f"

definition entity_fields :: "string list" where
  "entity_fields = [''database_id'', ''namespace'', ''kind'', ''id'', ''revision'']"

definition bind_field :: "column list \<Rightarrow> field_ref \<Rightarrow> (query_error, bound_expr) result" where
  "bind_field cols f =
     rbind (ok_or (bind_error ''unknown_field'') (find_column cols (fr_alias f))) (\<lambda>(i, c).
     case fr_path f of
       [] \<Rightarrow> Inr (Bound (col_ty c) (XField i))
     | [nm] \<Rightarrow>
         if base_type (col_ty c) = TEntity \<and> nm \<in> set entity_fields
         then Inr (Bound (nullable_if TUtf8 (is_nullable (col_ty c))) (XEntityRefField i nm))
         else if base_type (col_ty c) = TScore then
           rbind (ok_or (bind_error ''score_field'') (score_field_type nm)) (\<lambda>ty. Inr (Bound ty (XScoreField i nm)))
         else if base_type (col_ty c) = THistoryRevision then
           rbind (ok_or (bind_error ''history_field'') (history_field_type nm)) (\<lambda>ty. Inr (Bound ty (XHistoryField i nm)))
         else if base_type (col_ty c) = TChangeEvent then
           rbind (ok_or (bind_error ''change_field'') (change_field_type nm)) (\<lambda>ty. Inr (Bound ty (XChangeField i nm)))
         else Inl (bind_error ''scalar_field_path'')
     | _ \<Rightarrow> Inl (bind_error ''scalar_field_path''))"

definition resolve_nulls :: "bound_expr \<Rightarrow> bound_expr \<Rightarrow> (query_error, bound_expr \<times> bound_expr) result" where
  "resolve_nulls l r =
     (if be_ty l = TNull \<and> be_ty r \<noteq> TNull then rbind (contextual_null l (be_ty r)) (\<lambda>l'. Inr (l', r))
      else if be_ty r = TNull \<and> be_ty l \<noteq> TNull then rbind (contextual_null r (be_ty l)) (\<lambda>r'. Inr (l, r'))
      else Inr (l, r))"

definition binary_type :: "binary_op \<Rightarrow> query_type \<Rightarrow> query_type \<Rightarrow> (query_error, query_type) result" where
  "binary_type op l r =
     (let null = is_nullable l \<or> is_nullable r in
      if op \<in> {OpAnd, OpOr} then
        rbind (boolean_type l) (\<lambda>_. rbind (boolean_type r) (\<lambda>_. Inr (nullable_if TBool null)))
      else if op \<in> {OpAdd, OpSub, OpMul, OpDiv, OpRem} then
        (if \<not> numeric_type l \<or> base_type l \<noteq> base_type r then Inl (bind_error ''numeric_type'')
         else Inr (nullable_if (base_type l) null))
      else if op \<in> {OpEq, OpNe} then
        (if l = TNull \<or> r = TNull then Inl (bind_error ''ambiguous_null_literal'')
         else if base_type l \<noteq> base_type r then Inl (bind_error ''comparison_type'')
         else if \<not> equality_comparable l then Inl (unsupported_parameter ''equality_unavailable'')
         else Inr (nullable_if TBool null))
      else if op \<in> {OpLt, OpLe, OpGt, OpGe} then
        (if \<not> ordered_type l \<or> base_type l \<noteq> base_type r then Inl (bind_error ''comparator_unavailable'')
         else Inr (nullable_if TBool null))
      else
        (if base_type l \<noteq> TUtf8 \<or> base_type r \<noteq> TUtf8 then Inl (bind_error ''string_type'')
         else Inr (nullable_if TBool null)))"

definition bind_binary :: "binary_op \<Rightarrow> bound_expr \<Rightarrow> bound_expr \<Rightarrow> (query_error, bound_expr) result" where
  "bind_binary op l0 r0 =
     rbind (resolve_nulls l0 r0) (\<lambda>(l, r).
     rbind (binary_type op (be_ty l) (be_ty r)) (\<lambda>ty. Inr (Bound ty (XBinary op l r))))"

definition bind_unary :: "unary_op \<Rightarrow> bound_expr \<Rightarrow> (query_error, bound_expr) result" where
  "bind_unary op a =
     (if op \<in> {OpIsNull, OpIsNotNull} \<and> be_ty a = TNull then Inl (bind_error ''ambiguous_null_literal'')
      else rbind (case op of
             OpNot \<Rightarrow> rbind (boolean_type (be_ty a)) (\<lambda>_. Inr (be_ty a))
           | OpNeg \<Rightarrow> if \<not> numeric_type (be_ty a) then Inl (bind_error ''numeric_type'') else Inr (be_ty a)
           | _ \<Rightarrow> Inr TBool) (\<lambda>ty. Inr (Bound ty (XUnary op a))))"

definition bind_property :: "string \<Rightarrow> bound_expr \<Rightarrow> bound_expr \<Rightarrow> u32 \<Rightarrow> (query_error, bound_expr \<times> u32) result" where
  "bind_property call entity nm nxt =
     (if base_type (be_ty entity) \<noteq> TEntity \<or> base_type (be_ty nm) \<noteq> TUtf8 then Inl (bind_error ''property_type'')
      else
        let has_property = (call = ''has_prop'');
            bound_name = (case be_kind nm of XLiteral (VUtf8 s) \<Rightarrow> Some s | _ \<Rightarrow> None) in
        rbind (issue_field has_property bound_name nxt) (\<lambda>(field, nxt').
          Inr (Bound (if has_property then TBool else TNullable TJson) (XProperty entity nm has_property field), nxt')))"

definition bind_string_call :: "string \<Rightarrow> bound_expr \<Rightarrow> (query_error, bound_expr) result" where
  "bind_string_call call a =
     (if base_type (be_ty a) \<noteq> TUtf8 then Inl (bind_error ''function_type'')
      else Inr (Bound (nullable_if (if call = ''lower'' then TUtf8 else TI64) (is_nullable (be_ty a)))
                 (if call = ''lower'' then XLower a else XLength a)))"

definition bind_in :: "bound_expr \<Rightarrow> bound_expr list \<Rightarrow> bool \<Rightarrow> (query_error, bound_expr) result" where
  "bind_in needle vals0 negated =
     (if be_ty needle = TNull then Inl (bind_error ''ambiguous_null_literal'')
      else rbind (collect_results (map (\<lambda>v. if be_ty v = TNull then contextual_null v (be_ty needle) else Inr v) vals0)) (\<lambda>vals.
        if \<not> equality_comparable (be_ty needle) then Inl (unsupported_parameter ''equality_unavailable'')
        else if list_ex (\<lambda>v. base_type (be_ty v) \<noteq> base_type (be_ty needle)) vals then Inl (bind_error ''comparison_type'')
        else Inr (Bound (nullable_if TBool (is_nullable (be_ty needle) \<or> list_ex (\<lambda>v. is_nullable (be_ty v)) vals))
                   (XIn needle vals negated))))"

definition unbound :: query_error where
  "unbound = bind_error ''bound_expression''"

text \<open>What binding reads: the decoders, the columns in scope and the parameters.\<close>

record bind_env =
  bn_floats :: float_ops
  bn_refs :: "json \<Rightarrow> record_ref contract"
  bn_scope :: "column list"
  bn_params :: bound_parameters

definition bind_expr_node ::
  "bind_env \<Rightarrow> path \<Rightarrow> expr \<Rightarrow> bound_expr ready \<Rightarrow> u32 \<Rightarrow> (query_error, bound_expr \<times> bound_expr ready \<times> u32) result" where
  "bind_expr_node B p e ready nxt =
     (case e of
        ELiteral lit tn \<Rightarrow> rbind (bind_literal (bn_floats B) (bn_refs B) lit tn) (\<lambda>b. Inr (b, ready, nxt))
      | EParam nm \<Rightarrow> rbind (bind_parameter (bn_params B) nm) (\<lambda>b. Inr (b, ready, nxt))
      | EField f \<Rightarrow> rbind (bind_field (bn_scope B) f) (\<lambda>b. Inr (b, ready, nxt))
      | EBinary op _ _ \<Rightarrow>
          rbind (take_ready unbound (p @ [0]) ready) (\<lambda>(l, ready1).
          rbind (take_ready unbound (p @ [1]) ready1) (\<lambda>(r, ready2).
          rbind (bind_binary op l r) (\<lambda>b. Inr (b, ready2, nxt))))
      | EUnary op _ \<Rightarrow>
          rbind (take_ready unbound (p @ [0]) ready) (\<lambda>(a, ready1).
          rbind (bind_unary op a) (\<lambda>b. Inr (b, ready1, nxt)))
      | ECall call args \<Rightarrow>
          if call \<in> {''prop'', ''has_prop''} then
            (if length args \<noteq> 2 then Inl (bind_error ''function_arity'')
             else rbind (take_ready unbound (p @ [0]) ready) (\<lambda>(entity, ready1).
               rbind (take_ready unbound (p @ [1]) ready1) (\<lambda>(nm, ready2).
               rbind (bind_property call entity nm nxt) (\<lambda>(b, nxt'). Inr (b, ready2, nxt')))))
          else if call \<notin> {''lower'', ''length''} then Inl (bind_error ''unknown_function'')
          else if length args \<noteq> 1 then Inl (bind_error ''function_arity'')
          else rbind (take_ready unbound (p @ [0]) ready) (\<lambda>(a, ready1).
            rbind (bind_string_call call a) (\<lambda>b. Inr (b, ready1, nxt)))
      | EIn _ vals negated \<Rightarrow>
          rbind (take_ready unbound (p @ [0]) ready) (\<lambda>(needle, ready1).
          rbind (take_operands unbound p 1 (length vals) ready1) (\<lambda>(vs, ready2).
          rbind (bind_in needle vs negated) (\<lambda>b. Inr (b, ready2, nxt)))))"

section \<open>The walk\<close>

fun expr_operands :: "expr \<Rightarrow> expr list" where
  "expr_operands (EBinary _ l r) = [l, r]"
| "expr_operands (EUnary _ a) = [a]"
| "expr_operands (ECall _ args) = args"
| "expr_operands (EIn e vals _) = e # vals"
| "expr_operands _ = []"

lemma expr_operands_light: "Suc (\<Sum>k\<leftarrow>expr_operands e. 4 * size k + 2) < 4 * size e + 2" if "expr_operands e \<noteq> []"
proof -
  have "(\<Sum>k\<leftarrow>ks. 4 * size k + 2) \<le> 4 * size_list size ks" for ks :: "expr list" by (induction ks) auto
  note le = this
  show ?thesis
  proof (cases e)
    case (ECall f args)
    then show ?thesis using le [of args] by (simp add: less_Suc_eq_le)
  next
    case (EIn x vals n)
    then show ?thesis using le [of vals] by (simp add: less_Suc_eq_le)
  qed (use that in auto)
qed

lemma expr_operand_smaller: "k \<in> set (expr_operands e) \<Longrightarrow> size k < size e"
  by (cases e) (auto simp: less_Suc_eq_le intro: order_trans [OF size_list_estimation'] trans_le_add2)

definition bind_depth :: "expr \<Rightarrow> nat \<Rightarrow> u32 \<Rightarrow> (query_error, u32) result" where
  "bind_depth e depth nxt = (if depth \<ge> 128 then Inl (bind_error ''expression_depth'') else Inr nxt)"

function bind_loop ::
  "bind_env \<Rightarrow> (expr, nat) frame list \<Rightarrow> bound_expr ready \<Rightarrow> u32 \<Rightarrow> (query_error, bound_expr ready \<times> u32) result" where
  "bind_loop B [] ready nxt = Inr (ready, nxt)"
| "bind_loop B ((p, e, depth, visited) # st) ready nxt =
     rbind (bind_depth e depth nxt) (\<lambda>nxt1.
     if visited then
       rbind (bind_expr_node B p e ready nxt1) (\<lambda>(b, ready1, nxt2). bind_loop B st (ready1(p \<mapsto> b)) nxt2)
     else bind_loop B (operand_frames p 0 (expr_operands e) (depth + 1) @ (p, e, depth, True) # st) ready nxt1)"
  by pat_completeness auto
termination
proof (relation "measure (\<lambda>(B, st, ready, nxt). stack_weight size st)")
  fix p :: path and e depth visited and st :: "(expr, nat) frame list" and B ready nxt nxt1
  show "((B, operand_frames p 0 (expr_operands e) (depth + 1) @ (p, e, depth, True) # st, ready, nxt1),
      B, (p, e, depth, visited) # st, ready, nxt) \<in> measure (\<lambda>(B, st, ready, nxt). stack_weight size st)"
    if "\<not> visited"
    using that expr_operands_light [of e] by (cases "expr_operands e = []") auto
qed auto

definition bind_expr :: "bind_env \<Rightarrow> nat \<Rightarrow> expr \<Rightarrow> u32 \<Rightarrow> (query_error, bound_expr \<times> u32) result" where
  "bind_expr B depth e nxt =
     rbind (bind_loop B [([], e, depth, False)] Map.empty nxt) (\<lambda>(ready, nxt').
     rbind (ok_or unbound (ready [])) (\<lambda>b. Inr (b, nxt')))"

section \<open>The walk is the recursion\<close>

definition bind_build :: "bind_env \<Rightarrow> expr \<Rightarrow> bound_expr list \<Rightarrow> u32 \<Rightarrow> (query_error, bound_expr \<times> u32) result" where
  "bind_build B e bs nxt =
     (case e of
        ELiteral lit tn \<Rightarrow> rbind (bind_literal (bn_floats B) (bn_refs B) lit tn) (\<lambda>b. Inr (b, nxt))
      | EParam nm \<Rightarrow> rbind (bind_parameter (bn_params B) nm) (\<lambda>b. Inr (b, nxt))
      | EField f \<Rightarrow> rbind (bind_field (bn_scope B) f) (\<lambda>b. Inr (b, nxt))
      | EBinary op _ _ \<Rightarrow> rbind (bind_binary op (bs ! 0) (bs ! 1)) (\<lambda>b. Inr (b, nxt))
      | EUnary op _ \<Rightarrow> rbind (bind_unary op (bs ! 0)) (\<lambda>b. Inr (b, nxt))
      | ECall call args \<Rightarrow>
          if call \<in> {''prop'', ''has_prop''} then
            (if length args \<noteq> 2 then Inl (bind_error ''function_arity'') else bind_property call (bs ! 0) (bs ! 1) nxt)
          else if call \<notin> {''lower'', ''length''} then Inl (bind_error ''unknown_function'')
          else if length args \<noteq> 1 then Inl (bind_error ''function_arity'')
          else rbind (bind_string_call call (bs ! 0)) (\<lambda>b. Inr (b, nxt))
      | EIn _ _ negated \<Rightarrow> rbind (bind_in (bs ! 0) (tl bs) negated) (\<lambda>b. Inr (b, nxt)))"

function bind_recursive :: "bind_env \<Rightarrow> nat \<Rightarrow> expr \<Rightarrow> u32 \<Rightarrow> (query_error, bound_expr \<times> u32) result" where
  "bind_recursive B depth e nxt =
     rbind (bind_depth e depth nxt) (\<lambda>nxt1.
     rbind (map_st (bind_recursive B (depth + 1)) (expr_operands e) nxt1) (\<lambda>(bs, nxt2).
     rbind (bind_depth e depth nxt2) (bind_build B e bs)))"
  by pat_completeness auto
termination
  by (relation "measure (\<lambda>(B, depth, e, nxt). size e)") (auto dest: expr_operand_smaller)

declare bind_recursive.simps [simp del]

lemma bind_node_build:
  assumes below: "nothing_below p 0 r" and len: "length bs = length (expr_operands e)"
  shows "bind_expr_node B p e (put_operands p 0 bs r) nxt = rbind (bind_build B e bs nxt) (\<lambda>(b, s1). Inr (b, r, s1))"
proof -
  have b1: "nothing_below p (Suc 0) r" using below by (auto simp: nothing_below_def)
  have one: "take_ready unbound (p @ [0]) (put_operands p 0 [x] r) = Inr (x, r)" for x
    using take_first_operand [OF below, of unbound x "[]"] by simp
  have two: "take_ready unbound (p @ [0]) (put_operands p 0 [x, y] r) = Inr (x, r(p @ [Suc 0] \<mapsto> y))"
    "take_ready unbound (p @ [Suc 0]) (r(p @ [Suc 0] \<mapsto> y)) = Inr (y, r)" for x y
    using take_first_operand [OF below, of unbound x "[y]"] take_first_operand [OF b1, of unbound y "[]"] by simp_all
  show ?thesis
  proof (cases e)
    case (EBinary op l r')
    then obtain x y where "bs = [x, y]" using len by (auto simp: length_Suc_conv)
    then show ?thesis by (simp add: EBinary bind_expr_node_def bind_build_def two rbind_assoc del: put_operands.simps)
  next
    case (EUnary op a)
    then obtain x where "bs = [x]" using len by (auto simp: length_Suc_conv)
    then show ?thesis by (simp add: EUnary bind_expr_node_def bind_build_def one rbind_assoc del: put_operands.simps)
  next
    case (ECall call args)
    show ?thesis
    proof (cases "length args = 2 \<or> length args = 1")
      case True
      then obtain x y where "bs = [x, y] \<or> bs = [x]" using len ECall by (auto simp: length_Suc_conv numeral_2_eq_2)
      then show ?thesis using len ECall
        by (elim disjE) (simp_all add: bind_expr_node_def bind_build_def one two rbind_assoc split_def del: put_operands.simps)
    qed (simp add: ECall bind_expr_node_def bind_build_def)
  next
    case (EIn x vals negated)
    then obtain b bs' where bs: "bs = b # bs'" "length bs' = length vals" using len by (cases bs) auto
    have "take_operands unbound p (Suc 0) (length vals) (put_operands p (Suc 0) bs' r) = Inr (bs', r)"
      using take_operands_put [OF b1, of unbound bs'] bs(2) by simp
    then show ?thesis
      using take_first_operand [OF below, of unbound b bs']
      by (simp add: EIn bs(1) bind_expr_node_def bind_build_def rbind_assoc del: put_operands.simps)
  qed (use len in \<open>simp_all add: bind_expr_node_def bind_build_def rbind_assoc\<close>)
qed

interpretation bind_walk: postorder "bind_loop B" bind_depth bind_depth expr_operands Suc "bind_expr_node B" "bind_build B"
    "bind_recursive B" size for B
proof unfold_locales
  show "bind_recursive B d e s = rbind (bind_depth e d s) (\<lambda>s1. rbind (map_st (bind_recursive B (Suc d)) (expr_operands e) s1)
      (\<lambda>(bs, s2). rbind (bind_depth e d s2) (bind_build B e bs)))" for d e s
    by (subst bind_recursive.simps) simp
qed (simp_all add: bind_node_build expr_operand_smaller)

lemma bind_expr_is_recursive: "bind_expr B depth e nxt = bind_recursive B depth e nxt"
  unfolding bind_expr_def by (rule bind_walk.loop_is_recursive)

section \<open>Typing of bound expressions\<close>

text \<open>All values of a type, those of the domain types included.\<close>

primrec value_of_type :: "query_type \<Rightarrow> query_value \<Rightarrow> bool" where
  "value_of_type TNull x = (x = VNull)"
| "value_of_type (TNullable t) x = (x = VNull \<or> value_of_type t x)"
| "value_of_type TBool x = (\<exists>b. x = VBool b)"
| "value_of_type TI64 x = (\<exists>i. x = VI64 i)"
| "value_of_type TDecimalU64 x = (\<exists>n. x = VDecimalU64 n)"
| "value_of_type TF64Finite x = (\<exists>f. x = VF64 f \<and> f64_is_finite f)"
| "value_of_type TUtf8 x = (\<exists>s. x = VUtf8 s)"
| "value_of_type TJson x = (\<exists>j. x = VJson j)"
| "value_of_type TEntity x = (\<exists>r. x = VEntity r)"
| "value_of_type THistoryRevision x = (\<exists>h. x = VHistoryRevision h)"
| "value_of_type TChangeEvent x = (\<exists>c. x = VChangeEvent c)"
| "value_of_type TScore x = (\<exists>s. x = VScore s \<and> f64_is_finite (sv_value s))"
| "value_of_type TPath x = (\<exists>p. x = VPath p)"
| "value_of_type TContext x = (\<exists>c. x = VContext c)"
| "value_of_type (TList t) x = (\<exists>xs. x = VList xs \<and> list_all (value_of_type t) xs)"
| "value_of_type (TVector space dim scalar) x =
     (\<exists>v. x = VVector v \<and> vv_space_id v = space \<and> vv_scalar v = scalar
        \<and> length (vv_values v) = unat dim \<and> list_all f64_is_finite (vv_values v))"

lemma has_type_value: "has_type E t x \<Longrightarrow> value_of_type t x"
  by (induction t arbitrary: x) (auto simp: list_all_iff)

lemma value_base: "value_of_type t x \<Longrightarrow> x = VNull \<and> is_nullable t \<or> value_of_type (base_type t) x"
  by (cases t) auto

lemma null_value: "is_nullable t \<Longrightarrow> value_of_type t VNull"
  by (cases t) auto

lemma value_nullable_if: "value_of_type t x \<Longrightarrow> value_of_type (nullable_if t yes) x"
  by (cases t) (auto simp: nullable_if_def as_nullable_def)

lemma null_nullable_if: "yes \<Longrightarrow> value_of_type (nullable_if t yes) VNull"
  by (cases t) (auto simp: nullable_if_def as_nullable_def)

lemma nullable_as_nullable [simp]: "is_nullable (as_nullable t)"
  by (cases t) (auto simp: as_nullable_def)

lemma nullable_if_not_null [simp]: "t \<noteq> TNull \<Longrightarrow> nullable_if t yes \<noteq> TNull"
  by (auto simp: nullable_if_def as_nullable_def split: if_splits)

definition parameters_typed :: "bound_parameters \<Rightarrow> bool" where
  "parameters_typed P \<longleftrightarrow> (\<forall>nm ty v. P nm = Some (ty, v) \<longrightarrow> value_of_type ty v)"

lemma decode_parameter_typed: "decode_parameter F R types nm v = Inr (ty, x) \<Longrightarrow> value_of_type ty x"
proof -
  assume p: "decode_parameter F R types nm v = Inr (ty, x)"
  then obtain obj where v: "v = JObject obj" by (cases v) (auto simp: decode_parameter_def)
  have "\<exists>j. decode_value F R ty j = Inr x"
  proof (cases "json_text obj ''type'' = Some ''vector''")
    case True
    then obtain t where "vector_parameter_type types nm obj = Inr t"
      using p by (auto simp: decode_parameter_def v split: if_splits)
    then show ?thesis using p True by (cases t) (auto simp: decode_parameter_def v split: if_splits)
  next
    case False
    then show ?thesis using p by (auto simp: decode_parameter_def v split: if_splits option.splits)
  qed
  then show ?thesis using decode_value_typed has_type_value by blast
qed

lemma decode_parameters_typed:
  "decode_parameters F R types params vals = Inr P \<Longrightarrow> parameters_typed vals \<Longrightarrow> parameters_typed P"
proof (induction params arbitrary: vals)
  case (Cons nv params)
  obtain nm v where nv: "nv = (nm, v)" by (cases nv)
  then obtain ty x where tx: "decode_parameter F R types nm v = Inr (ty, x)"
    and rest: "decode_parameters F R types params (vals(nm \<mapsto> (ty, x))) = Inr P"
    using Cons.prems(1) by auto
  have "parameters_typed (vals(nm \<mapsto> (ty, x)))"
    using Cons.prems(2) decode_parameter_typed [OF tx] by (auto simp: parameters_typed_def)
  then show ?case by (rule Cons.IH [OF rest])
qed simp

text \<open>A bound expression fits its columns: every node has the type its kind allows. A column of type
  \<open>Null\<close> may be read at any nullable type.\<close>

definition column_at :: "column list \<Rightarrow> nat \<Rightarrow> query_type \<Rightarrow> bool" where
  "column_at cols i base \<longleftrightarrow> i < length cols \<and> base_type (col_ty (cols ! i)) = base"

fun well_bound :: "column list \<Rightarrow> bound_expr \<Rightarrow> bool"
  and well_kind :: "column list \<Rightarrow> query_type \<Rightarrow> expr_kind \<Rightarrow> bool" where
  "well_bound cols (Bound ty k) = well_kind cols ty k"
| "well_kind cols ty (XLiteral v) = value_of_type ty v"
| "well_kind cols ty (XField i) \<longleftrightarrow> i < length cols \<and>
     (ty = col_ty (cols ! i) \<or> col_ty (cols ! i) = TNull \<and> is_nullable ty)"
| "well_kind cols ty (XEntityRefField i f) \<longleftrightarrow> column_at cols i TEntity \<and> f \<in> set entity_fields
     \<and> ty = nullable_if TUtf8 (is_nullable (col_ty (cols ! i)))"
| "well_kind cols ty (XScoreField i f) \<longleftrightarrow> column_at cols i TScore \<and> score_field_type f = Some ty"
| "well_kind cols ty (XHistoryField i f) \<longleftrightarrow> column_at cols i THistoryRevision \<and> history_field_type f = Some ty"
| "well_kind cols ty (XChangeField i f) \<longleftrightarrow> column_at cols i TChangeEvent \<and> change_field_type f = Some ty"
| "well_kind cols ty (XProperty e nm has fld) \<longleftrightarrow> well_bound cols e \<and> well_bound cols nm
     \<and> base_type (be_ty e) = TEntity \<and> base_type (be_ty nm) = TUtf8 \<and> fi_has_property fld = has
     \<and> fi_name fld = (case be_kind nm of XLiteral (VUtf8 s) \<Rightarrow> Some s | _ \<Rightarrow> None)
     \<and> ty = (if has then TBool else TNullable TJson)"
| "well_kind cols ty (XBinary op l r) \<longleftrightarrow> well_bound cols l \<and> well_bound cols r
     \<and> binary_type op (be_ty l) (be_ty r) = Inr ty"
| "well_kind cols ty (XUnary op a) \<longleftrightarrow> well_bound cols a
     \<and> (case op of OpNot \<Rightarrow> base_type (be_ty a) = TBool \<and> ty = be_ty a
        | OpNeg \<Rightarrow> numeric_type (be_ty a) \<and> ty = be_ty a | _ \<Rightarrow> ty = TBool)"
| "well_kind cols ty (XLower a) \<longleftrightarrow> well_bound cols a \<and> base_type (be_ty a) = TUtf8
     \<and> ty = nullable_if TUtf8 (is_nullable (be_ty a))"
| "well_kind cols ty (XLength a) \<longleftrightarrow> well_bound cols a \<and> base_type (be_ty a) = TUtf8
     \<and> ty = nullable_if TI64 (is_nullable (be_ty a))"
| "well_kind cols ty (XIn a vs negated) \<longleftrightarrow> well_bound cols a \<and> list_all (well_bound cols) vs
     \<and> equality_comparable (be_ty a) \<and> list_all (\<lambda>v. base_type (be_ty v) = base_type (be_ty a)) vs
     \<and> ty = nullable_if TBool (is_nullable (be_ty a) \<or> list_ex (\<lambda>v. is_nullable (be_ty v)) vs)"

lemma binary_type_not_null: "binary_type op l r \<noteq> Inr TNull"
  by (auto simp: binary_type_def Let_def numeric_type_def split: if_splits)

lemma field_types_not_null:
  "score_field_type f \<noteq> Some TNull" "history_field_type f \<noteq> Some TNull" "change_field_type f \<noteq> Some TNull"
  by (auto simp: score_field_type_def history_field_type_def change_field_type_def as_nullable_def split: if_splits)

lemma well_kind_null: "well_kind cols TNull k \<Longrightarrow> is_nullable t \<Longrightarrow> well_kind cols t k"
  by (cases k) (auto simp: null_value binary_type_not_null field_types_not_null numeric_type_def
      eq_commute [of TNull] split: unary_op.splits if_splits)

lemma contextual_null_well: "contextual_null b t = Inr b' \<Longrightarrow> well_bound cols b \<Longrightarrow> well_bound cols b'"
  by (cases b) (auto simp: contextual_null_def well_kind_null split: if_splits)

lemma find_column_Some: "find_column cols nm = Some (i, c) \<Longrightarrow> i < length cols \<and> cols ! i = c \<and> col_name c = nm"
  by (induction cols arbitrary: i) (auto split: if_splits)

lemma bind_leaf_well:
  "bind_literal F R lit tn = Inr b \<Longrightarrow> well_bound cols b"
  "parameters_typed P \<Longrightarrow> bind_parameter P nm = Inr b \<Longrightarrow> well_bound cols b"
  "bind_field cols f = Inr b \<Longrightarrow> well_bound cols b"
proof -
  show "bind_literal F R lit tn = Inr b \<Longrightarrow> well_bound cols b"
    by (auto simp: bind_literal_def split: if_splits dest!: decode_value_typed has_type_value)
  show "parameters_typed P \<Longrightarrow> bind_parameter P nm = Inr b \<Longrightarrow> well_bound cols b"
    by (auto simp: bind_parameter_def get_parameter_def parameters_typed_def split: if_splits)
  show "bind_field cols f = Inr b \<Longrightarrow> well_bound cols b"
  proof -
    assume b: "bind_field cols f = Inr b"
    then obtain i c where c: "find_column cols (fr_alias f) = Some (i, c)" by (auto simp: bind_field_def)
    note at = find_column_Some [OF c]
    consider "fr_path f = []" | nm where "fr_path f = [nm]" | nm1 nm2 nms where "fr_path f = nm1 # nm2 # nms"
      by (cases "fr_path f"; cases "tl (fr_path f)") auto
    then show ?thesis
      by cases (use b at in \<open>auto simp: bind_field_def c column_at_def split: if_splits\<close>)
  qed
qed

lemma bind_node_well:
  assumes "well_bound cols l" "well_bound cols r"
  shows "bind_binary op l r = Inr b \<Longrightarrow> well_bound cols b"
    "bind_unary u l = Inr b \<Longrightarrow> well_bound cols b"
    "bind_property call l r nxt = Inr (b, nxt') \<Longrightarrow> well_bound cols b"
    "bind_string_call call l = Inr b \<Longrightarrow> well_bound cols b"
    "list_all (well_bound cols) vs \<Longrightarrow> bind_in l vs negated = Inr b \<Longrightarrow> well_bound cols b"
proof -
  show "bind_binary op l r = Inr b \<Longrightarrow> well_bound cols b"
    using assms by (auto simp: bind_binary_def resolve_nulls_def contextual_null_well split: if_splits)
  show "bind_unary u l = Inr b \<Longrightarrow> well_bound cols b"
    using assms(1) by (auto simp: bind_unary_def boolean_type_def split: if_splits unary_op.splits)
  show "bind_property call l r nxt = Inr (b, nxt') \<Longrightarrow> well_bound cols b"
    using assms by (auto simp: bind_property_def issue_field_def Let_def split: if_splits)
  show "bind_string_call call l = Inr b \<Longrightarrow> well_bound cols b"
    using assms(1) by (auto simp: bind_string_call_def split: if_splits)
  assume vs: "list_all (well_bound cols) vs" and b: "bind_in l vs negated = Inr b"
  obtain ws where ws: "collect_results (map (\<lambda>v. if be_ty v = TNull then contextual_null v (be_ty l) else Inr v) vs) = Inr ws"
    and fits: "equality_comparable (be_ty l)" "\<not> list_ex (\<lambda>v. base_type (be_ty v) \<noteq> base_type (be_ty l)) ws"
    and b': "b = Bound (nullable_if TBool (is_nullable (be_ty l) \<or> list_ex (\<lambda>v. is_nullable (be_ty v)) ws)) (XIn l ws negated)"
    using b by (auto simp: bind_in_def split: if_splits)
  have "list_all (well_bound cols) ws"
    using ws vs unfolding collect_map_Inr list_all_length list_all2_conv_all_nth
    by (metis Inr_inject contextual_null_well)
  then show "well_bound cols b" using assms(1) fits b' by (auto simp: list_all_iff list_ex_iff)
qed

lemma map_st_all:
  assumes "map_st f xs s = Inr (ys, s')" "\<And>x s y s'. x \<in> set xs \<Longrightarrow> f x s = Inr (y, s') \<Longrightarrow> Q y"
  shows "list_all Q ys"
  using assms by (induction xs arbitrary: s ys) (auto, blast+)

lemma bind_recursive_well:
  assumes "parameters_typed (bn_params B)"
  shows "bind_recursive B depth e nxt = Inr (b, nxt') \<Longrightarrow> well_bound (bn_scope B) b"
proof (induction e arbitrary: depth nxt b nxt' rule: measure_induct_rule [where f = size])
  case (less e)
  then obtain nxt1 bs nxt2 nxt3 where bs: "map_st (bind_recursive B (depth + 1)) (expr_operands e) nxt1 = Inr (bs, nxt2)"
    and b: "bind_build B e bs nxt3 = Inr (b, nxt')"
    by (subst (asm) bind_recursive.simps) auto
  have well: "list_all (well_bound (bn_scope B)) bs"
    using map_st_all [OF bs] less.IH expr_operand_smaller by blast
  have len: "length bs = length (expr_operands e)" using map_st_Inr_length [OF bs] .
  note leaf = bind_leaf_well and node = bind_node_well
  show ?case
  proof (cases e)
    case (EIn x vals negated)
    then show ?thesis using b well len
      by (cases bs) (auto simp: bind_build_def intro: node(5))
  next
    case (ECall call args)
    consider (two) x y where "bs = [x, y]" | (one) x where "bs = [x]" | (other) "length args \<noteq> 2" "length args \<noteq> 1"
      using len ECall by (cases bs; cases "tl bs"; cases "tl (tl bs)") auto
    then show ?thesis
    proof cases
      case two
      then show ?thesis using b well len ECall by (auto simp: bind_build_def intro: node(3) split: if_splits)
    next
      case one
      then show ?thesis using b well len ECall by (auto simp: bind_build_def intro: node(4) split: if_splits)
    next
      case other
      then show ?thesis using b ECall by (auto simp: bind_build_def split: if_splits)
    qed
  qed (use b well len assms in \<open>auto simp: bind_build_def list_all_length intro: leaf node(1,2)\<close>)
qed

lemma bind_expr_well:
  "parameters_typed (bn_params B) \<Longrightarrow> bind_expr B depth e nxt = Inr (b, nxt') \<Longrightarrow> well_bound (bn_scope B) b"
  unfolding bind_expr_is_recursive by (rule bind_recursive_well)

end
