(* ===== verification/GB_Eval.thy ===== *)
theory GB_Eval
  imports GB_Bind GB_Budget "HOL-Library.Signed_Division"
begin

text \<open>
  Evaluation of bound expressions (\<open>src/src/query/hql2/exec.rs\<close>, with the hydrated property values of
  \<open>source.rs\<close>): the sizes charged to the memory budget, equality and comparison of values, the
  operators, and the evaluator, an explicit stack walk like that of binding. Floats are bit patterns;
  the arithmetic of floats, Unicode lower case and the sizes of the compiled types are in
  \<open>eval_ops\<close>. The budget reads the clock at every check, so the state counts the readings and
  \<open>xe_clock\<close> says what each of them shows.
\<close>

section \<open>Floats, integers and order\<close>

datatype ordering = OLess | OEqual | OGreater

definition cmp :: "'a::linorder \<Rightarrow> 'a \<Rightarrow> ordering" where
  "cmp a b = (if a < b then OLess else if a = b then OEqual else OGreater)"

definition f64_magnitude :: "u64 \<Rightarrow> int" where
  "f64_magnitude v = uint (v AND 0x7FFFFFFFFFFFFFFF)"

text \<open>The numeric order of floats that are not NaN, on their bits.\<close>

definition f64_key :: "u64 \<Rightarrow> int" where
  "f64_key v = (if v AND 0x8000000000000000 \<noteq> 0 then - f64_magnitude v else f64_magnitude v)"

definition f64_partial_cmp :: "u64 \<Rightarrow> u64 \<Rightarrow> ordering option" where
  "f64_partial_cmp a b = (if f64_is_nan a \<or> f64_is_nan b then None else Some (cmp (f64_key a) (f64_key b)))"

definition f64_neg :: "u64 \<Rightarrow> u64" where
  "f64_neg v = v XOR 0x8000000000000000"

text \<open>The checked operations of a signed 64-bit integer.\<close>

definition in_i64 :: "int \<Rightarrow> bool" where
  "in_i64 i \<longleftrightarrow> - (2 ^ 63) \<le> i \<and> i < 2 ^ 63"

definition i64_checked :: "int \<Rightarrow> i64 option" where
  "i64_checked i = (if in_i64 i then Some (word_of_int i) else None)"

definition i64_checked_rem :: "i64 \<Rightarrow> i64 \<Rightarrow> i64 option" where
  "i64_checked_rem a b =
     (if sint b = 0 \<or> sint a = - (2 ^ 63) \<and> sint b = - 1 then None else Some (word_of_int (sint a smod sint b)))"

definition i64_checked_div :: "i64 \<Rightarrow> i64 \<Rightarrow> i64 option" where
  "i64_checked_div a b = (if sint b = 0 then None else i64_checked (sint a sdiv sint b))"

record eval_ops =
  xo_size_value :: u64
  xo_size_row :: u64
  xo_size_ref :: u64
  xo_add :: "u64 \<Rightarrow> u64 \<Rightarrow> u64"
  xo_sub :: "u64 \<Rightarrow> u64 \<Rightarrow> u64"
  xo_mul :: "u64 \<Rightarrow> u64 \<Rightarrow> u64"
  xo_div :: "u64 \<Rightarrow> u64 \<Rightarrow> u64"
  xo_rem :: "u64 \<Rightarrow> u64 \<Rightarrow> u64"
  xo_of_i64 :: "i64 \<Rightarrow> u64"
  xo_lower :: "string \<Rightarrow> string"

definition failure :: "string \<Rightarrow> query_error" where
  "failure reason = query_error_new ''BIND_ERROR'' ''execute'' reason"

section \<open>Sizes of values\<close>

definition ref_bytes :: "record_ref \<Rightarrow> nat" where
  "ref_bytes r = length (rr_database_id r) + length (rr_namespace r) + length (rr_id r) + length (rr_revision r)"

text \<open>The loop over the parts of a JSON value; the stack of pending parts is a list with the top first.\<close>

definition json_size_step :: "json \<Rightarrow> u64 \<Rightarrow> u64" where
  "json_size_step v size_so_far =
     (let n = saturating_add size_so_far 32 in
      case v of
        JString s \<Rightarrow> saturating_add n (of_nat (length s))
      | JObject m \<Rightarrow> fold (\<lambda>(k, _) n. saturating_add n (of_nat (length k))) m n
      | _ \<Rightarrow> n)"

fun json_parts :: "json \<Rightarrow> json list" where
  "json_parts (JArray vs) = vs"
| "json_parts (JObject m) = map snd m"
| "json_parts _ = []"

lemma json_parts_size: "(\<Sum>v\<leftarrow>json_parts j. Suc (size v)) < Suc (size j)"
proof -
  have a: "(\<Sum>v\<leftarrow>vs. Suc (size v)) = size_list size vs" for vs :: "json list" by (induction vs) auto
  have o: "(\<Sum>v\<leftarrow>map snd m. Suc (size v)) \<le> size_list (size_prod (\<lambda>_. 0) size) m" for m :: "(string \<times> json) list"
    by (induction m) auto
  show ?thesis
  proof (cases j)
    case (JArray vs)
    then show ?thesis using a [of vs] by simp
  next
    case (JObject m)
    then show ?thesis using o [of m] by simp
  qed simp_all
qed

function json_bytes_loop :: "json list \<Rightarrow> u64 \<Rightarrow> u64" where
  "json_bytes_loop [] n = n"
| "json_bytes_loop (v # pending) n = json_bytes_loop (rev (json_parts v) @ pending) (json_size_step v n)"
  by pat_completeness auto
termination
proof (relation "measure (\<lambda>(pending, n). \<Sum>v\<leftarrow>pending. Suc (size v))")
  fix v pending n
  show "((rev (json_parts v) @ pending, json_size_step v n), v # pending, n)
      \<in> measure (\<lambda>(pending, n). \<Sum>v\<leftarrow>pending. Suc (size v))"
    using json_parts_size [of v] by (simp add: rev_map [symmetric] sum_list_rev)
qed simp

definition json_value_bytes :: "json \<Rightarrow> u64" where
  "json_value_bytes v = json_bytes_loop [v] 0"

fun value_bytes :: "eval_ops \<Rightarrow> query_value \<Rightarrow> u64" where
  "value_bytes K (VUtf8 s) = saturating_add (xo_size_value K) (of_nat (length s))"
| "value_bytes K (VJson v) = saturating_add (xo_size_value K) (json_value_bytes v)"
| "value_bytes K (VEntity r) = saturating_add (xo_size_value K) (of_nat (ref_bytes r))"
| "value_bytes K (VHistoryRevision h) = saturating_add (xo_size_value K)
     (of_nat (ref_bytes (hr_subject h) + length (hr_operation h) + length (hr_valid_from h)
        + (case hr_valid_to h of None \<Rightarrow> 0 | Some s \<Rightarrow> length s)))"
| "value_bytes K (VChangeEvent c) = saturating_add (xo_size_value K)
     (of_nat (ref_bytes (ev_subject c) + length (ev_operation c)))"
| "value_bytes K (VScore s) = saturating_add (xo_size_value K)
     (of_nat (ref_bytes (sv_owner s) + length (sv_source s) + length (sv_scope s) + length (sv_metric s)))"
| "value_bytes K (VContext c) = saturating_add (xo_size_value K)
     (of_nat (length (cp_rendered_context c) + length (cp_tokenizer_fingerprint c)
       + (\<Sum>f\<leftarrow>cp_fragments c. length (cf_text f) + length (cf_citation f) + length (rr_id (ce_source (cf_evidence f)))
            + length (rr_revision (ce_source (cf_evidence f))) + length (ce_source_hash (cf_evidence f)))
       + (\<Sum>e\<leftarrow>cp_omitted_refs c. length (rr_id (ce_source e)) + length (rr_revision (ce_source e)) + length (ce_source_hash e))))"
| "value_bytes K (VPath p) = saturating_add (xo_size_value K)
     (\<Sum>r\<leftarrow>pv_vertices p @ pv_edges p. of_nat (ref_bytes r) + xo_size_ref K)"
| "value_bytes K (VList vs) = saturating_add (xo_size_value K) (fold (\<lambda>v n. saturating_add n (value_bytes K v)) vs 0)"
| "value_bytes K _ = xo_size_value K"

definition row_bytes :: "eval_ops \<Rightarrow> query_value list \<Rightarrow> u64" where
  "row_bytes K vs = saturating_add (xo_size_row K) (fold (\<lambda>v n. saturating_add n (value_bytes K v)) vs 0)"

section \<open>Equality and comparison\<close>

fun number_eq :: "json_number \<Rightarrow> json_number \<Rightarrow> bool" where
  "number_eq (Float a) (Float b) = f64_eq a b"
| "number_eq a b = (a = b)"

fun json_eq :: "json \<Rightarrow> json \<Rightarrow> bool" where
  "json_eq (JNumber a) (JNumber b) = number_eq a b"
| "json_eq (JArray as) (JArray bs) = list_all2 json_eq as bs"
| "json_eq (JObject as) (JObject bs) = list_all2 (\<lambda>(k, a) (l, b). k = l \<and> json_eq a b) as bs"
| "json_eq a b = (a = b)"

primrec value_eq :: "query_value \<Rightarrow> query_value \<Rightarrow> bool" where
  "value_eq (VF64 x) b = (case b of VF64 y \<Rightarrow> f64_eq x y | _ \<Rightarrow> False)"
| "value_eq (VJson x) b = (case b of VJson y \<Rightarrow> json_eq x y | _ \<Rightarrow> False)"
| "value_eq (VVector x) b =
     (case b of
        VVector y \<Rightarrow> vv_space_id x = vv_space_id y \<and> vv_scalar x = vv_scalar y
          \<and> list_all2 f64_eq (vv_values x) (vv_values y)
      | _ \<Rightarrow> False)"
| "value_eq (VScore x) b =
     (case b of
        VScore y \<Rightarrow> f64_eq (sv_value x) (sv_value y) \<and> sv_owner x = sv_owner y
          \<and> sv_source x = sv_source y \<and> sv_scope x = sv_scope y \<and> sv_metric x = sv_metric y
      | _ \<Rightarrow> False)"
| "value_eq (VList xs) b = (case b of VList ys \<Rightarrow> list_all2 (\<lambda>p y. p y) (map value_eq xs) ys | _ \<Rightarrow> False)"
| "value_eq VNull b = (b = VNull)"
| "value_eq (VBool x) b = (b = VBool x)"
| "value_eq (VI64 x) b = (b = VI64 x)"
| "value_eq (VDecimalU64 x) b = (b = VDecimalU64 x)"
| "value_eq (VUtf8 x) b = (b = VUtf8 x)"
| "value_eq (VEntity x) b = (b = VEntity x)"
| "value_eq (VHistoryRevision x) b = (b = VHistoryRevision x)"
| "value_eq (VChangeEvent x) b = (b = VChangeEvent x)"
| "value_eq (VPath x) b = (b = VPath x)"
| "value_eq (VContext x) b = (b = VContext x)"

definition compare :: "query_value \<Rightarrow> query_value \<Rightarrow> (query_error, ordering) result" where
  "compare a b =
     (case (a, b) of
        (VBool x, VBool y) \<Rightarrow> Inr (cmp x y)
      | (VI64 x, VI64 y) \<Rightarrow> Inr (cmp (sint x) (sint y))
      | (VDecimalU64 x, VDecimalU64 y) \<Rightarrow> Inr (cmp x y)
      | (VF64 x, VF64 y) \<Rightarrow> ok_or (failure ''nonfinite_result'') (f64_partial_cmp x y)
      | (VUtf8 x, VUtf8 y) \<Rightarrow> Inr (cmp x y)
      | _ \<Rightarrow> Inl (failure ''comparator_unavailable''))"

definition finite_value :: "u64 \<Rightarrow> (query_error, query_value) result" where
  "finite_value v = (if f64_is_finite v then Inr (VF64 v) else Inl (failure ''nonfinite_result''))"

section \<open>Operators\<close>

definition truth :: "query_value \<Rightarrow> bool option" where
  "truth v = (case v of VBool b \<Rightarrow> Some b | _ \<Rightarrow> None)"

definition connective :: "bool \<Rightarrow> query_value \<Rightarrow> query_value \<Rightarrow> query_value" where
  "connective unit_of a b =
     (let x = truth a; y = truth b in
      if x = Some (\<not> unit_of) \<or> y = Some (\<not> unit_of) then VBool (\<not> unit_of)
      else if x = Some unit_of \<and> y = Some unit_of then VBool unit_of
      else VNull)"

definition contains_text :: "string \<Rightarrow> string \<Rightarrow> bool" where
  "contains_text a b = list_ex (\<lambda>i. starts_with (drop i a) b) [0..<Suc (length a)]"

definition arith_i64 :: "binary_op \<Rightarrow> i64 \<Rightarrow> i64 \<Rightarrow> (query_error, query_value) result" where
  "arith_i64 op a b =
     (if op \<in> {OpDiv, OpRem} \<and> b = 0 then Inl (failure ''division_by_zero'')
      else rbind (case op of
          OpAdd \<Rightarrow> Inr (i64_checked (sint a + sint b))
        | OpSub \<Rightarrow> Inr (i64_checked (sint a - sint b))
        | OpMul \<Rightarrow> Inr (i64_checked (sint a * sint b))
        | OpDiv \<Rightarrow> Inr (i64_checked_div a b)
        | OpRem \<Rightarrow> Inr (i64_checked_rem a b)
        | _ \<Rightarrow> Inl (failure ''bound_operator'')) (\<lambda>v.
        rbind (ok_or (failure ''integer_overflow'') v) (\<lambda>v. Inr (VI64 v))))"

definition arith_f64 :: "eval_ops \<Rightarrow> binary_op \<Rightarrow> u64 \<Rightarrow> u64 \<Rightarrow> (query_error, query_value) result" where
  "arith_f64 K op a b =
     (if op \<in> {OpDiv, OpRem} \<and> f64_is_zero b then Inl (failure ''division_by_zero'')
      else (case op of
          OpAdd \<Rightarrow> finite_value (xo_add K a b)
        | OpSub \<Rightarrow> finite_value (xo_sub K a b)
        | OpMul \<Rightarrow> finite_value (xo_mul K a b)
        | OpDiv \<Rightarrow> finite_value (xo_div K a b)
        | OpRem \<Rightarrow> finite_value (xo_rem K a b)
        | _ \<Rightarrow> Inl (failure ''bound_operator'')))"

definition binary :: "eval_ops \<Rightarrow> binary_op \<Rightarrow> query_value \<Rightarrow> query_value \<Rightarrow> (query_error, query_value) result" where
  "binary K op a b =
     (if op = OpAnd then Inr (connective True a b)
      else if op = OpOr then Inr (connective False a b)
      else if a = VNull \<or> b = VNull then Inr VNull
      else (case op of
          OpEq \<Rightarrow> Inr (VBool (value_eq a b))
        | OpNe \<Rightarrow> Inr (VBool (\<not> value_eq a b))
        | OpLt \<Rightarrow> rbind (compare a b) (\<lambda>c. Inr (VBool (c = OLess)))
        | OpLe \<Rightarrow> rbind (compare a b) (\<lambda>c. Inr (VBool (c \<noteq> OGreater)))
        | OpGt \<Rightarrow> rbind (compare a b) (\<lambda>c. Inr (VBool (c = OGreater)))
        | OpGe \<Rightarrow> rbind (compare a b) (\<lambda>c. Inr (VBool (c \<noteq> OLess)))
        | OpContains \<Rightarrow>
            (case (a, b) of (VUtf8 s, VUtf8 t) \<Rightarrow> Inr (VBool (contains_text s t)) | _ \<Rightarrow> Inl (failure ''bound_type''))
        | OpStartswith \<Rightarrow>
            (case (a, b) of (VUtf8 s, VUtf8 t) \<Rightarrow> Inr (VBool (starts_with s t)) | _ \<Rightarrow> Inl (failure ''bound_type''))
        | _ \<Rightarrow>
            (case (a, b) of
               (VI64 i, VI64 j) \<Rightarrow> arith_i64 op i j
             | (VF64 x, VF64 y) \<Rightarrow> arith_f64 K op x y
             | _ \<Rightarrow> Inl (failure ''bound_type''))))"

definition unary :: "unary_op \<Rightarrow> query_value \<Rightarrow> (query_error, query_value) result" where
  "unary op v =
     (case op of
        OpIsNull \<Rightarrow> Inr (VBool (v = VNull))
      | OpIsNotNull \<Rightarrow> Inr (VBool (v \<noteq> VNull))
      | OpNot \<Rightarrow> (case v of VNull \<Rightarrow> Inr VNull | VBool b \<Rightarrow> Inr (VBool (\<not> b)) | _ \<Rightarrow> Inl (failure ''bound_type''))
      | OpNeg \<Rightarrow>
          (case v of
             VNull \<Rightarrow> Inr VNull
           | VI64 i \<Rightarrow> rbind (ok_or (failure ''integer_overflow'') (i64_checked (- sint i))) (\<lambda>j. Inr (VI64 j))
           | VF64 x \<Rightarrow> finite_value (f64_neg x)
           | _ \<Rightarrow> Inl (failure ''bound_type'')))"

definition in_list :: "query_value \<Rightarrow> query_value list \<Rightarrow> bool \<Rightarrow> query_value" where
  "in_list needle vals negated =
     (let null = list_ex (\<lambda>v. needle = VNull \<or> v = VNull) vals;
          found = list_ex (\<lambda>v. \<not> (needle = VNull \<or> v = VNull) \<and> value_eq needle v) vals in
      if found then VBool (\<not> negated) else if null then VNull else VBool negated)"

section \<open>Hydrated properties\<close>

type_synonym record_key = "string \<times> string \<times> string \<times> string \<times> string"

fun record_kind_name :: "record_kind \<Rightarrow> string" where
  "record_kind_name KindNode = ''node''"
| "record_kind_name KindEdge = ''edge''"
| "record_kind_name KindRow = ''row''"
| "record_kind_name KindVector = ''vector''"
| "record_kind_name KindAnnotation = ''annotation''"
| "record_kind_name KindArtifact = ''artifact''"

definition record_key :: "record_ref \<Rightarrow> record_key" where
  "record_key r = (rr_database_id r, rr_namespace r, record_kind_name (rr_kind r), rr_id r, rr_revision r)"

type_synonym hydrated = "record_key \<times> u32 \<times> string \<rightharpoonup> query_value"

definition hydrated_get :: "hydrated \<Rightarrow> record_ref \<Rightarrow> field_id \<Rightarrow> string \<Rightarrow> query_value option" where
  "hydrated_get H r f nm = H (record_key r, fi_index f, nm)"

definition field_accepts :: "field_id \<Rightarrow> query_value \<Rightarrow> bool" where
  "field_accepts f v =
     (if fi_has_property f then (case v of VBool _ \<Rightarrow> True | _ \<Rightarrow> False)
      else (case v of VNull \<Rightarrow> True | VJson _ \<Rightarrow> True | _ \<Rightarrow> False))"

record column_v2 = cv_name :: string  cv_data_type :: string  cv_nullable :: bool

definition field_column :: "field_id \<Rightarrow> column_v2" where
  "field_column f =
     \<lparr>cv_name = ''__hql2_field_'' @ dec (unat (fi_index f)),
      cv_data_type = (if fi_has_property f then ''Bool'' else ''Nullable<Json>''),
      cv_nullable = (\<not> fi_has_property f)\<rparr>"

record exec_batch =
  xb_columns :: "column_v2 list"
  xb_rows :: "query_value list list"
  xb_row_keys :: "record_ref list"

definition misaligned :: query_error where
  "misaligned = query_error_new ''DATA_CORRUPTION'' ''execute'' ''hydration_alignment''"

text \<open>The fields are visited in order; one without a name, with an index seen before or with a column
  other than its own is refused.\<close>

fun fields_aligned :: "field_id list \<Rightarrow> u32 list \<Rightarrow> column_v2 list \<Rightarrow> bool" where
  "fields_aligned [] seen cols = True"
| "fields_aligned (f # fs) seen cols \<longleftrightarrow>
     fi_name f \<noteq> None \<and> fi_index f \<notin> set seen
     \<and> length seen < length cols \<and> cols ! length seen = field_column f
     \<and> fields_aligned fs (seen @ [fi_index f]) cols"

definition batch_validate :: "exec_batch \<Rightarrow> record_ref list \<Rightarrow> field_id list \<Rightarrow> (query_error, unit) result" where
  "batch_validate batch records fs =
     (if length (xb_columns batch) \<noteq> length fs \<or> length (xb_rows batch) \<noteq> length records
         \<or> length (xb_row_keys batch) \<noteq> length records \<or> \<not> fields_aligned fs [] (xb_columns batch)
      then Inl misaligned
      else for_each (\<lambda>((vs, key), rec).
        guard_err (length vs \<noteq> length fs \<or> key \<noteq> rec \<or> list_ex (\<lambda>(v, f). \<not> field_accepts f v) (zip vs fs)) misaligned)
        (zip (zip (xb_rows batch) (xb_row_keys batch)) records))"

fun add_row :: "record_ref \<Rightarrow> (query_value \<times> field_id) list \<Rightarrow> hydrated \<Rightarrow> (query_error, hydrated) result" where
  "add_row rec [] H = Inr H"
| "add_row rec ((v, f) # vfs) H =
     (case fi_name f of
        None \<Rightarrow> Inl misaligned
      | Some nm \<Rightarrow>
          let k = (record_key rec, fi_index f, nm) in
          if H k \<noteq> None then Inl misaligned else add_row rec vfs (H(k \<mapsto> v)))"

fun add_rows :: "field_id list \<Rightarrow> ((query_value list \<times> record_ref) \<times> record_ref) list \<Rightarrow> hydrated \<Rightarrow> (query_error, hydrated) result" where
  "add_rows fs [] H = Inr H"
| "add_rows fs (((vs, key), rec) # rows) H =
     (if key \<noteq> rec then Inl misaligned else rbind (add_row rec (zip vs fs) H) (add_rows fs rows))"

definition add_batch :: "record_ref list \<Rightarrow> field_id list \<Rightarrow> exec_batch \<Rightarrow> hydrated \<Rightarrow> (query_error, hydrated) result" where
  "add_batch records fs batch H =
     rbind (batch_validate batch records fs) (\<lambda>_.
       add_rows fs (zip (zip (xb_rows batch) (xb_row_keys batch)) records) H)"

section \<open>Evaluating a node\<close>

type_synonym metered = "execution_budget \<times> nat"

record eval_env =
  xe_ops :: eval_ops
  xe_clock :: "nat \<Rightarrow> nat"
  xe_hydrated :: hydrated

definition check_now :: "eval_env \<Rightarrow> metered \<Rightarrow> (query_error, metered) result" where
  "check_now E st = (case st of (b, k) \<Rightarrow> rbind (eb_check (xe_clock E k) b) (\<lambda>_. Inr (b, Suc k)))"

definition reserve_now :: "eval_env \<Rightarrow> u64 \<Rightarrow> metered \<Rightarrow> (query_error, metered) result" where
  "reserve_now E n st = (case st of (b, k) \<Rightarrow> rbind (reserve (xe_clock E k) n b) (\<lambda>b'. Inr (b', Suc k)))"

definition clone_value :: "eval_env \<Rightarrow> query_value \<Rightarrow> metered \<Rightarrow> (query_error, query_value \<times> metered) result" where
  "clone_value E v st = rbind (reserve_now E (value_bytes (xe_ops E) v) st) (\<lambda>st'. Inr (v, st'))"

definition row_get :: "query_value list \<Rightarrow> nat \<Rightarrow> (query_error, query_value) result" where
  "row_get vs i = (if i < length vs then Inr (vs ! i) else Inl (failure ''bound_field''))"

definition entity_text :: "record_ref \<Rightarrow> string \<Rightarrow> string option" where
  "entity_text r f = map_of
     [(''database_id'', rr_database_id r), (''namespace'', rr_namespace r), (''kind'', record_kind_name (rr_kind r)),
      (''id'', rr_id r), (''revision'', rr_revision r)] f"

definition eval_entity_field ::
  "eval_env \<Rightarrow> query_value list \<Rightarrow> nat \<Rightarrow> string \<Rightarrow> metered \<Rightarrow> (query_error, query_value \<times> metered) result" where
  "eval_entity_field E vs i f st =
     rbind (row_get vs i) (\<lambda>v.
     case v of
       VNull \<Rightarrow> Inr (VNull, st)
     | VEntity r \<Rightarrow> rbind (ok_or (failure ''bound_field'') (entity_text r f)) (\<lambda>s. clone_value E (VUtf8 s) st)
     | _ \<Rightarrow> Inl (failure ''bound_type''))"

definition score_part :: "score_value \<Rightarrow> string \<Rightarrow> query_value option" where
  "score_part s f = map_of
     [(''value'', VF64 (sv_value s)), (''distance'', VF64 (sv_value s)), (''owner'', VEntity (sv_owner s)),
      (''source'', VUtf8 (sv_source s)), (''scope'', VUtf8 (sv_scope s)), (''metric'', VUtf8 (sv_metric s))] f"

definition eval_score_field ::
  "eval_env \<Rightarrow> query_value list \<Rightarrow> nat \<Rightarrow> string \<Rightarrow> metered \<Rightarrow> (query_error, query_value \<times> metered) result" where
  "eval_score_field E vs i f st =
     rbind (row_get vs i) (\<lambda>v.
     case v of
       VScore s \<Rightarrow> rbind (ok_or (failure ''bound_field'') (score_part s f)) (\<lambda>x. clone_value E x st)
     | _ \<Rightarrow> Inl (failure ''bound_type''))"

definition history_part :: "history_revision \<Rightarrow> string \<Rightarrow> query_value option" where
  "history_part h f = map_of
     [(''subject'', VEntity (hr_subject h)), (''operation'', VUtf8 (hr_operation h)),
      (''tx_from'', VDecimalU64 (hr_tx_from h)),
      (''tx_to'', case hr_tx_to h of Some n \<Rightarrow> VDecimalU64 n | None \<Rightarrow> VNull),
      (''valid_from'', VUtf8 (hr_valid_from h)),
      (''valid_to'', case hr_valid_to h of Some s \<Rightarrow> VUtf8 s | None \<Rightarrow> VNull),
      (''id'', VUtf8 (rr_id (hr_subject h))), (''kind'', VUtf8 (record_kind_name (rr_kind (hr_subject h)))),
      (''revision_id'', VUtf8 (rr_revision (hr_subject h)))] f"

text \<open>An absent end of an interval is returned without a charge.\<close>

definition eval_history_field ::
  "eval_env \<Rightarrow> query_value list \<Rightarrow> nat \<Rightarrow> string \<Rightarrow> metered \<Rightarrow> (query_error, query_value \<times> metered) result" where
  "eval_history_field E vs i f st =
     rbind (row_get vs i) (\<lambda>v.
     case v of
       VHistoryRevision h \<Rightarrow>
         rbind (ok_or (failure ''bound_field'') (history_part h f)) (\<lambda>x.
           if x = VNull then Inr (VNull, st) else clone_value E x st)
     | _ \<Rightarrow> Inl (failure ''bound_type''))"

definition change_part :: "change_event \<Rightarrow> string \<Rightarrow> query_value option" where
  "change_part c f = map_of
     [(''sequence'', VDecimalU64 (ev_sequence c)), (''operation'', VUtf8 (ev_operation c)),
      (''subject'', VEntity (ev_subject c))] f"

definition eval_change_field ::
  "eval_env \<Rightarrow> query_value list \<Rightarrow> nat \<Rightarrow> string \<Rightarrow> metered \<Rightarrow> (query_error, query_value \<times> metered) result" where
  "eval_change_field E vs i f st =
     rbind (row_get vs i) (\<lambda>v.
     case v of
       VChangeEvent c \<Rightarrow> rbind (ok_or (failure ''bound_field'') (change_part c f)) (\<lambda>x. clone_value E x st)
     | _ \<Rightarrow> Inl (failure ''bound_type''))"

definition eval_property ::
  "eval_env \<Rightarrow> query_value \<Rightarrow> query_value \<Rightarrow> bool \<Rightarrow> field_id \<Rightarrow> metered \<Rightarrow> (query_error, query_value \<times> metered) result" where
  "eval_property E entity nm_value has_property field st =
     (case nm_value of
        VUtf8 nm \<Rightarrow>
          (case entity of
             VNull \<Rightarrow> Inr (if has_property then VBool False else VNull, st)
           | VEntity r \<Rightarrow>
               let identity_bytes = saturating_add (saturating_add (saturating_add (of_nat (length (rr_database_id r)))
                     (of_nat (length (rr_namespace r)))) (of_nat (length (rr_id r)))) (of_nat (length (rr_revision r))) in
               rbind (reserve_now E (saturating_add (saturating_add identity_bytes (of_nat (length nm))) 128) st) (\<lambda>st1.
               rbind (ok_or (failure ''source_hydration_missing'') (hydrated_get (xe_hydrated E) r field nm)) (\<lambda>v.
               rbind (reserve_now E (value_bytes (xe_ops E) v) st1) (\<lambda>st2. Inr (v, st2))))
           | _ \<Rightarrow> Inl (failure ''bound_type''))
      | _ \<Rightarrow> Inl (failure ''bound_type''))"

definition eval_lower :: "eval_env \<Rightarrow> query_value \<Rightarrow> metered \<Rightarrow> (query_error, query_value \<times> metered) result" where
  "eval_lower E v st =
     (case v of
        VNull \<Rightarrow> Inr (VNull, st)
      | VUtf8 s \<Rightarrow> rbind (reserve_now E (saturating_mul (of_nat (length s)) 3) st) (\<lambda>st1. Inr (VUtf8 (xo_lower (xe_ops E) s), st1))
      | _ \<Rightarrow> Inl (failure ''bound_type''))"

definition eval_length :: "query_value \<Rightarrow> (query_error, query_value) result" where
  "eval_length v =
     (case v of
        VNull \<Rightarrow> Inr VNull
      | VUtf8 s \<Rightarrow> rbind (ok_or (failure ''integer_overflow'') (i64_checked (int (length (char_chunks s))))) (\<lambda>n. Inr (VI64 n))
      | _ \<Rightarrow> Inl (failure ''bound_type''))"

definition unevaluated :: query_error where
  "unevaluated = failure ''bound_expression''"

definition with_state :: "'s \<Rightarrow> ('e, 'a) result \<Rightarrow> ('e, 'a \<times> 's) result" where
  "with_state st m = rbind m (\<lambda>x. Inr (x, st))"

definition keep :: "'r \<Rightarrow> ('e, 'a \<times> 's) result \<Rightarrow> ('e, 'a \<times> 'r \<times> 's) result" where
  "keep r m = rbind m (\<lambda>(x, s). Inr (x, r, s))"

definition eval_node ::
  "eval_env \<Rightarrow> query_value list \<Rightarrow> path \<Rightarrow> bound_expr \<Rightarrow> query_value ready \<Rightarrow> metered
     \<Rightarrow> (query_error, query_value \<times> query_value ready \<times> metered) result" where
  "eval_node E vs p e ready st =
     (case be_kind e of
        XLiteral v \<Rightarrow> keep ready (clone_value E v st)
      | XField i \<Rightarrow> rbind (row_get vs i) (\<lambda>v. keep ready (clone_value E v st))
      | XEntityRefField i f \<Rightarrow> keep ready (eval_entity_field E vs i f st)
      | XScoreField i f \<Rightarrow> keep ready (eval_score_field E vs i f st)
      | XHistoryField i f \<Rightarrow> keep ready (eval_history_field E vs i f st)
      | XChangeField i f \<Rightarrow> keep ready (eval_change_field E vs i f st)
      | XProperty _ _ has_property field \<Rightarrow>
          rbind (take_ready unevaluated (p @ [0]) ready) (\<lambda>(entity, ready1).
          rbind (take_ready unevaluated (p @ [1]) ready1) (\<lambda>(nm, ready2).
          keep ready2 (eval_property E entity nm has_property field st)))
      | XLower _ \<Rightarrow> rbind (take_ready unevaluated (p @ [0]) ready) (\<lambda>(v, ready1). keep ready1 (eval_lower E v st))
      | XLength _ \<Rightarrow> rbind (take_ready unevaluated (p @ [0]) ready) (\<lambda>(v, ready1). keep ready1 (with_state st (eval_length v)))
      | XUnary op _ \<Rightarrow> rbind (take_ready unevaluated (p @ [0]) ready) (\<lambda>(v, ready1). keep ready1 (with_state st (unary op v)))
      | XBinary op _ _ \<Rightarrow>
          rbind (take_ready unevaluated (p @ [0]) ready) (\<lambda>(a, ready1).
          rbind (take_ready unevaluated (p @ [1]) ready1) (\<lambda>(b, ready2).
          keep ready2 (with_state st (binary (xe_ops E) op a b))))
      | XIn _ es negated \<Rightarrow>
          rbind (take_ready unevaluated (p @ [0]) ready) (\<lambda>(needle, ready1).
          rbind (take_operands unevaluated p 1 (length es) ready1) (\<lambda>(xs, ready2).
          keep ready2 (Inr (in_list needle xs negated, st)))))"

section \<open>The walk\<close>

fun kind_operands :: "expr_kind \<Rightarrow> bound_expr list" where
  "kind_operands (XBinary _ l r) = [l, r]"
| "kind_operands (XProperty e nm _ _) = [e, nm]"
| "kind_operands (XUnary _ a) = [a]"
| "kind_operands (XLower a) = [a]"
| "kind_operands (XLength a) = [a]"
| "kind_operands (XIn a es _) = a # es"
| "kind_operands _ = []"

definition bound_operands :: "bound_expr \<Rightarrow> bound_expr list" where
  "bound_operands e = kind_operands (be_kind e)"

definition stack_charge :: "expr_kind \<Rightarrow> u64 option" where
  "stack_charge k =
     (case k of
        XBinary _ _ _ \<Rightarrow> Some 64
      | XProperty _ _ _ _ \<Rightarrow> Some 64
      | XUnary _ _ \<Rightarrow> Some 32
      | XLower _ \<Rightarrow> Some 32
      | XLength _ \<Rightarrow> Some 32
      | XIn _ es _ \<Rightarrow> Some (saturating_mul (of_nat (length es + 1)) 32)
      | _ \<Rightarrow> None)"

definition eval_enter :: "eval_env \<Rightarrow> bound_expr \<Rightarrow> unit \<Rightarrow> metered \<Rightarrow> (query_error, metered) result" where
  "eval_enter E e d st =
     rbind (check_now E st) (\<lambda>st1.
     rbind (reserve_now E 192 st1) (\<lambda>st2.
     case stack_charge (be_kind e) of None \<Rightarrow> Inr st2 | Some n \<Rightarrow> reserve_now E n st2))"

definition eval_again :: "eval_env \<Rightarrow> bound_expr \<Rightarrow> unit \<Rightarrow> metered \<Rightarrow> (query_error, metered) result" where
  "eval_again E e d st = check_now E st"

lemma kind_operands_light: "Suc (\<Sum>k\<leftarrow>bound_operands e. 4 * size k + 2) < 4 * size e + 2"
proof -
  have le: "(\<Sum>k\<leftarrow>ks. 4 * size k + 2) \<le> 4 * size_list size ks" for ks :: "bound_expr list" by (induction ks) auto
  obtain ty k where e: "e = Bound ty k" by (cases e)
  show ?thesis
  proof (cases k)
    case (XIn a es n)
    then show ?thesis using le [of es] by (simp add: bound_operands_def e less_Suc_eq_le)
  qed (auto simp: bound_operands_def e)
qed

lemma bound_operand_smaller: "k \<in> set (bound_operands e) \<Longrightarrow> size k < size e"
proof -
  assume k: "k \<in> set (bound_operands e)"
  obtain ty kd where e: "e = Bound ty kd" by (cases e)
  show ?thesis
  proof (cases kd)
    case (XIn a es n)
    then show ?thesis using k size_list_estimation' [of k es "size k" size] by (auto simp: bound_operands_def e)
  qed (use k in \<open>auto simp: bound_operands_def e\<close>)
qed

function eval_loop ::
  "eval_env \<Rightarrow> query_value list \<Rightarrow> (bound_expr, unit) frame list \<Rightarrow> query_value ready \<Rightarrow> metered
     \<Rightarrow> (query_error, query_value ready \<times> metered) result" where
  "eval_loop E vs [] ready st = Inr (ready, st)"
| "eval_loop E vs ((p, e, d, True) # stack) ready st =
     rbind (eval_again E e d st) (\<lambda>st1.
     rbind (eval_node E vs p e ready st1) (\<lambda>(v, ready1, st2). eval_loop E vs stack (ready1(p \<mapsto> v)) st2))"
| "eval_loop E vs ((p, e, d, False) # stack) ready st =
     rbind (eval_enter E e d st) (\<lambda>st1.
     eval_loop E vs (operand_frames p 0 (bound_operands e) d @ (p, e, d, True) # stack) ready st1)"
  by pat_completeness auto
termination
  by (relation "measure (\<lambda>(E, vs, stack, ready, st). stack_weight size stack)")
    (use kind_operands_light in \<open>auto simp: add_ac\<close>)

definition eval ::
  "eval_env \<Rightarrow> query_value list \<Rightarrow> bound_expr \<Rightarrow> metered \<Rightarrow> (query_error, query_value \<times> metered) result" where
  "eval E vs e st =
     rbind (check_now E st) (\<lambda>st1.
     rbind (reserve_now E 64 st1) (\<lambda>st2.
     rbind (eval_loop E vs [([], e, (), False)] Map.empty st2) (\<lambda>(ready, st3).
     rbind (ok_or unevaluated (ready [])) (\<lambda>v. Inr (v, st3)))))"

section \<open>The walk is the recursion\<close>

definition eval_build ::
  "eval_env \<Rightarrow> query_value list \<Rightarrow> bound_expr \<Rightarrow> query_value list \<Rightarrow> metered \<Rightarrow> (query_error, query_value \<times> metered) result" where
  "eval_build E vs e xs st =
     (case be_kind e of
        XLiteral v \<Rightarrow> clone_value E v st
      | XField i \<Rightarrow> rbind (row_get vs i) (\<lambda>v. clone_value E v st)
      | XEntityRefField i f \<Rightarrow> eval_entity_field E vs i f st
      | XScoreField i f \<Rightarrow> eval_score_field E vs i f st
      | XHistoryField i f \<Rightarrow> eval_history_field E vs i f st
      | XChangeField i f \<Rightarrow> eval_change_field E vs i f st
      | XProperty _ _ has_property field \<Rightarrow> eval_property E (xs ! 0) (xs ! 1) has_property field st
      | XLower _ \<Rightarrow> eval_lower E (xs ! 0) st
      | XLength _ \<Rightarrow> with_state st (eval_length (xs ! 0))
      | XUnary op _ \<Rightarrow> with_state st (unary op (xs ! 0))
      | XBinary op _ _ \<Rightarrow> with_state st (binary (xe_ops E) op (xs ! 0) (xs ! 1))
      | XIn _ _ negated \<Rightarrow> Inr (in_list (xs ! 0) (tl xs) negated, st))"

function eval_recursive ::
  "eval_env \<Rightarrow> query_value list \<Rightarrow> unit \<Rightarrow> bound_expr \<Rightarrow> metered \<Rightarrow> (query_error, query_value \<times> metered) result" where
  "eval_recursive E vs d e st =
     rbind (eval_enter E e d st) (\<lambda>st1.
     rbind (map_st (eval_recursive E vs d) (bound_operands e) st1) (\<lambda>(xs, st2).
     rbind (eval_again E e d st2) (eval_build E vs e xs)))"
  by pat_completeness auto
termination
  by (relation "measure (\<lambda>(E, vs, d, e, st). size e)") (auto dest: bound_operand_smaller)

declare eval_recursive.simps [simp del]

lemma eval_node_build:
  assumes below: "nothing_below p 0 r" and len: "length xs = length (bound_operands e)"
  shows "eval_node E vs p e (put_operands p 0 xs r) st = rbind (eval_build E vs e xs st) (\<lambda>(v, s1). Inr (v, r, s1))"
proof -
  have b1: "nothing_below p (Suc 0) r" using below by (auto simp: nothing_below_def)
  have one: "take_ready unevaluated (p @ [0]) (put_operands p 0 [x] r) = Inr (x, r)" for x
    using take_first_operand [OF below, of unevaluated x "[]"] by simp
  have two: "take_ready unevaluated (p @ [0]) (put_operands p 0 [x, y] r) = Inr (x, r(p @ [Suc 0] \<mapsto> y))"
    "take_ready unevaluated (p @ [Suc 0]) (r(p @ [Suc 0] \<mapsto> y)) = Inr (y, r)" for x y
    using take_first_operand [OF below, of unevaluated x "[y]"] take_first_operand [OF b1, of unevaluated y "[]"]
    by simp_all
  note defs = eval_node_def eval_build_def keep_def rbind_assoc split_def
  obtain ty k where e: "e = Bound ty k" by (cases e)
  have binary_case: ?thesis if "xs = [x, y]" "k = XBinary op l r' \<or> k = XProperty l r' h f" for x y op l r' h f
    using that by (auto simp: defs e two simp del: put_operands.simps)
  have unary_case: ?thesis if "xs = [x]" "k = XUnary op a \<or> k = XLower a \<or> k = XLength a" for x op a
    using that by (auto simp: defs e one simp del: put_operands.simps)
  show ?thesis
  proof (cases k)
    case (XIn a es n)
    then obtain x ys where xs: "xs = x # ys" "length ys = length es" using len by (cases xs) (auto simp: bound_operands_def e)
    have "take_operands unevaluated p (Suc 0) (length es) (put_operands p (Suc 0) ys r) = Inr (ys, r)"
      using take_operands_put [OF b1, of unevaluated ys] xs(2) by simp
    then show ?thesis
      using take_first_operand [OF below, of unevaluated x ys]
      by (simp add: defs e XIn xs(1) del: put_operands.simps)
  qed (use len binary_case unary_case in \<open>auto simp: bound_operands_def e length_Suc_conv defs\<close>)
qed

interpretation eval_walk: postorder "eval_loop E vs" "eval_enter E" "eval_again E" bound_operands "\<lambda>d. d" "eval_node E vs"
    "eval_build E vs" "eval_recursive E vs" size for E vs
proof unfold_locales
  show "eval_recursive E vs d e s = rbind (eval_enter E e d s) (\<lambda>s1. rbind (map_st (eval_recursive E vs d) (bound_operands e) s1)
      (\<lambda>(bs, s2). rbind (eval_again E e d s2) (eval_build E vs e bs)))" for d e s
    by (subst eval_recursive.simps) simp
qed (simp_all add: eval_node_build bound_operand_smaller)

lemma eval_is_recursive:
  "eval E vs e st = rbind (check_now E st) (\<lambda>st1. rbind (reserve_now E 64 st1) (eval_recursive E vs () e))"
  unfolding eval_def eval_walk.loop_is_recursive [where err = unevaluated] ..

end
