(* ===== verification/GB_Eval_Pure.thy ===== *)
theory GB_Eval_Pure
  imports GB_Eval
begin

text \<open>
  Evaluation without a budget. Execution charges memory and reads the clock at every step; the only
  thing these charges can do is to end it with the quota error. \<open>transparent\<close> says so of one
  computation, and a computation built from transparent parts is transparent.
\<close>

section \<open>Metered computations\<close>

definition transparent :: "(query_error, 'v \<times> 's) result \<Rightarrow> (query_error, 'v) result \<Rightarrow> bool" where
  "transparent m p = (case m of Inr (v, _) \<Rightarrow> p = Inr v | Inl err \<Rightarrow> err = quota \<or> p = Inl err)"

named_theorems transparent_intros \<open>how transparent computations are built\<close>

lemma transparent_Inr [transparent_intros]: "transparent (Inr (v, s)) (Inr v)"
  by (simp add: transparent_def)

lemma transparent_Inl [transparent_intros]: "transparent (Inl err) (Inl err)"
  by (simp add: transparent_def)

lemma transparent_bind [transparent_intros]:
  assumes "transparent m p" "\<And>v s. transparent (k (v, s)) (q v)"
  shows "transparent (rbind m k) (rbind p q)"
proof (cases m)
  case (Inr vs)
  then show ?thesis using assms by (cases vs) (auto simp: transparent_def)
qed (use assms(1) in \<open>auto simp: transparent_def\<close>)

lemma transparent_map_result:
  "transparent m p \<Longrightarrow> transparent (rbind m (\<lambda>(v, s). Inr (f v, s))) (rbind p (\<lambda>v. Inr (f v)))"
  by (auto intro!: transparent_bind transparent_Inr)

lemma reserve_Inl: "reserve_now E n st = Inl err \<Longrightarrow> err = quota" "check_now E st = Inl err \<Longrightarrow> err = quota"
  by (auto simp: reserve_now_def check_now_def reserve_def eb_check_def rbind_Inl_iff guard_err_def ok_or_def
      split: prod.splits option.splits if_splits)

lemma transparent_charge [transparent_intros]:
  assumes "\<And>s. transparent (k s) p"
  shows "transparent (rbind (reserve_now E n st) k) p" "transparent (rbind (check_now E st) k) p"
proof -
  show "transparent (rbind (reserve_now E n st) k) p"
    using assms by (cases "reserve_now E n st") (auto simp: transparent_def dest: reserve_Inl)
  show "transparent (rbind (check_now E st) k) p"
    using assms by (cases "check_now E st") (auto simp: transparent_def dest: reserve_Inl)
qed

text \<open>A pure step inside a metered computation.\<close>

lemma transparent_pure [transparent_intros]:
  assumes "\<And>x. m = Inr x \<Longrightarrow> transparent (k x) (q x)"
  shows "transparent (rbind m k) (rbind m q)"
  using assms by (cases m) (auto simp: transparent_def)

lemma transparent_with_state [transparent_intros]: "transparent (with_state st m) m"
  by (cases m) (auto simp: with_state_def transparent_def)

lemma transparent_map_st [transparent_intros]:
  assumes "\<And>x s. x \<in> set xs \<Longrightarrow> transparent (f x s) (g x)"
  shows "transparent (map_st f xs s) (collect_results (map g xs))"
  using assms
proof (induction xs arbitrary: s)
  case (Cons x xs)
  have "transparent (map_st f xs s1) (collect_results (map g xs))" for s1 using Cons by simp
  then show ?case
    using Cons.prems [of x] by (auto intro!: transparent_bind transparent_Inr)
qed (simp add: transparent_Inr)

section \<open>Evaluation\<close>

definition pure_part :: "(query_error, query_value) result \<Rightarrow> bool \<Rightarrow> (query_value \<Rightarrow> query_value option option)
    \<Rightarrow> (query_error, query_value) result" where
  "pure_part cell null_ok part =
     rbind cell (\<lambda>v.
       if null_ok \<and> v = VNull then Inr VNull
       else rbind (ok_or (failure ''bound_type'') (part v)) (\<lambda>x. ok_or (failure ''bound_field'') x))"

definition pure_property :: "hydrated \<Rightarrow> query_value \<Rightarrow> query_value \<Rightarrow> bool \<Rightarrow> field_id \<Rightarrow> (query_error, query_value) result" where
  "pure_property H entity nm_value has_property field =
     (case nm_value of
        VUtf8 nm \<Rightarrow>
          (case entity of
             VNull \<Rightarrow> Inr (if has_property then VBool False else VNull)
           | VEntity r \<Rightarrow> ok_or (failure ''source_hydration_missing'') (hydrated_get H r field nm)
           | _ \<Rightarrow> Inl (failure ''bound_type''))
      | _ \<Rightarrow> Inl (failure ''bound_type''))"

definition pure_lower :: "eval_ops \<Rightarrow> query_value \<Rightarrow> (query_error, query_value) result" where
  "pure_lower K v =
     (case v of VNull \<Rightarrow> Inr VNull | VUtf8 s \<Rightarrow> Inr (VUtf8 (xo_lower K s)) | _ \<Rightarrow> Inl (failure ''bound_type''))"

definition pure_build :: "eval_env \<Rightarrow> query_value list \<Rightarrow> bound_expr \<Rightarrow> query_value list \<Rightarrow> (query_error, query_value) result" where
  "pure_build E vs e xs =
     (case be_kind e of
        XLiteral v \<Rightarrow> Inr v
      | XField i \<Rightarrow> row_get vs i
      | XEntityRefField i f \<Rightarrow> pure_part (row_get vs i) True
          (\<lambda>v. case v of VEntity r \<Rightarrow> Some (map_option VUtf8 (entity_text r f)) | _ \<Rightarrow> None)
      | XScoreField i f \<Rightarrow> pure_part (row_get vs i) False (\<lambda>v. case v of VScore s \<Rightarrow> Some (score_part s f) | _ \<Rightarrow> None)
      | XHistoryField i f \<Rightarrow> pure_part (row_get vs i) False (\<lambda>v. case v of VHistoryRevision h \<Rightarrow> Some (history_part h f) | _ \<Rightarrow> None)
      | XChangeField i f \<Rightarrow> pure_part (row_get vs i) False (\<lambda>v. case v of VChangeEvent c \<Rightarrow> Some (change_part c f) | _ \<Rightarrow> None)
      | XProperty _ _ has_property field \<Rightarrow> pure_property (xe_hydrated E) (xs ! 0) (xs ! 1) has_property field
      | XLower _ \<Rightarrow> pure_lower (xe_ops E) (xs ! 0)
      | XLength _ \<Rightarrow> eval_length (xs ! 0)
      | XUnary op _ \<Rightarrow> unary op (xs ! 0)
      | XBinary op _ _ \<Rightarrow> binary (xe_ops E) op (xs ! 0) (xs ! 1)
      | XIn _ _ negated \<Rightarrow> Inr (in_list (xs ! 0) (tl xs) negated))"

lemma collect_results_cong [fundef_cong]:
  "xs = ys \<Longrightarrow> (\<And>x. x \<in> set ys \<Longrightarrow> f x = g x) \<Longrightarrow> collect_results (map f xs) = collect_results (map g ys)"
  by (metis map_cong)

function pure_eval :: "eval_env \<Rightarrow> query_value list \<Rightarrow> bound_expr \<Rightarrow> (query_error, query_value) result" where
  "pure_eval E vs e = rbind (collect_results (map (pure_eval E vs) (bound_operands e))) (pure_build E vs e)"
  by pat_completeness auto
termination
  by (relation "measure (\<lambda>(E, vs, e). size e)") (auto dest: bound_operand_smaller)

declare pure_eval.simps [simp del]

lemma clone_transparent [transparent_intros]: "transparent (clone_value E v st) (Inr v)"
  by (auto simp: clone_value_def intro!: transparent_charge transparent_Inr)

lemma pure_part_transparent:
  assumes "\<And>v. k v = (if null_ok \<and> v = VNull then Inr (VNull, st)
      else rbind (ok_or (failure ''bound_type'') (part v)) (\<lambda>x. rbind (ok_or (failure ''bound_field'') x) (\<lambda>x. j x)))"
    and "\<And>x. transparent (j x) (Inr x)"
  shows "transparent (rbind cell k) (pure_part cell null_ok part)"
  unfolding pure_part_def
proof (rule transparent_pure)
  fix v
  have "transparent (rbind (ok_or (failure ''bound_field'') x) (\<lambda>x. j x)) (ok_or (failure ''bound_field'') x)" for x
    using assms(2) by (cases x) (auto intro: transparent_Inl)
  then show "transparent (k v) (if null_ok \<and> v = VNull then Inr VNull
      else rbind (ok_or (failure ''bound_type'') (part v)) (\<lambda>x. ok_or (failure ''bound_field'') x))"
    unfolding assms(1) by (auto intro!: transparent_Inr transparent_pure)
qed

lemma eval_property_transparent:
  "transparent (eval_property E a n has f st) (pure_property (xe_hydrated E) a n has f)"
proof -
  have "transparent (rbind (ok_or err m) (\<lambda>v. rbind (reserve_now E (b v) s) (\<lambda>s'. Inr (v, s')))) (ok_or err m)"
    for err :: query_error and m :: "query_value option" and b s
    by (cases m) (auto intro!: transparent_charge transparent_Inr transparent_Inl)
  then show ?thesis
    unfolding eval_property_def pure_property_def Let_def
    by (auto intro!: transparent_charge(1) transparent_Inr transparent_Inl split: query_value.splits)
qed

lemma eval_build_transparent: "transparent (eval_build E vs e xs st) (pure_build E vs e xs)"
proof -
  obtain ty k where e: "e = Bound ty k" by (cases e)
  note defs = eval_build_def pure_build_def e
  note fields = eval_entity_field_def eval_score_field_def eval_history_field_def eval_change_field_def
  have kept: "transparent (if x = VNull then Inr (VNull, st) else clone_value E x st) (Inr x)" for x
    by (simp add: transparent_Inr clone_transparent)
  show ?thesis
  proof (cases k)
    case (XField i)
    show ?thesis by (cases "row_get vs i") (auto simp: defs XField clone_transparent transparent_Inl)
  next
    case (XEntityRefField i f)
    show ?thesis unfolding defs XEntityRefField fields bound_expr.sel expr_kind.case
      by (rule pure_part_transparent [where j = "\<lambda>x. clone_value E x st"])
        (auto simp: clone_transparent ok_or_def split: query_value.splits option.splits)
  next
    case (XScoreField i f)
    show ?thesis unfolding defs XScoreField fields bound_expr.sel expr_kind.case
      by (rule pure_part_transparent [where j = "\<lambda>x. clone_value E x st"])
        (auto simp: clone_transparent split: query_value.splits)
  next
    case (XHistoryField i f)
    show ?thesis unfolding defs XHistoryField fields bound_expr.sel expr_kind.case
      by (rule pure_part_transparent [where j = "\<lambda>x. if x = VNull then Inr (VNull, st) else clone_value E x st"])
        (auto simp: kept split: query_value.splits)
  next
    case (XChangeField i f)
    show ?thesis unfolding defs XChangeField fields bound_expr.sel expr_kind.case
      by (rule pure_part_transparent [where j = "\<lambda>x. clone_value E x st"])
        (auto simp: clone_transparent split: query_value.splits)
  next
    case (XLower a)
    show ?thesis
      by (auto simp: defs XLower eval_lower_def pure_lower_def split: query_value.splits
          intro!: transparent_charge transparent_Inr transparent_Inl)
  qed (simp_all add: defs clone_transparent eval_property_transparent transparent_with_state transparent_Inr)
qed

lemma eval_recursive_transparent: "transparent (eval_recursive E vs d e st) (pure_eval E vs e)"
proof (induction e arbitrary: st rule: measure_induct_rule [where f = size])
  case (less e)
  have operands: "transparent (map_st (eval_recursive E vs d) (bound_operands e) s)
      (collect_results (map (pure_eval E vs) (bound_operands e)))" for s
    by (rule transparent_map_st) (rule less.IH [OF bound_operand_smaller])
  have node: "transparent (rbind (map_st (eval_recursive E vs d) (bound_operands e) s)
      (\<lambda>(xs, st2). rbind (eval_again E e d st2) (eval_build E vs e xs))) (pure_eval E vs e)" for s
    unfolding pure_eval.simps [of E vs e] eval_again_def
    by (rule transparent_bind [OF operands]) (auto intro!: transparent_charge eval_build_transparent)
  show ?case
    unfolding eval_recursive.simps [of E vs d e st] eval_enter_def rbind_assoc
    by (cases "stack_charge (be_kind e)") (use node in \<open>auto intro!: transparent_charge\<close>)
qed

lemma eval_transparent [transparent_intros]: "transparent (eval E vs e st) (pure_eval E vs e)"
  unfolding eval_is_recursive by (intro transparent_charge eval_recursive_transparent)

end
