(* ===== verification/GB_Eval_Sound.thy ===== *)
theory GB_Eval_Sound
  imports GB_Eval_Pure
begin

text \<open>
  Binding and evaluation together: an expression that binding accepts evaluates, on a row of its
  columns and over validated property values, to a value of its type or to one of the errors a data
  value can cause; the property slots that binding issues are numbered apart.
\<close>

section \<open>What evaluation can return\<close>

definition runtime_errors :: "query_error set" where
  "runtime_errors = {quota, failure ''division_by_zero'', failure ''integer_overflow'', failure ''nonfinite_result'',
     failure ''source_hydration_missing''}"

text \<open>The property slots of an expression.\<close>

fun property_fields :: "bound_expr \<Rightarrow> field_id list" and kind_fields :: "expr_kind \<Rightarrow> field_id list" where
  "property_fields (Bound ty k) = kind_fields k"
| "kind_fields (XProperty e nm _ f) = f # property_fields e @ property_fields nm"
| "kind_fields (XBinary _ l r) = property_fields l @ property_fields r"
| "kind_fields (XUnary _ a) = property_fields a"
| "kind_fields (XLower a) = property_fields a"
| "kind_fields (XLength a) = property_fields a"
| "kind_fields (XIn a es _) = property_fields a @ concat (map property_fields es)"
| "kind_fields _ = []"

definition hydration_fits :: "hydrated \<Rightarrow> field_id list \<Rightarrow> bool" where
  "hydration_fits H fs \<longleftrightarrow> (\<forall>f\<in>set fs. \<forall>key nm v. H (key, fi_index f, nm) = Some v \<longrightarrow> field_accepts f v)"

text \<open>The operands that must not be null: names of properties, and the columns of a score, a history
  revision or a change event whose parts are read.\<close>

fun null_safe :: "column list \<Rightarrow> bound_expr \<Rightarrow> bool" and null_safe_kind :: "column list \<Rightarrow> expr_kind \<Rightarrow> bool" where
  "null_safe cols (Bound ty k) = null_safe_kind cols k"
| "null_safe_kind cols (XScoreField i _) = (\<not> is_nullable (col_ty (cols ! i)))"
| "null_safe_kind cols (XHistoryField i _) = (\<not> is_nullable (col_ty (cols ! i)))"
| "null_safe_kind cols (XChangeField i _) = (\<not> is_nullable (col_ty (cols ! i)))"
| "null_safe_kind cols (XProperty e nm _ f) \<longleftrightarrow> null_safe cols e \<and> null_safe cols nm \<and> \<not> is_nullable (be_ty nm)"
| "null_safe_kind cols (XBinary _ l r) \<longleftrightarrow> null_safe cols l \<and> null_safe cols r"
| "null_safe_kind cols (XUnary _ a) = null_safe cols a"
| "null_safe_kind cols (XLower a) = null_safe cols a"
| "null_safe_kind cols (XLength a) = null_safe cols a"
| "null_safe_kind cols (XIn a es _) \<longleftrightarrow> null_safe cols a \<and> list_all (null_safe cols) es"
| "null_safe_kind cols _ = True"

definition row_typed :: "column list \<Rightarrow> query_value list \<Rightarrow> bool" where
  "row_typed cols vs = list_all2 (\<lambda>c v. value_of_type (col_ty c) v) cols vs"

definition outcome_ok :: "bool \<Rightarrow> query_type \<Rightarrow> (query_error, query_value) result \<Rightarrow> bool" where
  "outcome_ok safe ty p =
     (case p of
        Inr v \<Rightarrow> value_of_type ty v
      | Inl err \<Rightarrow> err \<in> runtime_errors \<or> \<not> safe \<and> err = failure ''bound_type'')"

lemma outcome_Inr [simp]: "outcome_ok safe ty (Inr v) = value_of_type ty v"
  by (simp add: outcome_ok_def)

lemma outcome_bound_type [simp]: "outcome_ok False ty (Inl (failure ''bound_type''))"
  by (simp add: outcome_ok_def)

lemma outcome_mono: "outcome_ok safe' ty m \<Longrightarrow> safe \<longrightarrow> safe' \<Longrightarrow> outcome_ok safe ty m"
  by (auto simp: outcome_ok_def split: sum.splits)

text \<open>A metered computation ends like the pure one, or with the quota error.\<close>

lemma metered_outcome:
  assumes "transparent m p" "outcome_ok safe ty p"
  shows "case m of Inr (v, _) \<Rightarrow> value_of_type ty v
    | Inl err \<Rightarrow> err \<in> runtime_errors \<or> \<not> safe \<and> err = failure ''bound_type''"
  using assms by (cases m) (auto simp: transparent_def outcome_ok_def runtime_errors_def)

lemma base_cases:
  assumes "value_of_type t v" "base_type t = b"
  shows "b = TBool \<Longrightarrow> (v = VNull \<and> is_nullable t) \<or> (\<exists>x. v = VBool x)"
    "b = TI64 \<Longrightarrow> (v = VNull \<and> is_nullable t) \<or> (\<exists>x. v = VI64 x)"
    "b = TDecimalU64 \<Longrightarrow> (v = VNull \<and> is_nullable t) \<or> (\<exists>x. v = VDecimalU64 x)"
    "b = TF64Finite \<Longrightarrow> (v = VNull \<and> is_nullable t) \<or> (\<exists>x. v = VF64 x \<and> f64_is_finite x)"
    "b = TUtf8 \<Longrightarrow> (v = VNull \<and> is_nullable t) \<or> (\<exists>x. v = VUtf8 x)"
    "b = TEntity \<Longrightarrow> (v = VNull \<and> is_nullable t) \<or> (\<exists>x. v = VEntity x)"
    "b = TScore \<Longrightarrow> (v = VNull \<and> is_nullable t) \<or> (\<exists>x. v = VScore x \<and> f64_is_finite (sv_value x))"
    "b = THistoryRevision \<Longrightarrow> (v = VNull \<and> is_nullable t) \<or> (\<exists>x. v = VHistoryRevision x)"
    "b = TChangeEvent \<Longrightarrow> (v = VNull \<and> is_nullable t) \<or> (\<exists>x. v = VChangeEvent x)"
  using value_base [OF assms(1)] assms(2) by auto

lemma row_typed_get:
  assumes "row_typed cols vs" "i < length cols"
  shows "\<exists>v. row_get vs i = Inr v \<and> value_of_type (col_ty (cols ! i)) v"
  using assms by (auto simp: row_typed_def row_get_def list_all2_conv_all_nth)

lemma field_ok:
  assumes "row_typed cols vs" "well_kind cols ty (XField i)"
  shows "outcome_ok safe ty (row_get vs i)"
proof -
  obtain v where v: "row_get vs i = Inr v" "value_of_type (col_ty (cols ! i)) v" using row_typed_get assms by fastforce
  then show ?thesis using assms(2) by (auto simp: null_value)
qed

lemma pure_part_ok:
  assumes "row_typed cols vs" "i < length cols"
    and value_case: "\<And>v. value_of_type (col_ty (cols ! i)) v \<Longrightarrow> v \<noteq> VNull \<Longrightarrow> \<exists>x. part v = Some (Some x) \<and> value_of_type ty x"
    and null_case: "value_of_type (col_ty (cols ! i)) VNull \<Longrightarrow>
      if null_ok then value_of_type ty VNull else part VNull = None \<and> \<not> safe"
  shows "outcome_ok safe ty (pure_part (row_get vs i) null_ok part)"
proof -
  obtain v where v: "row_get vs i = Inr v" "value_of_type (col_ty (cols ! i)) v" using row_typed_get assms(1,2) by blast
  show ?thesis
  proof (cases "v = VNull")
    case True
    then show ?thesis using v null_case by (auto simp: pure_part_def split: if_splits)
  next
    case False
    then obtain x where "part v = Some (Some x)" "value_of_type ty x" using value_case v(2) by blast
    then show ?thesis by (simp add: pure_part_def v(1) False)
  qed
qed

lemma parts_typed:
  "score_field_type f = Some ty \<Longrightarrow> f64_is_finite (sv_value sc) \<Longrightarrow> \<exists>x. score_part sc f = Some x \<and> value_of_type ty x"
  "history_field_type f = Some ty \<Longrightarrow> \<exists>x. history_part h f = Some x \<and> value_of_type ty x"
  "change_field_type f = Some ty \<Longrightarrow> \<exists>x. change_part c f = Some x \<and> value_of_type ty x"
proof -
  show "score_field_type f = Some ty \<Longrightarrow> f64_is_finite (sv_value sc) \<Longrightarrow> \<exists>x. score_part sc f = Some x \<and> value_of_type ty x"
    by (auto simp: score_field_type_def score_part_def split: if_splits)
  show "history_field_type f = Some ty \<Longrightarrow> \<exists>x. history_part h f = Some x \<and> value_of_type ty x"
    by (auto simp: history_field_type_def history_part_def as_nullable_def split: if_splits option.splits)
  show "change_field_type f = Some ty \<Longrightarrow> \<exists>x. change_part c f = Some x \<and> value_of_type ty x"
    by (auto simp: change_field_type_def change_part_def split: if_splits)
qed

lemma null_is_nullable: "value_of_type t VNull \<Longrightarrow> base_type t \<noteq> TNull \<Longrightarrow> is_nullable t"
  by (cases t) auto

lemma hydration_fitsD:
  "hydration_fits H fs \<Longrightarrow> f \<in> set fs \<Longrightarrow> hydrated_get H r f nm = Some v \<Longrightarrow> field_accepts f v"
  unfolding hydration_fits_def hydrated_get_def by blast

lemma hydration_fits_mono: "hydration_fits H fs \<Longrightarrow> set gs \<subseteq> set fs \<Longrightarrow> hydration_fits H gs"
  unfolding hydration_fits_def by blast

lemma property_ok:
  assumes "value_of_type t e" "base_type t = TEntity" "value_of_type u n" "base_type u = TUtf8"
    and fits: "hydration_fits H fs" "f \<in> set fs" and has: "fi_has_property f = has"
  shows "outcome_ok (\<not> is_nullable u) (if has then TBool else TNullable TJson) (pure_property H e n has f)"
proof -
  have v: "value_of_type (if has then TBool else TNullable TJson) v" if "hydrated_get H r f s = Some v" for r s v
    using hydration_fitsD [OF fits that] has by (auto simp: field_accepts_def split: query_value.splits if_splits)
  have miss: "outcome_ok safe ty (Inl (failure ''source_hydration_missing''))" for safe ty
    by (simp add: outcome_ok_def runtime_errors_def)
  show ?thesis
    using base_cases(5) [OF assms(3,4) refl] base_cases(6) [OF assms(1,2) refl]
  proof (elim disjE exE conjE)
    fix s r assume sr: "n = VUtf8 s" "e = VEntity r"
    show ?thesis
    proof (cases "hydrated_get H r f s")
      case (Some x)
      then show ?thesis using v [OF Some] by (simp add: pure_property_def sr del: value_of_type.simps)
    qed (simp add: pure_property_def sr miss)
  qed (auto simp: pure_property_def outcome_ok_def)
qed

lemma outcome_cases:
  "(\<And>x. m = Inr x \<Longrightarrow> value_of_type ty x) \<Longrightarrow> (\<And>err. m = Inl err \<Longrightarrow> err \<in> runtime_errors)
     \<Longrightarrow> outcome_ok safe ty m"
  by (cases m) (auto simp: outcome_ok_def)

lemma finite_value_ok:
  "finite_value x = Inr v \<Longrightarrow> value_of_type TF64Finite v" "finite_value x = Inl err \<Longrightarrow> err \<in> runtime_errors"
  by (auto simp: finite_value_def runtime_errors_def split: if_splits)

lemma overflow_ok [simp]: "failure ''integer_overflow'' \<in> runtime_errors" "failure ''division_by_zero'' \<in> runtime_errors"
  "failure ''nonfinite_result'' \<in> runtime_errors"
  by (simp_all add: runtime_errors_def)

lemma unary_ok:
  assumes "value_of_type t v"
  shows "base_type t = TBool \<Longrightarrow> outcome_ok safe t (unary OpNot v)"
    "numeric_type t \<Longrightarrow> outcome_ok safe t (unary OpNeg v)"
    "op \<in> {OpIsNull, OpIsNotNull} \<Longrightarrow> outcome_ok safe TBool (unary op v)"
proof -
  have base: "value_of_type t x" if "value_of_type (base_type t) x" for x
    using that by (cases t) auto
  show "base_type t = TBool \<Longrightarrow> outcome_ok safe t (unary OpNot v)"
    using base_cases(1) [OF assms] by (auto simp: unary_def null_value base)
  show "outcome_ok safe t (unary OpNeg v)" if num: "numeric_type t"
  proof (rule outcome_cases)
    fix x assume "unary OpNeg v = Inr x"
    then show "value_of_type t x"
      using num base_cases(2,4) [OF assms] finite_value_ok(1)
      by (auto simp: numeric_type_def unary_def null_value base)
  next
    fix err assume "unary OpNeg v = Inl err"
    then show "err \<in> runtime_errors"
      using num base_cases(2,4) [OF assms] finite_value_ok(2)
      by (auto simp: numeric_type_def unary_def ok_or_def split: option.splits)
  qed
  show "op \<in> {OpIsNull, OpIsNotNull} \<Longrightarrow> outcome_ok safe TBool (unary op v)"
    by (auto simp: unary_def)
qed

lemma lower_ok:
  assumes "value_of_type t v" "base_type t = TUtf8"
  shows "outcome_ok safe (nullable_if TUtf8 (is_nullable t)) (pure_lower K v)"
    "outcome_ok safe (nullable_if TI64 (is_nullable t)) (eval_length v)"
proof -
  show "outcome_ok safe (nullable_if TUtf8 (is_nullable t)) (pure_lower K v)"
    using base_cases(5) [OF assms refl]
    by (auto simp: pure_lower_def null_nullable_if value_nullable_if)
  show "outcome_ok safe (nullable_if TI64 (is_nullable t)) (eval_length v)"
    using base_cases(5) [OF assms refl]
    by (intro outcome_cases)
      (auto simp: eval_length_def null_nullable_if value_nullable_if runtime_errors_def ok_or_def split: option.splits)
qed

lemma in_list_ok:
  assumes "value_of_type t n" "base_type t \<noteq> TNull" "list_all2 (\<lambda>u v. value_of_type u v) us vs"
    and "list_all (\<lambda>u. base_type u = base_type t) us"
  shows "value_of_type (nullable_if TBool (is_nullable t \<or> list_ex is_nullable us)) (in_list n vs negated)"
proof -
  have "is_nullable t \<or> list_ex is_nullable us" if "list_ex (\<lambda>v. n = VNull \<or> v = VNull) vs"
    using assms(3,4) that
  proof (induction us vs rule: list_all2_induct)
    case (Cons u us v vs)
    then show ?case using assms(1,2) null_is_nullable [of t] null_is_nullable [of u] by auto
  qed simp
  then show ?thesis by (auto simp: in_list_def Let_def intro!: value_nullable_if null_nullable_if)
qed

lemma connective_ok:
  assumes "value_of_type l a" "value_of_type r b" "base_type l = TBool" "base_type r = TBool"
  shows "value_of_type (nullable_if TBool (is_nullable l \<or> is_nullable r)) (connective u a b)"
  using base_cases(1) [OF assms(1,3) refl] base_cases(1) [OF assms(2,4) refl]
  by (auto simp: connective_def truth_def Let_def value_nullable_if null_nullable_if)

lemma arith_ok:
  "op \<in> {OpAdd, OpSub, OpMul, OpDiv, OpRem} \<Longrightarrow> arith_i64 op i j = Inr v \<Longrightarrow> value_of_type TI64 v"
  "op \<in> {OpAdd, OpSub, OpMul, OpDiv, OpRem} \<Longrightarrow> arith_i64 op i j = Inl err \<Longrightarrow> err \<in> runtime_errors"
  "op \<in> {OpAdd, OpSub, OpMul, OpDiv, OpRem} \<Longrightarrow> arith_f64 K op x y = Inr v \<Longrightarrow> value_of_type TF64Finite v"
  "op \<in> {OpAdd, OpSub, OpMul, OpDiv, OpRem} \<Longrightarrow> arith_f64 K op x y = Inl err \<Longrightarrow> err \<in> runtime_errors"
  by (auto simp: arith_i64_def arith_f64_def ok_or_def rbind_Inl_iff split: if_splits option.splits
      dest: finite_value_ok(2) dest!: finite_value_ok(1))

lemma compare_ok:
  assumes "ordered_type l" "base_type l = base_type r" "value_of_type l a" "value_of_type r b" "a \<noteq> VNull" "b \<noteq> VNull"
  shows "compare a b = Inl err \<Longrightarrow> err \<in> runtime_errors"
  using assms base_cases(1-5) [OF assms(3)] base_cases(1-5) [OF assms(4)]
  by (auto simp: ordered_type_def compare_def ok_or_def split: option.splits)

lemma binary_ok:
  assumes "binary_type op l r = Inr ty" "value_of_type l a" "value_of_type r b"
  shows "outcome_ok safe ty (binary K op a b)"
proof -
  have null: "is_nullable l \<or> is_nullable r" if "a = VNull \<or> b = VNull" "base_type l \<noteq> TNull" "base_type r = base_type l"
    using that assms(2,3) null_is_nullable by auto
  note types = assms(1) [unfolded binary_type_def Let_def]
  consider (con) "op \<in> {OpAnd, OpOr}" | (arith) "op \<in> {OpAdd, OpSub, OpMul, OpDiv, OpRem}" | (eq) "op \<in> {OpEq, OpNe}"
    | (ord) "op \<in> {OpLt, OpLe, OpGt, OpGe}" | (string) "op \<in> {OpContains, OpStartswith}"
    by (cases op) auto
  then show ?thesis
  proof cases
    case con
    then show ?thesis using types connective_ok [OF assms(2,3)]
      by (auto simp: boolean_type_def binary_def split: if_splits)
  next
    case arith
    then have ty: "ty = nullable_if (base_type l) (is_nullable l \<or> is_nullable r)" "numeric_type l" "base_type r = base_type l"
      using types by (auto split: if_splits)
    show ?thesis
    proof (cases "a = VNull \<or> b = VNull")
      case True
      then show ?thesis using arith null [OF True] ty(2,3)
        by (auto simp: numeric_type_def binary_def ty(1) null_nullable_if)
    next
      case False
      then consider i j where "a = VI64 i" "b = VI64 j" "base_type l = TI64"
        | x y where "a = VF64 x" "b = VF64 y" "base_type l = TF64Finite"
        using ty base_cases(2,4) [OF assms(2)] base_cases(2,4) [OF assms(3)] by (auto simp: numeric_type_def)
      then show ?thesis
      proof cases
        case 1
        then have "binary K op a b = arith_i64 op i j" using arith by (auto simp: binary_def)
        then show ?thesis using arith_ok(1,2) [OF arith] 1(3) by (simp add: outcome_cases ty value_nullable_if)
      next
        case 2
        then have "binary K op a b = arith_f64 K op x y" using arith by (auto simp: binary_def)
        then show ?thesis using arith_ok(3,4) [OF arith] 2(3) by (simp add: outcome_cases ty value_nullable_if)
      qed
    qed
  next
    case eq
    then have ty: "ty = nullable_if TBool (is_nullable l \<or> is_nullable r)" "equality_comparable l" "base_type l = base_type r"
      using types by (auto split: if_splits)
    then have base: "base_type l \<noteq> TNull" by (auto simp: equality_comparable_def ordered_type_def)
    show ?thesis
    proof (cases "a = VNull \<or> b = VNull")
      case True
      then show ?thesis using eq null [OF True base ty(3) [symmetric]] by (auto simp: binary_def ty(1) null_nullable_if)
    next
      case False
      then show ?thesis using eq by (auto simp: binary_def ty(1) value_nullable_if)
    qed
  next
    case ord
    then have ty: "ty = nullable_if TBool (is_nullable l \<or> is_nullable r)" "ordered_type l" "base_type l = base_type r"
      using types by (auto split: if_splits)
    have base: "base_type l \<noteq> TNull" using ty(2) by (auto simp: ordered_type_def)
    show ?thesis
    proof (cases "a = VNull \<or> b = VNull")
      case True
      then show ?thesis using ord null [OF True base ty(3) [symmetric]] by (auto simp: ty(1) binary_def null_nullable_if)
    next
      case False
      then show ?thesis using ord compare_ok [OF ty(2,3) assms(2,3)]
        by (cases "compare a b") (auto simp: binary_def ty(1) value_nullable_if outcome_ok_def)
    qed
  next
    case string
    then have ty: "ty = nullable_if TBool (is_nullable l \<or> is_nullable r)" "base_type l = TUtf8" "base_type r = TUtf8"
      using types by (auto split: if_splits)
    show ?thesis using string base_cases(5) [OF assms(2) ty(2) refl] base_cases(5) [OF assms(3) ty(3) refl]
      by (auto simp: binary_def ty null_nullable_if value_nullable_if)
  qed
qed

lemma part_ok:
  assumes row: "row_typed cols vs" and well: "well_kind cols ty k"
    and part: "k \<in> {XEntityRefField i f, XScoreField i f, XHistoryField i f, XChangeField i f}"
  shows "outcome_ok (null_safe_kind cols k) ty (pure_build E vs (Bound ty k) xs)"
proof -
  have col: "i < length cols" using well part by (auto simp: column_at_def)
  have null: "is_nullable (col_ty (cols ! i))" if "value_of_type (col_ty (cols ! i)) VNull"
    by (rule null_is_nullable [OF that]) (use well part in \<open>auto simp: column_at_def\<close>)
  from part consider "k = XEntityRefField i f" | "k = XScoreField i f" | "k = XHistoryField i f" | "k = XChangeField i f" by blast
  then show ?thesis
  proof cases
    case 1
    have named: "\<exists>s. entity_text r f = Some s" for r using well 1 by (auto simp: entity_text_def entity_fields_def)
    show ?thesis unfolding pure_build_def 1 bound_expr.sel expr_kind.case
    proof (rule pure_part_ok [OF row col])
      fix v assume v: "value_of_type (col_ty (cols ! i)) v" "v \<noteq> VNull"
      then obtain r where "v = VEntity r" using base_cases(6) [OF v(1)] well 1 by (auto simp: column_at_def)
      then show "\<exists>x. (case v of VEntity r \<Rightarrow> Some (map_option VUtf8 (entity_text r f)) | _ \<Rightarrow> None) = Some (Some x) \<and> value_of_type ty x"
        using named [of r] well 1 by (auto simp: value_nullable_if)
    qed (use null well 1 in \<open>simp add: null_nullable_if\<close>)
  next
    case 2
    show ?thesis unfolding pure_build_def 2 bound_expr.sel expr_kind.case
    proof (rule pure_part_ok [OF row col])
      fix v assume v: "value_of_type (col_ty (cols ! i)) v" "v \<noteq> VNull"
      then obtain x where "v = VScore x" "f64_is_finite (sv_value x)"
        using base_cases(7) [OF v(1)] well 2 by (auto simp: column_at_def)
      then show "\<exists>x. (case v of VScore s \<Rightarrow> Some (score_part s f) | _ \<Rightarrow> None) = Some (Some x) \<and> value_of_type ty x"
        using parts_typed(1) [of f ty x] well 2 by simp
    qed (use null 2 in simp)
  next
    case 3
    show ?thesis unfolding pure_build_def 3 bound_expr.sel expr_kind.case
    proof (rule pure_part_ok [OF row col])
      fix v assume v: "value_of_type (col_ty (cols ! i)) v" "v \<noteq> VNull"
      then obtain x where "v = VHistoryRevision x" using base_cases(8) [OF v(1)] well 3 by (auto simp: column_at_def)
      then show "\<exists>x. (case v of VHistoryRevision h \<Rightarrow> Some (history_part h f) | _ \<Rightarrow> None) = Some (Some x) \<and> value_of_type ty x"
        using parts_typed(2) [of f ty x] well 3 by simp
    qed (use null 3 in simp)
  next
    case 4
    show ?thesis unfolding pure_build_def 4 bound_expr.sel expr_kind.case
    proof (rule pure_part_ok [OF row col])
      fix v assume v: "value_of_type (col_ty (cols ! i)) v" "v \<noteq> VNull"
      then obtain x where "v = VChangeEvent x" using base_cases(9) [OF v(1)] well 4 by (auto simp: column_at_def)
      then show "\<exists>x. (case v of VChangeEvent c \<Rightarrow> Some (change_part c f) | _ \<Rightarrow> None) = Some (Some x) \<and> value_of_type ty x"
        using parts_typed(3) [of f ty x] well 4 by simp
    qed (use null 4 in simp)
  qed
qed

lemma pure_build_ok:
  assumes well: "well_bound cols e" and row: "row_typed cols vs"
    and fits: "hydration_fits (xe_hydrated E) (property_fields e)"
    and xs: "list_all2 value_of_type (map be_ty (bound_operands e)) xs"
  shows "outcome_ok (null_safe cols e) (be_ty e) (pure_build E vs e xs)"
proof -
  obtain ty k where e: "e = Bound ty k" by (cases e)
  note defs = pure_build_def bound_operands_def e
  have part: ?thesis if "k \<in> {XEntityRefField i f, XScoreField i f, XHistoryField i f, XChangeField i f}" for i f
    using part_ok [OF row _ that, of ty E xs] well by (simp add: e)
  show ?thesis
  proof (cases k)
    case (XField i)
    then show ?thesis using well field_ok [OF row, of ty i] by (simp add: defs del: well_kind.simps)
  next
    case (XProperty a b has f)
    then obtain x y where xy: "xs = [x, y]" "value_of_type (be_ty a) x" "value_of_type (be_ty b) y"
      using xs by (auto simp: defs list_all2_Cons1)
    have w: "base_type (be_ty a) = TEntity" "base_type (be_ty b) = TUtf8" "fi_has_property f = has"
      "ty = (if has then TBool else TNullable TJson)"
      using well by (simp_all add: e XProperty)
    have "outcome_ok (\<not> is_nullable (be_ty b)) ty (pure_property (xe_hydrated E) x y has f)"
      unfolding w(4) by (rule property_ok [OF xy(2) w(1) xy(3) w(2) fits _ w(3)]) (simp add: e XProperty)
    then have "outcome_ok (null_safe cols e) ty (pure_property (xe_hydrated E) x y has f)"
      by (rule outcome_mono) (simp add: e XProperty)
    then show ?thesis by (simp add: pure_build_def e XProperty xy(1))
  next
    case (XBinary op a b)
    then obtain x y where "xs = [x, y]" "value_of_type (be_ty a) x" "value_of_type (be_ty b) y"
      using xs by (auto simp: defs list_all2_Cons1)
    then show ?thesis using XBinary well by (auto simp: defs intro: binary_ok)
  next
    case (XUnary op a)
    then obtain x where "xs = [x]" "value_of_type (be_ty a) x"
      using xs by (auto simp: defs list_all2_Cons1)
    then show ?thesis using XUnary well by (cases op) (auto simp: defs intro: unary_ok)
  next
    case (XLower a)
    then obtain x where "xs = [x]" "value_of_type (be_ty a) x"
      using xs by (auto simp: defs list_all2_Cons1)
    then show ?thesis using XLower well by (auto simp: defs intro: lower_ok(1))
  next
    case (XLength a)
    then obtain x where "xs = [x]" "value_of_type (be_ty a) x"
      using xs by (auto simp: defs list_all2_Cons1)
    then show ?thesis using XLength well by (auto simp: defs intro: lower_ok(2))
  next
    case (XIn a es n)
    then obtain x ys where "xs = x # ys" "value_of_type (be_ty a) x" "list_all2 value_of_type (map be_ty es) ys"
      using xs by (auto simp: defs list_all2_Cons1)
    then show ?thesis
      using XIn well in_list_ok [of "be_ty a" x "map be_ty es" ys n]
      by (auto simp: defs equality_comparable_def ordered_type_def list.pred_map list_ex_iff comp_def)
  qed (use part well in \<open>auto simp: defs\<close>)
qed

lemma collect_outcome:
  assumes "\<And>x. x \<in> set xs \<Longrightarrow> outcome_ok safe (t x) (f x)"
  shows "case collect_results (map f xs) of Inr ys \<Rightarrow> list_all2 value_of_type (map t xs) ys
     | Inl err \<Rightarrow> outcome_ok safe ty (Inl err)"
  using assms
proof (induction xs)
  case (Cons x xs)
  then have "outcome_ok safe (t x) (f x)" and "case collect_results (map f xs) of Inr ys \<Rightarrow> list_all2 value_of_type (map t xs) ys
     | Inl err \<Rightarrow> outcome_ok safe ty (Inl err)" by simp_all
  then show ?case
    by (cases "f x"; cases "collect_results (map f xs)") (auto simp: outcome_ok_def)
qed simp

lemma operands_sound:
  assumes "well_bound cols e" "k \<in> set (bound_operands e)"
  shows "well_bound cols k" "null_safe cols e \<Longrightarrow> null_safe cols k" "set (property_fields k) \<subseteq> set (property_fields e)"
proof -
  obtain ty kd where e: "e = Bound ty kd" by (cases e)
  show "well_bound cols k" "null_safe cols e \<Longrightarrow> null_safe cols k" "set (property_fields k) \<subseteq> set (property_fields e)"
    using assms by (cases kd; auto simp: e bound_operands_def list_all_iff)+
qed

lemma pure_eval_ok:
  assumes "row_typed cols vs"
  shows "well_bound cols e \<Longrightarrow> hydration_fits (xe_hydrated E) (property_fields e)
    \<Longrightarrow> outcome_ok (null_safe cols e) (be_ty e) (pure_eval E vs e)"
proof (induction e rule: measure_induct_rule [where f = size])
  case (less e)
  have IH: "outcome_ok (null_safe cols e) (be_ty k) (pure_eval E vs k)" if "k \<in> set (bound_operands e)" for k
  proof (rule outcome_mono)
    show "outcome_ok (null_safe cols k) (be_ty k) (pure_eval E vs k)"
      using less.IH [OF bound_operand_smaller [OF that]] operands_sound [OF less.prems(1) that]
        hydration_fits_mono [OF less.prems(2)] by blast
  qed (use operands_sound(2) [OF less.prems(1) that] in blast)
  have "case collect_results (map (pure_eval E vs) (bound_operands e)) of
      Inr ys \<Rightarrow> list_all2 value_of_type (map be_ty (bound_operands e)) ys
    | Inl err \<Rightarrow> outcome_ok (null_safe cols e) (be_ty e) (Inl err)"
    by (rule collect_outcome) (rule IH)
  then show ?case
    unfolding pure_eval.simps [of E vs e] using pure_build_ok [OF less.prems(1) assms less.prems(2)]
    by (cases "collect_results (map (pure_eval E vs) (bound_operands e))") simp_all
qed

section \<open>Property slots\<close>

definition slots_between :: "field_id list \<Rightarrow> u32 \<Rightarrow> u32 \<Rightarrow> bool" where
  "slots_between fs lo hi \<longleftrightarrow> lo \<le> hi \<and> distinct (map fi_index fs) \<and> (\<forall>f\<in>set fs. lo \<le> fi_index f \<and> fi_index f < hi)"

lemma slots_between_Nil [simp]: "slots_between [] lo hi \<longleftrightarrow> lo \<le> hi"
  by (auto simp: slots_between_def)

lemma slots_between_append: "slots_between fs lo mid \<Longrightarrow> slots_between gs mid hi \<Longrightarrow> slots_between (fs @ gs) lo hi"
  by (fastforce simp: slots_between_def dest: order.strict_trans1 order.strict_trans2)

lemma issue_numbered:
  assumes "slots_between fs lo mid" "issue_field has nm mid = Inr (f, hi)"
  shows "slots_between (f # fs) lo hi"
proof -
  have f: "fi_index f = mid" "checked_add mid 1 = Some hi" using assms(2) by (auto simp: issue_field_def ok_or_def split: option.splits)
  then have "mid < hi" by (simp add: checked_add_Some_iff word_less_nat_alt)
  then show ?thesis using assms(1) f by (force simp: slots_between_def)
qed

lemma map_st_numbered:
  assumes "\<And>x lo b hi. x \<in> set xs \<Longrightarrow> f x lo = Inr (b, hi) \<Longrightarrow> slots_between (G b) lo hi"
  shows "map_st f xs lo = Inr (bs, hi) \<Longrightarrow> slots_between (concat (map G bs)) lo hi"
  using assms
proof (induction xs arbitrary: lo bs)
  case (Cons x xs)
  then obtain b mid bs' where b: "f x lo = Inr (b, mid)" "map_st f xs mid = Inr (bs', hi)" "bs = b # bs'" by auto
  have "slots_between (concat (map G bs')) mid hi"
    by (rule Cons.IH [OF b(2)]) (use Cons.prems(2) in auto)
  then show ?case using Cons.prems(2) [OF _ b(1)] by (simp add: b(3) slots_between_append)
qed simp

lemma property_fields_kind: "property_fields b = kind_fields (be_kind b)"
  by (cases b) simp

lemma contextual_null_fields: "contextual_null b t = Inr b' \<Longrightarrow> property_fields b' = property_fields b"
  by (auto simp: contextual_null_def property_fields_kind split: if_splits)

lemma contextual_nulls_fields:
  "collect_results (map (\<lambda>v. if be_ty v = TNull then contextual_null v t else Inr v) vs) = Inr ws
     \<Longrightarrow> map property_fields ws = map property_fields vs"
  unfolding collect_map_Inr
  by (induction vs arbitrary: ws) (auto simp: list_all2_Cons1 contextual_null_fields split: if_splits)

lemma bind_leaf_fields:
  "bind_literal F R lit tn = Inr b \<Longrightarrow> property_fields b = []"
  "bind_parameter P nm = Inr b \<Longrightarrow> property_fields b = []"
  "bind_field cols f = Inr b \<Longrightarrow> property_fields b = []"
proof -
  show "bind_field cols f = Inr b \<Longrightarrow> property_fields b = []"
    by (cases "fr_path f"; cases "tl (fr_path f)") (auto simp: bind_field_def split: if_splits)
qed (auto simp: bind_literal_def bind_parameter_def split: if_splits)

lemma bind_node_fields:
  "bind_binary op l r = Inr b \<Longrightarrow> property_fields b = property_fields l @ property_fields r"
  "bind_unary u l = Inr b \<Longrightarrow> property_fields b = property_fields l"
  "bind_string_call call l = Inr b \<Longrightarrow> property_fields b = property_fields l"
  "bind_in l vs negated = Inr b \<Longrightarrow> property_fields b = property_fields l @ concat (map property_fields vs)"
  by (auto simp: bind_binary_def resolve_nulls_def bind_unary_def bind_string_call_def bind_in_def
      contextual_null_fields contextual_nulls_fields split: if_splits unary_op.splits)

lemma bind_property_fields:
  "bind_property call l r nxt = Inr (b, nxt') \<Longrightarrow>
     \<exists>f has nm. issue_field has nm nxt = Inr (f, nxt') \<and> property_fields b = f # property_fields l @ property_fields r"
  by (auto simp: bind_property_def Let_def split: if_splits) blast+

lemma bind_build_numbered:
  assumes "bind_build B e bs mid = Inr (b, hi)" "length bs = length (expr_operands e)"
    and "slots_between (concat (map property_fields bs)) lo mid"
  shows "slots_between (property_fields b) lo hi"
proof -
  have two: "bs = [bs ! 0, bs ! 1]" if "length bs = 2" using that by (auto simp: numeral_2_eq_2 length_Suc_conv)
  have one: "bs = [bs ! 0]" if "length bs = 1" using that by (auto simp: length_Suc_conv)
  show ?thesis
  proof (cases e)
    case (EIn x vals negated)
    then obtain c cs where "bs = c # cs" using assms(2) by (cases bs) auto
    then show ?thesis using assms(1,3) EIn by (auto simp: bind_build_def bind_node_fields(4))
  next
    case (ECall call args)
    then consider (prop2) "call \<in> {''prop'', ''has_prop''}" "length bs = 2" "bind_property call (bs ! 0) (bs ! 1) mid = Inr (b, hi)"
      | (string1) "length bs = 1" "bind_string_call call (bs ! 0) = Inr b" "hi = mid"
      using assms(1,2) by (auto simp: bind_build_def split: if_splits)
    then show ?thesis
    proof cases
      case prop2
      obtain f has nm where f: "issue_field has nm mid = Inr (f, hi)"
        "property_fields b = f # property_fields (bs ! 0) @ property_fields (bs ! 1)"
        using bind_property_fields [OF prop2(3)] by blast
      have "concat (map property_fields bs) = property_fields (bs ! 0) @ property_fields (bs ! 1)"
        by (subst two [OF prop2(2)]) simp
      then show ?thesis using issue_numbered [OF assms(3) f(1)] f(2) by simp
    next
      case string1
      have "concat (map property_fields bs) = property_fields (bs ! 0)" by (subst one [OF string1(1)]) simp
      then show ?thesis using assms(3) string1 bind_node_fields(3) by simp
    qed
  next
    case (EBinary op l r)
    then have "length bs = 2" using assms(2) by simp
    then have "concat (map property_fields bs) = property_fields (bs ! 0) @ property_fields (bs ! 1)"
      by (subst two) simp_all
    then show ?thesis using assms(1,3) EBinary by (auto simp: bind_build_def bind_node_fields(1))
  next
    case (EUnary op a)
    then have "length bs = 1" using assms(2) by simp
    then have "concat (map property_fields bs) = property_fields (bs ! 0)" by (subst one) simp_all
    then show ?thesis using assms(1,3) EUnary by (auto simp: bind_build_def bind_node_fields(2))
  qed (use assms in \<open>auto simp: bind_build_def bind_leaf_fields\<close>)
qed

lemma bind_expr_numbered: "bind_expr B depth e lo = Inr (b, hi) \<Longrightarrow> slots_between (property_fields b) lo hi"
  unfolding bind_expr_is_recursive
proof (induction e arbitrary: depth lo b hi rule: measure_induct_rule [where f = size])
  case (less e)
  then obtain bs mid where bs: "map_st (bind_recursive B (depth + 1)) (expr_operands e) lo = Inr (bs, mid)"
    and b: "bind_build B e bs mid = Inr (b, hi)"
    by (subst (asm) bind_recursive.simps) (auto simp: bind_depth_def guard_err_def split: if_splits)
  have "slots_between (concat (map property_fields bs)) lo mid"
    using map_st_numbered [where G = property_fields, OF _ bs] less.IH expr_operand_smaller by blast
  then show ?case by (rule bind_build_numbered [OF b map_st_Inr_length [OF bs]])
qed

section \<open>Validated property values\<close>

text \<open>The fields of a batch are slots of the expression, under the names found in the rows.\<close>

definition slots_of :: "field_id list \<Rightarrow> field_id list \<Rightarrow> bool" where
  "slots_of gs fs \<longleftrightarrow> list_all (\<lambda>g. list_ex (\<lambda>f. fi_index f = fi_index g \<and> fi_has_property f = fi_has_property g) fs) gs"

lemma slot_fits:
  assumes "distinct (map fi_index fs)" "slots_of gs fs" "g \<in> set gs" "field_accepts g v" "f \<in> set fs" "fi_index f = fi_index g"
  shows "field_accepts f v"
proof -
  obtain f' where "f' \<in> set fs" "fi_index f' = fi_index g" "fi_has_property f' = fi_has_property g"
    using assms(2,3) by (auto simp: slots_of_def list_all_iff list_ex_iff)
  moreover from this have "f' = f" using assms(1,5,6) by (metis distinct_map inj_onD)
  ultimately show ?thesis using assms(4) by (simp add: field_accepts_def)
qed

lemma add_row_fits:
  assumes fs: "distinct (map fi_index fs)" "slots_of gs fs"
  shows "add_row rec vfs H = Inr H' \<Longrightarrow> hydration_fits H fs \<Longrightarrow> list_all (\<lambda>(v, f). f \<in> set gs \<and> field_accepts f v) vfs
    \<Longrightarrow> hydration_fits H' fs"
proof (induction vfs arbitrary: H)
  case (Cons vf vfs)
  obtain v g where vf: "vf = (v, g)" by (cases vf)
  then obtain nm where rest: "add_row rec vfs (H((record_key rec, fi_index g, nm) \<mapsto> v)) = Inr H'"
    using Cons.prems(1) by (auto simp: Let_def split: option.splits if_splits)
  have g: "g \<in> set gs" "field_accepts g v" using Cons.prems(3) vf by auto
  have "hydration_fits (H((record_key rec, fi_index g, nm) \<mapsto> v)) fs"
    unfolding hydration_fits_def
  proof (intro ballI allI impI)
    fix f k n x assume f: "f \<in> set fs" and x: "(H((record_key rec, fi_index g, nm) \<mapsto> v)) (k, fi_index f, n) = Some x"
    show "field_accepts f x"
    proof (cases "(k, fi_index f, n) = (record_key rec, fi_index g, nm)")
      case True
      then show ?thesis using x slot_fits [OF fs g f] by simp
    next
      case False
      then have "H (k, fi_index f, n) = Some x" using x by (simp only: fun_upd_other not_False_eq_True)
      then show ?thesis using Cons.prems(2) f unfolding hydration_fits_def by blast
    qed
  qed
  then show ?case by (rule Cons.IH [OF rest]) (use Cons.prems(3) in simp)
qed simp

lemma add_rows_fits:
  assumes fs: "distinct (map fi_index fs)" "slots_of gs fs"
  shows "add_rows gs rows H = Inr H' \<Longrightarrow> hydration_fits H fs \<Longrightarrow>
    list_all (\<lambda>((vs, key), rec). list_all (\<lambda>(v, f). field_accepts f v) (zip vs gs)) rows \<Longrightarrow> hydration_fits H' fs"
proof (induction rows arbitrary: H)
  case (Cons r rows)
  obtain vs key rec where r: "r = ((vs, key), rec)" by (metis surj_pair)
  then obtain H1 where H1: "add_row rec (zip vs gs) H = Inr H1" "add_rows gs rows H1 = Inr H'"
    using Cons.prems(1) by (auto split: if_splits)
  have "list_all (\<lambda>(v, f). f \<in> set gs \<and> field_accepts f v) (zip vs gs)"
    using Cons.prems(3) r by (auto simp: list_all_iff dest: set_zip_rightD)
  then have "hydration_fits H1 fs" by (rule add_row_fits [OF fs H1(1) Cons.prems(2)])
  then show ?case by (rule Cons.IH [OF H1(2)]) (use Cons.prems(3) in simp)
qed simp

lemma add_batch_fits:
  assumes fs: "distinct (map fi_index fs)" "slots_of gs fs"
    and batch: "add_batch records gs batch H = Inr H'" "hydration_fits H fs"
  shows "hydration_fits H' fs"
proof (rule add_rows_fits [OF fs _ batch(2)])
  show "add_rows gs (zip (zip (xb_rows batch) (xb_row_keys batch)) records) H = Inr H'"
    using batch(1) by (auto simp: add_batch_def)
  have "for_each (\<lambda>((vs, key), rec).
        guard_err (length vs \<noteq> length gs \<or> key \<noteq> rec \<or> list_ex (\<lambda>(v, f). \<not> field_accepts f v) (zip vs gs)) misaligned)
        (zip (zip (xb_rows batch) (xb_row_keys batch)) records) = Inr ()"
    using batch(1) by (auto simp: add_batch_def batch_validate_def split: if_splits)
  then show "list_all (\<lambda>((vs, key), rec). list_all (\<lambda>(v, f). field_accepts f v) (zip vs gs))
      (zip (zip (xb_rows batch) (xb_row_keys batch)) records)"
    by (fastforce simp: for_each_Inr guard_err_def list_ex_iff list_all_iff split: if_splits)
qed

text \<open>The batches of one kernel, added to an empty store.\<close>

fun add_batches :: "(record_ref list \<times> field_id list \<times> exec_batch) list \<Rightarrow> hydrated \<Rightarrow> (query_error, hydrated) result" where
  "add_batches [] H = Inr H"
| "add_batches ((records, gs, batch) # bs) H = rbind (add_batch records gs batch H) (add_batches bs)"

lemma add_batches_fits:
  assumes fs: "distinct (map fi_index fs)"
  shows "add_batches bs H = Inr H' \<Longrightarrow> list_all (\<lambda>(_, gs, _). slots_of gs fs) bs \<Longrightarrow> hydration_fits H fs \<Longrightarrow> hydration_fits H' fs"
proof (induction bs arbitrary: H)
  case (Cons b bs)
  obtain records gs batch where b: "b = (records, gs, batch)" by (metis surj_pair)
  then obtain H1 where H1: "add_batch records gs batch H = Inr H1" "add_batches bs H1 = Inr H'" using Cons.prems(1) by auto
  have "hydration_fits H1 fs" by (rule add_batch_fits [OF fs _ H1(1) Cons.prems(3)]) (use Cons.prems(2) b in simp)
  then show ?case using Cons.IH [OF H1(2)] Cons.prems(2) by simp
qed simp

lemma hydration_fits_empty [simp]: "hydration_fits Map.empty fs"
  by (simp add: hydration_fits_def)

section \<open>Properties\<close>

text \<open>C15 Typed evaluation. Take an expression that binding accepts over the columns in scope and the decoded
  parameters, a row of those columns, and property values that came in validated batches for the
  expression's own property slots. Evaluation then returns a value of the type binding gave the
  expression, or fails with the quota error, a division by zero, an integer overflow, a result that is
  not finite or a property value that was not fetched. The error \<open>bound_type\<close> is left only for
  expressions that read a part of a nullable score, history or change column or take a nullable
  property name.\<close>

theorem bound_expressions_evaluate_to_their_type:
  assumes "decode_parameters F R types params Map.empty = Inr P"
    and "bind_expr \<lparr>bn_floats = F, bn_refs = R, bn_scope = cols, bn_params = P\<rparr> depth e nxt = Inr (b, nxt')"
    and "row_typed cols vs"
    and "list_all (\<lambda>(_, gs, _). slots_of gs (property_fields b)) batches"
    and "add_batches batches Map.empty = Inr (xe_hydrated E)"
  shows "case eval E vs b st of
      Inr (v, _) \<Rightarrow> value_of_type (be_ty b) v
    | Inl err \<Rightarrow> err \<in> {quota, failure ''division_by_zero'', failure ''integer_overflow'', failure ''nonfinite_result'',
          failure ''source_hydration_missing''}
        \<or> \<not> null_safe cols b \<and> err = failure ''bound_type''"
proof -
  have "parameters_typed P" using decode_parameters_typed [OF assms(1)] by (simp add: parameters_typed_def)
  then have "well_bound cols b" using bind_expr_well [OF _ assms(2)] by simp
  moreover have "hydration_fits (xe_hydrated E) (property_fields b)"
    using add_batches_fits [OF _ assms(5,4)] bind_expr_numbered [OF assms(2)] by (simp add: slots_between_def)
  ultimately have "outcome_ok (null_safe cols b) (be_ty b) (pure_eval E vs b)" using pure_eval_ok assms(3) by blast
  then show ?thesis using metered_outcome [OF eval_transparent] unfolding runtime_errors_def by blast
qed

definition sample_ref :: record_ref where
  "sample_ref = \<lparr>rr_database_id = ''d'', rr_namespace = ''n'', rr_kind = KindNode, rr_id = ''x'', rr_revision = ''r''\<rparr>"

definition sample_field :: field_id where
  "sample_field = \<lparr>fi_index = 0, fi_name = Some ''a'', fi_has_property = True\<rparr>"

definition sample_bound :: bound_expr where
  "sample_bound = Bound (TNullable TBool) (XBinary OpAnd
     (Bound TBool (XProperty (Bound TEntity (XField 0)) (Bound TUtf8 (XLiteral (VUtf8 ''a''))) True sample_field))
     (Bound (TNullable TBool) (XBinary OpStartswith (Bound (TNullable TUtf8) (XField 1)) (Bound TUtf8 (XLiteral (VUtf8 ''q''))))))"

definition sample_columns :: "column list" where
  "sample_columns = [\<lparr>col_name = ''n'', col_ty = TEntity\<rparr>, \<lparr>col_name = ''t'', col_ty = TNullable TUtf8\<rparr>]"

definition sample_ops :: eval_ops where
  "sample_ops = \<lparr>xo_size_value = 32, xo_size_row = 24, xo_size_ref = 104, xo_add = (\<lambda>a b. 0), xo_sub = (\<lambda>a b. 0),
     xo_mul = (\<lambda>a b. 0), xo_div = (\<lambda>a b. 0), xo_rem = (\<lambda>a b. 0), xo_of_i64 = (\<lambda>i. 0), xo_lower = id\<rparr>"

definition sample_env :: eval_env where
  "sample_env = \<lparr>xe_ops = sample_ops, xe_clock = id, xe_hydrated = [(record_key sample_ref, 0, ''a'') \<mapsto> VBool True]\<rparr>"

definition sample_budget :: execution_budget where
  "sample_budget = \<lparr>eb_started = 0, eb_elapsed = 1000, eb_memory = 100000, eb_accounted = 0, eb_rows = 10, eb_bytes = 10,
     eb_expanded_nodes = 0, eb_expanded_nodes_used = 0, eb_expanded_edges = 0, eb_expanded_edges_used = 0,
     eb_vector_candidates = 0, eb_vector_candidates_used = 0, eb_distance_evaluations = 0, eb_distance_evaluations_used = 0\<rparr>"

theorem bound_expressions_evaluate_to_their_type_witness:
  "case eval sample_env [VEntity sample_ref, VNull] sample_bound (sample_budget, 0) of
      Inr (v, _) \<Rightarrow> value_of_type (TNullable TBool) v
    | Inl err \<Rightarrow> err \<in> {quota, failure ''division_by_zero'', failure ''integer_overflow'', failure ''nonfinite_result'',
          failure ''source_hydration_missing''}"
proof -
  let ?F = "\<lparr>as_f64 = (\<lambda>_. None), through_f32 = id\<rparr>" and ?R = "\<lambda>_. Inl (invalid []) :: record_ref contract"
  let ?P = "[''p'' \<mapsto> (TUtf8, VUtf8 ''q'')] :: bound_parameters"
  let ?batch = "\<lparr>xb_columns = [field_column sample_field], xb_rows = [[VBool True]], xb_row_keys = [sample_ref]\<rparr>"
  let ?e = "EBinary OpAnd
      (ECall ''has_prop'' [EField \<lparr>fr_alias = ''n'', fr_path = []\<rparr>, ELiteral (JString ''a'') ''Utf8''])
      (EBinary OpStartswith (EField \<lparr>fr_alias = ''t'', fr_path = []\<rparr>) (EParam ''p''))"
  have utf8: "parse_type ''Utf8'' = Inr TUtf8"
    by (simp add: parse_type_def parse_inner.simps atom_type_def)
  have 1: "decode_parameters ?F ?R None [(''p'', JObject [(''type'', JString ''Utf8''), (''value'', JString ''q'')])] Map.empty = Inr ?P"
    by (simp add: decode_parameter_def json_text_def utf8)
  have 2: "bind_expr \<lparr>bn_floats = ?F, bn_refs = ?R, bn_scope = sample_columns, bn_params = ?P\<rparr> 0 ?e 0 = Inr (sample_bound, 1)"
    unfolding bind_expr_is_recursive
    by (simp add: bind_recursive.simps bind_depth_def bind_build_def bind_field_def bind_literal_def bind_parameter_def
        get_parameter_def bind_property_def issue_field_def bind_binary_def resolve_nulls_def binary_type_def boolean_type_def
        utf8 sample_columns_def sample_bound_def sample_field_def nullable_if_def as_nullable_def checked_add_def guard_err_def)
  have 3: "row_typed sample_columns [VEntity sample_ref, VNull]" by (simp add: row_typed_def sample_columns_def)
  have 4: "list_all (\<lambda>(_, gs, _). slots_of gs (property_fields sample_bound)) [([sample_ref], [sample_field], ?batch)]"
    by (simp add: slots_of_def sample_bound_def)
  have 5: "add_batches [([sample_ref], [sample_field], ?batch)] Map.empty = Inr (xe_hydrated sample_env)"
    by (simp add: add_batch_def batch_validate_def sample_env_def sample_field_def guard_err_def field_accepts_def)
  have "null_safe sample_columns sample_bound" by (simp add: sample_bound_def)
  then show ?thesis
    using bound_expressions_evaluate_to_their_type [OF 1 2 3 4 5, of "(sample_budget, 0)"]
    by (auto simp: sample_bound_def split: sum.splits)
qed

text \<open>C39 The walks are the recursions. Binding and evaluation keep an explicit stack of frames and a map of
  finished operands; both compute exactly what the recursion over the expression computes, with the
  same errors, the same slot numbers and the same charges to the budget in the same order.\<close>

theorem stack_walks_are_recursive:
  "bind_expr B depth e nxt = bind_recursive B depth e nxt
   \<and> eval E vs b st = rbind (check_now E st) (\<lambda>st1. rbind (reserve_now E 64 st1) (eval_recursive E vs () b))"
  by (simp add: bind_expr_is_recursive eval_is_recursive)

text \<open>C40 A null score passes binding and fails at execution. A column of type \<open>Nullable<Score>\<close>, as a left join
  makes it, lets binding accept the parts of the score at a type that is not nullable; on a row where
  the column is null evaluation can only fail, with \<open>bound_type\<close> or with the quota error.\<close>

theorem null_score_parts_fail_at_execution:
  assumes "find_column (bn_scope B) a = Some (i, c)" "col_ty c = TNullable TScore" "score_field_type f = Some ty"
    and "depth < 128" "row_typed (bn_scope B) vs" "vs ! i = VNull"
  shows "bind_expr B depth (EField \<lparr>fr_alias = a, fr_path = [f]\<rparr>) nxt = Inr (Bound ty (XScoreField i f), nxt)
    \<and> \<not> is_nullable ty
    \<and> eval E vs (Bound ty (XScoreField i f)) st \<in> {Inl quota, Inl (failure ''bound_type'')}"
proof (intro conjI)
  show "bind_expr B depth (EField \<lparr>fr_alias = a, fr_path = [f]\<rparr>) nxt = Inr (Bound ty (XScoreField i f), nxt)"
    unfolding bind_expr_is_recursive using assms(1-4)
    by (simp add: bind_recursive.simps bind_depth_def bind_build_def bind_field_def)
  show "\<not> is_nullable ty" using assms(3) by (auto simp: score_field_type_def split: if_splits)
  have len: "i < length vs"
    using find_column_Some [OF assms(1)] assms(5) by (auto simp: row_typed_def dest: list_all2_lengthD)
  have "pure_eval E vs (Bound ty (XScoreField i f)) = Inl (failure ''bound_type'')"
    by (simp add: pure_eval.simps bound_operands_def pure_build_def pure_part_def row_get_def len assms(6))
  then show "eval E vs (Bound ty (XScoreField i f)) st \<in> {Inl quota, Inl (failure ''bound_type'')}"
    using eval_transparent [of E vs "Bound ty (XScoreField i f)" st]
    by (cases "eval E vs (Bound ty (XScoreField i f)) st") (auto simp: transparent_def)
qed

theorem null_score_parts_fail_at_execution_witness:
  "\<exists>b. bind_expr \<lparr>bn_floats = \<lparr>as_f64 = (\<lambda>_. None), through_f32 = id\<rparr>, bn_refs = (\<lambda>_. Inl (invalid [])),
       bn_scope = [\<lparr>col_name = ''s'', col_ty = TNullable TScore\<rparr>], bn_params = Map.empty\<rparr> 0
       (EField \<lparr>fr_alias = ''s'', fr_path = [''value'']\<rparr>) 0 = Inr (b, 0)
     \<and> eval sample_env [VNull] b (sample_budget, 0) \<in> {Inl quota, Inl (failure ''bound_type'')}"
  using null_score_parts_fail_at_execution [of "\<lparr>bn_floats = \<lparr>as_f64 = (\<lambda>_. None), through_f32 = id\<rparr>,
      bn_refs = (\<lambda>_. Inl (invalid [])), bn_scope = [\<lparr>col_name = ''s'', col_ty = TNullable TScore\<rparr>], bn_params = Map.empty\<rparr>"
      "''s''" 0 "\<lparr>col_name = ''s'', col_ty = TNullable TScore\<rparr>" "''value''" TF64Finite 0 "[VNull]" 0 sample_env "(sample_budget, 0)"]
  by (simp add: score_field_type_def row_typed_def)

end
