(* ===== verification/GB_Kernels.thy ===== *)
theory GB_Kernels
  imports GB_Eval_Sound GB_Wire_Dag
begin

text \<open>
  The relational operators of the execution engine (the kernels of \<open>src/src/query/hql2/exec.rs\<close>):
  values, filter, projection, distinct, sort, limits, union, join and aggregation, each with its
  charges to the budget. The comparisons that \<open>slice::sort_by\<close> makes on a list are a parameter; what
  it returns under a total order is not.
\<close>

type_synonym exec_row = "query_value list"

section \<open>Loops that collect\<close>

fun fold_st :: "('x \<Rightarrow> 'a \<Rightarrow> 's \<Rightarrow> ('e, 'a \<times> 's) result) \<Rightarrow> 'x list \<Rightarrow> 'a \<Rightarrow> 's \<Rightarrow> ('e, 'a \<times> 's) result" where
  "fold_st f [] a s = Inr (a, s)"
| "fold_st f (x # xs) a s = rbind (f x a s) (\<lambda>(a1, s1). fold_st f xs a1 s1)"

fun fold_res :: "('x \<Rightarrow> 'a \<Rightarrow> ('e, 'a) result) \<Rightarrow> 'x list \<Rightarrow> 'a \<Rightarrow> ('e, 'a) result" where
  "fold_res f [] a = Inr a"
| "fold_res f (x # xs) a = rbind (f x a) (fold_res f xs)"

definition push_clone :: "eval_env \<Rightarrow> exec_row list \<Rightarrow> exec_row \<Rightarrow> metered \<Rightarrow> (query_error, exec_row list \<times> metered) result" where
  "push_clone E out r st =
     rbind (reserve_now E (saturating_add (row_bytes (xe_ops E) r) (xo_size_row (xe_ops E))) st) (\<lambda>st1. Inr (out @ [r], st1))"

definition push_all :: "eval_env \<Rightarrow> exec_row list \<Rightarrow> exec_row list \<Rightarrow> metered \<Rightarrow> (query_error, exec_row list \<times> metered) result" where
  "push_all E rs out st = fold_st (\<lambda>r out st. push_clone E out r st) rs out st"

section \<open>Values, filter and projection\<close>

definition run_values :: "eval_env \<Rightarrow> query_value \<Rightarrow> metered \<Rightarrow> (query_error, exec_row list \<times> metered) result" where
  "run_values E v st =
     (case v of
        VList vs \<Rightarrow>
          fold_st (\<lambda>v out st.
            rbind (reserve_now E (2 * xo_size_row (xe_ops E)) st) (\<lambda>st1.
            rbind (clone_value E v st1) (\<lambda>(x, st2). Inr (out @ [[x]], st2)))) vs [] st
      | _ \<Rightarrow> Inl (failure ''bound_values''))"

definition run_filter :: "eval_env \<Rightarrow> bound_expr \<Rightarrow> exec_row list \<Rightarrow> metered \<Rightarrow> (query_error, exec_row list \<times> metered) result" where
  "run_filter E predicate input st =
     fold_st (\<lambda>r out st.
       rbind (eval E r predicate st) (\<lambda>(v, st1).
       if v = VBool True then push_clone E out r st1 else Inr (out, st1))) input [] st"

definition run_project :: "eval_env \<Rightarrow> bound_expr list \<Rightarrow> exec_row list \<Rightarrow> metered \<Rightarrow> (query_error, exec_row list \<times> metered) result" where
  "run_project E es input st =
     fold_st (\<lambda>r out st.
       rbind (reserve_now E (2 * xo_size_row (xe_ops E) + xo_size_value (xe_ops E) * of_nat (length es)) st) (\<lambda>st1.
       rbind (map_st (eval E r) es st1) (\<lambda>(vs, st2). Inr (out @ [vs], st2)))) input [] st"

section \<open>Distinct\<close>

definition rows_eq :: "exec_row \<Rightarrow> exec_row \<Rightarrow> bool" where
  "rows_eq a b = list_all2 value_eq a b"

fun seen_row :: "eval_env \<Rightarrow> exec_row \<Rightarrow> exec_row list \<Rightarrow> metered \<Rightarrow> (query_error, bool \<times> metered) result" where
  "seen_row E r [] st = Inr (False, st)"
| "seen_row E r (old # olds) st =
     rbind (check_now E st) (\<lambda>st1. if rows_eq old r then Inr (True, st1) else seen_row E r olds st1)"

definition run_distinct :: "eval_env \<Rightarrow> exec_row list \<Rightarrow> metered \<Rightarrow> (query_error, exec_row list \<times> metered) result" where
  "run_distinct E input st =
     fold_st (\<lambda>r out st.
       rbind (check_now E st) (\<lambda>st1.
       rbind (seen_row E r out st1) (\<lambda>(exists, st2).
       if exists then Inr (out, st2) else push_clone E out r st2))) input [] st"

section \<open>Sort\<close>

type_synonym sort_spec = "(bound_expr \<times> sort_direction \<times> null_order) list"
type_synonym decorated = "nat \<times> query_value list"

fun reverse_ordering :: "ordering \<Rightarrow> ordering" where
  "reverse_ordering OLess = OGreater"
| "reverse_ordering OEqual = OEqual"
| "reverse_ordering OGreater = OLess"

definition key_order :: "sort_direction \<Rightarrow> null_order \<Rightarrow> query_value \<Rightarrow> query_value \<Rightarrow> (query_error, ordering) result" where
  "key_order direction nulls x y =
     (if x = VNull \<and> y = VNull then Inr OEqual
      else if x = VNull then Inr (if nulls = NullsFirst then OLess else OGreater)
      else if y = VNull then Inr (if nulls = NullsFirst then OGreater else OLess)
      else rbind (compare x y) (\<lambda>c. Inr (if direction = SortDesc then reverse_ordering c else c)))"

fun keys_order :: "sort_spec \<Rightarrow> query_value list \<Rightarrow> query_value list \<Rightarrow> (query_error, ordering) result" where
  "keys_order ((_, direction, nulls) # ks) (x # xs) (y # ys) =
     rbind (key_order direction nulls x y) (\<lambda>c. if c \<noteq> OEqual then Inr c else keys_order ks xs ys)"
| "keys_order _ _ _ = Inr OEqual"

text \<open>The comparator: an error leaves the pair equal and is kept for the end of the sort.\<close>

definition row_order :: "sort_spec \<Rightarrow> decorated \<Rightarrow> decorated \<Rightarrow> ordering" where
  "row_order ks a b =
     (case keys_order ks (snd a) (snd b) of
        Inl _ \<Rightarrow> OEqual
      | Inr c \<Rightarrow> if c \<noteq> OEqual then c else cmp (fst a) (fst b))"

definition sort_comparison :: "eval_env \<Rightarrow> sort_spec \<Rightarrow> decorated \<times> decorated \<Rightarrow> query_error option \<times> metered \<Rightarrow> query_error option \<times> metered" where
  "sort_comparison E ks ab est =
     (case (ab, est) of ((a, b), err, bud, k) \<Rightarrow>
        let err1 = (case eb_check (xe_clock E k) bud of Inl e \<Rightarrow> Some e | Inr _ \<Rightarrow> err);
            err2 = (case keys_order ks (snd a) (snd b) of Inl e \<Rightarrow> Some e | Inr _ \<Rightarrow> err1) in
        (err2, bud, Suc k))"

fun insert_by :: "('a \<Rightarrow> 'a \<Rightarrow> ordering) \<Rightarrow> 'a \<Rightarrow> 'a list \<Rightarrow> 'a list" where
  "insert_by ord x [] = [x]"
| "insert_by ord x (y # ys) = (if ord x y = OGreater then y # insert_by ord x ys else x # y # ys)"

definition sort_by :: "('a \<Rightarrow> 'a \<Rightarrow> ordering) \<Rightarrow> 'a list \<Rightarrow> 'a list" where
  "sort_by ord xs = foldr (insert_by ord) xs []"

record kernel_ops =
  ko_size_word :: u64
  ko_comparisons :: "decorated list \<Rightarrow> (decorated \<times> decorated) list"

definition decorate_row ::
  "eval_env \<Rightarrow> kernel_ops \<Rightarrow> sort_spec \<Rightarrow> nat \<times> exec_row \<Rightarrow> metered \<Rightarrow> (query_error, decorated \<times> metered) result" where
  "decorate_row E C ks ir st =
     rbind (reserve_now E ((ko_size_word C + xo_size_row (xe_ops E)) * 2 + of_nat (length ks) * xo_size_value (xe_ops E)) st) (\<lambda>st1.
     rbind (map_st (eval E (snd ir)) (map fst ks) st1) (\<lambda>(vs, st2). Inr ((fst ir, vs), st2)))"

definition run_sort ::
  "eval_env \<Rightarrow> kernel_ops \<Rightarrow> sort_spec \<Rightarrow> exec_row list \<Rightarrow> metered \<Rightarrow> (query_error, exec_row list \<times> metered) result" where
  "run_sort E C ks input st =
     rbind (map_st (decorate_row E C ks) (enumerate 0 input) st) (\<lambda>(dec, st1).
     case fold (sort_comparison E ks) (ko_comparisons C dec) (None, st1) of
       (Some err, _) \<Rightarrow> Inl err
     | (None, st2) \<Rightarrow> push_all E (map (\<lambda>(i, _). input ! i) (sort_by (row_order ks) dec)) [] st2)"

section \<open>Join\<close>

definition join_pair ::
  "eval_env \<Rightarrow> join_kind \<Rightarrow> bound_expr \<Rightarrow> exec_row \<Rightarrow> exec_row \<Rightarrow> bool \<times> exec_row list \<Rightarrow> metered
     \<Rightarrow> (query_error, (bool \<times> exec_row list) \<times> metered) result" where
  "join_pair E kind condition l r acc st =
     rbind (reserve_now E (saturating_add (row_bytes (xe_ops E) l) (row_bytes (xe_ops E) r)) st) (\<lambda>st1.
     rbind (eval E (l @ r) condition st1) (\<lambda>(v, st2).
     if v = VBool True then
       (if kind \<in> {JoinInner, JoinLeft} then
          rbind (reserve_now E (2 * xo_size_row (xe_ops E)) st2) (\<lambda>st3. Inr ((True, snd acc @ [l @ r]), st3))
        else Inr ((True, snd acc), st2))
     else Inr (acc, st2)))"

definition join_unmatched ::
  "eval_env \<Rightarrow> join_kind \<Rightarrow> nat \<Rightarrow> exec_row \<Rightarrow> bool \<times> exec_row list \<Rightarrow> metered \<Rightarrow> (query_error, exec_row list \<times> metered) result" where
  "join_unmatched E kind right_width l acc st =
     (if kind = JoinSemi \<and> fst acc \<or> kind = JoinAnti \<and> \<not> fst acc then push_clone E (snd acc) l st
      else if kind = JoinLeft \<and> \<not> fst acc then
        rbind (reserve_now E (saturating_add (row_bytes (xe_ops E) l)
          (of_nat right_width * xo_size_value (xe_ops E) + xo_size_row (xe_ops E))) st) (\<lambda>st1.
        Inr (snd acc @ [l @ replicate right_width VNull], st1))
      else Inr (snd acc, st))"

definition run_join ::
  "eval_env \<Rightarrow> join_kind \<Rightarrow> bound_expr \<Rightarrow> nat \<Rightarrow> exec_row list \<Rightarrow> exec_row list option \<Rightarrow> metered
     \<Rightarrow> (query_error, exec_row list \<times> metered) result" where
  "run_join E kind condition right_width input right st =
     rbind (ok_or (failure ''join_input'') right) (\<lambda>right.
     fold_st (\<lambda>l out st.
       rbind (fold_st (join_pair E kind condition l) right (False, out) st) (\<lambda>(acc, st1).
       join_unmatched E kind right_width l acc st1)) input [] st)"

section \<open>Aggregation\<close>

datatype aggregate_kind = AggCountAll | AggCount | AggSum | AggAvg | AggMin | AggMax | AggCollect

record aggregate_call = ag_kind :: aggregate_kind  ag_arg :: "bound_expr option"

record agg_state =
  as_count :: i64
  as_sum :: "query_value option"
  as_extremum :: "query_value option"
  as_collected :: "query_value list"

definition agg_start :: agg_state where
  "agg_start = \<lparr>as_count = 0, as_sum = None, as_extremum = None, as_collected = []\<rparr>"

definition agg_replaces :: "aggregate_kind \<Rightarrow> query_value \<Rightarrow> query_value option \<Rightarrow> (query_error, bool) result" where
  "agg_replaces kind v extremum =
     (case extremum of
        None \<Rightarrow> Inr True
      | Some old \<Rightarrow> rbind (compare v old) (\<lambda>c. Inr (if kind = AggMin then c = OLess else c = OGreater)))"

text \<open>A value that is not null, in an aggregate other than \<open>collect\<close>.\<close>

definition agg_add :: "eval_ops \<Rightarrow> aggregate_kind \<Rightarrow> query_value \<Rightarrow> agg_state \<Rightarrow> (query_error, agg_state) result" where
  "agg_add K kind v a =
     rbind (ok_or (failure ''integer_overflow'') (i64_checked (sint (as_count a) + 1))) (\<lambda>n.
     let a1 = a\<lparr>as_count := n\<rparr> in
     if kind \<in> {AggSum, AggAvg} then
       (case as_sum a of
          None \<Rightarrow> Inr (a1\<lparr>as_sum := Some v\<rparr>)
        | Some old \<Rightarrow> rbind (binary K OpAdd old v) (\<lambda>x. Inr (a1\<lparr>as_sum := Some x\<rparr>)))
     else if kind \<in> {AggMin, AggMax} then
       rbind (agg_replaces kind v (as_extremum a)) (\<lambda>replace.
         Inr (if replace then a1\<lparr>as_extremum := Some v\<rparr> else a1))
     else Inr a1)"

definition agg_step ::
  "eval_env \<Rightarrow> aggregate_kind \<Rightarrow> bound_expr \<Rightarrow> exec_row \<Rightarrow> agg_state \<Rightarrow> metered \<Rightarrow> (query_error, agg_state \<times> metered) result" where
  "agg_step E kind arg r a st =
     rbind (check_now E st) (\<lambda>st1.
     rbind (eval E r arg st1) (\<lambda>(v, st2).
     if kind = AggCollect then
       (if of_nat (length (as_collected a)) \<ge> eb_rows (fst st2) then Inl quota
        else rbind (reserve_now E (2 * xo_size_value (xe_ops E)) st2) (\<lambda>st3.
          Inr (a\<lparr>as_collected := as_collected a @ [v]\<rparr>, st3)))
     else if v = VNull then Inr (a, st2)
     else with_state st2 (agg_add (xe_ops E) kind v a)))"

definition agg_finish :: "eval_ops \<Rightarrow> aggregate_kind \<Rightarrow> agg_state \<Rightarrow> (query_error, query_value) result" where
  "agg_finish K kind a =
     (case kind of
        AggCount \<Rightarrow> Inr (VI64 (as_count a))
      | AggSum \<Rightarrow> Inr (case as_sum a of None \<Rightarrow> VNull | Some v \<Rightarrow> v)
      | AggAvg \<Rightarrow>
          (case as_sum a of
             None \<Rightarrow> Inr VNull
           | Some (VI64 v) \<Rightarrow> finite_value (xo_div K (xo_of_i64 K v) (xo_of_i64 K (as_count a)))
           | Some (VF64 v) \<Rightarrow> finite_value (xo_div K v (xo_of_i64 K (as_count a)))
           | _ \<Rightarrow> Inl (failure ''bound_type''))
      | AggCollect \<Rightarrow> Inr (VList (as_collected a))
      | _ \<Rightarrow> Inr (case as_extremum a of None \<Rightarrow> VNull | Some v \<Rightarrow> v))"

definition aggregate ::
  "eval_env \<Rightarrow> aggregate_call \<Rightarrow> exec_row list \<Rightarrow> metered \<Rightarrow> (query_error, query_value \<times> metered) result" where
  "aggregate E call rs st =
     (if ag_kind call = AggCountAll then
        with_state st (rbind (ok_or (failure ''integer_overflow'') (i64_checked (int (length rs)))) (\<lambda>n. Inr (VI64 n)))
      else
        rbind (ok_or (failure ''bound_aggregate'') (ag_arg call)) (\<lambda>arg.
        rbind (fold_st (agg_step E (ag_kind call) arg) rs agg_start st) (\<lambda>(a, st1).
        with_state st1 (agg_finish (xe_ops E) (ag_kind call) a))))"

type_synonym bucket = "exec_row \<times> exec_row list"

fun find_bucket :: "eval_env \<Rightarrow> exec_row \<Rightarrow> bucket list \<Rightarrow> nat \<Rightarrow> metered \<Rightarrow> (query_error, nat option \<times> metered) result" where
  "find_bucket E key [] i st = Inr (None, st)"
| "find_bucket E key ((old, _) # bs) i st =
     rbind (check_now E st) (\<lambda>st1. if rows_eq old key then Inr (Some i, st1) else find_bucket E key bs (Suc i) st1)"

definition bucket_push :: "bucket list \<Rightarrow> nat \<Rightarrow> exec_row \<Rightarrow> bucket list" where
  "bucket_push bs i r = bs[i := (fst (bs ! i), snd (bs ! i) @ [r])]"

definition group_row ::
  "eval_env \<Rightarrow> kernel_ops \<Rightarrow> bound_expr list \<Rightarrow> exec_row \<Rightarrow> bucket list \<Rightarrow> metered \<Rightarrow> (query_error, bucket list \<times> metered) result" where
  "group_row E C groups r buckets st =
     rbind (reserve_now E (of_nat (length groups) * xo_size_value (xe_ops E) + xo_size_row (xe_ops E)) st) (\<lambda>st1.
     rbind (map_st (eval E r) groups st1) (\<lambda>(key, st2).
     rbind (find_bucket E key buckets 0 st2) (\<lambda>(found, st3).
     rbind (case found of
         Some i \<Rightarrow> Inr ((buckets, i), st3)
       | None \<Rightarrow> rbind (reserve_now E 128 st3) (\<lambda>st4. Inr ((buckets @ [(key, [])], length buckets), st4))) (\<lambda>((bs, i), st5).
     rbind (reserve_now E (2 * ko_size_word C) st5) (\<lambda>st6. Inr (bucket_push bs i r, st6))))))"

definition run_aggregate ::
  "eval_env \<Rightarrow> kernel_ops \<Rightarrow> bound_expr list \<Rightarrow> aggregate_call list \<Rightarrow> exec_row list \<Rightarrow> metered
     \<Rightarrow> (query_error, exec_row list \<times> metered) result" where
  "run_aggregate E C groups aggregates input st =
     rbind (if groups = [] then rbind (reserve_now E 128 st) (\<lambda>st1. Inr ([([], [])], st1)) else Inr ([], st)) (\<lambda>(start, st1).
     rbind (fold_st (group_row E C groups) input start st1) (\<lambda>(buckets, st2).
     fold_st (\<lambda>(key, rs) out st.
       rbind (reserve_now E (of_nat (length aggregates) * xo_size_value (xe_ops E) + 2 * xo_size_row (xe_ops E)) st) (\<lambda>st1.
       rbind (map_st (\<lambda>call. aggregate E call rs) aggregates st1) (\<lambda>(vs, st2).
       Inr (out @ [key @ vs], st2)))) buckets [] st2))"

section \<open>Kernels\<close>

text \<open>The relational kernels, with the source scans they start from.\<close>

datatype bound_source =
    SourceNode "string option"
  | SourceEdge "string option"
  | SourceRow string
  | SourceAnnotation
  | SourceHistory record_kind string
  | SourceChanges u64

datatype kernel =
    KValues query_value
  | KSourceScan bound_source
  | KFilter bound_expr
  | KProject "bound_expr list"
  | KDistinct
  | KSort sort_spec
  | KTake u64
  | KOffset u64
  | KUnionAll
  | KAggregate "bound_expr list" "aggregate_call list"
  | KJoin join_kind bound_expr nat

definition first_input :: "exec_row list list \<Rightarrow> exec_row list" where
  "first_input inputs = (case inputs of [] \<Rightarrow> [] | i # _ \<Rightarrow> i)"

definition second_input :: "exec_row list list \<Rightarrow> exec_row list option" where
  "second_input inputs = (case inputs of _ # r # _ \<Rightarrow> Some r | _ \<Rightarrow> None)"

definition run_kernel ::
  "eval_env \<Rightarrow> kernel_ops \<Rightarrow> exec_row list option \<Rightarrow> kernel \<Rightarrow> exec_row list list \<Rightarrow> metered
     \<Rightarrow> (query_error, exec_row list \<times> metered) result" where
  "run_kernel E C source k inputs st =
     (let input = first_input inputs in
      case k of
        KValues v \<Rightarrow> run_values E v st
      | KSourceScan _ \<Rightarrow> rbind (ok_or (failure ''source_batch_missing'') source) (\<lambda>rs. push_all E rs [] st)
      | KFilter p \<Rightarrow> run_filter E p input st
      | KProject es \<Rightarrow> run_project E es input st
      | KDistinct \<Rightarrow> run_distinct E input st
      | KSort ks \<Rightarrow> run_sort E C ks input st
      | KTake n \<Rightarrow> push_all E (take (unat n) input) [] st
      | KOffset n \<Rightarrow> push_all E (drop (unat n) input) [] st
      | KUnionAll \<Rightarrow> fold_st (push_all E) inputs [] st
      | KAggregate groups aggregates \<Rightarrow> run_aggregate E C groups aggregates input st
      | KJoin kind condition w \<Rightarrow> run_join E kind condition w input (second_input inputs) st)"

end
