(* ===== verification/GB_Algebra.thy ===== *)
theory GB_Algebra
  imports GB_Kernels
begin

text \<open>
  What the relational kernels compute: an algebra on lists of rows without budgets, that every kernel
  refines, and what its operators mean: the sorted rows are a stable ordered rearrangement, the
  distinct rows and the groups are the classes of equal rows in the order of their first members.
\<close>

section \<open>The algebra\<close>

definition flat_rows :: "('r \<Rightarrow> (query_error, exec_row list) result) \<Rightarrow> 'r list \<Rightarrow> (query_error, exec_row list) result" where
  "flat_rows g rs = rbind (collect_results (map g rs)) (\<lambda>yss. Inr (concat yss))"

definition filter_row :: "eval_env \<Rightarrow> bound_expr \<Rightarrow> exec_row \<Rightarrow> (query_error, exec_row list) result" where
  "filter_row E p r = rbind (pure_eval E r p) (\<lambda>v. Inr (if v = VBool True then [r] else []))"

definition project_row :: "eval_env \<Rightarrow> bound_expr list \<Rightarrow> exec_row \<Rightarrow> (query_error, exec_row list) result" where
  "project_row E es r = rbind (collect_results (map (pure_eval E r) es)) (\<lambda>vs. Inr [vs])"

definition join_result :: "join_kind \<Rightarrow> nat \<Rightarrow> exec_row \<Rightarrow> exec_row list \<Rightarrow> exec_row list" where
  "join_result kind w l partners =
     (case kind of
        JoinInner \<Rightarrow> map ((@) l) partners
      | JoinLeft \<Rightarrow> if partners = [] then [l @ replicate w VNull] else map ((@) l) partners
      | JoinSemi \<Rightarrow> if partners = [] then [] else [l]
      | JoinAnti \<Rightarrow> if partners = [] then [l] else [])"

definition partner :: "eval_env \<Rightarrow> bound_expr \<Rightarrow> exec_row \<Rightarrow> exec_row \<Rightarrow> (query_error, exec_row list) result" where
  "partner E c l r = rbind (pure_eval E (l @ r) c) (\<lambda>v. Inr (if v = VBool True then [r] else []))"

definition join_row :: "eval_env \<Rightarrow> join_kind \<Rightarrow> bound_expr \<Rightarrow> nat \<Rightarrow> exec_row list \<Rightarrow> exec_row \<Rightarrow> (query_error, exec_row list) result" where
  "join_row E kind c w right l = rbind (flat_rows (partner E c l) right) (\<lambda>partners. Inr (join_result kind w l partners))"

fun unique_rows :: "exec_row list \<Rightarrow> exec_row list \<Rightarrow> exec_row list" where
  "unique_rows seen [] = []"
| "unique_rows seen (r # rs) =
     (if list_ex (\<lambda>old. rows_eq old r) seen then unique_rows seen rs else r # unique_rows (seen @ [r]) rs)"

fun sort_error :: "sort_spec \<Rightarrow> (decorated \<times> decorated) list \<Rightarrow> query_error option \<Rightarrow> query_error option" where
  "sort_error ks [] err = err"
| "sort_error ks ((a, b) # pairs) err =
     sort_error ks pairs (case keys_order ks (snd a) (snd b) of Inl e \<Rightarrow> Some e | Inr _ \<Rightarrow> err)"

definition sort_keys :: "eval_env \<Rightarrow> sort_spec \<Rightarrow> exec_row \<Rightarrow> (query_error, query_value list) result" where
  "sort_keys E ks r = collect_results (map (pure_eval E r) (map fst ks))"

definition sort_rows :: "eval_env \<Rightarrow> kernel_ops \<Rightarrow> sort_spec \<Rightarrow> exec_row list \<Rightarrow> (query_error, exec_row list) result" where
  "sort_rows E C ks input =
     rbind (collect_results (map (\<lambda>(i, r). rbind (sort_keys E ks r) (\<lambda>vs. Inr (i, vs))) (enumerate 0 input))) (\<lambda>dec.
     case sort_error ks (ko_comparisons C dec) None of
       Some err \<Rightarrow> Inl err
     | None \<Rightarrow> Inr (map (\<lambda>(i, _). input ! i) (sort_by (row_order ks) dec)))"

definition agg_row :: "eval_env \<Rightarrow> aggregate_kind \<Rightarrow> bound_expr \<Rightarrow> exec_row \<Rightarrow> agg_state \<Rightarrow> (query_error, agg_state) result" where
  "agg_row E kind arg r a =
     rbind (pure_eval E r arg) (\<lambda>v.
       if kind = AggCollect then Inr (a\<lparr>as_collected := as_collected a @ [v]\<rparr>)
       else if v = VNull then Inr a
       else agg_add (xe_ops E) kind v a)"

definition agg_value :: "eval_env \<Rightarrow> aggregate_call \<Rightarrow> exec_row list \<Rightarrow> (query_error, query_value) result" where
  "agg_value E call rs =
     (if ag_kind call = AggCountAll then
        rbind (ok_or (failure ''integer_overflow'') (i64_checked (int (length rs)))) (\<lambda>n. Inr (VI64 n))
      else
        rbind (ok_or (failure ''bound_aggregate'') (ag_arg call)) (\<lambda>arg.
        rbind (fold_res (agg_row E (ag_kind call) arg) rs agg_start) (agg_finish (xe_ops E) (ag_kind call))))"

fun key_index :: "exec_row \<Rightarrow> bucket list \<Rightarrow> nat option" where
  "key_index key [] = None"
| "key_index key ((old, _) # bs) = (if rows_eq old key then Some 0 else map_option Suc (key_index key bs))"

definition add_to_bucket :: "exec_row \<times> exec_row \<Rightarrow> bucket list \<Rightarrow> bucket list" where
  "add_to_bucket kr bs =
     (case key_index (fst kr) bs of Some i \<Rightarrow> bucket_push bs i (snd kr) | None \<Rightarrow> bs @ [(fst kr, [snd kr])])"

definition row_key :: "eval_env \<Rightarrow> bound_expr list \<Rightarrow> exec_row \<Rightarrow> (query_error, exec_row \<times> exec_row) result" where
  "row_key E groups r = rbind (collect_results (map (pure_eval E r) groups)) (\<lambda>key. Inr (key, r))"

definition bucket_row :: "eval_env \<Rightarrow> aggregate_call list \<Rightarrow> bucket \<Rightarrow> (query_error, exec_row list) result" where
  "bucket_row E aggregates b = rbind (collect_results (map (\<lambda>call. agg_value E call (snd b)) aggregates)) (\<lambda>vs. Inr [fst b @ vs])"

definition aggregate_rows :: "eval_env \<Rightarrow> bound_expr list \<Rightarrow> aggregate_call list \<Rightarrow> exec_row list \<Rightarrow> (query_error, exec_row list) result" where
  "aggregate_rows E groups aggregates input =
     rbind (collect_results (map (row_key E groups) input)) (\<lambda>krs.
     flat_rows (bucket_row E aggregates) (fold add_to_bucket krs (if groups = [] then [([], [])] else [])))"

definition algebra ::
  "eval_env \<Rightarrow> kernel_ops \<Rightarrow> exec_row list option \<Rightarrow> kernel \<Rightarrow> exec_row list list \<Rightarrow> (query_error, exec_row list) result" where
  "algebra E C source k inputs =
     (let input = first_input inputs in
      case k of
        KValues v \<Rightarrow> (case v of VList vs \<Rightarrow> Inr (map (\<lambda>x. [x]) vs) | _ \<Rightarrow> Inl (failure ''bound_values''))
      | KSourceScan _ \<Rightarrow> ok_or (failure ''source_batch_missing'') source
      | KFilter p \<Rightarrow> flat_rows (filter_row E p) input
      | KProject es \<Rightarrow> flat_rows (project_row E es) input
      | KDistinct \<Rightarrow> Inr (unique_rows [] input)
      | KSort ks \<Rightarrow> sort_rows E C ks input
      | KTake n \<Rightarrow> Inr (take (unat n) input)
      | KOffset n \<Rightarrow> Inr (drop (unat n) input)
      | KUnionAll \<Rightarrow> Inr (concat inputs)
      | KAggregate groups aggregates \<Rightarrow> aggregate_rows E groups aggregates input
      | KJoin kind c w \<Rightarrow>
          rbind (ok_or (failure ''join_input'') (second_input inputs)) (\<lambda>right. flat_rows (join_row E kind c w right) input))"

section \<open>The kernels refine it\<close>

lemma transparent_fold_st [transparent_intros]:
  assumes "\<And>x a s. x \<in> set xs \<Longrightarrow> transparent (f x a s) (g x a)"
  shows "transparent (fold_st f xs a s) (fold_res g xs a)"
  using assms
proof (induction xs arbitrary: a s)
  case (Cons x xs)
  have "transparent (fold_st f xs a1 s1) (fold_res g xs a1)" for a1 s1 using Cons by simp
  then show ?case using Cons.prems [of x a s] by (auto intro!: transparent_bind)
qed (simp add: transparent_Inr)

lemma transparent_bind_image:
  assumes "transparent m (rbind p (\<lambda>x. Inr (f x)))" "\<And>x s. transparent (k (f x, s)) (q x)"
  shows "transparent (rbind m k) (rbind p q)"
proof (cases p)
  case (Inr x)
  show ?thesis
  proof (cases m)
    case (Inl err)
    then show ?thesis using assms(1) by (auto simp: transparent_def \<open>p = Inr x\<close>)
  next
    case m: (Inr vs)
    then have "fst vs = f x" using assms(1) Inr by (auto simp: transparent_def)
    then show ?thesis using assms(2) [of x "snd vs"] m Inr by (metis prod.collapse rbind.simps(2))
  qed
qed (use assms(1) in \<open>cases m; auto simp: transparent_def\<close>)

text \<open>A loop that appends the rows of each element.\<close>

lemma fold_res_append:
  "fold_res (\<lambda>x out. rbind (g x) (\<lambda>ys. Inr (out @ ys))) xs out = rbind (flat_rows g xs) (\<lambda>ys. Inr (out @ ys))"
proof (induction xs arbitrary: out)
  case (Cons x xs)
  show ?case by (cases "g x") (simp_all add: Cons.IH flat_rows_def rbind_assoc)
qed (simp add: flat_rows_def)

lemma transparent_append:
  assumes "\<And>x out s. x \<in> set xs \<Longrightarrow> transparent (f x out s) (rbind (g x) (\<lambda>ys. Inr (out @ ys)))"
  shows "transparent (fold_st f xs out s) (rbind (flat_rows g xs) (\<lambda>ys. Inr (out @ ys)))"
  unfolding fold_res_append [symmetric] by (rule transparent_fold_st) (rule assms)

lemma rbind_Inr_right [simp]: "rbind m Inr = m"
  by (cases m) simp_all

lemmas transparent_append_Nil = transparent_append [where out = "[]", simplified]

lemma push_clone_transparent: "transparent (push_clone E out r st) (Inr (out @ [r]))"
  by (auto simp: push_clone_def intro!: transparent_charge transparent_Inr)

lemma flat_rows_Inr [simp]: "flat_rows (\<lambda>x. Inr (f x)) xs = Inr (concat (map f xs))"
  by (induction xs) (auto simp: flat_rows_def)

lemma push_all_transparent: "transparent (push_all E rs out st) (Inr (out @ rs))"
proof -
  have "transparent (push_all E rs out st) (rbind (flat_rows (\<lambda>r. Inr [r]) rs) (\<lambda>ys. Inr (out @ ys)))"
    unfolding push_all_def by (rule transparent_append) (simp add: push_clone_transparent)
  then show ?thesis by simp
qed

lemma values_transparent: "transparent (run_values E v st) (algebra E C source (KValues v) inputs)"
proof (cases v)
  case (VList vs)
  have "transparent (run_values E v st) (flat_rows (\<lambda>x. Inr [[x]]) vs)"
    unfolding run_values_def VList query_value.case
    by (rule transparent_append_Nil) (auto simp: clone_value_def rbind_assoc intro!: transparent_charge transparent_Inr)
  then show ?thesis by (simp add: algebra_def VList)
qed (simp_all add: run_values_def algebra_def transparent_Inl)

lemma filter_transparent: "transparent (run_filter E p input st) (flat_rows (filter_row E p) input)"
  unfolding run_filter_def
proof (rule transparent_append_Nil)
  fix r out s
  show "transparent (rbind (eval E r p s) (\<lambda>(v, st1). if v = VBool True then push_clone E out r st1 else Inr (out, st1)))
      (rbind (filter_row E p r) (\<lambda>ys. Inr (out @ ys)))"
    unfolding filter_row_def rbind_assoc
    by (rule transparent_bind [OF eval_transparent]) (auto simp: push_clone_transparent transparent_Inr)
qed

lemma project_transparent: "transparent (run_project E es input st) (flat_rows (project_row E es) input)"
  unfolding run_project_def
proof (rule transparent_append_Nil, rule transparent_charge(1))
  fix r out s
  show "transparent (rbind (map_st (eval E r) es s) (\<lambda>(vs, st2). Inr (out @ [vs], st2)))
      (rbind (project_row E es r) (\<lambda>ys. Inr (out @ ys)))"
    unfolding project_row_def rbind_assoc
    by (rule transparent_bind [OF transparent_map_st]) (auto simp: transparent_Inr eval_transparent)
qed

lemma seen_row_transparent: "transparent (seen_row E r olds st) (Inr (list_ex (\<lambda>old. rows_eq old r) olds))"
  by (induction olds arbitrary: st) (auto intro!: transparent_charge transparent_Inr)

lemma distinct_transparent: "transparent (run_distinct E input st) (Inr (unique_rows [] input))"
proof -
  have fold: "fold_res (\<lambda>r out. Inr (if list_ex (\<lambda>old. rows_eq old r) out then out else out @ [r])) rs out
      = (Inr (out @ unique_rows out rs) :: (query_error, exec_row list) result)" for rs out
    by (induction rs arbitrary: out) auto
  have "transparent (run_distinct E input st)
      (fold_res (\<lambda>r out. Inr (if list_ex (\<lambda>old. rows_eq old r) out then out else out @ [r])) input [])"
    unfolding run_distinct_def
  proof (rule transparent_fold_st, rule transparent_charge(2))
    fix r out s
    have "transparent (rbind (seen_row E r out s) (\<lambda>(exists, st2). if exists then Inr (out, st2) else push_clone E out r st2))
        (rbind (Inr (list_ex (\<lambda>old. rows_eq old r) out)) (\<lambda>b. Inr (if b then out else out @ [r])))"
      by (rule transparent_bind [OF seen_row_transparent]) (auto simp: push_clone_transparent transparent_Inr)
    then show "transparent (rbind (seen_row E r out s) (\<lambda>(exists, st2). if exists then Inr (out, st2) else push_clone E out r st2))
        (Inr (if list_ex (\<lambda>old. rows_eq old r) out then out else out @ [r]))" by simp
  qed
  then show ?thesis by (simp add: fold)
qed

text \<open>The error a sort keeps is the quota error or that of the last comparison that failed.\<close>

lemma sort_comparisons_error:
  assumes "case err of Some e \<Rightarrow> e = quota \<or> err' = Some e | None \<Rightarrow> err' = None"
  shows "case fst (fold (sort_comparison E ks) pairs (err, st)) of
     Some e \<Rightarrow> e = quota \<or> sort_error ks pairs err' = Some e
   | None \<Rightarrow> sort_error ks pairs err' = None"
  using assms
proof (induction pairs arbitrary: err err' st)
  case (Cons ab pairs)
  obtain a b where ab: "ab = (a, b)" by (cases ab)
  obtain bud k where st: "st = (bud, k)" by (cases st)
  let ?e1 = "case eb_check (xe_clock E k) bud of Inl e \<Rightarrow> Some e | Inr _ \<Rightarrow> err"
  let ?e2 = "case keys_order ks (snd a) (snd b) of Inl e \<Rightarrow> Some e | Inr _ \<Rightarrow> ?e1"
  let ?e' = "case keys_order ks (snd a) (snd b) of Inl e \<Rightarrow> Some e | Inr _ \<Rightarrow> err'"
  have step: "sort_comparison E ks ab (err, st) = (?e2, bud, Suc k)" by (simp add: sort_comparison_def ab st Let_def)
  have "case ?e2 of Some e \<Rightarrow> e = quota \<or> ?e' = Some e | None \<Rightarrow> ?e' = None"
    using Cons.prems by (auto simp: eb_check_def guard_err_def split: sum.splits option.splits)
  note IH = Cons.IH [OF this, of "(bud, Suc k)"]
  show ?case using IH unfolding fold_simps step unfolding ab sort_error.simps .
qed (simp split: option.splits)

lemma sort_transparent: "transparent (run_sort E C ks input st) (sort_rows E C ks input)"
  unfolding run_sort_def sort_rows_def
proof (rule transparent_bind)
  have "transparent (decorate_row E C ks ir s) (case ir of (i, r) \<Rightarrow> rbind (sort_keys E ks r) (\<lambda>vs. Inr (i, vs)))" for ir s
    unfolding decorate_row_def sort_keys_def split_def
    by (intro transparent_charge transparent_bind transparent_map_st) (auto simp: eval_transparent transparent_Inr)
  then show "transparent (map_st (decorate_row E C ks) (enumerate 0 input) st)
      (collect_results (map (\<lambda>(i, r). rbind (sort_keys E ks r) (\<lambda>vs. Inr (i, vs))) (enumerate 0 input)))"
    by (rule transparent_map_st)
next
  fix dec s
  show "transparent (case (dec, s) of (dec, st1) \<Rightarrow>
        case fold (sort_comparison E ks) (ko_comparisons C dec) (None, st1) of
          (Some err, _) \<Rightarrow> Inl err
        | (None, st2) \<Rightarrow> push_all E (map (\<lambda>(i, _). input ! i) (sort_by (row_order ks) dec)) [] st2)
      (case sort_error ks (ko_comparisons C dec) None of
         Some err \<Rightarrow> Inl err | None \<Rightarrow> Inr (map (\<lambda>(i, _). input ! i) (sort_by (row_order ks) dec)))"
    using sort_comparisons_error [where err = None and err' = None and E = E and ks = ks and pairs = "ko_comparisons C dec" and st = s]
      push_all_transparent [of E "map (\<lambda>(i, _). input ! i) (sort_by (row_order ks) dec)" "[]"]
    by (cases "fold (sort_comparison E ks) (ko_comparisons C dec) (None, s)")
      (auto simp: transparent_def split: option.splits)
qed

lemma join_pairs_transparent:
  "transparent (fold_st (join_pair E kind c l) right acc st)
     (rbind (flat_rows (partner E c l) right) (\<lambda>ps.
        Inr (fst acc \<or> ps \<noteq> [], snd acc @ (if kind \<in> {JoinInner, JoinLeft} then map ((@) l) ps else []))))"
proof -
  let ?step = "\<lambda>r acc. rbind (partner E c l r) (\<lambda>ps.
        Inr (fst acc \<or> ps \<noteq> [], snd acc @ (if kind \<in> {JoinInner, JoinLeft} then map ((@) l) ps else [])))"
  have fold: "fold_res ?step right acc = rbind (flat_rows (partner E c l) right) (\<lambda>ps.
        Inr (fst acc \<or> ps \<noteq> [], snd acc @ (if kind \<in> {JoinInner, JoinLeft} then map ((@) l) ps else [])))" for acc
  proof (induction right arbitrary: acc)
    case (Cons r right)
    show ?case
    proof (cases "partner E c l r")
      case (Inr ps)
      show ?thesis
        by (cases "collect_results (map (partner E c l) right)") (use Cons.IH in \<open>auto simp: Inr flat_rows_def\<close>)
    qed (simp add: flat_rows_def)
  qed (simp add: flat_rows_def)
  have "transparent (fold_st (join_pair E kind c l) right acc st) (fold_res ?step right acc)"
  proof (rule transparent_fold_st)
    fix r acc s
    show "transparent (join_pair E kind c l r acc s) (?step r acc)"
      unfolding join_pair_def partner_def rbind_assoc
      by (intro transparent_charge transparent_bind [OF eval_transparent])
        (cases acc, auto intro!: transparent_charge transparent_Inr)
  qed
  then show ?thesis unfolding fold .
qed

lemma join_transparent:
  "transparent (run_join E kind c w input right st)
     (rbind (ok_or (failure ''join_input'') right) (\<lambda>right. flat_rows (join_row E kind c w right) input))"
  unfolding run_join_def
proof (rule transparent_pure, rule transparent_append_Nil)
  fix right :: "exec_row list" and l :: exec_row and out s
  let ?acc = "\<lambda>ps. (ps \<noteq> [], out @ (if kind \<in> {JoinInner, JoinLeft} then map ((@) l) ps else []))"
  have pairs: "transparent (fold_st (join_pair E kind c l) right (False, out) s)
      (rbind (flat_rows (partner E c l) right) (\<lambda>ps. Inr (?acc ps)))"
    using join_pairs_transparent [of E kind c l right "(False, out)" s] by simp
  have unmatched: "transparent (join_unmatched E kind w l (?acc ps) s1) (Inr (out @ join_result kind w l ps))" for ps s1
    by (cases kind) (auto simp: join_unmatched_def join_result_def push_clone_transparent intro!: transparent_charge transparent_Inr)
  show "transparent (rbind (fold_st (join_pair E kind c l) right (False, out) s) (\<lambda>(acc, st1). join_unmatched E kind w l acc st1))
      (rbind (join_row E kind c w right l) (\<lambda>ys. Inr (out @ ys)))"
    unfolding join_row_def rbind_assoc
    by (rule transparent_bind_image [OF pairs]) (use unmatched in simp)
qed

lemma agg_step_transparent: "transparent (agg_step E kind arg r a st) (agg_row E kind arg r a)"
  unfolding agg_step_def agg_row_def
proof (rule transparent_charge(2), rule transparent_bind [OF eval_transparent])
  fix v s
  show "transparent (case (v, s) of (v, st2) \<Rightarrow>
      if kind = AggCollect then
        (if of_nat (length (as_collected a)) \<ge> eb_rows (fst st2) then Inl quota
         else rbind (reserve_now E (2 * xo_size_value (xe_ops E)) st2) (\<lambda>st3. Inr (a\<lparr>as_collected := as_collected a @ [v]\<rparr>, st3)))
      else if v = VNull then Inr (a, st2) else with_state st2 (agg_add (xe_ops E) kind v a))
    (if kind = AggCollect then Inr (a\<lparr>as_collected := as_collected a @ [v]\<rparr>)
     else if v = VNull then Inr a else agg_add (xe_ops E) kind v a)"
    by (auto intro!: transparent_charge transparent_Inr transparent_with_state) (auto simp: transparent_def)
qed

lemma aggregate_transparent: "transparent (aggregate E call rs st) (agg_value E call rs)"
  unfolding aggregate_def agg_value_def
  by (auto intro!: transparent_with_state transparent_pure transparent_bind [OF transparent_fold_st] agg_step_transparent)

lemma find_bucket_transparent: "transparent (find_bucket E key bs i st) (Inr (map_option ((+) i) (key_index key bs)))"
proof (induction bs arbitrary: i st)
  case (Cons b bs)
  obtain old rs where b: "b = (old, rs)" by (cases b)
  show ?case using Cons.IH [of "Suc i"]
    by (auto simp: b option.map_comp comp_def intro!: transparent_charge transparent_Inr)
qed (simp add: transparent_Inr)

lemma group_row_transparent:
  "transparent (group_row E C groups r buckets st) (rbind (row_key E groups r) (\<lambda>kr. Inr (add_to_bucket kr buckets)))"
  unfolding group_row_def row_key_def rbind_assoc
proof (rule transparent_charge(1), rule transparent_bind [OF transparent_map_st [OF eval_transparent]])
  fix s key s1
  let ?place = "\<lambda>found. case found of Some i \<Rightarrow> (buckets, i) | None \<Rightarrow> (buckets @ [(key, [])], length buckets)"
  have "transparent (rbind (find_bucket E key buckets 0 s1) (\<lambda>(found, st3).
     rbind (case found of
         Some i \<Rightarrow> Inr ((buckets, i), st3)
       | None \<Rightarrow> rbind (reserve_now E 128 st3) (\<lambda>st4. Inr ((buckets @ [(key, [])], length buckets), st4))) (\<lambda>((bs, i), st5).
     rbind (reserve_now E (2 * ko_size_word C) st5) (\<lambda>st6. Inr (bucket_push bs i r, st6)))))
    (rbind (Inr (map_option ((+) 0) (key_index key buckets))) (\<lambda>found. rbind (Inr (?place found)) (\<lambda>(bs, i). Inr (bucket_push bs i r))))"
  proof (rule transparent_bind [OF find_bucket_transparent])
    fix found s3
    show "transparent (case (found, s3) of (found, st3) \<Rightarrow>
       rbind (case found of
         Some i \<Rightarrow> Inr ((buckets, i), st3)
       | None \<Rightarrow> rbind (reserve_now E 128 st3) (\<lambda>st4. Inr ((buckets @ [(key, [])], length buckets), st4))) (\<lambda>((bs, i), st5).
       rbind (reserve_now E (2 * ko_size_word C) st5) (\<lambda>st6. Inr (bucket_push bs i r, st6))))
      (rbind (Inr (?place found)) (\<lambda>(bs, i). Inr (bucket_push bs i r)))"
      unfolding prod.case
      by (rule transparent_bind) (auto intro!: transparent_charge transparent_Inr split: option.splits)
  qed
  then show "transparent (case (key, s1) of (key, st2) \<Rightarrow>
     rbind (find_bucket E key buckets 0 st2) (\<lambda>(found, st3).
     rbind (case found of
         Some i \<Rightarrow> Inr ((buckets, i), st3)
       | None \<Rightarrow> rbind (reserve_now E 128 st3) (\<lambda>st4. Inr ((buckets @ [(key, [])], length buckets), st4))) (\<lambda>((bs, i), st5).
     rbind (reserve_now E (2 * ko_size_word C) st5) (\<lambda>st6. Inr (bucket_push bs i r, st6)))))
    (rbind (Inr (key, r)) (\<lambda>kr. Inr (add_to_bucket kr buckets)))"
    by (cases "key_index key buckets") (simp_all add: add_to_bucket_def bucket_push_def)
qed

lemma fold_res_collect:
  "fold_res (\<lambda>x a. rbind (g x) (\<lambda>y. Inr (h y a))) xs a = rbind (collect_results (map g xs)) (\<lambda>ys. Inr (fold h ys a))"
proof (induction xs arbitrary: a)
  case (Cons x xs)
  show ?case by (cases "g x") (simp_all add: Cons.IH rbind_assoc)
qed simp

lemma aggregate_kernel_transparent:
  "transparent (run_aggregate E C groups aggregates input st) (aggregate_rows E groups aggregates input)"
proof -
  let ?start = "if groups = [] then [([], [])] else [] :: bucket list"
  have start: "transparent (if groups = [] then rbind (reserve_now E 128 st) (\<lambda>st1. Inr ([([], [])], st1)) else Inr ([], st)) (Inr ?start)"
    by (auto intro!: transparent_charge transparent_Inr)
  have group: "transparent (fold_st (group_row E C groups) input a s)
      (rbind (collect_results (map (row_key E groups) input)) (\<lambda>krs. Inr (fold add_to_bucket krs a)))" for a s
    unfolding fold_res_collect [symmetric] by (rule transparent_fold_st) (rule group_row_transparent)
  have out: "transparent (fold_st (\<lambda>(key, rs) out st.
       rbind (reserve_now E (of_nat (length aggregates) * xo_size_value (xe_ops E) + 2 * xo_size_row (xe_ops E)) st) (\<lambda>st1.
       rbind (map_st (\<lambda>call. aggregate E call rs) aggregates st1) (\<lambda>(vs, st2). Inr (out @ [key @ vs], st2)))) buckets [] s)
     (flat_rows (bucket_row E aggregates) buckets)" for buckets s
  proof (rule transparent_append_Nil)
    fix b out s
    show "transparent ((case b of (key, rs) \<Rightarrow> \<lambda>out st.
        rbind (reserve_now E (of_nat (length aggregates) * xo_size_value (xe_ops E) + 2 * xo_size_row (xe_ops E)) st) (\<lambda>st1.
        rbind (map_st (\<lambda>call. aggregate E call rs) aggregates st1) (\<lambda>(vs, st2). Inr (out @ [key @ vs], st2)))) out s)
      (rbind (bucket_row E aggregates b) (\<lambda>ys. Inr (out @ ys)))"
      unfolding split_def bucket_row_def rbind_assoc
      by (intro transparent_charge transparent_bind [OF transparent_map_st [OF aggregate_transparent]]) (simp add: transparent_Inr)
  qed
  have "transparent (run_aggregate E C groups aggregates input st)
      (rbind (Inr ?start) (\<lambda>a. rbind (rbind (collect_results (map (row_key E groups) input)) (\<lambda>krs. Inr (fold add_to_bucket krs a)))
        (flat_rows (bucket_row E aggregates))))"
    unfolding run_aggregate_def
    by (rule transparent_bind [OF start], unfold prod.case, rule transparent_bind [OF group], unfold prod.case, rule out)
  then show ?thesis by (simp add: aggregate_rows_def rbind_assoc)
qed

lemma union_transparent: "transparent (fold_st (push_all E) inputs out st) (Inr (out @ concat inputs))"
proof -
  have "transparent (fold_st (push_all E) inputs out st) (rbind (flat_rows Inr inputs) (\<lambda>ys. Inr (out @ ys)))"
    by (rule transparent_append) (simp add: push_all_transparent)
  then show ?thesis using flat_rows_Inr [of "\<lambda>x. x"] by simp
qed

lemma run_kernel_transparent: "transparent (run_kernel E C source k inputs st) (algebra E C source k inputs)"
proof (cases k)
  case (KSourceScan src)
  then show ?thesis using push_all_transparent [of E _ "[]"]
    by (cases source) (auto simp: run_kernel_def algebra_def transparent_Inl)
next
  case (KValues v)
  then show ?thesis using values_transparent by (simp add: run_kernel_def)
qed (use push_all_transparent [of E _ "[]"] union_transparent [of E inputs "[]"] in
    \<open>simp_all add: run_kernel_def algebra_def Let_def filter_transparent project_transparent distinct_transparent
      sort_transparent join_transparent aggregate_kernel_transparent\<close>)

end
