(* ===== verification/GB_Kernel_Types.thy ===== *)
theory GB_Kernel_Types
  imports GB_Algebra
begin

text \<open>
  Binding of the relational operators (\<open>src/src/query/hql2/bind.rs\<close>): the columns an operator
  produces and the kernel that produces them, and that the rows of the kernel have these columns.
\<close>

section \<open>Binding an operator\<close>

definition unique_columns :: "column list \<Rightarrow> (query_error, unit) result" where
  "unique_columns cols = guard_err (\<not> distinct (map col_name cols)) (bind_error ''duplicate_alias'')"

definition bind_field_expr :: "bind_env \<Rightarrow> named_expr \<Rightarrow> u32 \<Rightarrow> (query_error, (column \<times> bound_expr) \<times> u32) result" where
  "bind_field_expr B f nxt =
     rbind (bind_expr B 0 (ne_expression f) nxt) (\<lambda>(e, nxt1).
     if be_ty e = TNull then Inl (bind_error ''ambiguous_null_literal'')
     else Inr ((\<lparr>col_name = ne_alias f, col_ty = be_ty e\<rparr>, e), nxt1))"

definition bind_named :: "bind_env \<Rightarrow> named_expr list \<Rightarrow> u32 \<Rightarrow> (query_error, (column list \<times> bound_expr list) \<times> u32) result" where
  "bind_named B fs nxt =
     rbind (map_st (bind_field_expr B) fs nxt) (\<lambda>(ces, nxt1).
     rbind (unique_columns (map fst ces)) (\<lambda>_. Inr ((map fst ces, map snd ces), nxt1)))"

definition bind_sort_key :: "bind_env \<Rightarrow> sort_key \<Rightarrow> u32 \<Rightarrow> (query_error, (bound_expr \<times> sort_direction \<times> null_order) \<times> u32) result" where
  "bind_sort_key B key nxt =
     rbind (bind_expr B 0 (sk_expression key) nxt) (\<lambda>(e, nxt1).
     if \<not> ordered_type (be_ty e) then Inl (bind_error ''comparator_unavailable'')
     else Inr ((e, sk_direction key, sk_nulls key), nxt1))"

definition aggregate_kind_of :: "string \<Rightarrow> aggregate_kind option" where
  "aggregate_kind_of call = map_of
     [(''count_all'', AggCountAll), (''count'', AggCount), (''sum'', AggSum), (''avg'', AggAvg), (''min'', AggMin),
      (''max'', AggMax), (''collect'', AggCollect)] call"

text \<open>The type of an aggregate, given that of its argument where it has one.\<close>

definition aggregate_type :: "aggregate_kind \<Rightarrow> query_type \<Rightarrow> (query_error, query_type) result" where
  "aggregate_type kind ty =
     (case kind of
        AggCountAll \<Rightarrow> Inr TI64
      | AggCount \<Rightarrow> Inr TI64
      | AggSum \<Rightarrow> if \<not> numeric_type ty then Inl (bind_error ''aggregate_numeric'') else Inr (as_nullable ty)
      | AggAvg \<Rightarrow> if \<not> numeric_type ty then Inl (bind_error ''aggregate_numeric'') else Inr (as_nullable TF64Finite)
      | AggMin \<Rightarrow> if \<not> ordered_type ty then Inl (bind_error ''comparator_unavailable'') else Inr (as_nullable ty)
      | AggMax \<Rightarrow> if \<not> ordered_type ty then Inl (bind_error ''comparator_unavailable'') else Inr (as_nullable ty)
      | AggCollect \<Rightarrow> Inr (TList ty))"

definition bind_aggregate :: "bind_env \<Rightarrow> named_expr \<Rightarrow> u32 \<Rightarrow> (query_error, (column \<times> aggregate_call) \<times> u32) result" where
  "bind_aggregate B named nxt =
     (case ne_expression named of
        ECall call args \<Rightarrow>
          rbind (ok_or (bind_error ''aggregate_function'') (aggregate_kind_of call)) (\<lambda>kind.
          if length args \<noteq> (if kind = AggCountAll then 0 else 1) then Inl (bind_error ''aggregate_arity'')
          else
            rbind (map_st (bind_expr B 0) args nxt) (\<lambda>(bs, nxt1).
            let arg = (case bs of [] \<Rightarrow> None | b # _ \<Rightarrow> Some b) in
            rbind (aggregate_type kind (case arg of Some b \<Rightarrow> be_ty b | None \<Rightarrow> TNull)) (\<lambda>ty.
            Inr ((\<lparr>col_name = ne_alias named, col_ty = ty\<rparr>, \<lparr>ag_kind = kind, ag_arg = arg\<rparr>), nxt1))))
      | _ \<Rightarrow> Inl (bind_error ''aggregate_call''))"

definition join_columns :: "join_kind \<Rightarrow> column list \<Rightarrow> column list \<Rightarrow> column list" where
  "join_columns kind l r =
     (case kind of
        JoinSemi \<Rightarrow> l
      | JoinAnti \<Rightarrow> l
      | JoinInner \<Rightarrow> l @ r
      | JoinLeft \<Rightarrow> l @ map (\<lambda>c. c\<lparr>col_ty := as_nullable (col_ty c)\<rparr>) r)"

type_synonym bound_operator = "column list \<times> kernel \<times> u32"

definition bind_join :: "bind_env \<Rightarrow> column list \<Rightarrow> join_kind \<Rightarrow> expr \<Rightarrow> u32 \<Rightarrow> (query_error, bound_operator) result" where
  "bind_join B right kind condition nxt =
     (let combined = bn_scope B @ right in
      rbind (unique_columns combined) (\<lambda>_.
      rbind (bind_expr (B\<lparr>bn_scope := combined\<rparr>) 0 condition nxt) (\<lambda>(c, nxt1).
      rbind (boolean_type (be_ty c)) (\<lambda>_.
      Inr (join_columns kind (bn_scope B) right, KJoin kind c (length right), nxt1)))))"

definition bind_grouping :: "bind_env \<Rightarrow> named_expr list \<Rightarrow> named_expr list \<Rightarrow> u32 \<Rightarrow> (query_error, bound_operator) result" where
  "bind_grouping B group_by aggregates nxt =
     rbind (bind_named B group_by nxt) (\<lambda>((columns, groups), nxt1).
     rbind (map_st (bind_aggregate B) aggregates nxt1) (\<lambda>(cas, nxt2).
     let all_columns = columns @ map fst cas in
     if all_columns = [] then Inl (bind_error ''aggregate_empty'')
     else rbind (unique_columns all_columns) (\<lambda>_. Inr (all_columns, KAggregate groups (map snd cas), nxt2))))"

text \<open>The scope is the columns of the first input; operators that are not relational have no entry.\<close>

definition bind_relational :: "bind_env \<Rightarrow> column list \<Rightarrow> config \<Rightarrow> u32 \<Rightarrow> (query_error, bound_operator) result option" where
  "bind_relational B right cfg nxt =
     (case cfg of
        CValues param alias \<Rightarrow> Some
          (rbind (get_parameter (bn_params B) param) (\<lambda>tv.
           case tv of
             (TList inner, VList vs) \<Rightarrow> Inr ([\<lparr>col_name = alias, col_ty = inner\<rparr>], KValues (VList vs), nxt)
           | _ \<Rightarrow> Inl (bind_error ''values_list_parameter'')))
      | CFilter predicate \<Rightarrow> Some
          (rbind (bind_expr B 0 predicate nxt) (\<lambda>(e, nxt1).
           rbind (boolean_type (be_ty e)) (\<lambda>_. Inr (bn_scope B, KFilter e, nxt1))))
      | CProject fs \<Rightarrow> Some
          (if fs = [] then Inl (bind_error ''project_empty'')
           else rbind (bind_named B fs nxt) (\<lambda>((cols, es), nxt1). Inr (cols, KProject es, nxt1)))
      | CDistinct \<Rightarrow> Some (Inr (bn_scope B, KDistinct, nxt))
      | CSort keys \<Rightarrow> Some
          (if keys = [] then Inl (bind_error ''sort_empty'')
           else rbind (map_st (bind_sort_key B) keys nxt) (\<lambda>(ks, nxt1). Inr (bn_scope B, KSort ks, nxt1)))
      | CTake n \<Rightarrow> Some (Inr (bn_scope B, KTake n, nxt))
      | COffset n \<Rightarrow> Some (Inr (bn_scope B, KOffset n, nxt))
      | CUnionAll \<Rightarrow> Some
          (if bn_scope B \<noteq> right then Inl (bind_error ''union_schema'') else Inr (bn_scope B, KUnionAll, nxt))
      | CJoin kind condition \<Rightarrow> Some (bind_join B right kind condition nxt)
      | CAggregate group_by aggregates \<Rightarrow> Some (bind_grouping B group_by aggregates nxt)
      | _ \<Rightarrow> None)"

section \<open>The expressions of a kernel\<close>

definition kernel_expression_roots :: "kernel \<Rightarrow> bound_expr list" where
  "kernel_expression_roots k =
     (case k of
        KFilter p \<Rightarrow> [p]
      | KProject es \<Rightarrow> es
      | KSort ks \<Rightarrow> map fst ks
      | KAggregate groups aggregates \<Rightarrow> groups @ List.map_filter ag_arg aggregates
      | KJoin _ c _ \<Rightarrow> [c]
      | _ \<Rightarrow> [])"

text \<open>The columns the expressions of a kernel read.\<close>

definition kernel_scope :: "kernel \<Rightarrow> column list \<Rightarrow> column list \<Rightarrow> column list" where
  "kernel_scope k l r = (case k of KJoin _ _ _ \<Rightarrow> l @ r | _ \<Rightarrow> l)"

definition kernel_null_safe :: "column list \<Rightarrow> kernel \<Rightarrow> bool" where
  "kernel_null_safe cols k = list_all (null_safe cols) (kernel_expression_roots k)"

section \<open>Outcomes of rows\<close>

definition rows_ok :: "bool \<Rightarrow> column list \<Rightarrow> (query_error, exec_row list) result \<Rightarrow> bool" where
  "rows_ok safe cols p =
     (case p of
        Inr rs \<Rightarrow> list_all (row_typed cols) rs
      | Inl err \<Rightarrow> err \<in> runtime_errors \<or> \<not> safe \<and> err = failure ''bound_type'')"

lemma rows_Inr [simp]: "rows_ok safe cols (Inr rs) = list_all (row_typed cols) rs"
  by (simp add: rows_ok_def)

lemma flat_rows_ok:
  assumes "\<And>r. r \<in> set rs \<Longrightarrow> rows_ok safe cols (g r)"
  shows "rows_ok safe cols (flat_rows g rs)"
  using assms
proof (induction rs)
  case (Cons r rs)
  then have "rows_ok safe cols (g r)" "rows_ok safe cols (flat_rows g rs)" by simp_all
  then show ?case
    by (cases "g r"; cases "collect_results (map g rs)") (auto simp: rows_ok_def flat_rows_def)
qed (simp add: flat_rows_def)

lemma eval_rows_ok:
  assumes "outcome_ok safe ty (pure_eval E r e)" "\<And>v. value_of_type ty v \<Longrightarrow> list_all (row_typed cols) (h v)"
  shows "rows_ok safe cols (rbind (pure_eval E r e) (\<lambda>v. Inr (h v)))"
  using assms by (cases "pure_eval E r e") (auto simp: rows_ok_def outcome_ok_def)

lemma row_typed_types: "row_typed cols vs = list_all2 value_of_type (map col_ty cols) vs"
  by (simp add: row_typed_def list_all2_map1)

lemma row_typed_append: "row_typed l a \<Longrightarrow> row_typed r b \<Longrightarrow> row_typed (l @ r) (a @ b)"
  by (simp add: row_typed_types list_all2_appendI)

lemma value_as_nullable: "value_of_type t v \<Longrightarrow> value_of_type (as_nullable t) v" "value_of_type (as_nullable t) VNull"
  using value_nullable_if [of t v True] null_nullable_if [of True t] by (auto simp: nullable_if_def)

lemma base_value: "value_of_type (base_type t) v \<Longrightarrow> value_of_type t v"
  by (cases t) auto

section \<open>Aggregates\<close>

definition agg_typed :: "query_type \<Rightarrow> agg_state \<Rightarrow> bool" where
  "agg_typed ty a \<longleftrightarrow>
     (case as_sum a of None \<Rightarrow> True | Some v \<Rightarrow> value_of_type ty v \<and> v \<noteq> VNull)
     \<and> (case as_extremum a of None \<Rightarrow> True | Some v \<Rightarrow> value_of_type ty v \<and> v \<noteq> VNull)
     \<and> list_all (value_of_type ty) (as_collected a)"

lemma agg_typed_start [simp]: "agg_typed ty agg_start"
  by (simp add: agg_typed_def agg_start_def)

lemma add_ok:
  assumes "numeric_type ty" "value_of_type ty a" "a \<noteq> VNull" "value_of_type ty b" "b \<noteq> VNull"
  shows "case binary K OpAdd a b of Inr x \<Rightarrow> value_of_type ty x \<and> x \<noteq> VNull | Inl err \<Rightarrow> err \<in> runtime_errors"
proof -
  consider i j where "a = VI64 i" "b = VI64 j" "base_type ty = TI64" | x y where "a = VF64 x" "b = VF64 y" "base_type ty = TF64Finite"
    using assms base_cases(2,4) [OF assms(2)] base_cases(2,4) [OF assms(4)] by (auto simp: numeric_type_def)
  then show ?thesis
  proof cases
    case 1
    then show ?thesis using arith_ok(1,2) [of OpAdd i j] base_value [of ty]
      by (cases "arith_i64 OpAdd i j") (auto simp: binary_def)
  next
    case 2
    then show ?thesis using arith_ok(3,4) [of OpAdd K x y] base_value [of ty]
      by (cases "arith_f64 K OpAdd x y") (auto simp: binary_def)
  qed
qed

lemma agg_add_ok:
  assumes "aggregate_type kind ty = Inr ty'" "value_of_type ty v" "v \<noteq> VNull" "agg_typed ty a"
  shows "case agg_add K kind v a of Inr a' \<Rightarrow> agg_typed ty a' | Inl err \<Rightarrow> err \<in> runtime_errors"
proof (cases "i64_checked (sint (as_count a) + 1)")
  case (Some n)
  consider (sum) "kind \<in> {AggSum, AggAvg}" | (ext) "kind \<in> {AggMin, AggMax}" | (other) "kind \<notin> {AggSum, AggAvg, AggMin, AggMax}" by blast
  then show ?thesis
  proof cases
    case sum
    then have num: "numeric_type ty" using assms(1) by (auto simp: aggregate_type_def split: if_splits)
    show ?thesis
    proof (cases "as_sum a")
      case None
      then show ?thesis using sum assms(2-4) by (auto simp: agg_add_def Some Let_def agg_typed_def)
    next
      case old: (Some old)
      then have "value_of_type ty old" "old \<noteq> VNull" using assms(4) by (auto simp: agg_typed_def)
      from add_ok [OF num this assms(2,3), of K] show ?thesis
        using sum assms(4) by (cases "binary K OpAdd old v") (auto simp: agg_add_def Some Let_def agg_typed_def old)
    qed
  next
    case ext
    then have ord: "ordered_type ty" using assms(1) by (auto simp: aggregate_type_def split: if_splits)
    show ?thesis
    proof (cases "as_extremum a")
      case None
      then show ?thesis using ext assms(2-4) by (auto simp: agg_add_def agg_replaces_def Some Let_def agg_typed_def)
    next
      case old: (Some old)
      then have o: "value_of_type ty old" "old \<noteq> VNull" using assms(4) by (auto simp: agg_typed_def)
      show ?thesis
        using ext assms(2-4) compare_ok [OF ord refl assms(2) o(1) assms(3) o(2)]
        by (cases "compare v old") (auto simp: agg_add_def agg_replaces_def Some Let_def agg_typed_def old)
    qed
  next
    case other
    then show ?thesis using assms(4) by (auto simp: agg_add_def Some Let_def agg_typed_def)
  qed
qed (simp add: agg_add_def)

lemma agg_finish_ok:
  assumes "aggregate_type kind ty = Inr ty'" "kind \<noteq> AggCountAll" "agg_typed ty a"
  shows "outcome_ok safe ty' (agg_finish K kind a)"
proof (cases kind)
  case AggAvg
  then have num: "numeric_type ty" "ty' = as_nullable TF64Finite" using assms(1) by (auto simp: aggregate_type_def split: if_splits)
  show ?thesis
  proof (cases "as_sum a")
    case None
    then show ?thesis using num value_as_nullable(2) by (simp add: agg_finish_def AggAvg)
  next
    case (Some v)
    then have v: "value_of_type ty v" "v \<noteq> VNull" using assms(3) by (auto simp: agg_typed_def)
    have fin: "outcome_ok safe ty' (finite_value x)" for x
      using finite_value_ok [of x] value_as_nullable(1) num(2) by (intro outcome_cases) auto
    have "(\<exists>i. v = VI64 i) \<or> (\<exists>x. v = VF64 x)"
      using num base_cases(2,4) [OF v(1)] v(2) by (auto simp: numeric_type_def)
    then show ?thesis using fin by (auto simp: agg_finish_def AggAvg Some)
  qed
qed (use assms in \<open>auto simp: agg_finish_def aggregate_type_def agg_typed_def value_as_nullable split: if_splits option.splits\<close>)

lemma agg_value_ok:
  assumes arg: "ag_kind call \<noteq> AggCountAll \<Longrightarrow> ag_arg call = Some e \<and> ty = be_ty e \<and> (\<forall>r\<in>set rs. outcome_ok safe ty (pure_eval E r e))"
    and ty': "aggregate_type (ag_kind call) ty = Inr ty'"
  shows "outcome_ok safe ty' (agg_value E call rs)"
proof (cases "ag_kind call = AggCountAll")
  case True
  then show ?thesis using ty'
    by (intro outcome_cases) (auto simp: agg_value_def aggregate_type_def ok_or_def split: option.splits)
next
  case False
  have step: "case agg_row E (ag_kind call) e r a of Inr a' \<Rightarrow> agg_typed ty a'
      | Inl err \<Rightarrow> err \<in> runtime_errors \<or> \<not> safe \<and> err = failure ''bound_type''"
    if "outcome_ok safe ty (pure_eval E r e)" "agg_typed ty a" for r a
  proof (cases "pure_eval E r e")
    case (Inl err)
    then show ?thesis using that(1) by (simp add: agg_row_def outcome_ok_def)
  next
    case (Inr v)
    then have v: "value_of_type ty v" using that(1) by simp
    show ?thesis
      using that(2) v agg_add_ok [OF ty' v _ that(2), of "xe_ops E"]
      by (cases "agg_add (xe_ops E) (ag_kind call) v a") (auto simp: agg_row_def Inr agg_typed_def)
  qed
  have "case fold_res (agg_row E (ag_kind call) e) rs a of Inr a' \<Rightarrow> agg_typed ty a'
      | Inl err \<Rightarrow> err \<in> runtime_errors \<or> \<not> safe \<and> err = failure ''bound_type''"
    if "\<forall>r\<in>set rs. outcome_ok safe ty (pure_eval E r e)" "agg_typed ty a" for a
    using that
  proof (induction rs arbitrary: a)
    case (Cons r rs)
    then show ?case using step [of r a] by (cases "agg_row E (ag_kind call) e r a") auto
  qed simp
  then have "case fold_res (agg_row E (ag_kind call) e) rs agg_start of Inr a' \<Rightarrow> agg_typed ty a'
      | Inl err \<Rightarrow> err \<in> runtime_errors \<or> \<not> safe \<and> err = failure ''bound_type''"
    using arg [OF False] agg_typed_start by blast
  then show ?thesis
    using agg_finish_ok [OF ty' False] arg [OF False]
    by (cases "fold_res (agg_row E (ag_kind call) e) rs agg_start") (auto simp: agg_value_def False outcome_ok_def)
qed

section \<open>Typed kernels\<close>

definition well_aggregate :: "column list \<Rightarrow> aggregate_call \<Rightarrow> query_type \<Rightarrow> bool" where
  "well_aggregate l call ty' \<longleftrightarrow>
     (\<exists>ty. aggregate_type (ag_kind call) ty = Inr ty' \<and>
       (if ag_kind call = AggCountAll then ag_arg call = None
        else \<exists>e. ag_arg call = Some e \<and> ty = be_ty e \<and> well_bound l e))"

definition well_kernel :: "column list \<Rightarrow> column list \<Rightarrow> column list \<Rightarrow> kernel \<Rightarrow> bool" where
  "well_kernel l r cols k =
     (case k of
        KValues v \<Rightarrow> \<exists>ty vs. v = VList vs \<and> list_all (value_of_type ty) vs \<and> map col_ty cols = [ty]
      | KSourceScan _ \<Rightarrow> True
      | KFilter p \<Rightarrow> well_bound l p \<and> cols = l
      | KProject es \<Rightarrow> list_all (well_bound l) es \<and> map col_ty cols = map be_ty es
      | KSort ks \<Rightarrow> list_all (\<lambda>(e, _, _). well_bound l e \<and> ordered_type (be_ty e)) ks \<and> cols = l
      | KUnionAll \<Rightarrow> cols = l \<and> r = l
      | KAggregate gs as \<Rightarrow> list_all (well_bound l) gs \<and>
          (\<exists>ts. map col_ty cols = map be_ty gs @ ts \<and> list_all2 (well_aggregate l) as ts)
      | KJoin kind c w \<Rightarrow> well_bound (l @ r) c \<and> w = length r \<and> cols = join_columns kind l r
      | _ \<Rightarrow> cols = l)"

lemma bind_field_exprs_well:
  assumes "parameters_typed (bn_params B)"
  shows "map_st (bind_field_expr B) fs nxt = Inr (ces, nxt') \<Longrightarrow>
    list_all (\<lambda>(c, e). col_ty c = be_ty e \<and> well_bound (bn_scope B) e) ces"
  by (erule map_st_all) (auto simp: bind_field_expr_def split: if_splits dest: bind_expr_well [OF assms])

lemma bind_named_well:
  assumes "parameters_typed (bn_params B)" "bind_named B fs nxt = Inr ((cols, es), nxt')"
  shows "map col_ty cols = map be_ty es" "list_all (well_bound (bn_scope B)) es"
proof -
  obtain ces where ces: "map_st (bind_field_expr B) fs nxt = Inr (ces, nxt')" "cols = map fst ces" "es = map snd ces"
    using assms(2) by (auto simp: bind_named_def)
  then show "map col_ty cols = map be_ty es" "list_all (well_bound (bn_scope B)) es"
    using bind_field_exprs_well [OF assms(1) ces(1)] by (auto simp: list_all_iff)
qed

lemma bind_aggregate_well:
  assumes "parameters_typed (bn_params B)" "bind_aggregate B named nxt = Inr ((c, call), nxt')"
  shows "well_aggregate (bn_scope B) call (col_ty c)"
proof -
  obtain f args where f: "ne_expression named = ECall f args"
    using assms(2) by (cases "ne_expression named") (auto simp: bind_aggregate_def)
  obtain kind bs ty nxt1 where kind: "length args = (if kind = AggCountAll then 0 else 1)"
    and bs: "map_st (bind_expr B 0) args nxt = Inr (bs, nxt1)"
    and ty: "aggregate_type kind (case (case bs of [] \<Rightarrow> None | b # _ \<Rightarrow> Some b) of Some b \<Rightarrow> be_ty b | None \<Rightarrow> TNull) = Inr ty"
    and c: "c = \<lparr>col_name = ne_alias named, col_ty = ty\<rparr>"
    and call: "call = \<lparr>ag_kind = kind, ag_arg = case bs of [] \<Rightarrow> None | b # _ \<Rightarrow> Some b\<rparr>"
    using assms(2) by (auto simp: bind_aggregate_def f Let_def split: if_splits)
  have "list_all (well_bound (bn_scope B)) bs" using map_st_all [OF bs] bind_expr_well [OF assms(1)] by blast
  moreover have "length bs = length args" using map_st_Inr_length [OF bs] .
  ultimately show ?thesis using kind ty
    unfolding well_aggregate_def c call by (cases bs) (auto split: if_splits)
qed

lemma bind_grouping_well:
  assumes "parameters_typed (bn_params B)" "bind_grouping B gs as nxt = Inr (cols, k, nxt')"
  shows "well_kernel (bn_scope B) r cols k"
proof -
  obtain columns groups nxt1 cas where g: "bind_named B gs nxt = Inr ((columns, groups), nxt1)"
    and cas: "map_st (bind_aggregate B) as nxt1 = Inr (cas, nxt')"
    and cols: "cols = columns @ map fst cas" and k: "k = KAggregate groups (map snd cas)"
    using assms(2) by (auto simp: bind_grouping_def Let_def split: if_splits)
  have "list_all (\<lambda>(c, call). well_aggregate (bn_scope B) call (col_ty c)) cas"
    by (rule map_st_all [OF cas]) (auto dest: bind_aggregate_well [OF assms(1)])
  then have "list_all2 (well_aggregate (bn_scope B)) (map snd cas) (map (col_ty \<circ> fst) cas)"
    by (induction cas) auto
  then show ?thesis using bind_named_well [OF assms(1) g] by (auto simp: well_kernel_def cols k)
qed

lemma bind_values:
  assumes "bind_relational B r (CValues param nm) nxt = Some (Inr (cols, k, nxt'))"
  shows "\<exists>inner vs. bn_params B param = Some (TList inner, VList vs) \<and> k = KValues (VList vs) \<and> map col_ty cols = [inner] \<and> nxt' = nxt"
proof -
  obtain ty v where tv: "bn_params B param = Some (ty, v)" using assms by (auto simp: bind_relational_def get_parameter_def)
  obtain inner where ty: "ty = TList inner" using assms tv by (cases ty) (auto simp: bind_relational_def get_parameter_def)
  obtain vs where "v = VList vs" using assms tv ty by (cases v) (auto simp: bind_relational_def get_parameter_def)
  then show ?thesis using assms tv ty by (auto simp: bind_relational_def get_parameter_def)
qed

lemma bind_relational_well:
  assumes P: "parameters_typed (bn_params B)" and b: "bind_relational B right cfg nxt = Some (Inr (cols, k, nxt'))"
  shows "well_kernel (bn_scope B) right cols k"
proof (cases cfg)
  case (CValues param nm)
  then show ?thesis using bind_values b P by (fastforce simp: well_kernel_def parameters_typed_def)
next
  case (CSort keys)
  then obtain ks where ks: "map_st (bind_sort_key B) keys nxt = Inr (ks, nxt')" "k = KSort ks" "cols = bn_scope B"
    using b by (auto simp: bind_relational_def split: if_splits)
  have "list_all (\<lambda>(e, _, _). well_bound (bn_scope B) e \<and> ordered_type (be_ty e)) ks"
    by (rule map_st_all [OF ks(1)]) (auto simp: bind_sort_key_def split: if_splits dest: bind_expr_well [OF P])
  then show ?thesis by (simp add: well_kernel_def ks)
next
  case (CJoin kind c)
  then show ?thesis
    using b bind_expr_well [of "B\<lparr>bn_scope := bn_scope B @ right\<rparr>"] P
    by (auto simp: bind_relational_def bind_join_def Let_def well_kernel_def)
next
  case (CAggregate gs aggs)
  then show ?thesis using b bind_grouping_well [OF P] by (simp add: bind_relational_def)
qed (use b bind_expr_well [OF P] bind_named_well [OF P] in \<open>auto simp: bind_relational_def well_kernel_def split: if_splits\<close>)

text \<open>The comparisons of a sort are between elements of the list it sorts.\<close>

definition sorts_its_list :: "kernel_ops \<Rightarrow> bool" where
  "sorts_its_list C \<longleftrightarrow> (\<forall>dec. \<forall>(a, b)\<in>set (ko_comparisons C dec). a \<in> set dec \<and> b \<in> set dec)"

lemma set_insert_by [simp]: "set (insert_by ord x ys) = insert x (set ys)"
  by (induction ys) auto

lemma set_sort_by [simp]: "set (sort_by ord xs) = set xs"
  by (induction xs) (auto simp: sort_by_def)

lemma unique_rows_subset: "set (unique_rows seen rs) \<subseteq> set rs"
  by (induction rs arbitrary: seen) auto

lemma keys_order_ok:
  assumes "list_all2 value_of_type (map (be_ty \<circ> fst) ks) xs" "list_all2 value_of_type (map (be_ty \<circ> fst) ks) ys"
    and "list_all (\<lambda>(e, _, _). ordered_type (be_ty e)) ks"
  shows "keys_order ks xs ys = Inl err \<Longrightarrow> err \<in> runtime_errors"
  using assms
proof (induction ks xs ys rule: keys_order.induct)
  case (1 e d n ks x xs y ys)
  have c: "compare x y = Inl err \<Longrightarrow> x \<noteq> VNull \<Longrightarrow> y \<noteq> VNull \<Longrightarrow> err \<in> runtime_errors"
    using compare_ok [of "be_ty e" "be_ty e" x y] 1(3-5) by auto
  show ?case using 1 c by (auto simp: key_order_def rbind_Inl_iff split: if_splits)
qed simp_all

lemma sort_error_ok:
  assumes "\<forall>(a, b)\<in>set pairs. \<forall>e. keys_order ks (snd a) (snd b) = Inl e \<longrightarrow> e \<in> runtime_errors"
    and "\<forall>e. err = Some e \<longrightarrow> e \<in> runtime_errors"
  shows "sort_error ks pairs err = Some e \<Longrightarrow> e \<in> runtime_errors"
  using assms
proof (induction pairs arbitrary: err)
  case (Cons ab pairs)
  then show ?case by (cases ab) (auto split: sum.splits)
qed simp

lemma collect_map_all:
  assumes "\<And>x. x \<in> set xs \<Longrightarrow> case f x of Inr y \<Rightarrow> Q x y | Inl err \<Rightarrow> Z err"
  shows "case collect_results (map f xs) of Inr ys \<Rightarrow> list_all2 Q xs ys | Inl err \<Rightarrow> Z err"
  using assms
proof (induction xs)
  case (Cons x xs)
  then have "case f x of Inr y \<Rightarrow> Q x y | Inl err \<Rightarrow> Z err" "case collect_results (map f xs) of Inr ys \<Rightarrow> list_all2 Q xs ys | Inl err \<Rightarrow> Z err"
    by simp_all
  then show ?case by (cases "f x"; cases "collect_results (map f xs)") auto
qed simp

definition error_ok :: "bool \<Rightarrow> query_error \<Rightarrow> bool" where
  "error_ok safe err \<longleftrightarrow> err \<in> runtime_errors \<or> \<not> safe \<and> err = failure ''bound_type''"

lemma exprs_ok:
  assumes "list_all (well_bound cols) es" "row_typed cols r"
    and "hydration_fits (xe_hydrated E) (concat (map property_fields es))" "safe \<longrightarrow> list_all (null_safe cols) es"
  shows "case collect_results (map (pure_eval E r) es) of Inr vs \<Rightarrow> list_all2 value_of_type (map be_ty es) vs | Inl err \<Rightarrow> error_ok safe err"
proof -
  have "case pure_eval E r e of Inr v \<Rightarrow> value_of_type (be_ty e) v | Inl err \<Rightarrow> error_ok safe err" if e: "e \<in> set es" for e
  proof -
    have "hydration_fits (xe_hydrated E) (property_fields e)" by (rule hydration_fits_mono [OF assms(3)]) (use e in auto)
    then have "outcome_ok (null_safe cols e) (be_ty e) (pure_eval E r e)"
      using pure_eval_ok [OF assms(2)] assms(1) e by (auto simp: list_all_iff)
    then show ?thesis using assms(4) e by (auto simp: outcome_ok_def error_ok_def list_all_iff split: sum.splits)
  qed
  then have "case collect_results (map (pure_eval E r) es) of Inr vs \<Rightarrow> list_all2 (\<lambda>e v. value_of_type (be_ty e) v) es vs
      | Inl err \<Rightarrow> error_ok safe err"
    by (rule collect_map_all)
  then show ?thesis unfolding list_all2_map1 .
qed

text \<open>The inputs an operator has, by its arity.\<close>

definition kernel_inputs :: "kernel \<Rightarrow> exec_row list \<Rightarrow> exec_row list \<Rightarrow> exec_row list list" where
  "kernel_inputs k a b =
     (case k of
        KValues _ \<Rightarrow> []
      | KSourceScan _ \<Rightarrow> []
      | KUnionAll \<Rightarrow> [a, b]
      | KJoin _ _ _ \<Rightarrow> [a, b]
      | _ \<Rightarrow> [a])"

lemma join_result_typed:
  assumes "row_typed l x" "list_all (row_typed r) ps"
  shows "list_all (row_typed (join_columns kind l r)) (join_result kind (length r) x ps)"
proof -
  let ?n = "map (\<lambda>c. c\<lparr>col_ty := as_nullable (col_ty c)\<rparr>) r"
  have null: "row_typed ?n (replicate (length r) VNull)"
    by (simp add: row_typed_def list_all2_conv_all_nth value_as_nullable(2))
  have some: "row_typed ?n p" if "row_typed r p" for p
    using that by (auto simp: row_typed_def list_all2_conv_all_nth value_as_nullable(1))
  have app: "row_typed (l @ r) (x @ p)" "row_typed (l @ ?n) (x @ p)" if "p \<in> set ps" for p
    using that assms(2) some row_typed_append [OF assms(1)] by (simp_all add: list_all_iff)
  have pad: "row_typed (l @ ?n) (x @ replicate (length r) VNull)" by (rule row_typed_append [OF assms(1) null])
  show ?thesis
  proof (cases kind)
    case JoinInner
    then show ?thesis using app(1) by (auto simp: join_columns_def join_result_def list_all_iff)
  next
    case JoinLeft
    then show ?thesis using app(2) pad unfolding JoinLeft join_columns_def join_result_def join_kind.case list_all_iff
      by (auto split: if_splits)
  qed (use assms(1) in \<open>simp_all add: join_columns_def join_result_def\<close>)
qed

lemma join_rows_ok:
  assumes "well_bound (l @ r) c" "list_all (row_typed l) a" "list_all (row_typed r) b"
    and "hydration_fits (xe_hydrated E) (property_fields c)"
  shows "rows_ok (null_safe (l @ r) c) (join_columns kind l r) (flat_rows (join_row E kind c (length r) b) a)"
proof (rule flat_rows_ok)
  fix x assume x: "x \<in> set a"
  then have tx: "row_typed l x" using assms(2) by (auto simp: list_all_iff)
  have "rows_ok (null_safe (l @ r) c) r (flat_rows (partner E c x) b)"
  proof (rule flat_rows_ok)
    fix y assume y: "y \<in> set b"
    then have ty: "row_typed r y" using assms(3) by (auto simp: list_all_iff)
    show "rows_ok (null_safe (l @ r) c) r (partner E c x y)"
      unfolding partner_def
      by (rule eval_rows_ok [OF pure_eval_ok [OF row_typed_append [OF tx ty] assms(1,4)]]) (simp add: ty)
  qed
  then show "rows_ok (null_safe (l @ r) c) (join_columns kind l r) (join_row E kind c (length r) b x)"
    using join_result_typed [OF tx] by (cases "flat_rows (partner E c x) b") (auto simp: join_row_def rows_ok_def)
qed

lemma sort_rows_ok:
  assumes ks: "list_all (\<lambda>(e, _, _). well_bound l e \<and> ordered_type (be_ty e)) ks" and a: "list_all (row_typed l) a"
    and fits: "hydration_fits (xe_hydrated E) (concat (map property_fields (map fst ks)))" and C: "sorts_its_list C"
  shows "rows_ok (list_all (null_safe l) (map fst ks)) l (sort_rows E C ks a)"
proof -
  let ?safe = "list_all (null_safe l) (map fst ks)" and ?typed = "list_all2 value_of_type (map (be_ty \<circ> fst) ks)"
  let ?dec = "map (\<lambda>(i, r). rbind (sort_keys E ks r) (\<lambda>vs. Inr (i, vs))) (enumerate 0 a)"
  have "case collect_results ?dec of Inr ds \<Rightarrow> list_all2 (\<lambda>ir d. fst d < length a \<and> ?typed (snd d)) (enumerate 0 a) ds
      | Inl err \<Rightarrow> error_ok ?safe err"
  proof (rule collect_map_all)
    fix ir assume ir: "ir \<in> set (enumerate 0 a)"
    then have i: "fst ir < length a" and r: "row_typed l (snd ir)"
      using a by (auto simp: in_set_enumerate_eq list_all_length)
    have es: "list_all (well_bound l) (map fst ks)" using ks by (auto simp: list_all_iff)
    from exprs_ok [OF es r fits, of ?safe]
    show "case (case ir of (i, r) \<Rightarrow> rbind (sort_keys E ks r) (\<lambda>vs. Inr (i, vs))) of
        Inr d \<Rightarrow> fst d < length a \<and> ?typed (snd d) | Inl err \<Rightarrow> error_ok ?safe err"
      using i by (cases "collect_results (map (pure_eval E (snd ir)) (map fst ks))") (auto simp: sort_keys_def split_def)
  qed
  moreover have "rows_ok ?safe l (case sort_error ks (ko_comparisons C ds) None of
       Some err \<Rightarrow> Inl err | None \<Rightarrow> Inr (map (\<lambda>(i, _). a ! i) (sort_by (row_order ks) ds)))"
    if ds: "list_all2 (\<lambda>ir d. fst d < length a \<and> ?typed (snd d)) (enumerate 0 a) ds" for ds
  proof -
    have d: "fst x < length a" "?typed (snd x)" if "x \<in> set ds" for x
      using ds that by (auto simp: list_all2_conv_all_nth in_set_conv_nth)
    have ord: "list_all (\<lambda>(e, _, _). ordered_type (be_ty e)) ks" using ks by (auto simp: list_all_iff)
    have "e \<in> runtime_errors" if xy: "(x, y) \<in> set (ko_comparisons C ds)" and e: "keys_order ks (snd x) (snd y) = Inl e" for x y e
    proof -
      have "x \<in> set ds" "y \<in> set ds" using C xy unfolding sorts_its_list_def by blast+
      then show ?thesis using keys_order_ok [OF _ _ ord e] d(2) by blast
    qed
    then have "\<forall>(x, y)\<in>set (ko_comparisons C ds). \<forall>e. keys_order ks (snd x) (snd y) = Inl e \<longrightarrow> e \<in> runtime_errors" by blast
    then have "sort_error ks (ko_comparisons C ds) None = Some e \<Longrightarrow> e \<in> runtime_errors" for e
      using sort_error_ok by blast
    moreover have "list_all (row_typed l) (map (\<lambda>(i, _). a ! i) (sort_by (row_order ks) ds))"
      using d(1) a by (fastforce simp: list_all_iff split_def)
    ultimately show ?thesis by (auto simp: rows_ok_def split: option.splits)
  qed
  ultimately show ?thesis
    by (cases "collect_results ?dec") (auto simp: sort_rows_def rows_ok_def error_ok_def)
qed

lemma add_to_bucket_all:
  assumes "list_all (\<lambda>(key, rs). P key \<and> list_all Q rs) bs" "P (fst kr)" "Q (snd kr)"
  shows "list_all (\<lambda>(key, rs). P key \<and> list_all Q rs) (add_to_bucket kr bs)"
proof (cases "key_index (fst kr) bs")
  case (Some i)
  have "i < length bs" using Some by (induction bs arbitrary: i) (auto split: if_splits)
  then have "bs ! i \<in> set bs" by simp
  then show ?thesis
    using assms by (auto simp: add_to_bucket_def Some bucket_push_def list_all_iff split_def dest!: subsetD [OF set_update_subset_insert])
qed (use assms in \<open>simp add: add_to_bucket_def\<close>)

lemma buckets_all:
  "list_all (\<lambda>(key, rs). P key \<and> list_all Q rs) bs \<Longrightarrow> list_all (\<lambda>(key, r). P key \<and> Q r) krs
     \<Longrightarrow> list_all (\<lambda>(key, rs). P key \<and> list_all Q rs) (fold add_to_bucket krs bs)"
proof (induction krs arbitrary: bs)
  case (Cons kr krs)
  then show ?case using add_to_bucket_all [OF Cons.prems(1), of kr] by (simp add: split_def)
qed simp

lemma bucket_row_ok:
  assumes b: "list_all2 value_of_type (map be_ty groups) (fst b)" "list_all (row_typed l) (snd b)"
    and as: "list_all2 (well_aggregate l) as ts"
    and fits: "hydration_fits (xe_hydrated E) (concat (map property_fields (List.map_filter ag_arg as)))"
    and safe: "safe \<longrightarrow> list_all (null_safe l) (List.map_filter ag_arg as)" and cols: "map col_ty cols = map be_ty groups @ ts"
  shows "rows_ok safe cols (bucket_row E as b)"
proof -
  have "case collect_results (map (\<lambda>call. agg_value E call (snd b)) as) of
      Inr vs \<Rightarrow> list_all2 value_of_type ts vs | Inl err \<Rightarrow> error_ok safe err"
    using as fits safe
  proof (induction as ts rule: list_all2_induct)
    case (Cons call as t ts)
    have "outcome_ok safe t (agg_value E call (snd b))"
    proof -
      obtain ty where ty: "aggregate_type (ag_kind call) ty = Inr t"
        and arg: "ag_kind call \<noteq> AggCountAll \<longrightarrow> (\<exists>e. ag_arg call = Some e \<and> ty = be_ty e \<and> well_bound l e)"
        using Cons.hyps(1) by (auto simp: well_aggregate_def split: if_splits)
      show ?thesis
      proof (rule agg_value_ok [OF _ ty])
        assume "ag_kind call \<noteq> AggCountAll"
        then obtain e where e: "ag_arg call = Some e" "ty = be_ty e" "well_bound l e" using arg by blast
        have "hydration_fits (xe_hydrated E) (property_fields e)"
          by (rule hydration_fits_mono [OF Cons.prems(1)]) (simp add: List.map_filter_simps e(1))
        moreover have "safe \<longrightarrow> null_safe l e" using Cons.prems(2) e(1) by (simp add: List.map_filter_simps)
        ultimately have "\<forall>r\<in>set (snd b). outcome_ok safe ty (pure_eval E r e)"
          using b(2) e(2,3) outcome_mono [OF pure_eval_ok] by (auto simp: list_all_iff)
        then show "ag_arg call = Some (the (ag_arg call)) \<and> ty = be_ty (the (ag_arg call))
            \<and> (\<forall>r\<in>set (snd b). outcome_ok safe ty (pure_eval E r (the (ag_arg call))))" using e(1,2) by simp
      qed
    qed
    moreover have "case collect_results (map (\<lambda>call. agg_value E call (snd b)) as) of
        Inr vs \<Rightarrow> list_all2 value_of_type ts vs | Inl err \<Rightarrow> error_ok safe err"
    proof (rule Cons.IH)
      show "hydration_fits (xe_hydrated E) (concat (map property_fields (List.map_filter ag_arg as)))"
        by (rule hydration_fits_mono [OF Cons.prems(1)]) (auto simp: List.map_filter_simps split: option.splits)
      show "safe \<longrightarrow> list_all (null_safe l) (List.map_filter ag_arg as)"
        using Cons.prems(2) by (auto simp: List.map_filter_simps split: option.splits)
    qed
    ultimately show ?case
      by (cases "agg_value E call (snd b)"; cases "collect_results (map (\<lambda>call. agg_value E call (snd b)) as)")
        (auto simp: outcome_ok_def error_ok_def)
  qed simp
  then show ?thesis using b(1)
    by (cases "collect_results (map (\<lambda>call. agg_value E call (snd b)) as)")
      (auto simp: bucket_row_def rows_ok_def error_ok_def row_typed_types cols list_all2_appendI)
qed

lemma aggregate_rows_ok:
  assumes gs: "list_all (well_bound l) gs" and a: "list_all (row_typed l) a"
    and as: "list_all2 (well_aggregate l) as ts" and cols: "map col_ty cols = map be_ty gs @ ts"
    and fits: "hydration_fits (xe_hydrated E) (concat (map property_fields (gs @ List.map_filter ag_arg as)))"
    and safe: "safe \<longrightarrow> list_all (null_safe l) (gs @ List.map_filter ag_arg as)"
  shows "rows_ok safe cols (aggregate_rows E gs as a)"
proof -
  let ?P = "list_all2 value_of_type (map be_ty gs)" and ?Q = "row_typed l"
  have "case collect_results (map (row_key E gs) a) of Inr krs \<Rightarrow> list_all2 (\<lambda>_ kr. ?P (fst kr) \<and> ?Q (snd kr)) a krs | Inl err \<Rightarrow> error_ok safe err"
  proof (rule collect_map_all)
    fix r assume "r \<in> set a"
    then have r: "?Q r" using a by (auto simp: list_all_iff)
    have g: "hydration_fits (xe_hydrated E) (concat (map property_fields gs))" "safe \<longrightarrow> list_all (null_safe l) gs"
      using hydration_fits_mono [OF fits] safe by auto
    from exprs_ok [OF gs r g] show "case row_key E gs r of Inr kr \<Rightarrow> ?P (fst kr) \<and> ?Q (snd kr) | Inl err \<Rightarrow> error_ok safe err"
      using r by (cases "collect_results (map (pure_eval E r) gs)") (auto simp: row_key_def)
  qed
  moreover have "rows_ok safe cols (flat_rows (bucket_row E as) (fold add_to_bucket krs (if gs = [] then [([], [])] else [])))"
    if "list_all2 (\<lambda>_ kr. ?P (fst kr) \<and> ?Q (snd kr)) a krs" for krs
  proof (rule flat_rows_ok)
    fix b assume b: "b \<in> set (fold add_to_bucket krs (if gs = [] then [([], [])] else []))"
    have "list_all (\<lambda>(key, rs). ?P key \<and> list_all ?Q rs) (fold add_to_bucket krs (if gs = [] then [([], [])] else []))"
      by (rule buckets_all) (use that in \<open>auto simp: list_all_length list_all2_conv_all_nth split_def\<close>)
    then have "?P (fst b)" "list_all ?Q (snd b)" using b by (auto simp: list_all_iff)
    then show "rows_ok safe cols (bucket_row E as b)"
      by (rule bucket_row_ok [OF _ _ as _ _ cols]) (use hydration_fits_mono [OF fits] safe in auto)
  qed
  ultimately show ?thesis
    by (cases "collect_results (map (row_key E gs) a)") (auto simp: aggregate_rows_def rows_ok_def error_ok_def)
qed

lemma algebra_ok:
  assumes well: "well_kernel l r cols k" and a: "list_all (row_typed l) a" and b: "list_all (row_typed r) b"
    and source: "\<And>src. k = KSourceScan src \<Longrightarrow> \<exists>rs. source = Some rs \<and> list_all (row_typed cols) rs"
    and fits: "hydration_fits (xe_hydrated E) (concat (map property_fields (kernel_expression_roots k)))"
    and C: "sorts_its_list C"
  shows "rows_ok (kernel_null_safe (kernel_scope k l r) k) cols (algebra E C source k (kernel_inputs k a b))"
proof (cases k)
  case (KFilter p)
  have "rows_ok (null_safe l p) l (flat_rows (filter_row E p) a)"
  proof (rule flat_rows_ok)
    fix x assume "x \<in> set a"
    then have x: "row_typed l x" using a by (auto simp: list_all_iff)
    show "rows_ok (null_safe l p) l (filter_row E p x)"
      unfolding filter_row_def
      by (rule eval_rows_ok [OF pure_eval_ok [OF x]]) (use well fits x in \<open>simp_all add: KFilter well_kernel_def kernel_expression_roots_def\<close>)
  qed
  then show ?thesis using well
    by (simp add: KFilter algebra_def kernel_inputs_def first_input_def kernel_null_safe_def kernel_scope_def
        kernel_expression_roots_def well_kernel_def)
next
  case (KProject es)
  have es: "list_all (well_bound l) es" "map col_ty cols = map be_ty es"
    and f: "hydration_fits (xe_hydrated E) (concat (map property_fields es))"
    using well fits by (simp_all add: KProject well_kernel_def kernel_expression_roots_def)
  have "rows_ok (list_all (null_safe l) es) cols (flat_rows (project_row E es) a)"
  proof (rule flat_rows_ok)
    fix x assume "x \<in> set a"
    then have x: "row_typed l x" using a by (auto simp: list_all_iff)
    from exprs_ok [OF es(1) x f, of "list_all (null_safe l) es"]
    show "rows_ok (list_all (null_safe l) es) cols (project_row E es x)"
      by (cases "collect_results (map (pure_eval E x) es)") (auto simp: project_row_def rows_ok_def error_ok_def row_typed_types es(2))
  qed
  then show ?thesis
    by (simp add: KProject algebra_def kernel_inputs_def first_input_def kernel_null_safe_def kernel_scope_def kernel_expression_roots_def)
next
  case (KSort ks)
  then show ?thesis
    using sort_rows_ok [OF _ a _ C, of ks E] well fits
    by (simp add: algebra_def kernel_inputs_def first_input_def kernel_null_safe_def kernel_scope_def kernel_expression_roots_def
        well_kernel_def)
next
  case (KAggregate gs aggs)
  then obtain ts where "list_all (well_bound l) gs" "map col_ty cols = map be_ty gs @ ts" "list_all2 (well_aggregate l) aggs ts"
    using well by (auto simp: well_kernel_def)
  then show ?thesis
    using aggregate_rows_ok [OF _ a, of gs aggs ts cols E "list_all (null_safe l) (gs @ List.map_filter ag_arg aggs)"] fits
    by (simp add: KAggregate algebra_def kernel_inputs_def first_input_def kernel_null_safe_def kernel_scope_def
        kernel_expression_roots_def)
next
  case (KJoin kind c w)
  then show ?thesis
    using join_rows_ok [OF _ a b, of c E kind] well fits
    by (simp add: algebra_def kernel_inputs_def first_input_def second_input_def kernel_null_safe_def kernel_scope_def
        kernel_expression_roots_def well_kernel_def)
next
  case KDistinct
  then show ?thesis
    using well a unique_rows_subset [of "[]" a]
    by (auto simp: algebra_def kernel_inputs_def first_input_def well_kernel_def list_all_iff)
next
  case (KValues v)
  then show ?thesis using well by (auto simp: algebra_def well_kernel_def list_all_iff row_typed_types)
next
  case (KSourceScan src)
  then show ?thesis using source by (auto simp: algebra_def)
qed (use well a b in \<open>auto simp: algebra_def kernel_inputs_def first_input_def well_kernel_def list_all_iff dest: in_set_takeD in_set_dropD\<close>)

end
