(* ===== verification/GB_Sorting.thy ===== *)
theory GB_Sorting
  imports GB_Kernel_Types
begin

text \<open>
  The sort kernel: a comparator that is a total preorder on the rows it compares gives a stable
  ordered rearrangement; the comparator of the kernel is one on typed keys, with its directions,
  its places for nulls and the position of a row as the last key.
\<close>

section \<open>Total preorders as comparators\<close>

locale ordering_on =
  fixes A :: "'a set" and ord :: "'a \<Rightarrow> 'a \<Rightarrow> ordering"
  assumes flip: "a \<in> A \<Longrightarrow> b \<in> A \<Longrightarrow> ord b a = reverse_ordering (ord a b)"
    and trans: "a \<in> A \<Longrightarrow> b \<in> A \<Longrightarrow> c \<in> A \<Longrightarrow> ord a b \<noteq> OGreater \<Longrightarrow> ord b c \<noteq> OGreater \<Longrightarrow> ord a c \<noteq> OGreater"
begin

lemma refl: "a \<in> A \<Longrightarrow> ord a a = OEqual"
  using flip [of a a] by (cases "ord a a") auto

lemma le_linear: "a \<in> A \<Longrightarrow> b \<in> A \<Longrightarrow> ord a b = OGreater \<Longrightarrow> ord b a = OLess"
  using flip [of a b] by simp

lemma equal_sym: "a \<in> A \<Longrightarrow> b \<in> A \<Longrightarrow> ord a b = OEqual \<Longrightarrow> ord b a = OEqual"
  using flip [of a b] by simp

lemma equal_trans:
  assumes "a \<in> A" "b \<in> A" "c \<in> A" "ord a b = OEqual" "ord b c = OEqual"
  shows "ord a c = OEqual"
  using trans [OF assms(1-3)] trans [OF assms(3,2,1)] equal_sym [OF assms(1,2,4)] equal_sym [OF assms(2,3,5)] assms(4,5) flip [OF assms(1,3)]
  by (cases "ord a c") auto

lemma less_le_trans:
  assumes "a \<in> A" "b \<in> A" "c \<in> A" "ord a b = OLess" "ord b c \<noteq> OGreater"
  shows "ord a c = OLess"
proof (cases "ord a c")
  case OEqual
  then have "ord c a \<noteq> OGreater" using equal_sym assms by simp
  then have "ord b a \<noteq> OGreater" using trans [OF assms(2,3,1,5)] by blast
  then show ?thesis using flip [OF assms(1,2)] assms(4) by simp
qed (use trans [OF assms(1-3)] assms in auto)

lemma le_less_trans:
  assumes "a \<in> A" "b \<in> A" "c \<in> A" "ord a b \<noteq> OGreater" "ord b c = OLess"
  shows "ord a c = OLess"
proof (cases "ord a c")
  case OEqual
  then have "ord c a \<noteq> OGreater" using equal_sym assms by simp
  then have "ord c b \<noteq> OGreater" using trans [OF assms(3,1,2) _ assms(4)] by blast
  then show ?thesis using flip [OF assms(2,3)] assms(5) by simp
qed (use trans [OF assms(1-3)] assms in auto)

lemma insert_by_sorted:
  assumes "x \<in> A" "set ys \<subseteq> A" "sorted_wrt (\<lambda>a b. ord a b \<noteq> OGreater) ys"
  shows "sorted_wrt (\<lambda>a b. ord a b \<noteq> OGreater) (insert_by ord x ys)"
  using assms
proof (induction ys)
  case (Cons y ys)
  show ?case
  proof (cases "ord x y = OGreater")
    case True
    then have "ord y x \<noteq> OGreater" using le_linear [of x y] Cons.prems by simp
    then show ?thesis using True Cons by simp
  next
    case False
    then have "\<forall>z\<in>set ys. ord x z \<noteq> OGreater" using trans [of x y] Cons.prems by auto
    then show ?thesis using False Cons.prems by simp
  qed
qed simp

lemma sort_by_sorted: "set xs \<subseteq> A \<Longrightarrow> sorted_wrt (\<lambda>a b. ord a b \<noteq> OGreater) (sort_by ord xs)"
proof (induction xs)
  case (Cons x xs)
  have "set (sort_by ord xs) \<subseteq> A" using Cons.prems by simp
  then show ?case using insert_by_sorted [of x] Cons by (simp add: sort_by_def)
qed (simp add: sort_by_def)

text \<open>Stability: every class of equal elements keeps its order.\<close>

lemma insert_by_class:
  assumes "x \<in> A" "set ys \<subseteq> A" "z \<in> A"
  shows "filter (\<lambda>y. ord y z = OEqual) (insert_by ord x ys) = filter (\<lambda>y. ord y z = OEqual) (x # ys)"
  using assms
proof (induction ys)
  case (Cons y ys)
  have "\<not> (ord x z = OEqual \<and> ord y z = OEqual)" if "ord x y = OGreater"
    using that equal_trans [of x z y] equal_sym [of y z] Cons.prems by auto
  then show ?case using Cons by auto
qed simp

lemma sort_by_stable:
  "set xs \<subseteq> A \<Longrightarrow> z \<in> A \<Longrightarrow> filter (\<lambda>y. ord y z = OEqual) (sort_by ord xs) = filter (\<lambda>y. ord y z = OEqual) xs"
proof (induction xs)
  case (Cons x xs)
  have "set (sort_by ord xs) \<subseteq> A" using Cons.prems by simp
  then show ?case using insert_by_class [of x "sort_by ord xs" z] Cons by (simp add: sort_by_def)
qed (simp add: sort_by_def)

end

lemma mset_insert_by [simp]: "mset (insert_by ord x ys) = add_mset x (mset ys)"
  by (induction ys) auto

lemma mset_sort_by [simp]: "mset (sort_by ord xs) = mset xs"
  by (induction xs) (auto simp: sort_by_def)

lemma reverse_reverse [simp]: "reverse_ordering (reverse_ordering c) = c"
  by (cases c) auto

lemma reverse_eq [simp]: "reverse_ordering c = OEqual \<longleftrightarrow> c = OEqual" "reverse_ordering c = OGreater \<longleftrightarrow> c = OLess"
  "reverse_ordering c = OLess \<longleftrightarrow> c = OGreater"
  by (cases c; simp)+

text \<open>Comparators through a linear order, reversed, and one after the other.\<close>

lemma cmp_le: "cmp a b \<noteq> OGreater \<longleftrightarrow> a \<le> b" and cmp_flip: "cmp b a = reverse_ordering (cmp a b)"
  by (auto simp: cmp_def)

lemma ordering_on_cmp: "(\<And>a b. a \<in> A \<Longrightarrow> b \<in> A \<Longrightarrow> ord a b = cmp (f a) (f b)) \<Longrightarrow> ordering_on A ord"
proof unfold_locales
  assume ord: "\<And>a b. a \<in> A \<Longrightarrow> b \<in> A \<Longrightarrow> ord a b = cmp (f a) (f b)"
  show "ord b a = reverse_ordering (ord a b)" if "a \<in> A" "b \<in> A" for a b
    using ord that cmp_flip [of "f b" "f a"] by simp
  show "ord a c \<noteq> OGreater" if "a \<in> A" "b \<in> A" "c \<in> A" "ord a b \<noteq> OGreater" "ord b c \<noteq> OGreater" for a b c
    using that cmp_le [of "f a" "f b"] cmp_le [of "f b" "f c"] cmp_le [of "f a" "f c"] by (simp add: ord)
qed

lemma ordering_on_reverse: "ordering_on A ord \<Longrightarrow> ordering_on A (\<lambda>a b. reverse_ordering (ord a b))"
proof (unfold_locales, goal_cases)
  case (1 a b)
  then show ?case using ordering_on.flip [of A ord a b] by simp
next
  case (2 a b c)
  have "ord c a \<noteq> OGreater"
    using 2 ordering_on.trans [of A ord c b a] ordering_on.flip [of A ord a b] ordering_on.flip [of A ord b c] by simp
  then show ?case using 2 ordering_on.flip [of A ord a c] by simp
qed

lemma ordering_on_lex:
  assumes f: "ordering_on A f" and g: "ordering_on B g"
  shows "ordering_on {(a, b). a \<in> A \<and> b \<in> B} (\<lambda>x y. if f (fst x) (fst y) \<noteq> OEqual then f (fst x) (fst y) else g (snd x) (snd y))"
proof (unfold_locales, goal_cases)
  case (1 x y)
  then show ?case using ordering_on.flip [OF f, of "fst x" "fst y"] ordering_on.flip [OF g, of "snd x" "snd y"] by auto
next
  case (2 x y z)
  then have m: "fst x \<in> A" "fst y \<in> A" "fst z \<in> A" "snd x \<in> B" "snd y \<in> B" "snd z \<in> B" by auto
  note fm = m(1-3) and gm = m(4-6)
  have le: "f (fst x) (fst y) \<noteq> OGreater" "f (fst y) (fst z) \<noteq> OGreater" using 2 by (auto split: if_splits)
  consider (less) "f (fst x) (fst y) = OLess \<or> f (fst y) (fst z) = OLess"
    | (equal) "f (fst x) (fst y) = OEqual" "f (fst y) (fst z) = OEqual"
    using le by (cases "f (fst x) (fst y)"; cases "f (fst y) (fst z)") auto
  then show ?case
  proof cases
    case less
    then have "f (fst x) (fst z) = OLess"
      using ordering_on.less_le_trans [OF f fm] ordering_on.le_less_trans [OF f fm] le by blast
    then show ?thesis by simp
  next
    case equal
    then show ?thesis
      using 2(4,5) ordering_on.equal_trans [OF f fm] ordering_on.trans [OF g gm] by simp
  qed
qed

lemma ordering_on_image:
  assumes "ordering_on B g" "\<And>a. a \<in> A \<Longrightarrow> h a \<in> B" "\<And>a b. a \<in> A \<Longrightarrow> b \<in> A \<Longrightarrow> f a b = g (h a) (h b)"
  shows "ordering_on A f"
proof (unfold_locales, goal_cases)
  case (1 a b)
  then show ?case using ordering_on.flip [OF assms(1), of "h a" "h b"] assms(2,3) by simp
next
  case (2 a b c)
  then show ?case using ordering_on.trans [OF assms(1), of "h a" "h b" "h c"] assms(2,3) by simp
qed

section \<open>The keys of the sort kernel\<close>

lemma finite_not_nan: "f64_is_finite x \<Longrightarrow> \<not> f64_is_nan x"
  by (auto simp: f64_is_finite_def f64_is_nan_def)

definition key_value :: "query_type \<Rightarrow> query_value set" where
  "key_value t = {v. value_of_type t v \<and> v \<noteq> VNull}"

definition compare_total :: "query_value \<Rightarrow> query_value \<Rightarrow> ordering" where
  "compare_total a b = (case compare a b of Inr c \<Rightarrow> c | Inl _ \<Rightarrow> OEqual)"

lemma compare_defined:
  assumes "ordered_type t" "a \<in> key_value t" "b \<in> key_value t"
  shows "compare a b = Inr (compare_total a b)"
  using assms base_cases(1-5) [of t a] base_cases(1-5) [of t b]
  by (auto simp: ordered_type_def key_value_def compare_def compare_total_def f64_partial_cmp_def finite_not_nan)

lemma key_values:
  assumes "a \<in> key_value t"
  shows "base_type t = TBool \<Longrightarrow> \<exists>x. a = VBool x" "base_type t = TI64 \<Longrightarrow> \<exists>x. a = VI64 x"
    "base_type t = TDecimalU64 \<Longrightarrow> \<exists>x. a = VDecimalU64 x"
    "base_type t = TF64Finite \<Longrightarrow> \<exists>x. a = VF64 x \<and> \<not> f64_is_nan x" "base_type t = TUtf8 \<Longrightarrow> \<exists>x. a = VUtf8 x"
  using assms base_cases(1-5) [of t a] by (auto simp: key_value_def dest: finite_not_nan)

lemma compare_ordering:
  assumes "ordered_type t"
  shows "ordering_on (key_value t) compare_total"
proof -
  note defs = compare_total_def compare_def f64_partial_cmp_def
  consider "base_type t = TBool" | "base_type t = TI64" | "base_type t = TDecimalU64" | "base_type t = TF64Finite" | "base_type t = TUtf8"
    using assms by (auto simp: ordered_type_def)
  then show ?thesis
  proof cases
    case 1
    show ?thesis by (rule ordering_on_cmp [where f = "\<lambda>v. case v of VBool b \<Rightarrow> b"]) (auto simp: defs dest!: key_values(1) [OF _ 1])
  next
    case 2
    show ?thesis by (rule ordering_on_cmp [where f = "\<lambda>v. case v of VI64 i \<Rightarrow> sint i"]) (auto simp: defs dest!: key_values(2) [OF _ 2])
  next
    case 3
    show ?thesis by (rule ordering_on_cmp [where f = "\<lambda>v. case v of VDecimalU64 i \<Rightarrow> i"]) (auto simp: defs dest!: key_values(3) [OF _ 3])
  next
    case 4
    show ?thesis by (rule ordering_on_cmp [where f = "\<lambda>v. case v of VF64 x \<Rightarrow> f64_key x"]) (auto simp: defs dest!: key_values(4) [OF _ 4])
  next
    case 5
    show ?thesis by (rule ordering_on_cmp [where f = "\<lambda>v. case v of VUtf8 x \<Rightarrow> x"]) (auto simp: defs dest!: key_values(5) [OF _ 5])
  qed
qed

text \<open>One key, with its direction and its place for nulls.\<close>

definition key_total :: "sort_direction \<Rightarrow> null_order \<Rightarrow> query_value \<Rightarrow> query_value \<Rightarrow> ordering" where
  "key_total d n x y = (case key_order d n x y of Inr c \<Rightarrow> c | Inl _ \<Rightarrow> OEqual)"

lemma key_order_defined:
  "ordered_type t \<Longrightarrow> value_of_type t x \<Longrightarrow> value_of_type t y \<Longrightarrow> key_order d n x y = Inr (key_total d n x y)"
  using compare_defined [of t x y] by (auto simp: key_order_def key_total_def key_value_def)

lemma key_ordering:
  assumes "ordered_type t"
  shows "ordering_on {v. value_of_type t v} (key_total d n)"
proof -
  let ?c = "\<lambda>x y. if d = SortDesc then reverse_ordering (compare_total x y) else compare_total x y"
  have c: "ordering_on (key_value t) ?c"
    using compare_ordering [OF assms] ordering_on_reverse by (cases d) auto
  have key: "key_total d n x y = (if x = VNull \<and> y = VNull then OEqual
      else if x = VNull then (if n = NullsFirst then OLess else OGreater)
      else if y = VNull then (if n = NullsFirst then OGreater else OLess) else ?c x y)"
    if "value_of_type t x" "value_of_type t y" for x y
    using that compare_defined [OF assms, of x y] by (auto simp: key_total_def key_order_def key_value_def)
  show ?thesis
  proof (unfold_locales, goal_cases)
    case (1 x y)
    then show ?case using ordering_on.flip [OF c, of x y] by (auto simp: key key_value_def)
  next
    case (2 x y z)
    then have t: "value_of_type t x" "value_of_type t y" "value_of_type t z" by simp_all
    show ?case
      using 2(4,5) ordering_on.trans [OF c, of x y z] t
      unfolding key [OF t(1,2)] key [OF t(2,3)] key [OF t(1,3)] by (auto simp: key_value_def split: if_splits)
  qed
qed

text \<open>All keys of a row, one after the other.\<close>

definition keys_total :: "sort_spec \<Rightarrow> query_value list \<Rightarrow> query_value list \<Rightarrow> ordering" where
  "keys_total ks xs ys = (case keys_order ks xs ys of Inr c \<Rightarrow> c | Inl _ \<Rightarrow> OEqual)"

definition key_rows :: "sort_spec \<Rightarrow> query_value list set" where
  "key_rows ks = {vs. list_all2 (\<lambda>k v. ordered_type (be_ty (fst k)) \<and> value_of_type (be_ty (fst k)) v) ks vs}"

lemma keys_order_defined: "xs \<in> key_rows ks \<Longrightarrow> ys \<in> key_rows ks \<Longrightarrow> keys_order ks xs ys = Inr (keys_total ks xs ys)"
proof (induction ks xs ys rule: keys_order.induct)
  case (1 e d n ks x xs y ys)
  then have k: "key_order d n x y = Inr (key_total d n x y)" using key_order_defined by (auto simp: key_rows_def)
  show ?case using 1 by (auto simp: keys_total_def k key_rows_def)
qed (auto simp: keys_total_def)

interpretation keyed: ordering_on "key_rows ks" "keys_total ks" for ks
proof (induction ks)
  case Nil
  show ?case by unfold_locales (auto simp: key_rows_def keys_total_def)
next
  case (Cons k ks)
  obtain e d n where k: "k = (e, d, n)" by (metis surj_pair)
  show ?case
  proof (cases "ordered_type (be_ty e)")
    case True
    have split: "\<exists>x ys. xs = x # ys \<and> value_of_type (be_ty e) x \<and> ys \<in> key_rows ks" if "xs \<in> key_rows (k # ks)" for xs
      using that by (auto simp: key_rows_def k list_all2_Cons1)
    show ?thesis
    proof (rule ordering_on_image [OF ordering_on_lex [OF key_ordering [OF True, of d n] Cons.IH], where h = "\<lambda>xs. (hd xs, tl xs)"])
      show "(hd xs, tl xs) \<in> {(a, b). a \<in> {v. value_of_type (be_ty e) v} \<and> b \<in> key_rows ks}" if "xs \<in> key_rows (k # ks)" for xs
        using split [OF that] by auto
      fix xs ys assume "xs \<in> key_rows (k # ks)" "ys \<in> key_rows (k # ks)"
      then obtain x xs' y ys' where xy: "xs = x # xs'" "ys = y # ys'" "value_of_type (be_ty e) x" "value_of_type (be_ty e) y"
        "xs' \<in> key_rows ks" "ys' \<in> key_rows ks" using split by meson
      show "keys_total (k # ks) xs ys =
         (if key_total d n (fst (hd xs, tl xs)) (fst (hd ys, tl ys)) \<noteq> OEqual
          then key_total d n (fst (hd xs, tl xs)) (fst (hd ys, tl ys))
          else keys_total ks (snd (hd xs, tl xs)) (snd (hd ys, tl ys)))"
        using key_order_defined [OF True xy(3,4), of d n] by (simp add: keys_total_def k xy(1,2))
    qed
  next
    case False
    then have "key_rows (k # ks) = {}" by (auto simp: key_rows_def k list_all2_Cons1)
    then show ?thesis by unfold_locales auto
  qed
qed

section \<open>The position as the last key\<close>

text \<open>On rows whose positions increase, the comparator with the position sorts as the keys alone do, stably.\<close>

definition by_keys :: "sort_spec \<Rightarrow> decorated \<Rightarrow> decorated \<Rightarrow> ordering" where
  "by_keys ks a b = keys_total ks (snd a) (snd b)"

lemma collect_map_Inr_id: "collect_results (map Inr xs) = Inr xs"
  by (induction xs) auto

lemma insert_by_cong: "(\<And>y. y \<in> set ys \<Longrightarrow> f x y = OGreater \<longleftrightarrow> g x y = OGreater) \<Longrightarrow> insert_by f x ys = insert_by g x ys"
  by (induction ys) auto

lemma sort_by_position:
  assumes "sorted_wrt (\<lambda>a b. fst a < fst b) ds" "\<forall>d\<in>set ds. snd d \<in> key_rows ks"
  shows "sort_by (row_order ks) ds = sort_by (by_keys ks) ds"
  using assms
proof (induction ds)
  case (Cons d ds)
  have "row_order ks d y = OGreater \<longleftrightarrow> by_keys ks d y = OGreater" if "y \<in> set ds" for y
    using that Cons.prems keys_order_defined [of "snd d" ks "snd y"] by (auto simp: row_order_def by_keys_def cmp_def)
  then have "insert_by (row_order ks) d (sort_by (by_keys ks) ds) = insert_by (by_keys ks) d (sort_by (by_keys ks) ds)"
    by (intro insert_by_cong) simp
  then show ?case using Cons by (simp add: sort_by_def)
qed (simp add: sort_by_def)

interpretation decorated: ordering_on "{d. snd d \<in> key_rows ks}" "by_keys ks" for ks
  by (rule ordering_on_image [OF keyed.ordering_on_axioms, where h = snd]) (auto simp: by_keys_def)

lemma filter_image: "(\<And>d. d \<in> set ds \<Longrightarrow> P d = Q (f d)) \<Longrightarrow> map f (filter P ds) = filter Q (map f ds)"
  by (induction ds) auto

lemma sort_rows_meaning:
  assumes sorted_out: "sort_rows E C ks input = Inr out"
    and keys: "\<And>r. r \<in> set input \<Longrightarrow> sort_keys E ks r = Inr (kv r) \<and> kv r \<in> key_rows ks"
  shows "mset out = mset input" "sorted_wrt (\<lambda>a b. keys_total ks (kv a) (kv b) \<noteq> OGreater) out"
    "\<And>r. r \<in> set input \<Longrightarrow> filter (\<lambda>x. keys_total ks (kv x) (kv r) = OEqual) out = filter (\<lambda>x. keys_total ks (kv x) (kv r) = OEqual) input"
proof -
  let ?ds = "map (\<lambda>(i, r). (i, kv r)) (enumerate 0 input)" and ?row = "\<lambda>d :: decorated. input ! fst d"
  have "map (\<lambda>(i, r). rbind (sort_keys E ks r) (\<lambda>vs. Inr (i, vs))) (enumerate 0 input) = map Inr ?ds"
    using keys by (auto simp: in_set_enumerate_eq)
  then have collect: "collect_results (map (\<lambda>(i, r). rbind (sort_keys E ks r) (\<lambda>vs. Inr (i, vs))) (enumerate 0 input)) = Inr ?ds"
    by (simp only: collect_map_Inr_id)
  have in_ds: "snd d = kv (?row d)" "?row d \<in> set input" "snd d \<in> key_rows ks" if "d \<in> set ?ds" for d
    using that keys by (auto simp: in_set_enumerate_eq)
  have inc: "sorted_wrt (\<lambda>a b. fst a < fst b) ?ds"
    by (simp add: sorted_wrt_map split_def sorted_wrt_iff_nth_less nth_enumerate_eq)
  have position: "sort_by (row_order ks) ?ds = sort_by (by_keys ks) ?ds"
    by (rule sort_by_position [OF inc]) (use in_ds(3) in blast)
  have out: "out = map ?row (sort_by (by_keys ks) ?ds)"
    using sorted_out unfolding sort_rows_def collect rbind.simps position
    by (auto simp: split_def split: option.splits)
  have rows: "map ?row ?ds = input"
    by (rule nth_equalityI) (auto simp: nth_enumerate_eq split_def)
  have carrier: "set ?ds \<subseteq> {d. snd d \<in> key_rows ks}" using in_ds(3) by blast
  show "mset out = mset input" unfolding out mset_map mset_sort_by using rows by (metis mset_map)
  have same: "by_keys ks a b = keys_total ks (kv (?row a)) (kv (?row b))" if "a \<in> set ?ds" "b \<in> set ?ds" for a b
    using in_ds(1) that by (simp add: by_keys_def)
  show "sorted_wrt (\<lambda>a b. keys_total ks (kv a) (kv b) \<noteq> OGreater) out"
    unfolding out sorted_wrt_map
    by (rule sorted_wrt_mono_rel [OF _ decorated.sort_by_sorted [OF carrier]]) (use same in simp)
  fix r assume "r \<in> set input"
  then obtain z where z: "z \<in> set ?ds" "?row z = r" using rows by (metis (no_types, lifting) imageE list.set_map)
  have cls: "by_keys ks d z = OEqual \<longleftrightarrow> keys_total ks (kv (?row d)) (kv r) = OEqual" if "d \<in> set ?ds" for d
    using same [OF that z(1)] z(2) by simp
  have "filter (\<lambda>x. keys_total ks (kv x) (kv r) = OEqual) out
      = map ?row (filter (\<lambda>d. by_keys ks d z = OEqual) (sort_by (by_keys ks) ?ds))"
    unfolding out by (rule filter_image [symmetric]) (use cls in simp)
  also have "\<dots> = map ?row (filter (\<lambda>d. by_keys ks d z = OEqual) ?ds)"
    using decorated.sort_by_stable [OF carrier, of z] z(1) carrier by auto
  also have "\<dots> = filter (\<lambda>x. keys_total ks (kv x) (kv r) = OEqual) (map ?row ?ds)"
    by (rule filter_image) (rule cls)
  finally show "filter (\<lambda>x. keys_total ks (kv x) (kv r) = OEqual) out = filter (\<lambda>x. keys_total ks (kv x) (kv r) = OEqual) input"
    unfolding rows .
qed

end
