(* ===== verification/GB_Grouping.thy ===== *)
theory GB_Grouping
  imports GB_Kernel_Types
begin

text \<open>
  Equality of values as the engine decides it, and what the distinct and aggregate kernels make of it:
  equality is symmetric and transitive, so rows fall into classes, of which distinct keeps the first
  members and aggregation makes the groups.
\<close>

section \<open>Equality of values\<close>

locale partial_equivalence =
  fixes eq :: "'a \<Rightarrow> 'a \<Rightarrow> bool"
  assumes sym: "eq a b \<Longrightarrow> eq b a" and trans: "eq a b \<Longrightarrow> eq b c \<Longrightarrow> eq a c"
begin

lemma lists_sym: "list_all2 eq xs ys \<Longrightarrow> list_all2 eq ys xs"
  by (auto simp: list_all2_conv_all_nth intro: sym)

lemma lists_trans: "list_all2 eq xs ys \<Longrightarrow> list_all2 eq ys zs \<Longrightarrow> list_all2 eq xs zs"
  by (rule list_all2_trans [OF trans])

lemma class_eq: "eq a b \<Longrightarrow> eq a c \<longleftrightarrow> eq b c"
  using sym trans by blast

end

interpretation f64: partial_equivalence f64_eq
  by unfold_locales (auto simp: f64_eq_def)

interpretation number: partial_equivalence number_eq
proof
  show "number_eq a b \<Longrightarrow> number_eq b a" for a b by (cases a; cases b) (auto intro: f64.sym)
  show "number_eq a b \<Longrightarrow> number_eq b c \<Longrightarrow> number_eq a c" for a b c by (cases a; cases b; cases c) (auto intro: f64.trans)
qed

lemma json_eq_sym: "json_eq a b \<Longrightarrow> json_eq b a"
proof (induction a b rule: json_eq.induct)
  case (1 a b)
  then show ?case by (auto intro: number.sym)
next
  case (2 as bs)
  then show ?case by (auto simp: list_all2_conv_all_nth)
next
  case (3 as bs)
  have "json_eq (snd (bs ! i)) (snd (as ! i))" if "i < length as" "length as = length bs" "json_eq (snd (as ! i)) (snd (bs ! i))" for i
    using "3.IH" [of "as ! i" "bs ! i" "fst (as ! i)" "snd (as ! i)"] that by simp
  then show ?case using "3.prems" by (auto simp: list_all2_conv_all_nth split_def)
qed auto

lemma json_eq_trans: "json_eq a b \<Longrightarrow> json_eq b c \<Longrightarrow> json_eq a c"
proof (induction a b arbitrary: c rule: json_eq.induct)
  case (1 a b)
  then show ?case by (cases c) (auto intro: number.trans)
next
  case (2 as bs)
  then obtain cs where c: "c = JArray cs" by (cases c) auto
  have "json_eq (as ! i) (cs ! i)" if "i < length as" "length as = length bs" "json_eq (as ! i) (bs ! i)" "json_eq (bs ! i) (cs ! i)" for i
    using "2.IH" [of "as ! i" "bs ! i"] that by simp
  then show ?case using "2.prems" by (auto simp: c list_all2_conv_all_nth)
next
  case (3 as bs)
  then obtain cs where c: "c = JObject cs" by (cases c) auto
  have "json_eq (snd (as ! i)) (snd (cs ! i))" if "i < length as" "length as = length bs"
    "json_eq (snd (as ! i)) (snd (bs ! i))" "json_eq (snd (bs ! i)) (snd (cs ! i))" for i
    using "3.IH" [of "as ! i" "bs ! i" "fst (as ! i)" "snd (as ! i)"] that by simp
  then show ?case using "3.prems" by (auto simp: c list_all2_conv_all_nth split_def)
qed auto

interpretation json: partial_equivalence json_eq
  by unfold_locales (blast intro: json_eq_sym json_eq_trans)+

lemma value_eq_sym: "value_eq a b \<Longrightarrow> value_eq b a"
proof (induction a arbitrary: b)
  case (VList xs)
  then obtain ys where "b = VList ys" by (cases b) auto
  then show ?case using VList by (auto simp: list_all2_conv_all_nth)
qed (auto intro: f64.sym json.sym f64.lists_sym split: query_value.splits)

lemma value_eq_trans: "value_eq a b \<Longrightarrow> value_eq b c \<Longrightarrow> value_eq a c"
proof (induction a arbitrary: b c)
  case (VList xs)
  then obtain ys where y: "b = VList ys" by (cases b) auto
  then obtain zs where z: "c = VList zs" using VList.prems(2) by (cases c) auto
  have "value_eq (xs ! i) (zs ! i)" if "i < length xs" "value_eq (xs ! i) (ys ! i)" "value_eq (ys ! i) (zs ! i)" for i
    using VList.IH [of "xs ! i"] that by simp
  then show ?case using VList.prems by (auto simp: y z list_all2_conv_all_nth)
next
  case (VF64 x)
  then obtain y where "b = VF64 y" by (cases b) auto
  then show ?case using VF64 by (cases c) (auto intro: f64.trans)
next
  case (VJson x)
  then obtain y where "b = VJson y" by (cases b) auto
  then show ?case using VJson by (cases c) (auto intro: json.trans)
next
  case (VVector x)
  then obtain y where "b = VVector y" by (cases b) auto
  then show ?case using VVector by (cases c) (auto intro: f64.lists_trans)
next
  case (VScore x)
  then obtain y where "b = VScore y" by (cases b) auto
  then show ?case using VScore by (cases c) (auto intro: f64.trans)
qed simp_all

interpretation val: partial_equivalence value_eq
  by unfold_locales (blast intro: value_eq_sym value_eq_trans)+

interpretation rows: partial_equivalence rows_eq
  by unfold_locales (auto simp: rows_eq_def intro: val.lists_sym val.lists_trans)

section \<open>Distinct\<close>

text \<open>The positions of the rows that equal no earlier row.\<close>

definition first_members :: "exec_row list \<Rightarrow> nat list" where
  "first_members rs = filter (\<lambda>i. list_all (\<lambda>j. \<not> rows_eq (rs ! j) (rs ! i)) [0..<i]) [0..<length rs]"

lemma first_members_snoc:
  "first_members (rs @ [r]) = first_members rs @ (if list_ex (\<lambda>old. rows_eq old r) rs then [] else [length rs])"
proof -
  have "filter (\<lambda>i. list_all (\<lambda>j. \<not> rows_eq ((rs @ [r]) ! j) ((rs @ [r]) ! i)) [0..<i]) [0..<length rs] = first_members rs"
    unfolding first_members_def by (rule filter_cong) (auto simp: nth_append list_all_iff)
  moreover have "list_all (\<lambda>j. \<not> rows_eq ((rs @ [r]) ! j) r) [0..<length rs] \<longleftrightarrow> \<not> list_ex (\<lambda>old. rows_eq old r) rs"
    by (auto simp: list_all_length list_ex_length nth_append)
  ultimately show ?thesis by (simp add: first_members_def nth_append)
qed

lemma first_members_less: "i \<in> set (first_members rs) \<Longrightarrow> i < length rs"
  by (auto simp: first_members_def)

lemma first_member_covers:
  assumes "old \<in> set rs" "rows_eq old r"
  shows "\<exists>i\<in>set (first_members rs). rows_eq (rs ! i) r"
  using assms
proof (induction rs arbitrary: old rule: rev_induct)
  case (snoc x rs)
  have earlier: ?case if o': "o' \<in> set rs" "rows_eq o' r" for o'
  proof -
    obtain i where "i \<in> set (first_members rs)" "rows_eq (rs ! i) r" using snoc.IH [OF o'] by blast
    then show ?thesis using first_members_less [of i rs] by (auto simp: first_members_snoc nth_append)
  qed
  show ?case
  proof (cases "list_ex (\<lambda>o'. rows_eq o' x) rs")
    case True
    then obtain o' where o': "o' \<in> set rs" "rows_eq o' x" by (auto simp: list_ex_iff)
    show ?thesis
    proof (cases "old = x")
      case True
      then show ?thesis using earlier [OF o'(1)] rows.trans [OF o'(2)] snoc.prems(2) by simp
    next
      case False
      then show ?thesis using earlier snoc.prems by simp
    qed
  next
    case False
    then show ?thesis using earlier snoc.prems by (cases "old = x") (auto simp: first_members_snoc)
  qed
qed simp

lemma unique_rows_members:
  "map ((!) ps) (first_members ps) @ unique_rows (map ((!) ps) (first_members ps)) rs = map ((!) (ps @ rs)) (first_members (ps @ rs))"
proof (induction rs arbitrary: ps)
  case (Cons r rs)
  have seen: "list_ex (\<lambda>old. rows_eq old r) (map ((!) ps) (first_members ps)) \<longleftrightarrow> list_ex (\<lambda>old. rows_eq old r) ps"
    using first_member_covers [of _ ps r] first_members_less [of _ ps] by (fastforce simp: list_ex_iff)
  have step: "map ((!) (ps @ [r])) (first_members (ps @ [r]))
      = map ((!) ps) (first_members ps) @ (if list_ex (\<lambda>old. rows_eq old r) ps then [] else [r])"
    using first_members_less [of _ ps] by (auto simp: first_members_snoc nth_append)
  show ?case using Cons.IH [of "ps @ [r]"] unfolding step by (cases "list_ex (\<lambda>old. rows_eq old r) ps") (simp_all add: seen)
qed simp

lemma unique_rows_are_first_members: "unique_rows [] rs = map ((!) rs) (first_members rs)"
  using unique_rows_members [of "[]" rs] by (simp add: first_members_def)

section \<open>Groups\<close>

lemma first_members_apart:
  assumes "p < length (first_members rs)" "q < length (first_members rs)" "p \<noteq> q"
  shows "\<not> rows_eq (rs ! (first_members rs ! p)) (rs ! (first_members rs ! q))"
proof -
  have apart: "\<not> rows_eq (rs ! i) (rs ! j)" if "i \<in> set (first_members rs)" "j \<in> set (first_members rs)" "i \<noteq> j" for i j
  proof (cases "i < j")
    case True
    then show ?thesis using that(2) by (auto simp: first_members_def list_all_iff)
  next
    case False
    then have "\<not> rows_eq (rs ! j) (rs ! i)" using that by (auto simp: first_members_def list_all_iff)
    then show ?thesis using rows.sym by blast
  qed
  have "distinct (first_members rs)" by (simp add: first_members_def)
  then show ?thesis using apart assms by (simp add: nth_eq_iff_index_eq)
qed

lemma key_index_Some:
  "key_index key bs = Some j \<Longrightarrow> j < length bs \<and> rows_eq (fst (bs ! j)) key"
  by (induction bs arbitrary: j) (auto split: if_splits)

lemma key_index_None: "key_index key bs = None \<longleftrightarrow> (\<forall>b\<in>set bs. \<not> rows_eq (fst b) key)"
  by (induction bs) (auto split: if_splits)

definition group_of :: "(exec_row \<times> exec_row) list \<Rightarrow> nat \<Rightarrow> bucket" where
  "group_of krs i = (fst (krs ! i), map snd (filter (\<lambda>kr. rows_eq (fst (krs ! i)) (fst kr)) krs))"

lemma group_of_snoc:
  "i < length krs \<Longrightarrow> group_of (krs @ [kr]) i =
     (fst (group_of krs i), snd (group_of krs i) @ (if rows_eq (fst (krs ! i)) (fst kr) then [snd kr] else []))"
  by (simp add: group_of_def nth_append)

lemma buckets_are_groups:
  assumes "list_all (\<lambda>kr. rows_eq (fst kr) (fst kr)) krs"
  shows "fold add_to_bucket krs [] = map (group_of krs) (first_members (map fst krs))"
  using assms
proof (induction krs rule: rev_induct)
  case (snoc kr krs)
  let ?is = "first_members (map fst krs)"
  have old: "fold add_to_bucket krs [] = map (group_of krs) ?is" and refl: "rows_eq (fst kr) (fst kr)" using snoc by simp_all
  have add: "fold add_to_bucket (krs @ [kr]) [] = add_to_bucket kr (map (group_of krs) ?is)" by (simp add: old)
  have less: "i < length krs" if "i \<in> set ?is" for i using first_members_less [OF that] by simp
  have fst_group: "fst (group_of krs i) = fst (krs ! i)" for i by (simp add: group_of_def)
  show ?case
  proof (cases "key_index (fst kr) (map (group_of krs) ?is)")
    case None
    then have none: "\<not> rows_eq (fst (krs ! i)) (fst kr)" if "i \<in> set ?is" for i
      using that by (auto simp: key_index_None fst_group)
    then have new: "\<not> list_ex (\<lambda>old. rows_eq old (fst kr)) (map fst krs)"
      using first_member_covers [of _ "map fst krs" "fst kr"] less by (fastforce simp: list_ex_iff)
    have "filter (\<lambda>x. rows_eq (fst kr) (fst x)) krs = []"
      using new rows.sym by (auto simp: list_ex_iff filter_empty_conv)
    then have "group_of (krs @ [kr]) (length krs) = (fst kr, [snd kr])"
      using refl by (simp add: group_of_def nth_append)
    moreover have "map (group_of (krs @ [kr])) ?is = map (group_of krs) ?is"
      using none less by (simp add: group_of_snoc)
    ultimately show ?thesis using new unfolding add by (simp add: add_to_bucket_def None first_members_snoc)
  next
    case (Some j)
    then have j: "j < length ?is" "rows_eq (fst (krs ! (?is ! j))) (fst kr)"
      using key_index_Some [OF Some] by (auto simp: fst_group)
    then have seen: "list_ex (\<lambda>old. rows_eq old (fst kr)) (map fst krs)"
      using less [of "?is ! j"] by (auto simp: list_ex_iff)
    have "bucket_push (map (group_of krs) ?is) j (snd kr) = map (group_of (krs @ [kr])) ?is"
    proof (rule nth_equalityI)
      fix p assume "p < length (bucket_push (map (group_of krs) ?is) j (snd kr))"
      then have p: "p < length ?is" by (simp add: bucket_push_def)
      have "\<not> rows_eq (fst (krs ! (?is ! p))) (fst kr)" if "p \<noteq> j"
      proof
        assume "rows_eq (fst (krs ! (?is ! p))) (fst kr)"
        then have "rows_eq (fst (krs ! (?is ! p))) (fst (krs ! (?is ! j)))" using rows.trans rows.sym j(2) by blast
        then show False using first_members_apart [OF p j(1) that] less [of "?is ! p"] less [of "?is ! j"] p j(1) by simp
      qed
      then show "bucket_push (map (group_of krs) ?is) j (snd kr) ! p = map (group_of (krs @ [kr])) ?is ! p"
        using p j less [of "?is ! p"] by (cases "p = j") (auto simp: bucket_push_def group_of_snoc)
    qed (simp add: bucket_push_def)
    then show ?thesis using seen unfolding add by (simp add: add_to_bucket_def Some first_members_snoc)
  qed
qed (simp add: first_members_def)

text \<open>Without a group expression all rows are in one group, which exists also when there are none.\<close>

lemma one_group: "list_all (\<lambda>kr. fst kr = []) krs \<Longrightarrow> fold add_to_bucket krs [([], rs)] = [([], rs @ map snd krs)]"
  by (induction krs arbitrary: rs) (auto simp: add_to_bucket_def bucket_push_def rows_eq_def)

end
