(* ===== verification/GB_Relational.thy ===== *)
theory GB_Relational
  imports GB_Sorting GB_Grouping
begin

text \<open>
  The relational operators from binding to rows: the property slots of an operator, the types of the
  rows it returns, and what each operator computes.
\<close>

section \<open>Property slots of an operator\<close>

definition kernel_fields :: "kernel \<Rightarrow> field_id list" where
  "kernel_fields k = concat (map property_fields (kernel_expression_roots k))"

lemma bind_named_numbered: "bind_named B fs lo = Inr ((cols, es), hi) \<Longrightarrow> slots_between (concat (map property_fields es)) lo hi"
proof -
  assume "bind_named B fs lo = Inr ((cols, es), hi)"
  then obtain ces where ces: "map_st (bind_field_expr B) fs lo = Inr (ces, hi)" "es = map snd ces"
    by (auto simp: bind_named_def)
  have "slots_between (concat (map (property_fields \<circ> snd) ces)) lo hi"
    by (rule map_st_numbered [OF _ ces(1)]) (auto simp: bind_field_expr_def split: if_splits dest: bind_expr_numbered)
  then show ?thesis by (simp add: ces(2) comp_def)
qed

lemma bind_aggregate_numbered:
  "bind_aggregate B named lo = Inr ((c, call), hi) \<Longrightarrow>
     slots_between (case ag_arg call of None \<Rightarrow> [] | Some e \<Rightarrow> property_fields e) lo hi"
proof -
  assume b: "bind_aggregate B named lo = Inr ((c, call), hi)"
  then obtain f args where f: "ne_expression named = ECall f args" by (cases "ne_expression named") (auto simp: bind_aggregate_def)
  then obtain bs where bs: "map_st (bind_expr B 0) args lo = Inr (bs, hi)" "length args \<le> 1"
    and call: "ag_arg call = (case bs of [] \<Rightarrow> None | b # _ \<Rightarrow> Some b)"
    using b by (auto simp: bind_aggregate_def Let_def split: if_splits)
  have "slots_between (concat (map property_fields bs)) lo hi"
    by (rule map_st_numbered [OF _ bs(1)]) (auto dest: bind_expr_numbered)
  moreover have "length bs \<le> 1" using map_st_Inr_length [OF bs(1)] bs(2) by simp
  ultimately show ?thesis using call by (cases bs) auto
qed

lemma aggregate_fields:
  "concat (map (\<lambda>ca. case ag_arg (snd ca) of None \<Rightarrow> [] | Some e \<Rightarrow> property_fields e) cas)
     = concat (map property_fields (List.map_filter ag_arg (map snd cas)))"
  by (induction cas) (auto simp: List.map_filter_simps split: option.splits)

lemma bind_relational_numbered:
  assumes "bind_relational B r cfg lo = Some (Inr (cols, k, hi))"
  shows "slots_between (kernel_fields k) lo hi"
proof (cases cfg)
  case (CSort keys)
  then obtain ks where ks: "map_st (bind_sort_key B) keys lo = Inr (ks, hi)" "k = KSort ks"
    using assms by (auto simp: bind_relational_def split: if_splits)
  have "slots_between (concat (map (property_fields \<circ> fst) ks)) lo hi"
    by (rule map_st_numbered [OF _ ks(1)]) (auto simp: bind_sort_key_def split: if_splits dest: bind_expr_numbered)
  then show ?thesis by (simp add: kernel_fields_def ks(2) kernel_expression_roots_def comp_def)
next
  case (CAggregate gs aggs)
  then obtain columns groups mid cas where g: "bind_named B gs lo = Inr ((columns, groups), mid)"
    and cas: "map_st (bind_aggregate B) aggs mid = Inr (cas, hi)" and k: "k = KAggregate groups (map snd cas)"
    using assms by (auto simp: bind_relational_def bind_grouping_def Let_def split: if_splits)
  have "slots_between (concat (map (\<lambda>ca. case ag_arg (snd ca) of None \<Rightarrow> [] | Some e \<Rightarrow> property_fields e) cas)) mid hi"
    by (rule map_st_numbered [OF _ cas]) (auto dest: bind_aggregate_numbered)
  then show ?thesis
    using bind_named_numbered [OF g] unfolding aggregate_fields
    by (simp add: kernel_fields_def k kernel_expression_roots_def slots_between_append)
next
  case (CValues param nm)
  then show ?thesis using bind_values assms by (fastforce simp: kernel_fields_def kernel_expression_roots_def)
qed (use assms in \<open>auto simp: bind_relational_def bind_join_def Let_def kernel_fields_def kernel_expression_roots_def
      split: if_splits dest: bind_expr_numbered bind_named_numbered\<close>)

lemma bind_relational_no_scan: "bind_relational B r cfg nxt = Some (Inr (cols, k, nxt')) \<Longrightarrow> k \<noteq> KSourceScan src"
proof (cases cfg)
  case (CValues param nm)
  then show "bind_relational B r cfg nxt = Some (Inr (cols, k, nxt')) \<Longrightarrow> k \<noteq> KSourceScan src" using bind_values by blast
qed (auto simp: bind_relational_def bind_join_def bind_grouping_def Let_def split: if_splits)

lemma sort_rows_error:
  assumes keys: "\<And>r v. r \<in> set input \<Longrightarrow> sort_keys E ks r = Inr v \<Longrightarrow> v \<in> key_rows ks" and C: "sorts_its_list C"
    and err: "sort_rows E C ks input = Inl err"
  shows "\<exists>r\<in>set input. sort_keys E ks r = Inl err"
proof (rule ccontr)
  assume no: "\<not> ?thesis"
  let ?f = "\<lambda>(i, r). rbind (sort_keys E ks r) (\<lambda>vs. Inr (i, vs))"
  have "case collect_results (map ?f (enumerate 0 input)) of
      Inr ds \<Rightarrow> list_all2 (\<lambda>_ d. snd d \<in> key_rows ks) (enumerate 0 input) ds | Inl e \<Rightarrow> \<exists>r\<in>set input. sort_keys E ks r = Inl e"
  proof (rule collect_map_all)
    fix ir assume "ir \<in> set (enumerate 0 input)"
    then have "fst ir < length input" "input ! fst ir = snd ir" by (auto simp: in_set_enumerate_eq)
    then have "snd ir \<in> set input" using nth_mem by metis
    then show "case ?f ir of Inr d \<Rightarrow> snd d \<in> key_rows ks | Inl e \<Rightarrow> \<exists>r\<in>set input. sort_keys E ks r = Inl e"
      using keys by (cases "sort_keys E ks (snd ir)") (auto simp: split_def)
  qed
  then obtain ds where collected: "collect_results (map ?f (enumerate 0 input)) = Inr ds"
    and all: "list_all2 (\<lambda>_ d. snd d \<in> key_rows ks) (enumerate 0 input) ds"
    using no err by (cases "collect_results (map ?f (enumerate 0 input))") (auto simp: sort_rows_def)
  have ds: "snd d \<in> key_rows ks" if "d \<in> set ds" for d
    using all that by (auto simp: list_all2_conv_all_nth in_set_conv_nth)
  have "sort_error ks pairs None = None" if "\<forall>(a, b)\<in>set pairs. a \<in> set ds \<and> b \<in> set ds" for pairs
    using that
  proof (induction pairs)
    case (Cons ab pairs)
    then show ?case using keys_order_defined [OF ds ds] by (cases ab) auto
  qed simp
  then have "sort_error ks (ko_comparisons C ds) None = None" using C unfolding sorts_its_list_def by blast
  then show False using err by (simp add: sort_rows_def collected)
qed

lemma sort_keys_typed:
  assumes "list_all (\<lambda>(e, _, _). well_bound l e \<and> ordered_type (be_ty e)) ks" "row_typed l r"
    and "hydration_fits (xe_hydrated E) (concat (map property_fields (map fst ks)))" "sort_keys E ks r = Inr v"
  shows "v \<in> key_rows ks"
proof -
  have "list_all (well_bound l) (map fst ks)" using assms(1) by (auto simp: list_all_iff)
  from exprs_ok [OF this assms(2,3), of False] have "list_all2 value_of_type (map be_ty (map fst ks)) v"
    using assms(4) by (simp add: sort_keys_def)
  then show ?thesis using assms(1) by (auto simp: key_rows_def list_all2_conv_all_nth list_all_length split_def)
qed

section \<open>Properties\<close>

text \<open>C16 The kernels refine a relational algebra. Every relational kernel, with its charges to the memory budget
  and its readings of the clock, returns exactly the rows, or fails with exactly the error, of the
  algebra without budgets; the only other outcome is the quota error.\<close>

theorem kernels_refine_the_algebra:
  "case run_kernel E C source k inputs st of
     Inr (rs, _) \<Rightarrow> algebra E C source k inputs = Inr rs
   | Inl err \<Rightarrow> err = quota \<or> algebra E C source k inputs = Inl err"
  using run_kernel_transparent [of E C source k inputs st] unfolding transparent_def .

text \<open>Typed rows. Bind a relational operator over the columns of its inputs and the decoded parameters,
  and run its kernel on rows of these columns with property values from validated batches. The rows
  it returns have the columns binding announced; otherwise it fails with the quota error, a division
  by zero, an integer overflow, a result that is not finite or a property value that was not fetched,
  and with \<open>bound_type\<close> only where a nullable column or name is read as if it were not.\<close>

theorem kernels_keep_rows_typed:
  assumes "decode_parameters F R types params Map.empty = Inr P"
    and "bind_relational \<lparr>bn_floats = F, bn_refs = R, bn_scope = l, bn_params = P\<rparr> r cfg nxt = Some (Inr (cols, k, nxt'))"
    and "list_all (row_typed l) a" "list_all (row_typed r) b"
    and "list_all (\<lambda>(_, gs, _). slots_of gs (kernel_fields k)) batches"
    and "add_batches batches Map.empty = Inr (xe_hydrated E)"
    and "sorts_its_list C"
  shows "case run_kernel E C source k (kernel_inputs k a b) st of
      Inr (rs, _) \<Rightarrow> list_all (row_typed cols) rs
    | Inl err \<Rightarrow> err \<in> {quota, failure ''division_by_zero'', failure ''integer_overflow'', failure ''nonfinite_result'',
          failure ''source_hydration_missing''}
        \<or> \<not> kernel_null_safe (kernel_scope k l r) k \<and> err = failure ''bound_type''"
proof -
  have "parameters_typed P" using decode_parameters_typed [OF assms(1)] by (simp add: parameters_typed_def)
  then have "well_kernel l r cols k" using bind_relational_well [OF _ assms(2)] by simp
  moreover have "hydration_fits (xe_hydrated E) (kernel_fields k)"
    using add_batches_fits [OF _ assms(6,5)] bind_relational_numbered [OF assms(2)] by (simp add: slots_between_def)
  ultimately have "rows_ok (kernel_null_safe (kernel_scope k l r) k) cols (algebra E C source k (kernel_inputs k a b))"
    using algebra_ok [OF _ assms(3,4)] bind_relational_no_scan [OF assms(2)] assms(7) unfolding kernel_fields_def by blast
  then show ?thesis
    using run_kernel_transparent [of E C source k "kernel_inputs k a b" st]
    by (cases "run_kernel E C source k (kernel_inputs k a b) st") (auto simp: transparent_def rows_ok_def runtime_errors_def)
qed

lemma pure_eval_field [simp]: "pure_eval E vs (Bound ty (XField i)) = row_get vs i"
  by (simp add: pure_eval.simps [of E vs "Bound ty (XField i)"] bound_operands_def pure_build_def)

definition sample_kernel_ops :: kernel_ops where
  "sample_kernel_ops = \<lparr>ko_size_word = 8, ko_comparisons = (\<lambda>ds. [(a, b). a \<leftarrow> ds, b \<leftarrow> ds])\<rparr>"

lemma sample_sorts [simp]: "sorts_its_list sample_kernel_ops"
  by (auto simp: sorts_its_list_def sample_kernel_ops_def)

theorem kernels_keep_rows_typed_witness:
  "case run_kernel (sample_env\<lparr>xe_hydrated := Map.empty\<rparr>) sample_kernel_ops None
      (KJoin JoinLeft (Bound (TNullable TBool) (XBinary OpEq (Bound TUtf8 (XField 0)) (Bound (TNullable TUtf8) (XField 1)))) 1)
      [[[VUtf8 ''x''], [VUtf8 ''y'']], [[VUtf8 ''y''], [VNull]]] (sample_budget, 0) of
      Inr (rs, _) \<Rightarrow> list_all (row_typed [\<lparr>col_name = ''s'', col_ty = TUtf8\<rparr>, \<lparr>col_name = ''t'', col_ty = TNullable TUtf8\<rparr>]) rs
    | Inl err \<Rightarrow> err \<in> {quota, failure ''division_by_zero'', failure ''integer_overflow'', failure ''nonfinite_result'',
          failure ''source_hydration_missing''}"
proof -
  let ?F = "\<lparr>as_f64 = (\<lambda>_. None), through_f32 = id\<rparr>" and ?R = "\<lambda>_. Inl (invalid []) :: record_ref contract"
  let ?l = "[\<lparr>col_name = ''s'', col_ty = TUtf8\<rparr>]" and ?r = "[\<lparr>col_name = ''t'', col_ty = TNullable TUtf8\<rparr>]"
  let ?e = "EBinary OpEq (EField \<lparr>fr_alias = ''s'', fr_path = []\<rparr>) (EField \<lparr>fr_alias = ''t'', fr_path = []\<rparr>)"
  let ?c = "Bound (TNullable TBool) (XBinary OpEq (Bound TUtf8 (XField 0)) (Bound (TNullable TUtf8) (XField 1)))"
  have 1: "decode_parameters ?F ?R None [] Map.empty = Inr Map.empty" by simp
  have 2: "bind_relational \<lparr>bn_floats = ?F, bn_refs = ?R, bn_scope = ?l, bn_params = Map.empty\<rparr> ?r (CJoin JoinLeft ?e) 0
      = Some (Inr (?l @ ?r, KJoin JoinLeft ?c 1, 0))"
    unfolding bind_relational_def bind_join_def bind_expr_is_recursive
    by (simp add: bind_recursive.simps bind_depth_def bind_build_def bind_field_def bind_binary_def resolve_nulls_def
        binary_type_def equality_comparable_def ordered_type_def boolean_type_def nullable_if_def as_nullable_def
        unique_columns_def join_columns_def)
  have 3: "list_all (row_typed ?l) [[VUtf8 ''x''], [VUtf8 ''y'']]" "list_all (row_typed ?r) [[VUtf8 ''y''], [VNull]]"
    by (simp_all add: row_typed_def)
  have 5: "add_batches [] Map.empty = Inr (xe_hydrated (sample_env\<lparr>xe_hydrated := Map.empty\<rparr>))" by simp
  show ?thesis
    using kernels_keep_rows_typed [OF 1 2 3 _ 5 sample_sorts, of None "(sample_budget, 0)"]
    by (auto simp: kernel_inputs_def kernel_null_safe_def kernel_scope_def kernel_expression_roots_def split: sum.splits)
qed

text \<open>C17 Sorting. The sort kernel returns a rearrangement of its input that is ordered by the keys (each with
  its direction and its place for nulls) and keeps the order of rows with equal keys; it fails only
  with the quota error or because a key of a row does not evaluate.\<close>

theorem sort_kernel_sorts_stably:
  assumes "parameters_typed (bn_params B)" "bind_relational B r (CSort keys) nxt = Some (Inr (cols, KSort ks, nxt'))"
    and "list_all (row_typed (bn_scope B)) input" "hydration_fits (xe_hydrated E) (kernel_fields (KSort ks))" "sorts_its_list C"
  shows "case run_kernel E C source (KSort ks) [input] st of
      Inr (out, _) \<Rightarrow> mset out = mset input \<and>
        (\<exists>kv. list_all (\<lambda>r. sort_keys E ks r = Inr (kv r)) input
          \<and> sorted_wrt (\<lambda>a b. keys_order ks (kv a) (kv b) \<in> {Inr OLess, Inr OEqual}) out
          \<and> list_all (\<lambda>r. filter (\<lambda>x. keys_order ks (kv x) (kv r) = Inr OEqual) out
               = filter (\<lambda>x. keys_order ks (kv x) (kv r) = Inr OEqual) input) input)
    | Inl err \<Rightarrow> err = quota \<or> list_ex (\<lambda>r. sort_keys E ks r = Inl err) input"
proof -
  have well: "list_all (\<lambda>(e, _, _). well_bound (bn_scope B) e \<and> ordered_type (be_ty e)) ks"
    using bind_relational_well [OF assms(1,2)] by (simp add: well_kernel_def)
  have fits: "hydration_fits (xe_hydrated E) (concat (map property_fields (map fst ks)))"
    using assms(4) by (simp add: kernel_fields_def kernel_expression_roots_def)
  have typed: "v \<in> key_rows ks" if "r \<in> set input" "sort_keys E ks r = Inr v" for r v
    using sort_keys_typed [OF well _ fits] that assms(3) by (auto simp: list_all_iff)
  have run: "case run_kernel E C source (KSort ks) [input] st of
      Inr (rs, _) \<Rightarrow> sort_rows E C ks input = Inr rs | Inl err \<Rightarrow> err = quota \<or> sort_rows E C ks input = Inl err"
    using run_kernel_transparent [of E C source "KSort ks" "[input]" st] by (simp add: transparent_def algebra_def first_input_def)
  show ?thesis
  proof (cases "run_kernel E C source (KSort ks) [input] st")
    case (Inl err)
    then show ?thesis using run sort_rows_error [OF typed assms(5)] by (auto simp: list_ex_iff)
  next
    case (Inr res)
    obtain out st' where res: "res = (out, st')" by (cases res)
    then have out: "sort_rows E C ks input = Inr out" using run Inr by simp
    let ?kv = "\<lambda>r. projr (sort_keys E ks r)"
    have "case collect_results (map (\<lambda>(i, r). rbind (sort_keys E ks r) (\<lambda>vs. Inr (i, vs))) (enumerate 0 input)) of
        Inr ds \<Rightarrow> list_all2 (\<lambda>ir d. sort_keys E ks (snd ir) = Inr (snd d)) (enumerate 0 input) ds | Inl _ \<Rightarrow> True"
      by (rule collect_map_all) (auto split: sum.splits)
    then have "\<exists>v. sort_keys E ks r = Inr v" if "r \<in> set input" for r
      using out that
      by (auto simp: sort_rows_def list_all2_conv_all_nth nth_enumerate_eq in_set_conv_nth)
    then have keys: "sort_keys E ks r = Inr (?kv r) \<and> ?kv r \<in> key_rows ks" if "r \<in> set input" for r
      using typed that by fastforce
    have meaning: "mset out = mset input" "sorted_wrt (\<lambda>a b. keys_total ks (?kv a) (?kv b) \<noteq> OGreater) out"
      "\<And>r. r \<in> set input \<Longrightarrow> filter (\<lambda>x. keys_total ks (?kv x) (?kv r) = OEqual) out = filter (\<lambda>x. keys_total ks (?kv x) (?kv r) = OEqual) input"
      by (rule sort_rows_meaning [OF out]; use keys in blast)+
    have sub: "set out = set input" using meaning(1) by (metis set_mset_mset)
    have eq: "keys_order ks (?kv a) (?kv b) = Inr (keys_total ks (?kv a) (?kv b))" if "a \<in> set input" "b \<in> set input" for a b
      using keys_order_defined keys that by blast
    have le: "keys_order ks (?kv a) (?kv b) \<in> {Inr OLess, Inr OEqual}"
      if "a \<in> set out" "b \<in> set out" "keys_total ks (?kv a) (?kv b) \<noteq> OGreater" for a b
      using eq that sub by (cases "keys_total ks (?kv a) (?kv b)") auto
    have "sorted_wrt (\<lambda>a b. keys_order ks (?kv a) (?kv b) \<in> {Inr OLess, Inr OEqual}) out"
      by (rule sorted_wrt_mono_rel [OF _ meaning(2)]) (use le in blast)
    moreover have "filter (\<lambda>x. keys_order ks (?kv x) (?kv r) = Inr OEqual) out = filter (\<lambda>x. keys_order ks (?kv x) (?kv r) = Inr OEqual) input"
      if r: "r \<in> set input" for r
    proof -
      have cls: "filter (\<lambda>x. keys_order ks (?kv x) (?kv r) = Inr OEqual) xs = filter (\<lambda>x. keys_total ks (?kv x) (?kv r) = OEqual) xs"
        if "set xs \<subseteq> set input" for xs
        by (rule filter_cong) (use eq r that in auto)
      show ?thesis using meaning(3) [OF r] cls [of out] cls [of input] sub by simp
    qed
    ultimately show ?thesis
      unfolding Inr res sum.case prod.case list_all_iff using meaning(1) keys by (intro conjI exI [of _ ?kv]) auto
  qed
qed

theorem sort_kernel_sorts_stably_witness:
  "case run_kernel (sample_env\<lparr>xe_hydrated := Map.empty\<rparr>) sample_kernel_ops None
      (KSort [(Bound (TNullable TUtf8) (XField 0), SortDesc, NullsLast)]) [[[VUtf8 ''a''], [VNull], [VUtf8 ''b'']]] (sample_budget, 0) of
      Inr (out, _) \<Rightarrow> mset out = mset [[VUtf8 ''a''], [VNull], [VUtf8 ''b'']]
    | Inl err \<Rightarrow> err = quota"
proof -
  let ?F = "\<lparr>as_f64 = (\<lambda>_. None), through_f32 = id\<rparr>" and ?R = "\<lambda>_. Inl (invalid []) :: record_ref contract"
  let ?s = "[\<lparr>col_name = ''s'', col_ty = TNullable TUtf8\<rparr>]" and ?k = "Bound (TNullable TUtf8) (XField 0)"
  let ?B = "\<lparr>bn_floats = ?F, bn_refs = ?R, bn_scope = ?s, bn_params = Map.empty\<rparr>"
  have 1: "parameters_typed (bn_params ?B)" by (simp add: parameters_typed_def)
  have 2: "bind_relational ?B [] (CSort [\<lparr>sk_expression = EField \<lparr>fr_alias = ''s'', fr_path = []\<rparr>, sk_direction = SortDesc, sk_nulls = NullsLast\<rparr>]) 0
      = Some (Inr (?s, KSort [(?k, SortDesc, NullsLast)], 0))"
    unfolding bind_relational_def bind_sort_key_def bind_expr_is_recursive
    by (simp add: bind_recursive.simps bind_depth_def bind_build_def bind_field_def ordered_type_def unique_columns_def)
  show ?thesis
    using sort_kernel_sorts_stably [OF 1 2, of "[[VUtf8 ''a''], [VNull], [VUtf8 ''b'']]" "sample_env\<lparr>xe_hydrated := Map.empty\<rparr>"
        sample_kernel_ops None "(sample_budget, 0)"]
    by (auto simp: row_typed_def hydration_fits_def kernel_fields_def kernel_expression_roots_def sort_keys_def row_get_def
        split: sum.splits)
qed

text \<open>Duplicates. The distinct kernel keeps exactly the rows that no earlier row equals, in their order;
  a row that is not equal to itself (it has a number that is not one) is always kept. Its only failure
  is the quota error.\<close>

theorem distinct_keeps_first_members:
  "case run_kernel E C source KDistinct [input] st of
     Inr (out, _) \<Rightarrow> out = map ((!) input) (first_members input)
   | Inl err \<Rightarrow> err = quota"
  using run_kernel_transparent [of E C source KDistinct "[input]" st]
  by (auto simp: transparent_def algebra_def first_input_def unique_rows_are_first_members split: sum.splits)

text \<open>C18 Groups. When the group expressions evaluate on every row to keys that equal themselves, the aggregate
  kernel returns one row per class of equal keys, in the order in which the keys first occur: the key and
  the aggregates over all rows of the class in their order. It fails only where one of these aggregates
  does or with the quota error.\<close>

theorem aggregate_kernel_partitions:
  assumes "groups \<noteq> []" "collect_results (map (row_key E groups) input) = Inr krs"
    and "list_all (\<lambda>kr. rows_eq (fst kr) (fst kr)) krs"
  shows "case run_kernel E C source (KAggregate groups aggregates) [input] st of
      Inr (out, _) \<Rightarrow> flat_rows (bucket_row E aggregates) (map (group_of krs) (first_members (map fst krs))) = Inr out
    | Inl err \<Rightarrow> err = quota \<or> flat_rows (bucket_row E aggregates) (map (group_of krs) (first_members (map fst krs))) = Inl err"
  using run_kernel_transparent [of E C source "KAggregate groups aggregates" "[input]" st] assms(1,2)
  by (simp add: transparent_def algebra_def first_input_def aggregate_rows_def buckets_are_groups [OF assms(3)])

theorem aggregate_kernel_partitions_witness:
  "case run_kernel sample_env sample_kernel_ops None
      (KAggregate [Bound TUtf8 (XField 0)] [\<lparr>ag_kind = AggCountAll, ag_arg = None\<rparr>])
      [[[VUtf8 ''x''], [VUtf8 ''y''], [VUtf8 ''x'']]] (sample_budget, 0) of
      Inr (out, _) \<Rightarrow> out = [[VUtf8 ''x'', VI64 2], [VUtf8 ''y'', VI64 1]]
    | Inl err \<Rightarrow> err = quota"
proof -
  let ?krs = "[([VUtf8 ''x''], [VUtf8 ''x'']), ([VUtf8 ''y''], [VUtf8 ''y'']), ([VUtf8 ''x''], [VUtf8 ''x''])]"
  let ?count = "[\<lparr>ag_kind = AggCountAll, ag_arg = None\<rparr>]"
  have "flat_rows (bucket_row sample_env ?count) (map (group_of ?krs) (first_members (map fst ?krs)))
      = Inr [[VUtf8 ''x'', VI64 2], [VUtf8 ''y'', VI64 1]]"
    by (simp add: first_members_def upt_rec rows_eq_def group_of_def flat_rows_def bucket_row_def agg_value_def
        i64_checked_def in_i64_def)
  then show ?thesis
    using aggregate_kernel_partitions [where groups = "[Bound TUtf8 (XField 0)]" and E = sample_env and krs = ?krs
        and input = "[[VUtf8 ''x''], [VUtf8 ''y''], [VUtf8 ''x'']]" and C = sample_kernel_ops and source = None
        and aggregates = ?count and st = "(sample_budget, 0)"]
    by (auto simp: row_key_def row_get_def rows_eq_def split: sum.splits)
qed

end
