(* ===== verification/GB_Hydration.thy ===== *)
theory GB_Hydration
  imports GB_Relational "HOL-Library.Product_Lexorder"
begin

text \<open>
  Property values for a kernel (\<open>src/src/query/hql2/exec.rs\<close>): before a kernel runs, the records and
  names its property expressions will ask for are collected from its input rows, fetched in batches
  from the source and stored. The source is the argument \<open>ho_hydrate\<close>, as it is in the code. The
  ordered maps are association lists in increasing key order.
\<close>

section \<open>Ordered maps\<close>

text \<open>\<open>entry(k).or_insert(v)\<close> followed by the change \<open>f\<close> of the entry.\<close>

fun map_entry :: "'k::linorder \<Rightarrow> 'v \<Rightarrow> ('v \<Rightarrow> 'v) \<Rightarrow> ('k \<times> 'v) list \<Rightarrow> ('k \<times> 'v) list" where
  "map_entry k v f [] = [(k, f v)]"
| "map_entry k v f ((k', v') # es) =
     (if k < k' then (k, f v) # (k', v') # es
      else if k = k' then (k', f v') # es
      else (k', v') # map_entry k v f es)"

section \<open>The properties a kernel needs\<close>

record property_need = nd_entity :: bound_expr  nd_name :: bound_expr  nd_field :: field_id

definition with_name :: "field_id \<Rightarrow> string \<Rightarrow> field_id" where
  "with_name f nm = f\<lparr>fi_name := Some nm\<rparr>"

text \<open>The expressions pushed on the stack, the one popped next first.\<close>

fun need_children :: "expr_kind \<Rightarrow> bound_expr list" where
  "need_children (XProperty e nm _ _) = [e, nm]"
| "need_children (XBinary _ l r) = [l, r]"
| "need_children (XUnary _ a) = [a]"
| "need_children (XLower a) = [a]"
| "need_children (XLength a) = [a]"
| "need_children (XIn a es _) = a # rev es"
| "need_children _ = []"

record hydrate_ops =
  ho_size_word :: u64
  ho_size_field :: u64
  ho_size_record :: u64
  ho_size_group :: u64
  ho_hydrate :: "record_ref list \<Rightarrow> field_id list \<Rightarrow> metered \<Rightarrow> (query_error, exec_batch \<times> metered) result"

definition need_charge :: "eval_env \<Rightarrow> hydrate_ops \<Rightarrow> expr_kind \<Rightarrow> metered \<Rightarrow> (query_error, metered) result" where
  "need_charge E D k st =
     (case k of
        XProperty _ _ _ _ \<Rightarrow> reserve_now E (2 * ho_size_word D) st
      | XBinary _ _ _ \<Rightarrow> reserve_now E (2 * ho_size_word D) st
      | XUnary _ _ \<Rightarrow> reserve_now E (ho_size_word D) st
      | XLower _ \<Rightarrow> reserve_now E (ho_size_word D) st
      | XLength _ \<Rightarrow> reserve_now E (ho_size_word D) st
      | XIn _ es _ \<Rightarrow> reserve_now E (saturating_mul (of_nat (length es + 1)) (ho_size_word D)) st
      | _ \<Rightarrow> Inr st)"

definition need_visit ::
  "eval_env \<Rightarrow> expr_kind \<Rightarrow> u32 set \<times> property_need list \<Rightarrow> metered
     \<Rightarrow> (query_error, (u32 set \<times> property_need list) \<times> metered) result" where
  "need_visit E k acc st =
     (case k of
        XProperty e nm _ f \<Rightarrow>
          if fi_index f \<in> fst acc then Inr (acc, st)
          else rbind (reserve_now E 64 st) (\<lambda>st1.
            Inr ((insert (fi_index f) (fst acc), snd acc @ [\<lparr>nd_entity = e, nd_name = nm, nd_field = f\<rparr>]), st1))
      | _ \<Rightarrow> Inr (acc, st))"

lemma need_children_light: "(\<Sum>c\<leftarrow>need_children (be_kind e). size c) < size e"
proof -
  obtain ty k where e: "e = Bound ty k" by (cases e)
  have le: "(\<Sum>c\<leftarrow>es. size c) \<le> size_list size es" for es :: "bound_expr list"
    by (induction es) auto
  show ?thesis
  proof (cases k)
    case (XIn a es neg)
    then show ?thesis using le [of es] by (simp add: e rev_map [symmetric] sum_list_rev)
  qed (simp_all add: e)
qed

function needs_loop ::
  "eval_env \<Rightarrow> hydrate_ops \<Rightarrow> bound_expr list \<Rightarrow> u32 set \<times> property_need list \<Rightarrow> metered
     \<Rightarrow> (query_error, property_need list \<times> metered) result" where
  "needs_loop E D [] acc st = Inr (snd acc, st)"
| "needs_loop E D (e # stack) acc st =
     rbind (check_now E st) (\<lambda>st1.
     rbind (need_visit E (be_kind e) acc st1) (\<lambda>(acc', st2).
     rbind (need_charge E D (be_kind e) st2) (\<lambda>st3.
     needs_loop E D (need_children (be_kind e) @ stack) acc' st3)))"
  by pat_completeness auto
termination
  by (relation "measure (\<lambda>(E, D, stack, acc, st). \<Sum>e\<leftarrow>stack. size e)") (use need_children_light in auto)

text \<open>The roots are a vector that is popped from its end.\<close>

definition property_needs ::
  "eval_env \<Rightarrow> hydrate_ops \<Rightarrow> bound_expr list \<Rightarrow> metered \<Rightarrow> (query_error, property_need list \<times> metered) result" where
  "property_needs E D roots st = needs_loop E D (rev roots) ({}, []) st"

section \<open>Collecting the cells\<close>

record hydration_group =
  hg_fields :: "(u32 \<times> field_id) list"
  hg_records :: "(record_key \<times> record_ref) list"

definition empty_group :: hydration_group where
  "empty_group = \<lparr>hg_fields = [], hg_records = []\<rparr>"

definition group_cell :: "field_id \<Rightarrow> record_ref \<Rightarrow> hydration_group \<Rightarrow> hydration_group" where
  "group_cell f r g = g\<lparr>hg_fields := map_entry (fi_index f) f id (hg_fields g),
     hg_records := map_entry (record_key r) r id (hg_records g)\<rparr>"

type_synonym hydration_plan = "hydration_group \<times> (string \<times> hydration_group) list"

definition identity_bytes :: "record_ref \<Rightarrow> u64" where
  "identity_bytes r = saturating_add (saturating_add (saturating_add (of_nat (length (rr_database_id r)))
     (of_nat (length (rr_namespace r)))) (of_nat (length (rr_id r)))) (of_nat (length (rr_revision r)))"

definition cell_charge :: "eval_env \<Rightarrow> string \<Rightarrow> record_ref \<Rightarrow> metered \<Rightarrow> (query_error, metered) result" where
  "cell_charge E nm r st = reserve_now E (saturating_add (saturating_add (of_nat (length nm)) (identity_bytes r)) 128) st"

definition collect_need ::
  "eval_env \<Rightarrow> exec_row \<Rightarrow> property_need \<Rightarrow> hydration_plan \<Rightarrow> metered \<Rightarrow> (query_error, hydration_plan \<times> metered) result" where
  "collect_need E vs need plan st =
     (let E0 = E\<lparr>xe_hydrated := Map.empty\<rparr>; f = nd_field need in
      rbind (eval E0 vs (nd_entity need) st) (\<lambda>(entity, st1).
      case entity of
        VNull \<Rightarrow> Inr (plan, st1)
      | VEntity r \<Rightarrow>
          (case fi_name f of
             Some nm \<Rightarrow> rbind (cell_charge E nm r st1) (\<lambda>st2. Inr ((group_cell f r (fst plan), snd plan), st2))
           | None \<Rightarrow>
               rbind (eval E0 vs (nd_name need) st1) (\<lambda>(v, st2).
               case v of
                 VUtf8 nm \<Rightarrow> rbind (cell_charge E nm r st2) (\<lambda>st3.
                   Inr ((fst plan, map_entry nm empty_group (group_cell (with_name f nm) r) (snd plan)), st3))
               | _ \<Rightarrow> Inl (failure ''bound_type'')))
      | _ \<Rightarrow> Inl (failure ''bound_type'')))"

definition collect_row_hydration ::
  "eval_env \<Rightarrow> property_need list \<Rightarrow> exec_row \<Rightarrow> hydration_plan \<Rightarrow> metered \<Rightarrow> (query_error, hydration_plan \<times> metered) result" where
  "collect_row_hydration E needs vs plan st = fold_st (collect_need E vs) needs plan st"

definition collect_pairs ::
  "eval_env \<Rightarrow> property_need list \<Rightarrow> exec_row list \<Rightarrow> exec_row list \<Rightarrow> metered \<Rightarrow> (query_error, hydration_plan \<times> metered) result" where
  "collect_pairs E needs input right st =
     fold_st (\<lambda>l. fold_st (\<lambda>r plan st. rbind (check_now E st) (collect_row_hydration E needs (l @ r) plan)) right)
       input (empty_group, []) st"

section \<open>Fetching the batches\<close>

definition sat_sum :: "u64 list \<Rightarrow> u64" where
  "sat_sum xs = fold (\<lambda>x a. saturating_add a x) xs 0"

definition group_charge :: "hydrate_ops \<Rightarrow> hydration_group \<Rightarrow> u64" where
  "group_charge D g =
     (let fields = of_nat (length (hg_fields g)) :: u64; records = of_nat (length (hg_records g)) :: u64;
          ids = sat_sum (map (identity_bytes \<circ> snd) (hg_records g));
          names = sat_sum (map (\<lambda>nm. of_nat (length nm)) (List.map_filter (fi_name \<circ> snd) (hg_fields g)));
          cells = saturating_mul records fields in
      saturating_add (saturating_add (saturating_add (saturating_add (saturating_mul fields (ho_size_field D))
        (saturating_mul records (ho_size_record D + 128))) (saturating_mul cells 64)) (saturating_mul ids fields))
        (saturating_mul names records))"

definition hydrate_group ::
  "eval_env \<Rightarrow> hydrate_ops \<Rightarrow> hydration_group \<Rightarrow> hydrated \<Rightarrow> metered \<Rightarrow> (query_error, hydrated \<times> metered) result" where
  "hydrate_group E D g H st =
     rbind (check_now E st) (\<lambda>st1.
     rbind (reserve_now E (group_charge D g) st1) (\<lambda>st2.
     let records = map snd (hg_records g); fields = map snd (hg_fields g) in
     rbind (ho_hydrate D records fields st2) (\<lambda>(batch, st3).
     with_state st3 (add_batch records fields batch H))))"

definition plan_groups :: "hydration_plan \<Rightarrow> hydration_group list" where
  "plan_groups plan = (if hg_fields (fst plan) = [] then [] else [fst plan]) @ map snd (snd plan)"

definition fetch_plan ::
  "eval_env \<Rightarrow> hydrate_ops \<Rightarrow> hydration_plan \<Rightarrow> metered \<Rightarrow> (query_error, hydrated \<times> metered) result" where
  "fetch_plan E D plan st =
     rbind (reserve_now E (saturating_mul (of_nat (length (plan_groups plan))) (ho_size_group D)) st) (\<lambda>st1.
     fold_st (hydrate_group E D) (plan_groups plan) Map.empty st1)"

definition hydrate_for_kernel ::
  "eval_env \<Rightarrow> hydrate_ops \<Rightarrow> kernel \<Rightarrow> exec_row list \<Rightarrow> exec_row list option \<Rightarrow> metered
     \<Rightarrow> (query_error, hydrated \<times> metered) result" where
  "hydrate_for_kernel E D k input right st =
     (let roots = kernel_expression_roots k in
      rbind (reserve_now E (saturating_mul (of_nat (length roots)) (ho_size_word D)) st) (\<lambda>st1.
      rbind (property_needs E D roots st1) (\<lambda>(needs, st2).
      if needs = [] then Inr (Map.empty, st2)
      else
        rbind (case k of
            KJoin _ _ _ \<Rightarrow>
              rbind (ok_or (failure ''join_input'') right) (\<lambda>right.
              let width = (case input of [] \<Rightarrow> 0 | r # _ \<Rightarrow> length r) + (case right of [] \<Rightarrow> 0 | r # _ \<Rightarrow> length r) in
              rbind (reserve_now E (saturating_add (saturating_mul (of_nat width) (xo_size_value (xe_ops E))) (xo_size_row (xe_ops E))) st2)
                (collect_pairs E needs input right))
          | _ \<Rightarrow> fold_st (collect_row_hydration E needs) input (empty_group, []) st2) (\<lambda>(plan, st3).
        fetch_plan E D plan st3))))"

end
