(* ===== verification/GB_Hydrated.thy ===== *)
theory GB_Hydrated
  imports GB_Hydration
begin

text \<open>
  Hydration is complete: after the batches for a kernel are stored, no property expression of the
  kernel finds its value missing on any row it is evaluated on.
\<close>

section \<open>Where a missing value can come from\<close>

abbreviation missing :: query_error where
  "missing \<equiv> failure ''source_hydration_missing''"

lemma failure_eq [simp]: "failure a = failure b \<longleftrightarrow> a = b"
  by (simp add: failure_def query_error_new_def)

lemma compare_not_missing [simp]: "compare a b \<noteq> Inl missing"
  by (auto simp: compare_def ok_or_def split: query_value.splits option.splits)

lemma unary_not_missing [simp]: "unary op a \<noteq> Inl missing"
  by (auto simp: unary_def finite_value_def ok_or_def split: query_value.splits unary_op.splits option.splits if_splits)

lemma arith_not_missing [simp]: "arith_i64 op i j \<noteq> Inl missing" "arith_f64 K op x y \<noteq> Inl missing"
  by (auto simp: arith_i64_def arith_f64_def finite_value_def ok_or_def rbind_Inl_iff split: binary_op.splits option.splits if_splits)

lemma binary_not_missing [simp]: "binary K op a b \<noteq> Inl missing"
proof -
  have num: "(case (a, b) of (VI64 i, VI64 j) \<Rightarrow> arith_i64 op i j | (VF64 x, VF64 y) \<Rightarrow> arith_f64 K op x y
      | _ \<Rightarrow> Inl (failure ''bound_type'')) \<noteq> Inl missing"
    by (simp split: query_value.splits)
  have strs: "(case (a, b) of (VUtf8 s, VUtf8 t) \<Rightarrow> Inr (VBool (f s t)) | _ \<Rightarrow> Inl (failure ''bound_type'')) \<noteq> Inl missing" for f
    by (simp split: query_value.splits)
  have cmp: "rbind (compare a b) (\<lambda>c. Inr (VBool (g c))) \<noteq> Inl missing" for g
    by (simp add: rbind_Inl_iff)
  show ?thesis
    unfolding binary_def using num strs cmp by (cases op) (simp_all only: binary_op.case split: if_split, simp_all)
qed

lemma parts_not_missing [simp]:
  "row_get vs i \<noteq> Inl missing" "pure_lower K a \<noteq> Inl missing" "eval_length a \<noteq> Inl missing"
  "pure_part (row_get vs i) null_ok part \<noteq> Inl missing"
  by (auto simp: row_get_def pure_lower_def eval_length_def pure_part_def rbind_Inl_iff ok_or_def
      split: query_value.splits option.splits if_splits)

section \<open>The properties of an expression\<close>

fun properties_of :: "bound_expr \<Rightarrow> property_need list" and kind_properties :: "expr_kind \<Rightarrow> property_need list" where
  "properties_of (Bound ty k) = kind_properties k"
| "kind_properties (XProperty e nm _ f) = \<lparr>nd_entity = e, nd_name = nm, nd_field = f\<rparr> # properties_of e @ properties_of nm"
| "kind_properties (XBinary _ l r) = properties_of l @ properties_of r"
| "kind_properties (XUnary _ a) = properties_of a"
| "kind_properties (XLower a) = properties_of a"
| "kind_properties (XLength a) = properties_of a"
| "kind_properties (XIn a es _) = properties_of a @ concat (map properties_of es)"
| "kind_properties _ = []"

lemma properties_fields:
  "map nd_field (properties_of e) = property_fields e" "map nd_field (kind_properties k) = kind_fields k"
  by (induction e and k rule: properties_of_kind_properties.induct) (auto simp: map_concat intro!: arg_cong [where f = concat])

lemma operand_properties: "k \<in> set (bound_operands e) \<Longrightarrow> set (properties_of k) \<subseteq> set (properties_of e)"
proof -
  obtain ty kd where "e = Bound ty kd" by (cases e)
  then show "k \<in> set (bound_operands e) \<Longrightarrow> set (properties_of k) \<subseteq> set (properties_of e)"
    by (cases kd) (auto simp: bound_operands_def)
qed

lemma collect_Inl: "collect_results (map f xs) = Inl err \<Longrightarrow> \<exists>x\<in>set xs. f x = Inl err"
  by (induction xs) (auto simp: rbind_Inl_iff)

text \<open>An evaluation finds a value missing only at a property of the expression, for the record and the
  name the property's operands evaluate to.\<close>

definition unfetched :: "eval_env \<Rightarrow> exec_row \<Rightarrow> property_need \<Rightarrow> bool" where
  "unfetched E vs p \<longleftrightarrow> (\<exists>r nm. pure_eval E vs (nd_entity p) = Inr (VEntity r) \<and> pure_eval E vs (nd_name p) = Inr (VUtf8 nm)
     \<and> xe_hydrated E (record_key r, fi_index (nd_field p), nm) = None)"

lemma pure_build_missing:
  assumes "pure_build E vs e xs = Inl missing" "collect_results (map (pure_eval E vs) (bound_operands e)) = Inr xs"
  shows "\<exists>p\<in>set (properties_of e). unfetched E vs p"
proof -
  obtain ty k where e: "e = Bound ty k" by (cases e)
  show ?thesis
  proof (cases k)
    case (XProperty a nm has f)
    then have xs: "pure_eval E vs a = Inr (xs ! 0)" "pure_eval E vs nm = Inr (xs ! 1)"
      using assms(2) by (auto simp: e bound_operands_def)
    have "pure_property (xe_hydrated E) (xs ! 0) (xs ! 1) has f = Inl missing"
      using assms(1) by (simp add: pure_build_def e XProperty)
    then obtain r n where "xs ! 1 = VUtf8 n" "xs ! 0 = VEntity r" "hydrated_get (xe_hydrated E) r f n = None"
      by (auto simp: pure_property_def ok_or_def split: query_value.splits option.splits if_splits)
    then show ?thesis using xs by (auto simp: e XProperty unfetched_def hydrated_get_def)
  qed (use assms(1) in \<open>simp_all add: pure_build_def e\<close>)
qed

lemma pure_eval_missing: "pure_eval E vs e = Inl missing \<Longrightarrow> \<exists>p\<in>set (properties_of e). unfetched E vs p"
proof (induction e rule: measure_induct_rule [where f = size])
  case (less e)
  consider "collect_results (map (pure_eval E vs) (bound_operands e)) = Inl missing"
    | xs where "collect_results (map (pure_eval E vs) (bound_operands e)) = Inr xs" "pure_build E vs e xs = Inl missing"
    using less.prems unfolding pure_eval.simps [of E vs e] rbind_Inl_iff by blast
  then show ?case
  proof cases
    case 1
    then obtain k where k: "k \<in> set (bound_operands e)" "pure_eval E vs k = Inl missing" using collect_Inl [OF 1] by blast
    then show ?thesis using less.IH [OF bound_operand_smaller [OF k(1)] k(2)] operand_properties [OF k(1)] by blast
  next
    case (2 xs)
    then show ?thesis using pure_build_missing by blast
  qed
qed

section \<open>Kernels\<close>

text \<open>The rows the expressions of a kernel are evaluated on.\<close>

definition kernel_rows :: "kernel \<Rightarrow> exec_row list list \<Rightarrow> exec_row list" where
  "kernel_rows k inputs =
     (case k of
        KJoin _ _ _ \<Rightarrow> [l @ r. l \<leftarrow> first_input inputs, r \<leftarrow> (case second_input inputs of Some rs \<Rightarrow> rs | None \<Rightarrow> [])]
      | _ \<Rightarrow> first_input inputs)"

lemma flat_rows_Inl: "flat_rows g rs = Inl err \<Longrightarrow> \<exists>r\<in>set rs. g r = Inl err"
  by (auto simp: flat_rows_def rbind_Inl_iff dest: collect_Inl)

lemma sort_error_missing: "sort_error ks pairs None \<noteq> Some missing"
proof -
  have key: "keys_order ks xs ys \<noteq> Inl missing" for ks xs ys
    by (induction ks xs ys rule: keys_order.induct) (auto simp: key_order_def rbind_Inl_iff split: if_splits)
  have "err \<noteq> Some missing \<Longrightarrow> sort_error ks pairs err \<noteq> Some missing" for err
  proof (induction pairs arbitrary: err)
    case (Cons ab pairs)
    obtain i xs j ys where ab: "ab = ((i, xs), (j, ys))" by (metis surj_pair)
    show ?case
    proof (cases "keys_order ks xs ys")
      case (Inl e)
      then have "Some e \<noteq> Some missing" using key [of ks xs ys] by auto
      then show ?thesis using Cons.IH Inl by (simp add: ab)
    qed (use Cons ab in simp)
  qed simp
  then show ?thesis by simp
qed

lemma agg_value_missing:
  assumes "agg_value E call rs = Inl missing"
  shows "\<exists>e r. ag_arg call = Some e \<and> r \<in> set rs \<and> pure_eval E r e = Inl missing"
proof -
  have add: "agg_add K kind v a \<noteq> Inl missing" for K kind v a
    by (auto simp: agg_add_def agg_replaces_def Let_def rbind_Inl_iff ok_or_def split: option.splits if_splits)
  have finish: "agg_finish K kind a \<noteq> Inl missing" for K kind a
    by (auto simp: agg_finish_def finite_value_def split: aggregate_kind.splits option.splits query_value.splits if_splits)
  have fold_missing: "\<exists>r\<in>set rs. pure_eval E r e = Inl missing" if "fold_res (agg_row E kind e) rs a = Inl missing" for kind e a
    using that
  proof (induction rs arbitrary: a)
    case (Cons r rs)
    then show ?case using add by (auto simp: rbind_Inl_iff agg_row_def split: if_splits)
  qed simp
  show ?thesis
    using assms finish by (auto simp: agg_value_def rbind_Inl_iff ok_or_def split: if_splits option.splits dest!: fold_missing)
qed

lemma row_key_Inl: "row_key E groups r = Inl err \<Longrightarrow> \<exists>e\<in>set groups. pure_eval E r e = Inl err"
  by (auto simp: row_key_def rbind_Inl_iff dest: collect_Inl)

lemma aggregate_missing:
  assumes "aggregate_rows E groups aggs input = Inl missing"
  shows "\<exists>r\<in>set input. \<exists>e\<in>set (groups @ List.map_filter ag_arg aggs). pure_eval E r e = Inl missing"
proof (cases "collect_results (map (row_key E groups) input)")
  case (Inl err)
  then show ?thesis using assms collect_Inl [OF Inl] row_key_Inl by (fastforce simp: aggregate_rows_def)
next
  case (Inr krs)
  have "list_all2 (\<lambda>r kr. row_key E groups r = Inr kr) input krs"
    using collect_map_all [where xs = input and f = "row_key E groups" and Q = "\<lambda>r kr. row_key E groups r = Inr kr" and Z = "\<lambda>_. True"] Inr
    by (simp split: sum.splits)
  then have "list_all (\<lambda>(key, r). True \<and> r \<in> set input) krs"
    by (induction rule: list_all2_induct) (auto simp: row_key_def list_all_iff)
  then have all: "list_all (\<lambda>(key, rs). True \<and> list_all (\<lambda>r. r \<in> set input) rs) (fold add_to_bucket krs bs)"
    if "list_all (\<lambda>(key, rs). True \<and> list_all (\<lambda>r. r \<in> set input) rs) bs" for bs
    using that by (intro buckets_all [where P = "\<lambda>_. True"])
  let ?bs = "fold add_to_bucket krs (if groups = [] then [([], [])] else [])"
  have "flat_rows (bucket_row E aggs) ?bs = Inl missing" using assms by (simp add: aggregate_rows_def Inr)
  then obtain b where b: "b \<in> set ?bs" "bucket_row E aggs b = Inl missing" using flat_rows_Inl by blast
  have sub: "set (snd b) \<subseteq> set input"
    using all [of "if groups = [] then [([], [])] else []"] b(1) by (auto simp: list_all_iff split_def)
  obtain call where call: "call \<in> set aggs" "agg_value E call (snd b) = Inl missing"
    using b(2) by (auto simp: bucket_row_def rbind_Inl_iff dest: collect_Inl)
  then obtain e r where "ag_arg call = Some e" "r \<in> set (snd b)" "pure_eval E r e = Inl missing"
    using agg_value_missing by blast
  moreover from this have "e \<in> set (List.map_filter ag_arg aggs)" using call(1) by (force simp: List.map_filter_def)
  ultimately show ?thesis using sub by auto
qed

lemma algebra_missing:
  assumes "algebra E C source k inputs = Inl missing"
  shows "\<exists>r\<in>set (kernel_rows k inputs). \<exists>e\<in>set (kernel_expression_roots k). pure_eval E r e = Inl missing"
proof (cases k)
  case (KFilter p)
  then show ?thesis using assms
    by (auto simp: algebra_def Let_def filter_row_def kernel_rows_def kernel_expression_roots_def rbind_Inl_iff dest!: flat_rows_Inl)
next
  case (KProject es)
  then show ?thesis using assms
    by (auto simp: algebra_def Let_def project_row_def kernel_rows_def kernel_expression_roots_def rbind_Inl_iff dest!: flat_rows_Inl collect_Inl) blast
next
  case (KSort ks)
  have "sort_keys E ks r = Inl missing \<Longrightarrow> \<exists>e\<in>set (map fst ks). pure_eval E r e = Inl missing" for r
    unfolding sort_keys_def by (rule collect_Inl)
  moreover have "\<exists>r\<in>set (first_input inputs). sort_keys E ks r = Inl missing"
    using assms sort_error_missing
    by (auto simp: algebra_def Let_def KSort sort_rows_def rbind_Inl_iff in_set_enumerate_eq split: option.splits dest!: collect_Inl)
  ultimately show ?thesis unfolding KSort kernel_rows_def kernel_expression_roots_def kernel.case by blast
next
  case (KAggregate groups aggs)
  then show ?thesis using assms aggregate_missing
    by (auto simp: algebra_def Let_def kernel_rows_def kernel_expression_roots_def)
next
  case (KJoin kind c w)
  then obtain right l r where "second_input inputs = Some right" "l \<in> set (first_input inputs)" "r \<in> set right" "partner E c l r = Inl missing"
    using assms by (auto simp: algebra_def Let_def join_row_def rbind_Inl_iff ok_or_def split: option.splits dest!: flat_rows_Inl)
  then show ?thesis by (auto simp: KJoin kernel_rows_def kernel_expression_roots_def partner_def rbind_Inl_iff)
qed (use assms in \<open>auto simp: algebra_def Let_def ok_or_def split: query_value.splits option.splits\<close>)

section \<open>The needs of a kernel\<close>

lemma need_children_properties:
  "set (kind_properties k) = set (concat (map properties_of (need_children k)))
     \<union> (case k of XProperty e nm _ f \<Rightarrow> {\<lparr>nd_entity = e, nd_name = nm, nd_field = f\<rparr>} | _ \<Rightarrow> {})"
  by (cases k) auto

lemma need_visit_Inr:
  assumes "need_visit E k (seen, needs) st = Inr ((seen', needs'), st')" "seen = (fi_index \<circ> nd_field) ` set needs"
  shows "seen' = (fi_index \<circ> nd_field) ` set needs'"
    "set needs \<subseteq> set needs'" "set needs' \<subseteq> set needs \<union> set (kind_properties k)"
    "\<And>e nm h f. k = XProperty e nm h f \<Longrightarrow> fi_index f \<in> seen'"
  using assms by (auto simp: need_visit_def split: expr_kind.splits if_splits)

lemma need_charge_quota: "need_charge E D k st = Inl err \<Longrightarrow> err = quota"
  by (auto simp: need_charge_def dest: reserve_Inl split: expr_kind.splits)

lemma need_visit_quota: "need_visit E k acc st = Inl err \<Longrightarrow> err = quota"
  by (auto simp: need_visit_def rbind_Inl_iff dest: reserve_Inl split: expr_kind.splits if_splits)

definition need_set :: "bound_expr list \<Rightarrow> property_need set" where
  "need_set es = set (concat (map properties_of es))"

lemma needs_loop_needs:
  assumes "needs_loop E D stack acc st = Inr (out, st')" "fst acc = (fi_index \<circ> nd_field) ` set (snd acc)"
  shows "set (snd acc) \<subseteq> set out \<and> set out \<subseteq> set (snd acc) \<union> need_set stack
    \<and> (fi_index \<circ> nd_field) ` need_set stack \<subseteq> (fi_index \<circ> nd_field) ` set out"
  using assms
proof (induction E D stack acc st rule: needs_loop.induct)
  case (2 E D e stack acc st)
  obtain ty k where e: "e = Bound ty k" by (cases e)
  obtain seen needs where acc: "acc = (seen, needs)" by (cases acc)
  obtain st1 seen' needs' st2 st3 where steps: "check_now E st = Inr st1" "need_visit E k (seen, needs) st1 = Inr ((seen', needs'), st2)"
    "need_charge E D k st2 = Inr st3" "needs_loop E D (need_children k @ stack) (seen', needs') st3 = Inr (out, st')"
    using "2.prems"(1) by (auto simp: e acc)
  have "seen = (fi_index \<circ> nd_field) ` set needs" using "2.prems"(2) acc by simp
  note visit = need_visit_Inr [OF steps(2) this]
  have IH: "set needs' \<subseteq> set out \<and> set out \<subseteq> set needs' \<union> need_set (need_children k @ stack)
    \<and> (fi_index \<circ> nd_field) ` need_set (need_children k @ stack) \<subseteq> (fi_index \<circ> nd_field) ` set out"
    using "2.IH" [of st1 "((seen', needs'), st2)" "(seen', needs')" st2 st3] steps visit(1) by (simp add: e acc)
  have split: "need_set (e # stack) = set (kind_properties k) \<union> need_set stack"
    "need_set (need_children k @ stack) = set (concat (map properties_of (need_children k))) \<union> need_set stack"
    by (auto simp: need_set_def e)
  have "(fi_index \<circ> nd_field) ` set (kind_properties k) \<subseteq> (fi_index \<circ> nd_field) ` set out"
  proof (cases "\<exists>a nm h f. k = XProperty a nm h f")
    case True
    then obtain a nm h f where k: "k = XProperty a nm h f" by blast
    have "fi_index f \<in> (fi_index \<circ> nd_field) ` set out" using visit(4) [OF k] visit(1) IH by blast
    then show ?thesis using IH need_children_properties [of k] unfolding split(2) by (simp add: k image_Un)
  next
    case False
    then have "set (kind_properties k) = set (concat (map properties_of (need_children k)))"
      using need_children_properties [of k] by (cases k) auto
    then show ?thesis using IH unfolding split(2) by (simp add: image_Un)
  qed
  then show ?case
    using IH visit(2,3) need_children_properties [of k] unfolding split acc by (auto simp: image_Un)
qed (simp add: need_set_def)

lemma property_needs_are_the_properties:
  assumes "property_needs E D roots st = Inr (needs, st')" "distinct (map fi_index (concat (map property_fields roots)))"
  shows "set needs = need_set roots"
proof -
  have loop: "set needs \<subseteq> need_set roots" "(fi_index \<circ> nd_field) ` need_set roots \<subseteq> (fi_index \<circ> nd_field) ` set needs"
    using needs_loop_needs [of E D "rev roots" "({}, [])" st needs st'] assms(1)
    by (auto simp: property_needs_def need_set_def)
  have "map (fi_index \<circ> nd_field) (concat (map properties_of roots)) = map fi_index (concat (map property_fields roots))"
    by (simp add: map_concat properties_fields(1) [symmetric] comp_def)
  then have "distinct (map (fi_index \<circ> nd_field) (concat (map properties_of roots)))" using assms(2) by simp
  then have inj: "inj_on (fi_index \<circ> nd_field) (need_set roots)" by (simp only: distinct_map need_set_def)
  have "p \<in> set needs" if p: "p \<in> need_set roots" for p
  proof -
    obtain q where q: "q \<in> set needs" "(fi_index \<circ> nd_field) p = (fi_index \<circ> nd_field) q" using loop(2) p by blast
    then have "p = q" using inj_onD [OF inj q(2) p] loop(1) by blast
    then show ?thesis using q(1) by simp
  qed
  then show ?thesis using loop(1) by blast
qed

lemma property_needs_quota: "property_needs E D roots st = Inl err \<Longrightarrow> err = quota"
proof -
  have "needs_loop E D stack acc st = Inl err \<Longrightarrow> err = quota" for stack acc
    by (induction E D stack acc st rule: needs_loop.induct)
      (auto simp: rbind_Inl_iff dest: reserve_Inl need_visit_quota need_charge_quota)
  then show "property_needs E D roots st = Inl err \<Longrightarrow> err = quota" unfolding property_needs_def by blast
qed

section \<open>Ordered maps\<close>

abbreviation ordered_map :: "('k::linorder \<times> 'v) list \<Rightarrow> bool" where
  "ordered_map es \<equiv> sorted_wrt (<) (map fst es)"

lemma map_entry_keys [simp]: "fst ` set (map_entry k v f es) = insert k (fst ` set es)"
  by (induction k v f es rule: map_entry.induct) auto

lemma map_entry_ordered: "ordered_map es \<Longrightarrow> ordered_map (map_entry k v f es)"
proof (induction k v f es rule: map_entry.induct)
  case (2 k v f k' v' es)
  show ?case
  proof (rule linorder_cases [of k k'])
    assume less: "k' < k"
    then have "ordered_map (map_entry k v f es)" using 2 by auto
    moreover have "\<forall>x\<in>set (map fst (map_entry k v f es)). k' < x" using "2.prems" less by simp
    ultimately show ?thesis using less by (auto dest: less_asym)
  qed (use "2.prems" in auto)
qed simp

lemma map_entry_set:
  assumes "ordered_map es"
  shows "set (map_entry k v f es) = insert (k, f (case map_of es k of Some v' \<Rightarrow> v' | None \<Rightarrow> v)) {e \<in> set es. fst e \<noteq> k}"
  using assms
proof (induction k v f es rule: map_entry.induct)
  case (2 k v f k' v' es)
  have later: "k' < fst e" if "e \<in> set es" for e using that "2.prems" by auto
  show ?case
  proof (rule linorder_cases [of k k'])
    assume less: "k < k'"
    then have "k \<notin> fst ` set es" using later by (metis imageE order_less_asym)
    then have "map_of es k = None" by (simp add: map_of_eq_None_iff)
    moreover have "fst e \<noteq> k" if "e \<in> set es" for e using later [OF that] less by auto
    ultimately show ?thesis using less by auto
  next
    assume "k = k'"
    moreover from this have "fst e \<noteq> k" if "e \<in> set es" for e using later [OF that] by auto
    ultimately show ?thesis by auto
  next
    assume "k' < k"
    then show ?thesis using 2 by auto
  qed
qed simp

lemma ordered_map_distinct: "ordered_map es \<Longrightarrow> distinct (map fst es)"
  by (simp add: strict_sorted_iff)

section \<open>Batches\<close>

definition field_cells :: "record_key \<Rightarrow> field_id \<Rightarrow> (record_key \<times> u32 \<times> string) set" where
  "field_cells key f = (case fi_name f of None \<Rightarrow> {} | Some nm \<Rightarrow> {(key, fi_index f, nm)})"

definition batch_cells :: "record_ref list \<Rightarrow> field_id list \<Rightarrow> (record_key \<times> u32 \<times> string) set" where
  "batch_cells records fs = (\<Union>r\<in>set records. \<Union>f\<in>set fs. field_cells (record_key r) f)"

lemma batch_cells_Nil [simp]: "batch_cells [] fs = {}" "batch_cells records [] = {}"
  by (simp_all add: batch_cells_def)

lemma batch_cells_Cons: "batch_cells (r # rs) fs = batch_cells [r] fs \<union> batch_cells rs fs"
  "batch_cells [r] (f # fs) = field_cells (record_key r) f \<union> batch_cells [r] fs"
  by (simp_all add: batch_cells_def)

lemma field_cells_iff: "(key, i, nm) \<in> field_cells k f \<longleftrightarrow> key = k \<and> i = fi_index f \<and> fi_name f = Some nm"
  by (auto simp: field_cells_def split: option.splits)

lemma batch_cells_iff:
  "(key, i, nm) \<in> batch_cells records fs \<longleftrightarrow> key \<in> record_key ` set records \<and> (\<exists>f\<in>set fs. fi_index f = i \<and> fi_name f = Some nm)"
  by (auto simp: batch_cells_def field_cells_iff)

lemma add_row_complete:
  assumes "list_all (\<lambda>(v, f). fi_name f \<noteq> None) vfs" "distinct (map (fi_index \<circ> snd) vfs)"
    and "\<forall>f nm. f \<in> snd ` set vfs \<longrightarrow> fi_name f = Some nm \<longrightarrow> H (record_key rec, fi_index f, nm) = None"
  shows "\<exists>H'. add_row rec vfs H = Inr H' \<and> dom H' = dom H \<union> batch_cells [rec] (map snd vfs)"
  using assms
proof (induction vfs arbitrary: H)
  case (Cons vf vfs)
  obtain v f nm where vf: "vf = (v, f)" "fi_name f = Some nm" using Cons.prems(1) by (cases vf) auto
  let ?H = "H((record_key rec, fi_index f, nm) \<mapsto> v)"
  have fresh: "H (record_key rec, fi_index f, nm) = None" using Cons.prems(3) vf by auto
  have "\<exists>H'. add_row rec vfs ?H = Inr H' \<and> dom H' = dom ?H \<union> batch_cells [rec] (map snd vfs)"
  proof (rule Cons.IH)
    show "\<forall>g n. g \<in> snd ` set vfs \<longrightarrow> fi_name g = Some n \<longrightarrow> ?H (record_key rec, fi_index g, n) = None"
      using Cons.prems(2,3) vf(1) by (auto simp: image_iff)
  qed (use Cons.prems vf in auto)
  then show ?case using fresh vf by (auto simp: batch_cells_Cons(2) field_cells_def)
qed simp

lemma add_rows_complete:
  assumes "list_all (\<lambda>f. fi_name f \<noteq> None) fs" "distinct (map fi_index fs)"
    and "list_all (\<lambda>((vs, key), rec). length vs = length fs \<and> key = rec) rows" "distinct (map (record_key \<circ> snd) rows)"
    and "dom H \<inter> batch_cells (map snd rows) fs = {}"
  shows "\<exists>H'. add_rows fs rows H = Inr H' \<and> dom H' = dom H \<union> batch_cells (map snd rows) fs"
  using assms(3-5)
proof (induction rows arbitrary: H)
  case (Cons r rows)
  obtain vs rec where r: "r = ((vs, rec), rec)" "length vs = length fs" using Cons.prems(1) by (cases r) auto
  have cells: "batch_cells (map snd (r # rows)) fs = batch_cells [rec] fs \<union> batch_cells (map snd rows) fs"
    using batch_cells_Cons(1) [of rec "map snd rows"] by (simp add: r(1))
  have "\<exists>H'. add_row rec (zip vs fs) H = Inr H' \<and> dom H' = dom H \<union> batch_cells [rec] (map snd (zip vs fs))"
  proof (rule add_row_complete)
    show "list_all (\<lambda>(v, f). fi_name f \<noteq> None) (zip vs fs)"
      using assms(1) by (auto simp: list_all_iff dest: set_zip_rightD)
    show "distinct (map (fi_index \<circ> snd) (zip vs fs))"
      using assms(2) r(2) by (simp flip: map_map)
    show "\<forall>f nm. f \<in> snd ` set (zip vs fs) \<longrightarrow> fi_name f = Some nm \<longrightarrow> H (record_key rec, fi_index f, nm) = None"
    proof (intro allI impI)
      fix f nm assume "f \<in> snd ` set (zip vs fs)" "fi_name f = Some nm"
      then have "(record_key rec, fi_index f, nm) \<in> batch_cells [rec] fs" by (auto simp: batch_cells_iff dest: set_zip_rightD)
      then show "H (record_key rec, fi_index f, nm) = None" using Cons.prems(3) unfolding cells by blast
    qed
  qed
  then obtain H1 where H1: "add_row rec (zip vs fs) H = Inr H1" "dom H1 = dom H \<union> batch_cells [rec] fs" using r(2) by auto
  have "batch_cells [rec] fs \<inter> batch_cells (map snd rows) fs = {}"
    using Cons.prems(2) by (fastforce simp: batch_cells_iff r(1))
  then have "\<exists>H'. add_rows fs rows H1 = Inr H' \<and> dom H' = dom H1 \<union> batch_cells (map snd rows) fs"
    using Cons.prems(1,2) Cons.prems(3) [unfolded cells] by (intro Cons.IH) (simp_all add: H1(2) Int_Un_distrib Int_Un_distrib2 Int_commute)
  then show ?case unfolding cells using H1 by (auto simp: r(1))
qed simp

end
