(* ===== verification/GB_Hydration_Sound.thy ===== *)
theory GB_Hydration_Sound
  imports GB_Hydrated
begin

text \<open>
  What hydration stores: the cells the plan collects from the rows, all of them, when the source
  answers each request with a batch of the shape asked for.
\<close>

section \<open>Fetching a group\<close>

definition named_slots :: "field_id list \<Rightarrow> bool" where
  "named_slots fs \<longleftrightarrow> list_all (\<lambda>f. fi_name f \<noteq> None) fs \<and> distinct (map fi_index fs)"

text \<open>The source fails with an error of \<open>A\<close> or returns a batch for the records and fields asked for.\<close>

definition source_answers :: "hydrate_ops \<Rightarrow> query_error set \<Rightarrow> bool" where
  "source_answers D A \<longleftrightarrow> (\<forall>records fs st. named_slots fs \<longrightarrow>
     (case ho_hydrate D records fs st of
        Inr (batch, _) \<Rightarrow> batch_validate batch records fs = Inr ()
      | Inl err \<Rightarrow> err \<in> A))"

lemma source_answersD:
  assumes "source_answers D A" "named_slots fs"
  shows "ho_hydrate D records fs st = Inl err \<Longrightarrow> err \<in> A"
    "ho_hydrate D records fs st = Inr (batch, st') \<Longrightarrow> batch_validate batch records fs = Inr ()"
proof -
  have "case ho_hydrate D records fs st of Inr (batch, _) \<Rightarrow> batch_validate batch records fs = Inr () | Inl err \<Rightarrow> err \<in> A"
    using assms unfolding source_answers_def by blast
  then show "ho_hydrate D records fs st = Inl err \<Longrightarrow> err \<in> A"
    "ho_hydrate D records fs st = Inr (batch, st') \<Longrightarrow> batch_validate batch records fs = Inr ()" by auto
qed

lemma add_batch_complete:
  assumes "batch_validate batch records fs = Inr ()" "named_slots fs" "distinct (map record_key records)"
    and "dom H \<inter> batch_cells records fs = {}"
  shows "\<exists>H'. add_batch records fs batch H = Inr H' \<and> dom H' = dom H \<union> batch_cells records fs"
proof -
  let ?rows = "zip (zip (xb_rows batch) (xb_row_keys batch)) records"
  have len: "length (xb_rows batch) = length records" "length (xb_row_keys batch) = length records"
    and each: "for_each (\<lambda>((vs, key), rec).
        guard_err (length vs \<noteq> length fs \<or> key \<noteq> rec \<or> list_ex (\<lambda>(v, f). \<not> field_accepts f v) (zip vs fs)) misaligned) ?rows = Inr ()"
    using assms(1) by (auto simp: batch_validate_def split: if_splits)
  have recs: "map snd ?rows = records" using len by simp
  have "\<exists>H'. add_rows fs ?rows H = Inr H' \<and> dom H' = dom H \<union> batch_cells (map snd ?rows) fs"
  proof (rule add_rows_complete)
    show "list_all (\<lambda>((vs, key), rec). length vs = length fs \<and> key = rec) ?rows"
      using each by (fastforce simp: for_each_Inr guard_err_def list_all_iff split: if_splits)
    show "distinct (map (record_key \<circ> snd) ?rows)" using assms(3) recs by (metis map_map)
    show "dom H \<inter> batch_cells (map snd ?rows) fs = {}" using assms(4) recs by simp
  qed (use assms(2) in \<open>simp_all add: named_slots_def\<close>)
  then show ?thesis using assms(1) recs by (simp add: add_batch_def)
qed

definition group_ok :: "hydration_group \<Rightarrow> bool" where
  "group_ok g \<longleftrightarrow> ordered_map (hg_fields g) \<and> ordered_map (hg_records g)
     \<and> list_all (\<lambda>(i, f). fi_index f = i \<and> fi_name f \<noteq> None) (hg_fields g)
     \<and> list_all (\<lambda>(key, r). record_key r = key) (hg_records g)"

definition group_fields :: "hydration_group \<Rightarrow> field_id list" where
  "group_fields g = map snd (hg_fields g)"

definition group_cells :: "hydration_group \<Rightarrow> (record_key \<times> u32 \<times> string) set" where
  "group_cells g = batch_cells (map snd (hg_records g)) (group_fields g)"

lemma entries_by_key: "list_all (\<lambda>(k, v). h v = k) es \<Longrightarrow> map (h \<circ> snd) es = map fst es"
  by (induction es) auto

lemma group_ok_request:
  assumes "group_ok g"
  shows "named_slots (group_fields g)" "distinct (map record_key (map snd (hg_records g)))"
proof -
  have "list_all (\<lambda>(i, f). fi_index f = i) (hg_fields g)" using assms by (auto simp: group_ok_def list_all_iff)
  from entries_by_key [OF this] have "distinct (map fi_index (group_fields g))"
    using assms ordered_map_distinct [of "hg_fields g"] unfolding group_ok_def group_fields_def map_map by presburger
  then show "named_slots (group_fields g)"
    using assms by (auto simp: group_ok_def named_slots_def group_fields_def list_all_iff)
  show "distinct (map record_key (map snd (hg_records g)))"
    using assms ordered_map_distinct [of "hg_records g"] entries_by_key [of record_key "hg_records g"]
    unfolding group_ok_def map_map by presburger
qed

lemma hydrate_group_ok:
  assumes "group_ok g" "source_answers D A" "dom H \<inter> group_cells g = {}"
  shows "case hydrate_group E D g H st of
      Inr (H', _) \<Rightarrow> dom H' = dom H \<union> group_cells g \<and>
        (\<forall>fs. distinct (map fi_index fs) \<longrightarrow> slots_of (group_fields g) fs \<longrightarrow> hydration_fits H fs \<longrightarrow> hydration_fits H' fs)
    | Inl err \<Rightarrow> err = quota \<or> err \<in> A"
proof -
  note request = group_ok_request [OF assms(1)]
  let ?records = "map snd (hg_records g)"
  have fetch: "case rbind (ho_hydrate D ?records (group_fields g) st2) (\<lambda>(batch, st3). with_state st3 (add_batch ?records (group_fields g) batch H)) of
      Inr (H', _) \<Rightarrow> dom H' = dom H \<union> group_cells g \<and>
        (\<forall>fs. distinct (map fi_index fs) \<longrightarrow> slots_of (group_fields g) fs \<longrightarrow> hydration_fits H fs \<longrightarrow> hydration_fits H' fs)
    | Inl err \<Rightarrow> err \<in> A" for st2
  proof (cases "ho_hydrate D ?records (group_fields g) st2")
    case (Inl err)
    then show ?thesis using source_answersD(1) [OF assms(2) request(1) Inl] by simp
  next
    case (Inr bst)
    obtain batch st3 where bst: "bst = (batch, st3)" by (cases bst)
    have "batch_validate batch ?records (group_fields g) = Inr ()"
      using source_answersD(2) [OF assms(2) request(1)] Inr bst by blast
    from add_batch_complete [OF this request]
    obtain H' where H': "add_batch ?records (group_fields g) batch H = Inr H'" "dom H' = dom H \<union> group_cells g"
      using assms(3) unfolding group_cells_def by blast
    then show ?thesis using add_batch_fits [OF _ _ H'(1)] by (auto simp: Inr bst with_state_def)
  qed
  show ?thesis
  proof (cases "check_now E st")
    case (Inl err)
    then show ?thesis using reserve_Inl by (simp add: hydrate_group_def)
  next
    case (Inr st1)
    show ?thesis
    proof (cases "reserve_now E (group_charge D g) st1")
      case (Inl err)
      then show ?thesis using reserve_Inl Inr by (simp add: hydrate_group_def)
    next
      case res: (Inr st2)
      let ?fetch = "rbind (ho_hydrate D ?records (group_fields g) st2) (\<lambda>(batch, st3). with_state st3 (add_batch ?records (group_fields g) batch H))"
      have "hydrate_group E D g H st = ?fetch" by (simp add: hydrate_group_def Inr res Let_def group_fields_def)
      then show ?thesis using fetch [of st2] by (cases ?fetch) simp_all
    qed
  qed
qed

lemma hydrate_groups_ok:
  assumes "list_all group_ok gs" "source_answers D A"
    and "sorted_wrt (\<lambda>a b. group_cells a \<inter> group_cells b = {}) gs" "\<forall>g\<in>set gs. dom H \<inter> group_cells g = {}"
  shows "case fold_st (hydrate_group E D) gs H st of
      Inr (H', _) \<Rightarrow> dom H' = dom H \<union> (\<Union>g\<in>set gs. group_cells g) \<and>
        (\<forall>fs. distinct (map fi_index fs) \<longrightarrow> list_all (\<lambda>g. slots_of (group_fields g) fs) gs \<longrightarrow> hydration_fits H fs \<longrightarrow> hydration_fits H' fs)
    | Inl err \<Rightarrow> err = quota \<or> err \<in> A"
  using assms
proof (induction gs arbitrary: H st)
  case (Cons g gs)
  have g: "group_ok g" "dom H \<inter> group_cells g = {}" using Cons.prems by auto
  note head = hydrate_group_ok [OF g(1) Cons.prems(2) g(2), of E st]
  show ?case
  proof (cases "hydrate_group E D g H st")
    case (Inl err)
    then show ?thesis using head by simp
  next
    case (Inr Hst)
    obtain H1 st1 where Hst: "Hst = (H1, st1)" by (cases Hst)
    have H1: "dom H1 = dom H \<union> group_cells g" "\<forall>fs. distinct (map fi_index fs) \<longrightarrow> slots_of (group_fields g) fs \<longrightarrow> hydration_fits H fs \<longrightarrow> hydration_fits H1 fs"
      using head Inr Hst by auto
    have "\<forall>g'\<in>set gs. dom H1 \<inter> group_cells g' = {}" using Cons.prems(3,4) unfolding H1(1) Int_Un_distrib2 by simp
    then have rest: "case fold_st (hydrate_group E D) gs H1 st1 of
        Inr (H', _) \<Rightarrow> dom H' = dom H1 \<union> (\<Union>g\<in>set gs. group_cells g) \<and>
          (\<forall>fs. distinct (map fi_index fs) \<longrightarrow> list_all (\<lambda>g. slots_of (group_fields g) fs) gs \<longrightarrow> hydration_fits H1 fs \<longrightarrow> hydration_fits H' fs)
      | Inl err \<Rightarrow> err = quota \<or> err \<in> A"
      using Cons.prems by (intro Cons.IH) auto
    have "fold_st (hydrate_group E D) (g # gs) H st = fold_st (hydrate_group E D) gs H1 st1" by (simp add: Inr Hst)
    then show ?thesis using rest H1 by (cases "fold_st (hydrate_group E D) gs H1 st1") (auto simp: Un_assoc)
  qed
qed simp

section \<open>The plan\<close>

lemma or_insert_set:
  assumes "ordered_map es"
  shows "set es \<subseteq> set (map_entry k v id es)" "set (map_entry k v id es) \<subseteq> insert (k, v) (set es)"
proof -
  have uniq: "map_of es k = Some (snd e)" if "e \<in> set es" "fst e = k" for e
    using that ordered_map_distinct [OF assms] by (metis map_of_eq_Some_iff prod.collapse)
  show "set es \<subseteq> set (map_entry k v id es)"
  proof
    fix e assume e: "e \<in> set es"
    show "e \<in> set (map_entry k v id es)"
      using e uniq [OF e] by (cases "fst e = k") (auto simp: map_entry_set [OF assms] intro: prod_eqI)
  qed
  show "set (map_entry k v id es) \<subseteq> insert (k, v) (set es)"
    by (auto simp: map_entry_set [OF assms] split: option.splits dest: map_of_SomeD)
qed

lemma or_insert_all: "ordered_map es \<Longrightarrow> list_all P es \<Longrightarrow> P (k, v) \<Longrightarrow> list_all P (map_entry k v id es)"
  using or_insert_set(2) [of es k v] by (auto simp: list_all_iff)

lemma empty_group_ok [simp]: "group_ok empty_group" "group_fields empty_group = []" "group_cells empty_group = {}"
  by (simp_all add: group_ok_def empty_group_def group_fields_def group_cells_def)

lemma group_cell_ok:
  assumes "group_ok g" "fi_name f \<noteq> None"
  shows "group_ok (group_cell f r g)"
proof -
  have "list_all (\<lambda>(i, f). fi_index f = i \<and> fi_name f \<noteq> None) (map_entry (fi_index f) f id (hg_fields g))"
    using assms by (intro or_insert_all) (simp_all add: group_ok_def)
  moreover have "list_all (\<lambda>(key, r). record_key r = key) (map_entry (record_key r) r id (hg_records g))"
    using assms by (intro or_insert_all) (simp_all add: group_ok_def)
  ultimately show ?thesis using assms(1) by (simp add: group_ok_def group_cell_def map_entry_ordered)
qed

lemma group_cell_fields:
  assumes "group_ok g"
  shows "set (group_fields g) \<subseteq> set (group_fields (group_cell f r g))" "set (group_fields (group_cell f r g)) \<subseteq> insert f (set (group_fields g))"
    "\<exists>f'\<in>set (group_fields (group_cell f r g)). fi_index f' = fi_index f"
proof -
  have ord: "ordered_map (hg_fields g)" and idx: "list_all (\<lambda>(i, f). fi_index f = i) (hg_fields g)"
    using assms by (auto simp: group_ok_def list_all_iff)
  note ins = or_insert_set [OF ord, of "fi_index f" f]
  show "set (group_fields g) \<subseteq> set (group_fields (group_cell f r g))"
    using image_mono [OF ins(1), of snd] by (simp add: group_fields_def group_cell_def)
  show "set (group_fields (group_cell f r g)) \<subseteq> insert f (set (group_fields g))"
    using image_mono [OF ins(2), of snd] by (simp add: group_fields_def group_cell_def)
  have "fi_index f \<in> fst ` set (map_entry (fi_index f) f id (hg_fields g))" by simp
  then obtain f' where f': "(fi_index f, f') \<in> set (map_entry (fi_index f) f id (hg_fields g))" by fastforce
  then have "fi_index f' = fi_index f" using ins(2) idx by (auto simp: list_all_iff)
  then show "\<exists>f'\<in>set (group_fields (group_cell f r g)). fi_index f' = fi_index f"
    using f' by (force simp: group_fields_def group_cell_def)
qed

lemma group_cell_cells:
  assumes "group_ok g" "fi_name f = Some nm" "\<And>f'. f' \<in> set (group_fields g) \<Longrightarrow> fi_index f' = fi_index f \<Longrightarrow> fi_name f' = Some nm"
  shows "insert (record_key r, fi_index f, nm) (group_cells g) \<subseteq> group_cells (group_cell f r g)"
proof -
  have ord: "ordered_map (hg_records g)" and keys: "list_all (\<lambda>(key, r). record_key r = key) (hg_records g)"
    using assms(1) by (auto simp: group_ok_def)
  let ?rs = "map snd (hg_records (group_cell f r g))"
  have keys': "list_all (\<lambda>(key, r). record_key r = key) (hg_records (group_cell f r g))"
    using group_cell_ok [OF assms(1), of f r] assms(2) by (simp add: group_ok_def)
  have "record_key ` set ?rs = set (map (record_key \<circ> snd) (hg_records (group_cell f r g)))" by (simp add: image_comp)
  also have "\<dots> = insert (record_key r) (fst ` set (hg_records g))"
    unfolding entries_by_key [OF keys'] by (simp add: group_cell_def)
  also have "fst ` set (hg_records g) = record_key ` set (map snd (hg_records g))"
    using arg_cong [OF entries_by_key [OF keys], of set] by (simp add: image_comp)
  finally have recs: "record_key ` set ?rs = insert (record_key r) (record_key ` set (map snd (hg_records g)))" .
  obtain f' where f': "f' \<in> set (group_fields (group_cell f r g))" "fi_index f' = fi_index f"
    using group_cell_fields(3) [OF assms(1)] by blast
  then have "fi_name f' = Some nm" using assms(2,3) group_cell_fields(2) [OF assms(1), of f r] by auto
  then have "(record_key r, fi_index f, nm) \<in> group_cells (group_cell f r g)"
    unfolding group_cells_def batch_cells_iff recs using f' by auto
  moreover have "(key, i, n) \<in> group_cells (group_cell f r g)" if "(key, i, n) \<in> group_cells g" for key i n
    using that group_cell_fields(1) [OF assms(1), of f r] unfolding group_cells_def batch_cells_iff recs by blast
  ultimately show ?thesis by auto
qed

text \<open>The groups of a plan hold slots of \<open>fs\<close>: those with a constant name in the first group, the others
  under the name found in the rows.\<close>

definition named_group_ok :: "field_id list \<Rightarrow> string \<times> hydration_group \<Rightarrow> bool" where
  "named_group_ok fs ng \<longleftrightarrow> group_ok (snd ng)
     \<and> list_all (\<lambda>f. \<exists>f0\<in>set fs. fi_name f0 = None \<and> f = with_name f0 (fst ng)) (group_fields (snd ng))"

definition plan_ok :: "field_id list \<Rightarrow> hydration_plan \<Rightarrow> bool" where
  "plan_ok fs plan \<longleftrightarrow> group_ok (fst plan) \<and> list_all (\<lambda>f. f \<in> set fs) (group_fields (fst plan))
     \<and> ordered_map (snd plan) \<and> list_all (named_group_ok fs) (snd plan)"

definition plan_cells :: "hydration_plan \<Rightarrow> (record_key \<times> u32 \<times> string) set" where
  "plan_cells plan = group_cells (fst plan) \<union> (\<Union>ng\<in>set (snd plan). group_cells (snd ng))"

lemma empty_plan [simp]: "plan_ok fs (empty_group, [])" "plan_cells (empty_group, []) = {}"
  by (simp_all add: plan_ok_def plan_cells_def)

lemma add_static_cell:
  assumes "plan_ok fs plan" "distinct (map fi_index fs)" "f \<in> set fs" "fi_name f = Some nm"
  shows "plan_ok fs (group_cell f r (fst plan), snd plan)"
    "insert (record_key r, fi_index f, nm) (plan_cells plan) \<subseteq> plan_cells (group_cell f r (fst plan), snd plan)"
proof -
  have g: "group_ok (fst plan)" and sub: "set (group_fields (fst plan)) \<subseteq> set fs" using assms(1) by (auto simp: plan_ok_def list_all_iff)
  show "plan_ok fs (group_cell f r (fst plan), snd plan)"
    using assms group_cell_ok [OF g, of f r] group_cell_fields(2) [OF g, of f r] by (auto simp: plan_ok_def list_all_iff)
  have "fi_name f' = Some nm" if "f' \<in> set (group_fields (fst plan))" "fi_index f' = fi_index f" for f'
    using that sub assms(2-4) by (metis distinct_map inj_onD subsetD)
  then show "insert (record_key r, fi_index f, nm) (plan_cells plan) \<subseteq> plan_cells (group_cell f r (fst plan), snd plan)"
    using group_cell_cells [OF g assms(4)] by (auto simp: plan_cells_def)
qed

lemma add_named_cell:
  assumes "plan_ok fs plan" "f \<in> set fs" "fi_name f = None"
    and plan': "plan' = (fst plan, map_entry nm empty_group (group_cell (with_name f nm) r) (snd plan))"
  shows "plan_ok fs plan'" "insert (record_key r, fi_index f, nm) (plan_cells plan) \<subseteq> plan_cells plan'"
proof -
  let ?f = "with_name f nm" and ?g = "case map_of (snd plan) nm of Some g \<Rightarrow> g | None \<Rightarrow> empty_group"
  have ord: "ordered_map (snd plan)" and all: "list_all (named_group_ok fs) (snd plan)" using assms(1) by (auto simp: plan_ok_def)
  have old: "named_group_ok fs (nm, ?g)"
    using all map_of_SomeD [of "snd plan" nm] by (cases "map_of (snd plan) nm") (auto simp: list_all_iff named_group_ok_def)
  have g: "group_ok ?g" using old by (simp add: named_group_ok_def)
  have f: "fi_name ?f = Some nm" "fi_index ?f = fi_index f" by (simp_all add: with_name_def)
  have entries: "set (snd plan') = insert (nm, group_cell ?f r ?g) {e \<in> set (snd plan). fst e \<noteq> nm}"
    by (simp add: plan' map_entry_set [OF ord])
  have "named_group_ok fs (nm, group_cell ?f r ?g)"
    using old group_cell_ok [OF g, of ?f r] group_cell_fields(2) [OF g, of ?f r] assms(2,3) f
    by (auto simp: named_group_ok_def list_all_iff)
  then have "list_all (named_group_ok fs) (snd plan')" using all unfolding list_all_iff entries by blast
  then show "plan_ok fs plan'"
    using assms(1) map_entry_ordered [OF ord] by (simp add: plan_ok_def plan')
  have "fi_name f' = Some nm" if "f' \<in> set (group_fields ?g)" for f'
    using that old by (auto simp: named_group_ok_def list_all_iff with_name_def)
  from group_cell_cells [OF g f(1) this]
  have new: "insert (record_key r, fi_index f, nm) (group_cells ?g) \<subseteq> group_cells (group_cell ?f r ?g)" by (simp add: f(2))
  have "group_cells (snd e) \<subseteq> plan_cells plan'" if e: "e \<in> set (snd plan)" for e
  proof (cases "fst e = nm")
    case True
    then have "map_of (snd plan) nm = Some (snd e)"
      using e ordered_map_distinct [OF ord] by (metis map_of_eq_Some_iff prod.collapse)
    then have "group_cells (snd e) \<subseteq> group_cells (group_cell ?f r ?g)" using new by simp
    then show ?thesis unfolding plan_cells_def entries by auto
  next
    case False
    then show ?thesis using e unfolding plan_cells_def entries by auto
  qed
  moreover have "(record_key r, fi_index f, nm) \<in> plan_cells plan'" using new unfolding plan_cells_def entries by auto
  moreover have "fst plan' = fst plan" by (simp add: plan')
  ultimately show "insert (record_key r, fi_index f, nm) (plan_cells plan) \<subseteq> plan_cells plan'"
    by (auto simp: plan_cells_def)
qed

section \<open>Collecting\<close>

text \<open>The cell a property asks for on a row, and the errors of finding it. The operands are evaluated
  without property values.\<close>

definition asks :: "eval_env \<Rightarrow> exec_row \<Rightarrow> property_need \<Rightarrow> record_ref \<Rightarrow> string \<Rightarrow> bool" where
  "asks E vs p r nm \<longleftrightarrow> pure_eval E vs (nd_entity p) = Inr (VEntity r) \<and>
     (case fi_name (nd_field p) of Some n \<Rightarrow> nm = n | None \<Rightarrow> pure_eval E vs (nd_name p) = Inr (VUtf8 nm))"

definition need_cells :: "eval_env \<Rightarrow> exec_row \<Rightarrow> property_need \<Rightarrow> (record_key \<times> u32 \<times> string) set" where
  "need_cells E vs p = {(record_key r, fi_index (nd_field p), nm) | r nm. asks E vs p r nm}"

definition need_error :: "eval_env \<Rightarrow> exec_row \<Rightarrow> property_need \<Rightarrow> query_error \<Rightarrow> bool" where
  "need_error E vs p err \<longleftrightarrow> pure_eval E vs (nd_entity p) = Inl err
     \<or> (\<exists>v. pure_eval E vs (nd_entity p) = Inr v \<and> v \<noteq> VNull \<and> (\<forall>r. v \<noteq> VEntity r) \<and> err = failure ''bound_type'')
     \<or> fi_name (nd_field p) = None \<and> (pure_eval E vs (nd_name p) = Inl err
         \<or> (\<exists>v. pure_eval E vs (nd_name p) = Inr v \<and> (\<forall>nm. v \<noteq> VUtf8 nm) \<and> err = failure ''bound_type''))"

definition collects ::
  "field_id list \<Rightarrow> (query_error \<Rightarrow> bool) \<Rightarrow> (record_key \<times> u32 \<times> string) set \<Rightarrow> hydration_plan
     \<Rightarrow> (query_error, hydration_plan \<times> metered) result \<Rightarrow> bool" where
  "collects fs Z S plan res =
     (case res of
        Inr (plan', _) \<Rightarrow> plan_ok fs plan' \<and> plan_cells plan \<union> S \<subseteq> plan_cells plan'
      | Inl err \<Rightarrow> err = quota \<or> Z err)"

lemma collects_fold:
  assumes "\<And>x plan st. x \<in> set xs \<Longrightarrow> plan_ok fs plan \<Longrightarrow> collects fs Z (S x) plan (f x plan st)" "plan_ok fs plan"
  shows "collects fs Z (\<Union>x\<in>set xs. S x) plan (fold_st f xs plan st)"
  using assms
proof (induction xs arbitrary: plan st)
  case (Cons x xs)
  have head: "collects fs Z (S x) plan (f x plan st)" using Cons.prems by simp
  show ?case
  proof (cases "f x plan st")
    case (Inr pst)
    obtain plan1 st1 where pst: "pst = (plan1, st1)" by (cases pst)
    have 1: "plan_ok fs plan1" "plan_cells plan \<union> S x \<subseteq> plan_cells plan1" using head by (auto simp: collects_def Inr pst)
    have rest: "collects fs Z (\<Union>x\<in>set xs. S x) plan1 (fold_st f xs plan1 st1)" using Cons 1(1) by simp
    show ?thesis
    proof (cases "fold_st f xs plan1 st1")
      case (Inl err)
      then show ?thesis using rest by (simp add: collects_def Inr pst)
    next
      case res: (Inr pst2)
      obtain plan2 st2 where "pst2 = (plan2, st2)" by (cases pst2)
      then show ?thesis using rest 1(2) res unfolding collects_def by (simp add: Inr pst) blast
    qed
  qed (use head in \<open>simp add: collects_def\<close>)
qed (simp add: collects_def)

lemma eval_cases:
  assumes "\<And>v st'. eval E vs e st = Inr (v, st') \<Longrightarrow> pure_eval E vs e = Inr v \<Longrightarrow> Q (k (v, st'))"
    and "\<And>err. err = quota \<or> pure_eval E vs e = Inl err \<Longrightarrow> Q (Inl err)"
  shows "Q (rbind (eval E vs e st) k)"
  using eval_transparent [of E vs e st] assms by (cases "eval E vs e st") (auto simp: transparent_def)

lemma cell_charge_cases: "(\<And>st'. Q (k st')) \<Longrightarrow> Q (Inl quota) \<Longrightarrow> Q (rbind (cell_charge E nm r st) k)"
  by (cases "cell_charge E nm r st") (auto simp: cell_charge_def dest: reserve_Inl)

lemma collect_need_ok:
  assumes plan: "plan_ok fs plan" and fs: "distinct (map fi_index fs)" "nd_field p \<in> set fs"
  shows "collects fs (need_error (E\<lparr>xe_hydrated := Map.empty\<rparr>) vs p) (need_cells (E\<lparr>xe_hydrated := Map.empty\<rparr>) vs p) plan (collect_need E vs p plan st)"
proof -
  let ?E = "E\<lparr>xe_hydrated := Map.empty\<rparr>" and ?f = "nd_field p"
  let ?Q = "collects fs (need_error ?E vs p) (need_cells ?E vs p) plan"
  have quota_ok: "?Q (Inl quota)" by (simp add: collects_def)
  have cells: "need_cells ?E vs p \<subseteq> {(record_key r, fi_index ?f, nm)}" if "asks ?E vs p r nm" for r nm
    using that by (auto simp: need_cells_def asks_def split: option.splits)
  show ?thesis
    unfolding collect_need_def Let_def
  proof (rule eval_cases)
    fix v st1 assume v: "pure_eval ?E vs (nd_entity p) = Inr v"
    show "?Q (case (v, st1) of (entity, st1) \<Rightarrow> (case entity of VNull \<Rightarrow> Inr (plan, st1)
        | VEntity r \<Rightarrow> (case fi_name ?f of
             Some nm \<Rightarrow> rbind (cell_charge E nm r st1) (\<lambda>st2. Inr ((group_cell ?f r (fst plan), snd plan), st2))
           | None \<Rightarrow> rbind (eval ?E vs (nd_name p) st1) (\<lambda>(v, st2). case v of
                 VUtf8 nm \<Rightarrow> rbind (cell_charge E nm r st2) (\<lambda>st3.
                   Inr ((fst plan, map_entry nm empty_group (group_cell (with_name ?f nm) r) (snd plan)), st3))
               | _ \<Rightarrow> Inl (failure ''bound_type'')))
        | _ \<Rightarrow> Inl (failure ''bound_type'')))"
    proof (cases "\<exists>r. v = VEntity r")
      case True
      then obtain r where r: "v = VEntity r" by blast
      show ?thesis
      proof (cases "fi_name ?f")
        case (Some nm)
        note add = add_static_cell [OF plan fs Some, of r]
        have "need_cells ?E vs p \<subseteq> {(record_key r, fi_index ?f, nm)}" by (rule cells) (simp add: asks_def v r Some)
        then have "?Q (Inr ((group_cell ?f r (fst plan), snd plan), s))" for s
          unfolding collects_def sum.case prod.case using add by blast
        then show ?thesis unfolding r Some prod.case query_value.case option.case by (rule cell_charge_cases) (rule quota_ok)
      next
        case None
        show ?thesis unfolding r None prod.case query_value.case option.case
        proof (rule eval_cases)
          fix w st2 assume w: "pure_eval ?E vs (nd_name p) = Inr w"
          show "?Q (case (w, st2) of (v, st2) \<Rightarrow> (case v of VUtf8 nm \<Rightarrow> rbind (cell_charge E nm r st2) (\<lambda>st3.
                   Inr ((fst plan, map_entry nm empty_group (group_cell (with_name ?f nm) r) (snd plan)), st3))
               | _ \<Rightarrow> Inl (failure ''bound_type'')))"
          proof (cases "\<exists>nm. w = VUtf8 nm")
            case True
            then obtain nm where nm: "w = VUtf8 nm" by blast
            note add = add_named_cell [OF plan fs(2) None refl, where nm = nm and r = r]
            have "need_cells ?E vs p \<subseteq> {(record_key r, fi_index ?f, nm)}" by (rule cells) (simp add: asks_def v r None w nm)
            then have "?Q (Inr ((fst plan, map_entry nm empty_group (group_cell (with_name ?f nm) r) (snd plan)), s))" for s
              unfolding collects_def sum.case prod.case using add by blast
            then show ?thesis unfolding nm prod.case query_value.case by (rule cell_charge_cases) (rule quota_ok)
          next
            case False
            then have "need_error ?E vs p (failure ''bound_type'')" by (auto simp: need_error_def None w)
            then show ?thesis using False by (cases w) (auto simp: collects_def)
          qed
        next
          fix err assume "err = quota \<or> pure_eval ?E vs (nd_name p) = Inl err"
          then show "?Q (Inl err)" using None by (auto simp: collects_def need_error_def)
        qed
      qed
    next
      case False
      then have none: "need_cells ?E vs p = {}" by (auto simp: need_cells_def asks_def v)
      have "need_error ?E vs p (failure ''bound_type'')" if "v \<noteq> VNull" using that False v by (auto simp: need_error_def)
      then show ?thesis using False none plan by (cases v) (auto simp: collects_def)
    qed
  next
    fix err assume "err = quota \<or> pure_eval ?E vs (nd_entity p) = Inl err"
    then show "?Q (Inl err)" by (auto simp: collects_def need_error_def)
  qed
qed

section \<open>Fetching the plan\<close>

lemma named_group_cells:
  assumes "named_group_ok fs ng" "(key, i, nm) \<in> group_cells (snd ng)"
  shows "nm = fst ng" "\<exists>f0\<in>set fs. fi_index f0 = i \<and> fi_name f0 = None"
proof -
  obtain f where f: "f \<in> set (group_fields (snd ng))" "fi_index f = i" "fi_name f = Some nm"
    using assms(2) by (auto simp: group_cells_def batch_cells_iff)
  then obtain f0 where "f0 \<in> set fs" "fi_name f0 = None" "f = with_name f0 (fst ng)"
    using assms(1) by (auto simp: named_group_ok_def list_all_iff)
  then show "nm = fst ng" "\<exists>f0\<in>set fs. fi_index f0 = i \<and> fi_name f0 = None" using f by (auto simp: with_name_def)
qed

lemma named_groups_apart:
  assumes "ordered_map ngs" "list_all (named_group_ok fs) ngs"
  shows "sorted_wrt (\<lambda>a b. group_cells a \<inter> group_cells b = {}) (map snd ngs)"
  using assms
proof (induction ngs)
  case (Cons ng ngs)
  have "group_cells (snd ng) \<inter> group_cells (snd ng') = {}" if ng': "ng' \<in> set ngs" for ng'
  proof (rule ccontr)
    assume "group_cells (snd ng) \<inter> group_cells (snd ng') \<noteq> {}"
    then obtain key i nm where "(key, i, nm) \<in> group_cells (snd ng)" "(key, i, nm) \<in> group_cells (snd ng')"
      by (metis disjoint_iff surj_pair)
    moreover have "named_group_ok fs ng" "named_group_ok fs ng'" using Cons.prems(2) ng' by (simp_all add: list_all_iff)
    ultimately have "fst ng = fst ng'" using named_group_cells(1) by metis
    then show False using Cons.prems(1) ng' by fastforce
  qed
  then show ?case using Cons by simp
qed simp

lemma fetch_plan_ok:
  assumes plan: "plan_ok fs plan" and fs: "distinct (map fi_index fs)" and D: "source_answers D A"
  shows "case fetch_plan E D plan st of
      Inr (H, _) \<Rightarrow> dom H = plan_cells plan \<and> hydration_fits H fs
    | Inl err \<Rightarrow> err = quota \<or> err \<in> A"
proof -
  have static: "group_ok (fst plan)" "set (group_fields (fst plan)) \<subseteq> set fs" and ord: "ordered_map (snd plan)"
    and named: "list_all (named_group_ok fs) (snd plan)" using plan by (auto simp: plan_ok_def list_all_iff)
  have apart: "group_cells (fst plan) \<inter> group_cells (snd ng) = {}" if ng: "ng \<in> set (snd plan)" for ng
  proof (rule ccontr)
    assume "group_cells (fst plan) \<inter> group_cells (snd ng) \<noteq> {}"
    then obtain key i nm where c: "(key, i, nm) \<in> group_cells (fst plan)" "(key, i, nm) \<in> group_cells (snd ng)"
      by (metis disjoint_iff surj_pair)
    obtain f where f: "f \<in> set fs" "fi_index f = i" "fi_name f = Some nm"
      using c(1) static(2) by (auto simp: group_cells_def batch_cells_iff)
    have "named_group_ok fs ng" using named ng by (simp add: list_all_iff)
    from named_group_cells(2) [OF this c(2)] obtain f0 where "f0 \<in> set fs" "fi_index f0 = i" "fi_name f0 = None" by blast
    then show False using f fs by (metis distinct_map inj_onD option.distinct(1))
  qed
  let ?gs = "plan_groups plan"
  have ok: "list_all group_ok ?gs" using static(1) named by (auto simp: plan_groups_def list_all_iff named_group_ok_def)
  have sorted: "sorted_wrt (\<lambda>a b. group_cells a \<inter> group_cells b = {}) ?gs"
    using named_groups_apart [OF ord named] apart by (auto simp: plan_groups_def)
  have slots: "list_all (\<lambda>g. slots_of (group_fields g) fs) ?gs"
  proof -
    have "slots_of (group_fields (fst plan)) fs" using static(2) by (auto simp: slots_of_def list_all_iff list_ex_iff)
    moreover have "slots_of (group_fields (snd ng)) fs" if "ng \<in> set (snd plan)" for ng
      using that named by (fastforce simp: list_all_iff named_group_ok_def slots_of_def list_ex_iff with_name_def)
    ultimately show ?thesis by (auto simp: plan_groups_def list_all_iff)
  qed
  have cells: "(\<Union>g\<in>set ?gs. group_cells g) = plan_cells plan"
    by (auto simp: plan_groups_def plan_cells_def group_cells_def group_fields_def)
  have fetch: "case fold_st (hydrate_group E D) ?gs Map.empty st' of Inr (H, _) \<Rightarrow> dom H = plan_cells plan \<and> hydration_fits H fs
      | Inl err \<Rightarrow> err = quota \<or> err \<in> A" for st'
    using hydrate_groups_ok [OF ok D sorted, of Map.empty E st'] fs slots unfolding cells
    by (cases "fold_st (hydrate_group E D) ?gs Map.empty st'") auto
  show ?thesis
  proof (cases "reserve_now E (saturating_mul (of_nat (length ?gs)) (ho_size_group D)) st")
    case (Inl err)
    then show ?thesis using reserve_Inl by (simp add: fetch_plan_def)
  next
    case (Inr st')
    then show ?thesis using fetch by (simp add: fetch_plan_def)
  qed
qed

section \<open>Hydration of a kernel\<close>

lemma collect_row_ok:
  assumes "plan_ok fs plan" "distinct (map fi_index fs)" "\<And>p. p \<in> set needs \<Longrightarrow> nd_field p \<in> set fs"
    and "\<And>p err. p \<in> set needs \<Longrightarrow> need_error (E\<lparr>xe_hydrated := Map.empty\<rparr>) vs p err \<Longrightarrow> Z err"
  shows "collects fs Z (\<Union>p\<in>set needs. need_cells (E\<lparr>xe_hydrated := Map.empty\<rparr>) vs p) plan (collect_row_hydration E needs vs plan st)"
  unfolding collect_row_hydration_def
proof (rule collects_fold [OF _ assms(1)])
  fix p plan st assume p: "p \<in> set needs" and plan: "plan_ok fs plan"
  show "collects fs Z (need_cells (E\<lparr>xe_hydrated := Map.empty\<rparr>) vs p) plan (collect_need E vs p plan st)"
    using collect_need_ok [OF plan assms(2) assms(3) [OF p], of E vs st] assms(4) [OF p]
    by (auto simp: collects_def split: sum.splits)
qed

lemma collect_pairs_ok:
  assumes "distinct (map fi_index fs)" "\<And>p. p \<in> set needs \<Longrightarrow> nd_field p \<in> set fs"
    and "\<And>l r p err. l \<in> set input \<Longrightarrow> r \<in> set right \<Longrightarrow> p \<in> set needs \<Longrightarrow> need_error (E\<lparr>xe_hydrated := Map.empty\<rparr>) (l @ r) p err \<Longrightarrow> Z err"
  shows "collects fs Z (\<Union>l\<in>set input. \<Union>r\<in>set right. \<Union>p\<in>set needs. need_cells (E\<lparr>xe_hydrated := Map.empty\<rparr>) (l @ r) p)
    (empty_group, []) (collect_pairs E needs input right st)"
  unfolding collect_pairs_def
proof (rule collects_fold)
  fix l plan st assume l: "l \<in> set input" and plan: "plan_ok fs plan"
  show "collects fs Z (\<Union>r\<in>set right. \<Union>p\<in>set needs. need_cells (E\<lparr>xe_hydrated := Map.empty\<rparr>) (l @ r) p) plan
      (fold_st (\<lambda>r plan st. rbind (check_now E st) (collect_row_hydration E needs (l @ r) plan)) right plan st)"
  proof (rule collects_fold [OF _ plan])
    fix r plan st assume r: "r \<in> set right" and plan: "plan_ok fs plan"
    show "collects fs Z (\<Union>p\<in>set needs. need_cells (E\<lparr>xe_hydrated := Map.empty\<rparr>) (l @ r) p) plan
        (rbind (check_now E st) (collect_row_hydration E needs (l @ r) plan))"
    proof (cases "check_now E st")
      case (Inl err)
      then show ?thesis using reserve_Inl by (simp add: collects_def)
    next
      case (Inr st1)
      then show ?thesis using collect_row_ok [OF plan assms(1,2) assms(3) [OF l r], of needs] by simp
    qed
  qed
qed simp

text \<open>What hydration of a kernel returns: property values that fit the slots and hold every cell its
  property expressions ask for on its rows.\<close>

definition hydration_complete :: "eval_env \<Rightarrow> kernel \<Rightarrow> exec_row list list \<Rightarrow> hydrated \<Rightarrow> bool" where
  "hydration_complete E k inputs H \<longleftrightarrow> hydration_fits H (kernel_fields k) \<and>
     (\<forall>vs\<in>set (kernel_rows k inputs). \<forall>p\<in>need_set (kernel_expression_roots k).
        need_cells (E\<lparr>xe_hydrated := Map.empty\<rparr>) vs p \<subseteq> dom H)"

definition hydration_error :: "eval_env \<Rightarrow> kernel \<Rightarrow> exec_row list list \<Rightarrow> query_error \<Rightarrow> bool" where
  "hydration_error E k inputs err \<longleftrightarrow>
     (\<exists>vs\<in>set (kernel_rows k inputs). \<exists>p\<in>need_set (kernel_expression_roots k). need_error (E\<lparr>xe_hydrated := Map.empty\<rparr>) vs p err)"

lemma hydrate_for_kernel_ok:
  assumes slots: "distinct (map fi_index (kernel_fields k))" and D: "source_answers D A"
    and right: "\<And>kind c w. k = KJoin kind c w \<Longrightarrow> second_input inputs \<noteq> None"
  shows "case hydrate_for_kernel E D k (first_input inputs) (second_input inputs) st of
      Inr (H, _) \<Rightarrow> hydration_complete E k inputs H
    | Inl err \<Rightarrow> err = quota \<or> err \<in> A \<or> hydration_error E k inputs err"
proof -
  let ?roots = "kernel_expression_roots k" and ?E = "E\<lparr>xe_hydrated := Map.empty\<rparr>" and ?fs = "kernel_fields k"
  let ?Z = "hydration_error E k inputs" and ?goal = "\<lambda>m. case m of Inr (H, _) \<Rightarrow> hydration_complete E k inputs H
    | Inl err \<Rightarrow> err = quota \<or> err \<in> A \<or> hydration_error E k inputs err"
  have fetch: "?goal (rbind m (\<lambda>(plan, st3). fetch_plan E D plan st3))"
    if m: "collects ?fs ?Z (\<Union>vs\<in>set (kernel_rows k inputs). \<Union>p\<in>need_set ?roots. need_cells ?E vs p) (empty_group, []) m" for m
  proof (cases m)
    case (Inl err)
    then show ?thesis using m by (auto simp: collects_def)
  next
    case (Inr pst)
    obtain plan st3 where pst: "pst = (plan, st3)" by (cases pst)
    have plan: "plan_ok ?fs plan" "(\<Union>vs\<in>set (kernel_rows k inputs). \<Union>p\<in>need_set ?roots. need_cells ?E vs p) \<subseteq> plan_cells plan"
      using m by (auto simp: collects_def Inr pst)
    show ?thesis
      using fetch_plan_ok [OF plan(1) slots D, of E st3] plan(2) unfolding Inr pst rbind.simps prod.case
      by (cases "fetch_plan E D plan st3") (auto simp: hydration_complete_def)
  qed
  show ?thesis
  proof (cases "reserve_now E (saturating_mul (of_nat (length ?roots)) (ho_size_word D)) st")
    case (Inl err)
    then show ?thesis using reserve_Inl by (simp add: hydrate_for_kernel_def)
  next
    case (Inr st1)
    show ?thesis
    proof (cases "property_needs E D ?roots st1")
      case (Inl err)
      then show ?thesis using Inr property_needs_quota [OF Inl] by (simp add: hydrate_for_kernel_def)
    next
      case needs: (Inr nst)
      obtain needs st2 where nst: "nst = (needs, st2)" by (cases nst)
      have all: "set needs = need_set ?roots"
        using property_needs_are_the_properties [OF needs [unfolded nst]] slots by (simp add: kernel_fields_def)
      have field: "nd_field p \<in> set ?fs" if "p \<in> set needs" for p
        using that unfolding all need_set_def kernel_fields_def by (auto simp: properties_fields(1) [symmetric])
      have error: "?Z err" if "vs \<in> set (kernel_rows k inputs)" "p \<in> set needs" "need_error ?E vs p err" for vs p err
        using that unfolding all hydration_error_def by blast
      show ?thesis
      proof (cases "needs = []")
        case True
        then show ?thesis using all by (auto simp: hydrate_for_kernel_def Inr needs nst hydration_complete_def)
      next
        case nonempty: False
        show ?thesis
        proof (cases "\<exists>kind c w. k = KJoin kind c w")
          case True
          then obtain kind c w where k: "k = KJoin kind c w" by blast
          then obtain rs where rs: "second_input inputs = Some rs" using right by blast
          have pair: "l @ r \<in> set (kernel_rows k inputs)" if "l \<in> set (first_input inputs)" "r \<in> set rs" for l r
            using that by (auto simp: kernel_rows_def k rs)
          have "collects ?fs ?Z (\<Union>l\<in>set (first_input inputs). \<Union>r\<in>set rs. \<Union>p\<in>set needs. need_cells ?E (l @ r) p) (empty_group, [])
              (collect_pairs E needs (first_input inputs) rs st')" for st'
            by (rule collect_pairs_ok [OF slots field]) (use pair error in blast)+
          then have pairs: "collects ?fs ?Z (\<Union>vs\<in>set (kernel_rows k inputs). \<Union>p\<in>need_set ?roots. need_cells ?E vs p) (empty_group, [])
              (collect_pairs E needs (first_input inputs) rs st')" for st'
            by (simp add: kernel_rows_def k rs all [unfolded k])
          have "collects ?fs ?Z (\<Union>vs\<in>set (kernel_rows k inputs). \<Union>p\<in>need_set ?roots. need_cells ?E vs p) (empty_group, [])
              (rbind (reserve_now E n st2) (collect_pairs E needs (first_input inputs) rs))" for n
            using pairs reserve_Inl(1) [of E n st2] by (cases "reserve_now E n st2") (auto simp: collects_def)
          from fetch [OF this] show ?thesis
            using nonempty Inr needs unfolding k by (simp add: hydrate_for_kernel_def nst rs Let_def)
        next
          case False
          have rows: "kernel_rows k inputs = first_input inputs" using False by (cases k) (auto simp: kernel_rows_def)
          have "collects ?fs ?Z (\<Union>vs\<in>set (first_input inputs). \<Union>p\<in>set needs. need_cells ?E vs p) (empty_group, [])
              (fold_st (collect_row_hydration E needs) (first_input inputs) (empty_group, []) st2)"
            by (rule collects_fold) (use collect_row_ok [OF _ slots field] error rows in auto)
          note collected = fetch [OF this [unfolded all, folded rows]]
          have "hydrate_for_kernel E D k (first_input inputs) (second_input inputs) st
              = rbind (fold_st (collect_row_hydration E needs) (first_input inputs) (empty_group, []) st2) (\<lambda>(plan, st3). fetch_plan E D plan st3)"
            using nonempty False Inr needs by (cases k) (simp_all add: hydrate_for_kernel_def nst Let_def)
          then show ?thesis using collected unfolding rows by simp
        qed
      qed
    qed
  qed
qed

end
