(* ===== verification/GB_Operator.thy ===== *)
theory GB_Operator
  imports GB_Hydration_Sound
begin

text \<open>
  One operator of a plan: its property values are fetched, then its kernel runs. A bound operator
  returns rows of the columns binding announced, and never misses a property value.
\<close>

section \<open>Operands of properties\<close>

lemma binary_type_base: "binary_type op l r = Inr ty \<Longrightarrow> base_type ty \<in> {TBool, TI64, TF64Finite}"
  by (auto simp: binary_type_def Let_def numeric_type_def nullable_if_def as_nullable_def boolean_type_def split: if_splits)

lemma entities_have_no_properties:
  "well_bound cols e \<Longrightarrow> base_type (be_ty e) \<in> {TEntity, TUtf8} \<Longrightarrow> properties_of e = []"
proof (induction e rule: measure_induct_rule [where f = size])
  case (less e)
  obtain ty k where e: "e = Bound ty k" by (cases e)
  show ?case
  proof (cases k)
    case (XBinary op l r)
    then show ?thesis using less.prems binary_type_base [of op "be_ty l" "be_ty r" ty] by (auto simp: e)
  next
    case (XLower a)
    then show ?thesis using less.prems less.IH [of a] by (simp add: e)
  qed (use less.prems in \<open>auto simp: e numeric_type_def nullable_if_def as_nullable_def split: unary_op.splits if_splits\<close>)
qed

lemma pure_eval_no_properties: "properties_of e = [] \<Longrightarrow> pure_eval (E\<lparr>xe_hydrated := H\<rparr>) vs e = pure_eval E vs e"
proof (induction e rule: measure_induct_rule [where f = size])
  case (less e)
  have operands: "properties_of k = []" if "k \<in> set (bound_operands e)" for k
    using operand_properties [OF that] less.prems by simp
  have build: "pure_build (E\<lparr>xe_hydrated := H\<rparr>) vs e xs = pure_build E vs e xs" for xs
  proof -
    obtain ty k where "e = Bound ty k" by (cases e)
    then show ?thesis using less.prems by (cases k) (auto simp: pure_build_def)
  qed
  have "collect_results (map (pure_eval (E\<lparr>xe_hydrated := H\<rparr>) vs) (bound_operands e)) = collect_results (map (pure_eval E vs) (bound_operands e))"
    by (rule collect_results_cong [OF refl]) (use less.IH [OF bound_operand_smaller operands] in blast)
  then show ?case
    unfolding pure_eval.simps [of "E\<lparr>xe_hydrated := H\<rparr>" vs e] pure_eval.simps [of E vs e] by (simp add: build cong: rbind_cong)
qed

definition well_need :: "column list \<Rightarrow> property_need \<Rightarrow> bool" where
  "well_need cols p \<longleftrightarrow> well_bound cols (nd_entity p) \<and> well_bound cols (nd_name p)
     \<and> base_type (be_ty (nd_entity p)) = TEntity \<and> base_type (be_ty (nd_name p)) = TUtf8
     \<and> fi_name (nd_field p) = (case be_kind (nd_name p) of XLiteral (VUtf8 s) \<Rightarrow> Some s | _ \<Rightarrow> None)"

definition safe_need :: "column list \<Rightarrow> property_need \<Rightarrow> bool" where
  "safe_need cols p \<longleftrightarrow> null_safe cols (nd_entity p) \<and> null_safe cols (nd_name p) \<and> \<not> is_nullable (be_ty (nd_name p))"

lemma properties_well:
  "well_bound cols e \<Longrightarrow> list_all (well_need cols) (properties_of e)"
  "well_kind cols ty k \<Longrightarrow> list_all (well_need cols) (kind_properties k)"
  by (induction e and k arbitrary: and ty rule: properties_of_kind_properties.induct) (auto simp: well_need_def list_all_iff)

lemma properties_safe:
  "null_safe cols e \<Longrightarrow> list_all (safe_need cols) (properties_of e)"
  "null_safe_kind cols k \<Longrightarrow> list_all (safe_need cols) (kind_properties k)"
  by (induction e and k rule: properties_of_kind_properties.induct) (auto simp: safe_need_def list_all_iff)

section \<open>Errors of hydration\<close>

definition data_errors :: "bool \<Rightarrow> query_error set" where
  "data_errors safe = {quota, failure ''division_by_zero'', failure ''integer_overflow'', failure ''nonfinite_result''}
     \<union> (if safe then {} else {failure ''bound_type''})"

lemma error_ok_data: "error_ok safe err \<Longrightarrow> err \<noteq> missing \<Longrightarrow> err \<in> data_errors safe"
  by (auto simp: error_ok_def runtime_errors_def data_errors_def)

lemma operand_outcome:
  assumes "row_typed cols vs" "well_bound cols e" "base_type (be_ty e) \<in> {TEntity, TUtf8}" "safe \<longrightarrow> null_safe cols e"
  shows "case pure_eval E vs e of Inr v \<Rightarrow> value_of_type (be_ty e) v | Inl err \<Rightarrow> err \<in> data_errors safe"
proof -
  have none: "properties_of e = []" by (rule entities_have_no_properties [OF assms(2,3)])
  then have "property_fields e = []" using properties_fields(1) [of e] by simp
  then have "outcome_ok (null_safe cols e) (be_ty e) (pure_eval E vs e)"
    using pure_eval_ok [OF assms(1,2)] by (simp add: hydration_fits_def)
  then have ok: "outcome_ok safe (be_ty e) (pure_eval E vs e)" using assms(4) outcome_mono by blast
  show ?thesis
  proof (cases "pure_eval E vs e")
    case (Inl err)
    then have "err \<noteq> missing" using pure_eval_missing [of E vs e] none by auto
    then show ?thesis using ok error_ok_data by (simp add: Inl outcome_ok_def error_ok_def)
  qed (use ok in simp)
qed

lemma need_error_data:
  assumes "row_typed cols vs" "well_need cols p" "safe \<longrightarrow> safe_need cols p" "need_error E vs p err"
  shows "err \<in> data_errors safe"
proof -
  have e: "well_bound cols (nd_entity p)" "base_type (be_ty (nd_entity p)) = TEntity" and n: "well_bound cols (nd_name p)" "base_type (be_ty (nd_name p)) = TUtf8"
    using assms(2) by (auto simp: well_need_def)
  have entity: "case pure_eval E vs (nd_entity p) of Inr v \<Rightarrow> value_of_type (be_ty (nd_entity p)) v | Inl err \<Rightarrow> err \<in> data_errors safe"
    using assms(3) by (intro operand_outcome [OF assms(1) e(1)]) (auto simp: e(2) safe_need_def)
  have nm: "case pure_eval E vs (nd_name p) of Inr v \<Rightarrow> value_of_type (be_ty (nd_name p)) v | Inl err \<Rightarrow> err \<in> data_errors safe"
    using assms(3) by (intro operand_outcome [OF assms(1) n(1)]) (auto simp: n(2) safe_need_def)
  have "\<not> safe \<or> err \<noteq> failure ''bound_type''" if "pure_eval E vs (nd_name p) = Inr v" "\<forall>x. v \<noteq> VUtf8 x" for v
    using nm that base_cases(5) [OF _ n(2) refl, of v] assms(3) by (auto simp: safe_need_def)
  moreover have "v = VNull \<or> (\<exists>r. v = VEntity r)" if "pure_eval E vs (nd_entity p) = Inr v" for v
    using entity that base_cases(6) [OF _ e(2) refl, of v] by auto
  ultimately show ?thesis
    using assms(4) entity nm unfolding need_error_def by (auto simp: data_errors_def split: sum.splits)
qed

section \<open>Nothing is missing\<close>

lemma literal_name: "(case k of XLiteral (VUtf8 s) \<Rightarrow> Some s | _ \<Rightarrow> None) = Some n \<Longrightarrow> k = XLiteral (VUtf8 n)"
  by (auto split: expr_kind.splits query_value.splits)

lemma fetched:
  assumes "well_need cols p" "need_cells (E\<lparr>xe_hydrated := Map.empty\<rparr>) vs p \<subseteq> dom H"
  shows "\<not> unfetched (E\<lparr>xe_hydrated := H\<rparr>) vs p"
proof
  assume "unfetched (E\<lparr>xe_hydrated := H\<rparr>) vs p"
  then obtain r nm where r: "pure_eval (E\<lparr>xe_hydrated := H\<rparr>) vs (nd_entity p) = Inr (VEntity r)"
    and nm: "pure_eval (E\<lparr>xe_hydrated := H\<rparr>) vs (nd_name p) = Inr (VUtf8 nm)"
    and none: "H (record_key r, fi_index (nd_field p), nm) = None" by (auto simp: unfetched_def)
  have free: "properties_of (nd_entity p) = []" "properties_of (nd_name p) = []"
    using assms(1) entities_have_no_properties by (auto simp: well_need_def)
  have "nm = n" if "fi_name (nd_field p) = Some n" for n
  proof -
    have "be_kind (nd_name p) = XLiteral (VUtf8 n)" using that assms(1) literal_name by (simp add: well_need_def)
    then obtain ty where "nd_name p = Bound ty (XLiteral (VUtf8 n))" by (cases "nd_name p") simp
    then show ?thesis using nm by (simp add: pure_eval.simps [of _ vs "Bound ty _"] bound_operands_def pure_build_def)
  qed
  then have "asks (E\<lparr>xe_hydrated := Map.empty\<rparr>) vs p r nm"
    using r nm by (auto simp: asks_def pure_eval_no_properties free split: option.splits)
  then have "(record_key r, fi_index (nd_field p), nm) \<in> dom H" using assms(2) by (auto simp: need_cells_def)
  then show False using none by auto
qed

lemma kernel_roots_well:
  assumes "well_kernel l r cols k"
  shows "list_all (well_bound (kernel_scope k l r)) (kernel_expression_roots k)"
proof (cases k)
  case (KAggregate gs as)
  then obtain ts where "list_all (well_bound l) gs" "list_all2 (well_aggregate l) as ts" using assms by (auto simp: well_kernel_def)
  moreover have "well_bound l e" if "list_all2 (well_aggregate l) as ts" "call \<in> set as" "ag_arg call = Some e" for call e
    using that by (auto simp: list_all2_conv_all_nth in_set_conv_nth well_aggregate_def split: if_splits)
  ultimately show ?thesis
    by (fastforce simp: KAggregate kernel_scope_def kernel_expression_roots_def list_all_iff List.map_filter_def)
qed (use assms in \<open>auto simp: well_kernel_def kernel_scope_def kernel_expression_roots_def list_all_iff\<close>)

section \<open>Running an operator\<close>

definition run_operator ::
  "eval_env \<Rightarrow> hydrate_ops \<Rightarrow> kernel_ops \<Rightarrow> exec_row list option \<Rightarrow> kernel \<Rightarrow> exec_row list list \<Rightarrow> metered
     \<Rightarrow> (query_error, exec_row list \<times> metered) result" where
  "run_operator E D C source k inputs st =
     rbind (hydrate_for_kernel E D k (first_input inputs) (second_input inputs) st) (\<lambda>(H, st1).
     run_kernel (E\<lparr>xe_hydrated := H\<rparr>) C source k inputs st1)"

lemma kernel_rows_typed:
  assumes "list_all (row_typed l) a" "list_all (row_typed r) b" "vs \<in> set (kernel_rows k (kernel_inputs k a b))"
  shows "row_typed (kernel_scope k l r) vs"
  using assms
  by (cases k) (auto simp: kernel_rows_def kernel_inputs_def first_input_def second_input_def kernel_scope_def list_all_iff row_typed_append)

lemma need_set_all: "list_all (\<lambda>e. list_all Q (properties_of e)) es \<Longrightarrow> p \<in> need_set es \<Longrightarrow> Q p"
  by (auto simp: need_set_def list_all_iff)

lemma hydration_error_data:
  assumes "well_kernel l r cols k" "list_all (row_typed l) a" "list_all (row_typed r) b"
    and "hydration_error E k (kernel_inputs k a b) err"
  shows "err \<in> data_errors (kernel_null_safe (kernel_scope k l r) k)"
proof -
  let ?scope = "kernel_scope k l r"
  obtain vs p where vs: "vs \<in> set (kernel_rows k (kernel_inputs k a b))" and p: "p \<in> need_set (kernel_expression_roots k)"
    and err: "need_error (E\<lparr>xe_hydrated := Map.empty\<rparr>) vs p err" using assms(4) by (auto simp: hydration_error_def)
  have "list_all (\<lambda>e. list_all (well_need ?scope) (properties_of e)) (kernel_expression_roots k)"
    using kernel_roots_well [OF assms(1)] properties_well(1) by (auto simp: list_all_iff)
  then have well: "well_need ?scope p" by (rule need_set_all [OF _ p])
  have "list_all (\<lambda>e. list_all (safe_need ?scope) (properties_of e)) (kernel_expression_roots k)" if "kernel_null_safe ?scope k"
    using that properties_safe(1) by (auto simp: kernel_null_safe_def list_all_iff)
  then have safe: "kernel_null_safe ?scope k \<longrightarrow> safe_need ?scope p" using need_set_all [OF _ p] by blast
  show ?thesis by (rule need_error_data [OF kernel_rows_typed [OF assms(2,3) vs] well safe err])
qed

lemma complete_not_missing:
  assumes "well_kernel l r cols k" "hydration_complete E k inputs H"
  shows "algebra (E\<lparr>xe_hydrated := H\<rparr>) C source k inputs \<noteq> Inl missing"
proof
  assume "algebra (E\<lparr>xe_hydrated := H\<rparr>) C source k inputs = Inl missing"
  then obtain vs e where vs: "vs \<in> set (kernel_rows k inputs)" "e \<in> set (kernel_expression_roots k)"
    and "pure_eval (E\<lparr>xe_hydrated := H\<rparr>) vs e = Inl missing" using algebra_missing by blast
  then obtain p where p: "p \<in> set (properties_of e)" "unfetched (E\<lparr>xe_hydrated := H\<rparr>) vs p" using pure_eval_missing by blast
  have "well_bound (kernel_scope k l r) e" using kernel_roots_well [OF assms(1)] vs(2) by (simp add: list_all_iff)
  then have "well_need (kernel_scope k l r) p" using properties_well(1) p(1) by (auto simp: list_all_iff)
  moreover have "p \<in> need_set (kernel_expression_roots k)" using p(1) vs(2) by (auto simp: need_set_def)
  then have "need_cells (E\<lparr>xe_hydrated := Map.empty\<rparr>) vs p \<subseteq> dom H" using assms(2) vs(1) by (simp add: hydration_complete_def)
  ultimately show False using fetched p(2) by blast
qed

lemma run_operator_ok:
  assumes well: "well_kernel l r cols k" and slots: "distinct (map fi_index (kernel_fields k))"
    and a: "list_all (row_typed l) a" and b: "list_all (row_typed r) b"
    and source: "\<And>src. k = KSourceScan src \<Longrightarrow> \<exists>rs. source = Some rs \<and> list_all (row_typed cols) rs"
    and D: "source_answers D A" and C: "sorts_its_list C"
  shows "case run_operator E D C source k (kernel_inputs k a b) st of
      Inr (rs, _) \<Rightarrow> list_all (row_typed cols) rs
    | Inl err \<Rightarrow> err \<in> A \<or> err \<in> data_errors (kernel_null_safe (kernel_scope k l r) k)"
proof -
  let ?inputs = "kernel_inputs k a b" and ?safe = "kernel_null_safe (kernel_scope k l r) k"
  have hydrate: "case hydrate_for_kernel E D k (first_input ?inputs) (second_input ?inputs) st of
      Inr (H, _) \<Rightarrow> hydration_complete E k ?inputs H | Inl err \<Rightarrow> err = quota \<or> err \<in> A \<or> hydration_error E k ?inputs err"
    by (rule hydrate_for_kernel_ok [OF slots D]) (simp add: kernel_inputs_def second_input_def)
  show ?thesis
  proof (cases "hydrate_for_kernel E D k (first_input ?inputs) (second_input ?inputs) st")
    case (Inl err)
    then have "err = quota \<or> err \<in> A \<or> err \<in> data_errors ?safe"
      using hydrate hydration_error_data [OF well a b, of E err] by auto
    then show ?thesis by (auto simp: run_operator_def Inl data_errors_def)
  next
    case (Inr Hst)
    obtain H st1 where Hst: "Hst = (H, st1)" by (cases Hst)
    let ?E = "E\<lparr>xe_hydrated := H\<rparr>"
    have complete: "hydration_complete E k ?inputs H" using hydrate Inr Hst by simp
    have "rows_ok ?safe cols (algebra ?E C source k ?inputs)"
      by (rule algebra_ok [OF well a b source _ C]) (use complete in \<open>simp_all add: hydration_complete_def kernel_fields_def\<close>)
    then have "case algebra ?E C source k ?inputs of Inr rs \<Rightarrow> list_all (row_typed cols) rs | Inl err \<Rightarrow> err \<in> data_errors ?safe"
      using complete_not_missing [OF well complete, of C source] error_ok_data [of ?safe]
      by (cases "algebra ?E C source k ?inputs") (auto simp: rows_ok_def error_ok_def)
    then show ?thesis
      using run_kernel_transparent [of ?E C source k ?inputs st1]
      by (cases "run_kernel ?E C source k ?inputs st1")
        (auto simp: run_operator_def Inr Hst transparent_def data_errors_def split: sum.splits)
  qed
qed

end
