(* ===== verification/GB_Binder.thy ===== *)
theory GB_Binder
  imports GB_Operator
begin

text \<open>
  Binding of a whole request (\<open>src/src/query/hql2/bind.rs\<close>, function \<open>bind_v2\<close>): the nodes of the request
  in order, each over the columns of the nodes it reads, and the check that all of them are reached
  from the root. The operators on graphs, vectors, texts and annotations are outside this model: a
  request with one of them has no value here (\<open>None\<close>).
\<close>

section \<open>Sources\<close>

definition history_kind :: "entity_kind \<Rightarrow> (query_error, record_kind) result" where
  "history_kind kind =
     (case kind of
        EntNode \<Rightarrow> Inr KindNode
      | EntEdge \<Rightarrow> Inr KindEdge
      | EntRow \<Rightarrow> Inr KindRow
      | EntVector \<Rightarrow> Inr KindVector
      | EntAnnotation \<Rightarrow> Inr KindAnnotation
      | EntArtifact \<Rightarrow> Inl (query_error_new ''CAPABILITY_UNSUPPORTED'' ''bind'' ''history_source_unavailable''))"

definition history_id :: "bound_expr \<Rightarrow> (query_error, string) result" where
  "history_id e =
     (case be_kind e of
        XLiteral (VUtf8 s) \<Rightarrow>
          if s = [] \<or> length s > 1024 \<or> CHR 0x00 \<in> set s then Inl (bind_error ''history_id'') else Inr s
      | XLiteral _ \<Rightarrow> Inl (bind_error ''history_id_type'')
      | _ \<Rightarrow> Inl (bind_error ''history_id_constant''))"

definition scan_of :: "string \<Rightarrow> query_type \<Rightarrow> bound_source \<Rightarrow> u32 \<Rightarrow> bound_operator" where
  "scan_of nm ty src nxt = ([\<lparr>col_name = nm, col_ty = ty\<rparr>], KSourceScan src, nxt)"

text \<open>The catalog is the set of tables it knows.\<close>

definition bind_scan :: "(string \<Rightarrow> bool) \<Rightarrow> bind_env \<Rightarrow> config \<Rightarrow> u32 \<Rightarrow> (query_error, bound_operator) result option" where
  "bind_scan has_table B cfg nxt =
     (case cfg of
        CNodeScan nm label \<Rightarrow> Some (Inr (scan_of nm TEntity (SourceNode label) nxt))
      | CEdgeScan nm relation \<Rightarrow> Some (Inr (scan_of nm TEntity (SourceEdge relation) nxt))
      | CRowScan table nm \<Rightarrow> Some
          (if \<not> has_table table then Inl (bind_error ''unknown_table'') else Inr (scan_of nm TEntity (SourceRow table) nxt))
      | CAnnotationScan nm \<Rightarrow> Some (Inr (scan_of nm TEntity SourceAnnotation nxt))
      | CHistoryScan kind eid nm \<Rightarrow> Some
          (rbind (history_kind kind) (\<lambda>kind.
           rbind (bind_expr B 0 eid nxt) (\<lambda>(e, nxt1).
           rbind (history_id e) (\<lambda>s. Inr (scan_of nm THistoryRevision (SourceHistory kind s) nxt1)))))
      | CChangeScan after_seq nm \<Rightarrow> Some (Inr (scan_of nm TChangeEvent (SourceChanges after_seq) nxt))
      | _ \<Rightarrow> None)"

section \<open>A node\<close>

fun config_op :: "config \<Rightarrow> query_op" where
  "config_op (CNodeScan _ _) = NodeScan"
| "config_op (CEdgeScan _ _) = EdgeScan"
| "config_op (CRowScan _ _) = RowScan"
| "config_op (CAnnotationScan _) = AnnotationScan"
| "config_op (CValues _ _) = Values"
| "config_op (CHistoryScan _ _ _) = HistoryScan"
| "config_op (CChangeScan _ _) = ChangeScan"
| "config_op (CMatch _ _ _) = Match"
| "config_op (CFilter _) = Filter"
| "config_op (CProject _) = Project"
| "config_op CDistinct = Distinct"
| "config_op (CKnn _ _ _ _ _ _) = Knn"
| "config_op (CRerank _ _ _ _ _ _) = Rerank"
| "config_op (CExpand _ _) = Expand"
| "config_op (CAnnotationLookup _ _ _) = AnnotationLookup"
| "config_op (CLexicalMatch _ _ _ _ _ _) = LexicalMatch"
| "config_op (CJoin _ _) = Join"
| "config_op (CAggregate _ _) = Aggregate"
| "config_op (CSort _) = Sort"
| "config_op (CTake _) = Take"
| "config_op (COffset _) = Offset"
| "config_op CUnionAll = UnionAll"
| "config_op (CContextPack _ _ _ _ _) = ContextPack"

record bound_node =
  bd_id :: string
  bd_op :: query_op
  bd_inputs :: "nat list"
  bd_columns :: "column list"
  bd_kernel :: kernel

record binder_state =
  bs_nodes :: "bound_node list"
  bs_index :: "string \<rightharpoonup> nat"
  bs_depths :: "nat list"
  bs_next :: u32

definition binder_start :: binder_state where
  "binder_start = \<lparr>bs_nodes = [], bs_index = Map.empty, bs_depths = [], bs_next = 0\<rparr>"

definition node_columns :: "bound_node list \<Rightarrow> nat list \<Rightarrow> nat \<Rightarrow> column list" where
  "node_columns ns inputs j = (if j < length inputs then bd_columns (ns ! (inputs ! j)) else [])"

definition push_node ::
  "logical_node \<Rightarrow> nat list \<Rightarrow> nat \<Rightarrow> binder_state \<Rightarrow> bound_operator \<Rightarrow> (query_error, binder_state) result" where
  "push_node n inputs depth s bound =
     (case bound of (columns, k, nxt) \<Rightarrow>
        rbind (guard_err (config_op (ln_config n) \<noteq> ln_op n) (bind_error ''operator_config_mismatch'')) (\<lambda>_.
        Inr \<lparr>bs_nodes = bs_nodes s @ [\<lparr>bd_id = ln_id n, bd_op = ln_op n, bd_inputs = inputs, bd_columns = columns, bd_kernel = k\<rparr>],
             bs_index = (bs_index s)(ln_id n \<mapsto> length (bs_nodes s)),
             bs_depths = bs_depths s @ [depth], bs_next = nxt\<rparr>))"

definition bind_node ::
  "(string \<Rightarrow> bool) \<Rightarrow> bind_env \<Rightarrow> logical_node \<Rightarrow> binder_state \<Rightarrow> (query_error, binder_state) result option" where
  "bind_node has_table B n s =
     (if bs_index s (ln_id n) \<noteq> None then Some (Inl (bind_error ''duplicate_node''))
      else
        case collect_results (map (\<lambda>i. ok_or (bind_error ''dag_order'') (bs_index s i)) (ln_inputs n)) of
          Inl err \<Rightarrow> Some (Inl err)
        | Inr inputs \<Rightarrow>
            let depth = Max (insert 0 (set (map ((!) (bs_depths s)) inputs))) + 1 in
            if depth > 128 then Some (Inl (bind_error ''dag_depth''))
            else if length inputs \<noteq> arity (config_op (ln_config n)) then Some (Inl (bind_error ''input_arity''))
            else
              let B' = B\<lparr>bn_scope := node_columns (bs_nodes s) inputs 0\<rparr>;
                  bound = (case bind_scan has_table B' (ln_config n) (bs_next s) of
                      Some scan \<Rightarrow> Some scan
                    | None \<Rightarrow> bind_relational B' (node_columns (bs_nodes s) inputs 1) (ln_config n) (bs_next s)) in
              map_option (\<lambda>m. rbind m (push_node n inputs depth s)) bound)"

fun bind_nodes ::
  "(string \<Rightarrow> bool) \<Rightarrow> bind_env \<Rightarrow> logical_node list \<Rightarrow> binder_state \<Rightarrow> (query_error, binder_state) result option" where
  "bind_nodes has_table B [] s = Some (Inr s)"
| "bind_nodes has_table B (n # ns) s =
     (case bind_node has_table B n s of
        None \<Rightarrow> None
      | Some (Inl err) \<Rightarrow> Some (Inl err)
      | Some (Inr s') \<Rightarrow> bind_nodes has_table B ns s')"

section \<open>A request\<close>

text \<open>The walk from the root. The code indexes the nodes without a check; every input is the number of a
  node, so the second test never holds.\<close>

function reach_loop :: "bound_node list \<Rightarrow> nat list \<Rightarrow> nat list \<Rightarrow> nat list" where
  "reach_loop ns [] seen = seen"
| "reach_loop ns (i # stack) seen =
     (if i \<in> set seen \<or> length ns \<le> i then reach_loop ns stack seen
      else reach_loop ns (rev (bd_inputs (ns ! i)) @ stack) (i # seen))"
  by pat_completeness auto
termination
proof (relation "measures [\<lambda>(ns, stack, seen). card ({..<length ns} - set seen), \<lambda>(ns, stack, seen). length stack]", goal_cases)
  case (3 ns i stack seen)
  then have "i \<in> {..<length ns} - set seen" by simp
  then have "card ({..<length ns} - set seen - {i}) < card ({..<length ns} - set seen)" by (intro card_Diff1_less) simp_all
  moreover have "{..<length ns} - set (i # seen) = {..<length ns} - set seen - {i}" by auto
  ultimately show ?case by simp
qed simp_all

definition check_parameter_types :: "logical_request \<Rightarrow> bound_parameters \<Rightarrow> (query_error, unit) result" where
  "check_parameter_types rq P =
     rbind (guard_err (\<not> lr_from_hql rq \<and> length (lr_parameter_types rq) \<noteq> card (dom P)) (bind_error ''parameter_declarations'')) (\<lambda>_.
     for_each (\<lambda>(nm, declared).
       rbind (parse_type declared) (\<lambda>ty.
       rbind (get_parameter P nm) (\<lambda>tv. guard_err (ty \<noteq> fst tv) (bind_error ''parameter_type_mismatch'')))) (lr_parameter_types rq))"

definition check_reached :: "string \<Rightarrow> binder_state \<Rightarrow> (query_error, bound_node list \<times> nat) result" where
  "check_reached root_id s =
     rbind (ok_or (bind_error ''root_missing'') (bs_index s root_id)) (\<lambda>root.
     rbind (guard_err (length (reach_loop (bs_nodes s) [root] []) \<noteq> length (bs_nodes s)) (bind_error ''orphan_node'')) (\<lambda>_.
     Inr (bs_nodes s, root)))"

definition bind_v2 ::
  "float_ops \<Rightarrow> (json \<Rightarrow> record_ref contract) \<Rightarrow> (string \<Rightarrow> bool) \<Rightarrow> logical_request \<Rightarrow> bound_parameters
     \<Rightarrow> (query_error, bound_node list \<times> nat) result option" where
  "bind_v2 F R has_table rq P =
     (if lr_nodes rq = [] \<or> length (lr_nodes rq) > 10000 then Some (Inl (bind_error ''dag_size''))
      else
        case check_parameter_types rq P of
          Inl err \<Rightarrow> Some (Inl err)
        | Inr _ \<Rightarrow>
            map_option (\<lambda>m. rbind m (check_reached (lr_root rq)))
              (bind_nodes has_table \<lparr>bn_floats = F, bn_refs = R, bn_scope = [], bn_params = P\<rparr> (lr_nodes rq) binder_start))"

end
