(* ===== verification/GB_Executor.thy ===== *)
theory GB_Executor
  imports GB_Binder
begin

text \<open>
  Execution of a bound plan (\<open>src/src/query/hql2/exec.rs\<close>): the nodes run in order, each on the outputs of
  the nodes it reads, and the rows of the root are counted against the output limits. The counters for
  \<open>EXPLAIN\<close> are left out. The property source, the scanned rows and the encoded size of the result are
  arguments, as they are in the code or come from the JSON encoder.
\<close>

section \<open>The loop\<close>

definition run_node ::
  "eval_env \<Rightarrow> hydrate_ops \<Rightarrow> kernel_ops \<Rightarrow> (string \<rightharpoonup> exec_row list) \<Rightarrow> bound_node \<Rightarrow> exec_row list list \<Rightarrow> metered
     \<Rightarrow> (query_error, exec_row list list \<times> metered) result" where
  "run_node E D C sources n outputs st =
     rbind (check_now E st) (\<lambda>st1.
     rbind (run_operator E D C (sources (bd_id n)) (bd_kernel n) (map ((!) outputs) (bd_inputs n)) st1) (\<lambda>(out, st2).
     rbind (check_now E st2) (\<lambda>st3. Inr (outputs @ [out], st3))))"

definition check_output_now :: "eval_env \<Rightarrow> exec_row list \<Rightarrow> u64 \<Rightarrow> metered \<Rightarrow> (query_error, metered) result" where
  "check_output_now E rs byts st =
     rbind (check_output (xe_clock E (snd st)) (of_nat (length rs)) byts (fst st)) (\<lambda>_. Inr (fst st, Suc (snd st)))"

definition execute_plan ::
  "eval_env \<Rightarrow> hydrate_ops \<Rightarrow> kernel_ops \<Rightarrow> (exec_row list \<Rightarrow> u64 option) \<Rightarrow> (string \<rightharpoonup> exec_row list) \<Rightarrow> bound_node list \<Rightarrow> nat
     \<Rightarrow> metered \<Rightarrow> (query_error, exec_row list \<times> metered) result" where
  "execute_plan E D C encoded_size sources nodes root st =
     rbind (check_now E st) (\<lambda>st1.
     rbind (reserve_now E (saturating_mul (of_nat (length nodes)) 1024) st1) (\<lambda>st2.
     rbind (fold_st (run_node E D C sources) nodes [] st2) (\<lambda>(outputs, st3).
     rbind (ok_or (failure ''result_encoding'') (encoded_size (outputs ! root))) (\<lambda>byts.
     rbind (check_output_now E (outputs ! root) byts st3) (\<lambda>st4. Inr (outputs ! root, st4))))))"

section \<open>Well-formed plans\<close>

fun kernel_arity :: "kernel \<Rightarrow> nat" where
  "kernel_arity (KValues _) = 0"
| "kernel_arity (KSourceScan _) = 0"
| "kernel_arity KUnionAll = 2"
| "kernel_arity (KJoin _ _ _) = 2"
| "kernel_arity _ = 1"

definition node_ok :: "bound_node list \<Rightarrow> bound_node \<Rightarrow> bool" where
  "node_ok before n \<longleftrightarrow> list_all (\<lambda>j. j < length before) (bd_inputs n) \<and> length (bd_inputs n) = kernel_arity (bd_kernel n)
     \<and> well_kernel (node_columns before (bd_inputs n) 0) (node_columns before (bd_inputs n) 1) (bd_columns n) (bd_kernel n)
     \<and> distinct (map fi_index (kernel_fields (bd_kernel n)))"

definition nodes_ok :: "bound_node list \<Rightarrow> bool" where
  "nodes_ok ns \<longleftrightarrow> (\<forall>i<length ns. node_ok (take i ns) (ns ! i))"

lemma nodes_ok_Nil [simp]: "nodes_ok []"
  by (simp add: nodes_ok_def)

lemma nodes_ok_snoc: "nodes_ok (ns @ [n]) \<longleftrightarrow> nodes_ok ns \<and> node_ok ns n"
  by (auto simp: nodes_ok_def nth_append less_Suc_eq)

lemma nodes_ok_middle: "nodes_ok (before @ n # after) \<Longrightarrow> node_ok before n"
  by (auto simp: nodes_ok_def dest: spec [of _ "length before"])

lemma bind_relational_arity:
  assumes "bind_relational B r cfg nxt = Some (Inr (cols, k, nxt'))"
  shows "kernel_arity k = arity (config_op cfg)"
proof (cases cfg)
  case (CValues param nm)
  then show ?thesis using bind_values assms by fastforce
qed (use assms in \<open>auto simp: bind_relational_def bind_join_def bind_grouping_def Let_def split: if_splits\<close>)

lemma bind_scan_Inr:
  assumes "bind_scan has_table B cfg nxt = Some (Inr (cols, k, nxt'))"
  shows "\<exists>src. k = KSourceScan src" "arity (config_op cfg) = 0"
  using assms by (auto simp: bind_scan_def scan_of_def split: config.splits if_splits)

lemma bind_node_ok:
  assumes "bind_node has_table B n s = Some (Inr s')" "parameters_typed (bn_params B)"
    and "nodes_ok (bs_nodes s)" "\<forall>i\<in>ran (bs_index s). i < length (bs_nodes s)"
  shows "nodes_ok (bs_nodes s') \<and> (\<forall>i\<in>ran (bs_index s'). i < length (bs_nodes s'))"
proof -
  obtain inputs where inputs: "collect_results (map (\<lambda>i. ok_or (bind_error ''dag_order'') (bs_index s i)) (ln_inputs n)) = Inr inputs"
    using assms(1) by (auto simp: bind_node_def push_node_def split: if_splits sum.splits)
  let ?B = "B\<lparr>bn_scope := node_columns (bs_nodes s) inputs 0\<rparr>" and ?r = "node_columns (bs_nodes s) inputs 1"
  obtain columns k nxt where found: "(case bind_scan has_table ?B (ln_config n) (bs_next s) of Some scan \<Rightarrow> Some scan
      | None \<Rightarrow> bind_relational ?B ?r (ln_config n) (bs_next s)) = Some (Inr (columns, k, nxt))"
    and len: "length inputs = arity (config_op (ln_config n))"
    and s': "bs_nodes s' = bs_nodes s @ [\<lparr>bd_id = ln_id n, bd_op = ln_op n, bd_inputs = inputs, bd_columns = columns, bd_kernel = k\<rparr>]"
      "bs_index s' = (bs_index s)(ln_id n \<mapsto> length (bs_nodes s))"
    using assms(1) by (auto simp: bind_node_def push_node_def inputs Let_def split: if_splits)
  have bound: "bind_scan has_table ?B (ln_config n) (bs_next s) = Some (Inr (columns, k, nxt))
      \<or> bind_relational ?B ?r (ln_config n) (bs_next s) = Some (Inr (columns, k, nxt))"
    using found by (auto split: option.splits)
  have "list_all2 (\<lambda>i j. bs_index s i = Some j) (ln_inputs n) inputs"
    using collect_map_all [where xs = "ln_inputs n" and f = "\<lambda>i. ok_or (bind_error ''dag_order'') (bs_index s i)"
        and Q = "\<lambda>i j. bs_index s i = Some j" and Z = "\<lambda>_. True"] inputs
    by (simp add: ok_or_def split: option.splits)
  then have range: "list_all (\<lambda>j. j < length (bs_nodes s)) inputs"
    using assms(4) unfolding list_all2_conv_all_nth list_all_length by (metis ranI)
  have "kernel_arity k = length inputs \<and> well_kernel (node_columns (bs_nodes s) inputs 0) ?r columns k \<and> distinct (map fi_index (kernel_fields k))"
    using bound
  proof
    assume scan: "bind_scan has_table ?B (ln_config n) (bs_next s) = Some (Inr (columns, k, nxt))"
    then show ?thesis
      using bind_scan_Inr [OF scan] len by (auto simp: well_kernel_def kernel_fields_def kernel_expression_roots_def)
  next
    assume rel: "bind_relational ?B ?r (ln_config n) (bs_next s) = Some (Inr (columns, k, nxt))"
    have "well_kernel (bn_scope ?B) ?r columns k" by (rule bind_relational_well [OF _ rel]) (use assms(2) in simp)
    then show ?thesis
      using bind_relational_arity [OF rel] bind_relational_numbered [OF rel] len by (auto simp: slots_between_def)
  qed
  then have "node_ok (bs_nodes s) \<lparr>bd_id = ln_id n, bd_op = ln_op n, bd_inputs = inputs, bd_columns = columns, bd_kernel = k\<rparr>"
    using range by (simp add: node_ok_def)
  then show ?thesis using assms(3,4) by (auto simp: s' nodes_ok_snoc ran_def)
qed

lemma bind_nodes_ok:
  assumes "bind_nodes has_table B ns s = Some (Inr s')" "parameters_typed (bn_params B)"
    and "nodes_ok (bs_nodes s)" "\<forall>i\<in>ran (bs_index s). i < length (bs_nodes s)"
  shows "nodes_ok (bs_nodes s') \<and> (\<forall>i\<in>ran (bs_index s'). i < length (bs_nodes s'))"
  using assms
proof (induction ns arbitrary: s)
  case (Cons n ns)
  obtain s1 where s1: "bind_node has_table B n s = Some (Inr s1)" "bind_nodes has_table B ns s1 = Some (Inr s')"
    using Cons.prems(1) by (auto split: option.splits sum.splits)
  show ?case using Cons.IH [OF s1(2) assms(2)] bind_node_ok [OF s1(1) assms(2) Cons.prems(3,4)] by blast
qed simp

lemma bind_v2_ok:
  assumes "bind_v2 F R has_table rq P = Some (Inr (nodes, root))" "parameters_typed P"
  shows "nodes_ok nodes" "root < length nodes" "length (reach_loop nodes [root] []) = length nodes"
proof -
  let ?B = "\<lparr>bn_floats = F, bn_refs = R, bn_scope = [], bn_params = P\<rparr>"
  obtain s where s: "bind_nodes has_table ?B (lr_nodes rq) binder_start = Some (Inr s)" "nodes = bs_nodes s" "bs_index s (lr_root rq) = Some root"
    and reach: "length (reach_loop nodes [root] []) = length nodes"
    using assms(1) by (auto simp: bind_v2_def check_reached_def guard_err_def split: if_splits sum.splits)
  have "nodes_ok (bs_nodes s) \<and> (\<forall>i\<in>ran (bs_index s). i < length (bs_nodes s))"
    by (rule bind_nodes_ok [OF s(1)]) (use assms(2) in \<open>simp_all add: binder_start_def\<close>)
  then show "nodes_ok nodes" "root < length nodes" "length (reach_loop nodes [root] []) = length nodes"
    using s(2,3) reach ranI [of "bs_index s"] by auto
qed

section \<open>Typed execution\<close>

definition outputs_typed :: "bound_node list \<Rightarrow> exec_row list list \<Rightarrow> bool" where
  "outputs_typed ns outputs = list_all2 (\<lambda>n out. list_all (row_typed (bd_columns n)) out) ns outputs"

definition node_null_safe :: "bound_node list \<Rightarrow> bound_node \<Rightarrow> bool" where
  "node_null_safe ns n =
     kernel_null_safe (kernel_scope (bd_kernel n) (node_columns ns (bd_inputs n) 0) (node_columns ns (bd_inputs n) 1)) (bd_kernel n)"

definition sources_typed :: "(string \<rightharpoonup> exec_row list) \<Rightarrow> bound_node list \<Rightarrow> bool" where
  "sources_typed sources ns = list_all (\<lambda>n.
     case bd_kernel n of
       KSourceScan _ \<Rightarrow> (case sources (bd_id n) of Some rs \<Rightarrow> list_all (row_typed (bd_columns n)) rs | None \<Rightarrow> False)
     | _ \<Rightarrow> True) ns"

lemma node_columns_append:
  "list_all (\<lambda>j. j < length before) inputs \<Longrightarrow> node_columns (before @ after) inputs j = node_columns before inputs j"
  by (auto simp: node_columns_def nth_append list_all_length)

lemma node_inputs_typed:
  assumes "node_ok before n" "outputs_typed before outputs"
  shows "\<exists>a b. map ((!) outputs) (bd_inputs n) = kernel_inputs (bd_kernel n) a b
    \<and> list_all (row_typed (node_columns before (bd_inputs n) 0)) a \<and> list_all (row_typed (node_columns before (bd_inputs n) 1)) b"
proof -
  let ?in = "\<lambda>j. if j < length (bd_inputs n) then outputs ! (bd_inputs n ! j) else []"
  have typed: "list_all (row_typed (node_columns before (bd_inputs n) j)) (?in j)" for j
    using assms by (auto simp: node_ok_def outputs_typed_def node_columns_def list_all2_conv_all_nth list_all_length)
  have "length (bd_inputs n) = kernel_arity (bd_kernel n)" using assms(1) by (simp add: node_ok_def)
  then have "map ((!) outputs) (bd_inputs n) = kernel_inputs (bd_kernel n) (?in 0) (?in 1)"
    by (cases "bd_kernel n") (auto simp: kernel_inputs_def length_Suc_conv numeral_2_eq_2)
  then show ?thesis using typed [of 0] typed [of 1] by blast
qed

lemma run_node_ok:
  assumes n: "node_ok before n" and typed: "outputs_typed before outputs" and src: "sources_typed sources [n]"
    and D: "source_answers D A" and C: "sorts_its_list C" and safe: "safe \<longrightarrow> node_null_safe before n"
  shows "case run_node E D C sources n outputs st of
      Inr (outputs', _) \<Rightarrow> outputs_typed (before @ [n]) outputs'
    | Inl err \<Rightarrow> err \<in> A \<union> data_errors safe"
proof -
  obtain a b where ab: "map ((!) outputs) (bd_inputs n) = kernel_inputs (bd_kernel n) a b"
    "list_all (row_typed (node_columns before (bd_inputs n) 0)) a" "list_all (row_typed (node_columns before (bd_inputs n) 1)) b"
    using node_inputs_typed [OF n typed] by blast
  have exact: "case run_operator E D C (sources (bd_id n)) (bd_kernel n) (kernel_inputs (bd_kernel n) a b) st1 of
      Inr (rs, _) \<Rightarrow> list_all (row_typed (bd_columns n)) rs
    | Inl err \<Rightarrow> err \<in> A \<or> err \<in> data_errors (node_null_safe before n)" for st1
    unfolding node_null_safe_def
    by (rule run_operator_ok [OF _ _ ab(2,3) _ D C])
      (use n src in \<open>auto simp: node_ok_def sources_typed_def split: option.splits\<close>)
  have op: "case run_operator E D C (sources (bd_id n)) (bd_kernel n) (map ((!) outputs) (bd_inputs n)) st1 of
      Inr (rs, _) \<Rightarrow> list_all (row_typed (bd_columns n)) rs
    | Inl err \<Rightarrow> err \<in> A \<union> data_errors safe" for st1
    using exact [of st1] safe unfolding ab(1) data_errors_def by (auto split: sum.splits if_splits)
  have quota: "err \<in> data_errors safe" if "check_now E s = Inl err" for s err using reserve_Inl(2) [OF that] by (simp add: data_errors_def)
  show ?thesis
  proof (cases "check_now E st")
    case (Inl err)
    then show ?thesis using quota by (simp add: run_node_def)
  next
    case (Inr st1)
    show ?thesis
      using op [of st1] typed quota
      by (cases "run_operator E D C (sources (bd_id n)) (bd_kernel n) (map ((!) outputs) (bd_inputs n)) st1")
        (auto simp: run_node_def Inr outputs_typed_def list_all2_appendI rbind_Inl_iff split: sum.splits)
  qed
qed

lemma run_nodes_ok:
  assumes "nodes_ok (before @ ns)" "outputs_typed before outputs" "sources_typed sources ns"
    and D: "source_answers D A" and C: "sorts_its_list C" and "safe \<longrightarrow> list_all (node_null_safe (before @ ns)) ns"
  shows "case fold_st (run_node E D C sources) ns outputs st of
      Inr (outputs', _) \<Rightarrow> outputs_typed (before @ ns) outputs'
    | Inl err \<Rightarrow> err \<in> A \<union> data_errors safe"
  using assms(1-3,6)
proof (induction ns arbitrary: before outputs st)
  case (Cons n ns)
  have n: "node_ok before n" by (rule nodes_ok_middle [OF Cons.prems(1)])
  have "node_null_safe (before @ n # ns) n = node_null_safe before n"
    using n node_columns_append [of before "bd_inputs n" "n # ns"] by (simp add: node_null_safe_def node_ok_def)
  then have "safe \<longrightarrow> node_null_safe before n" using Cons.prems(4) by simp
  note step = run_node_ok [OF n Cons.prems(2) _ D C this, of sources E st]
  show ?case
  proof (cases "run_node E D C sources n outputs st")
    case (Inl err)
    then show ?thesis using step Cons.prems(3) by (simp add: sources_typed_def)
  next
    case (Inr ost)
    obtain outputs1 st1 where ost: "ost = (outputs1, st1)" by (cases ost)
    have "outputs_typed (before @ [n]) outputs1" using step Cons.prems(3) Inr ost by (simp add: sources_typed_def)
    then have "case fold_st (run_node E D C sources) ns outputs1 st1 of
        Inr (outputs', _) \<Rightarrow> outputs_typed ((before @ [n]) @ ns) outputs' | Inl err \<Rightarrow> err \<in> A \<union> data_errors safe"
      using Cons.prems by (intro Cons.IH) (simp_all add: sources_typed_def)
    then show ?thesis unfolding append_assoc append_Cons append_Nil by (simp add: Inr ost)
  qed
qed simp

lemma check_output_now_ok:
  "check_output_now E rs m s = Inl err \<Longrightarrow> err = quota"
  "check_output_now E rs m s = Inr s' \<Longrightarrow> of_nat (length rs) \<le> eb_rows (fst s')"
  by (auto simp: check_output_now_def check_output_def eb_check_def rbind_Inl_iff guard_err_def not_less split: if_splits)

lemma execute_plan_ok:
  assumes ok: "nodes_ok nodes" and root: "root < length nodes" and src: "sources_typed sources nodes"
    and D: "source_answers D A" and C: "sorts_its_list C"
  shows "case execute_plan E D C encoded_size sources nodes root st of
      Inr (rows, st') \<Rightarrow> list_all (row_typed (bd_columns (nodes ! root))) rows \<and> of_nat (length rows) \<le> eb_rows (fst st')
    | Inl err \<Rightarrow> err \<in> A \<union> {failure ''result_encoding''} \<union> data_errors (list_all (node_null_safe nodes) nodes)"
proof -
  let ?safe = "list_all (node_null_safe nodes) nodes"
  have quota: "err \<in> data_errors ?safe" if "check_now E s = Inl err \<or> reserve_now E m s = Inl err" for s m err
    using that reserve_Inl(1) [of E m s err] reserve_Inl(2) [of E s err] unfolding data_errors_def by blast
  have loop: "case fold_st (run_node E D C sources) nodes [] s of Inr (outputs, _) \<Rightarrow> outputs_typed nodes outputs
      | Inl err \<Rightarrow> err \<in> A \<union> data_errors ?safe" for s
    using run_nodes_ok [of "[]" nodes "[]" sources D A C ?safe E s, unfolded append_Nil] ok src D C
    by (simp add: outputs_typed_def [of "[]"])
  have out: "check_output_now E rs m s = Inl err \<Longrightarrow> err \<in> data_errors ?safe"
    "check_output_now E rs m s = Inr s' \<Longrightarrow> of_nat (length rs) \<le> eb_rows (fst s')" for rs m s err s'
    using check_output_now_ok [of E rs m s] by (auto simp: data_errors_def)
  have finish: "case rbind (fold_st (run_node E D C sources) nodes [] s) (\<lambda>(outputs, st3).
       rbind (ok_or (failure ''result_encoding'') (encoded_size (outputs ! root))) (\<lambda>byts.
       rbind (check_output_now E (outputs ! root) byts st3) (\<lambda>st4. Inr (outputs ! root, st4)))) of
      Inr (rows, st') \<Rightarrow> list_all (row_typed (bd_columns (nodes ! root))) rows \<and> of_nat (length rows) \<le> eb_rows (fst st')
    | Inl err \<Rightarrow> err \<in> A \<union> {failure ''result_encoding''} \<union> data_errors ?safe" for s
  proof (cases "fold_st (run_node E D C sources) nodes [] s")
    case (Inl err)
    then show ?thesis using loop [of s] by auto
  next
    case (Inr ost)
    obtain outputs st3 where ost: "ost = (outputs, st3)" by (cases ost)
    have "outputs_typed nodes outputs" using loop [of s] Inr ost by simp
    then have typed: "list_all (row_typed (bd_columns (nodes ! root))) (outputs ! root)"
      using root by (simp add: outputs_typed_def list_all2_conv_all_nth)
    show ?thesis
    proof (cases "encoded_size (outputs ! root)")
      case None
      then show ?thesis by (simp add: Inr ost ok_or_def)
    next
      case (Some byts)
      then show ?thesis using typed out [of "outputs ! root" byts st3]
        by (cases "check_output_now E (outputs ! root) byts st3") (auto simp: Inr ost ok_or_def)
    qed
  qed
  show ?thesis
  proof (cases "check_now E st")
    case (Inl err)
    then show ?thesis using quota [of st err] by (simp add: execute_plan_def)
  next
    case (Inr st1)
    show ?thesis
    proof (cases "reserve_now E (saturating_mul (of_nat (length nodes)) 1024) st1")
      case (Inl err)
      then show ?thesis using quota [OF disjI2 [OF Inl]] Inr by (simp add: execute_plan_def)
    next
      case res: (Inr st2)
      show ?thesis using finish [of st2] by (simp add: execute_plan_def Inr res)
    qed
  qed
qed

section \<open>The walk from the root\<close>

definition reads :: "bound_node list \<Rightarrow> (nat \<times> nat) set" where
  "reads ns = {(i, j). i < length ns \<and> j \<in> set (bd_inputs (ns ! i))}"

lemma reach_loop_inv:
  assumes "distinct seen" "set seen \<subseteq> {..<length ns}" "set seen \<union> set stack \<subseteq> (reads ns)\<^sup>* `` {root}"
  shows "distinct (reach_loop ns stack seen) \<and> set (reach_loop ns stack seen) \<subseteq> {..<length ns} \<inter> (reads ns)\<^sup>* `` {root}"
  using assms
proof (induction ns stack seen rule: reach_loop.induct)
  case (2 ns i stack seen)
  show ?case
  proof (cases "i \<in> set seen \<or> length ns \<le> i")
    case True
    then show ?thesis using 2 by simp
  next
    case False
    have "j \<in> (reads ns)\<^sup>* `` {root}" if "j \<in> set (bd_inputs (ns ! i))" for j
    proof -
      have "(root, i) \<in> (reads ns)\<^sup>*" using "2.prems"(3) by simp
      moreover have "(i, j) \<in> reads ns" using that False by (simp add: reads_def)
      ultimately show ?thesis by (simp add: rtrancl.rtrancl_into_rtrancl)
    qed
    then show ?thesis using 2(2) [OF False] "2.prems" False by auto
  qed
qed simp

lemma reach_all:
  assumes "length (reach_loop ns [root] []) = length ns" "i < length ns"
  shows "(root, i) \<in> (reads ns)\<^sup>*"
proof -
  have inv: "distinct (reach_loop ns [root] [])" "set (reach_loop ns [root] []) \<subseteq> {..<length ns}"
    "set (reach_loop ns [root] []) \<subseteq> (reads ns)\<^sup>* `` {root}"
    using reach_loop_inv [of "[]" ns "[root]" root] by auto
  then have "set (reach_loop ns [root] []) = {..<length ns}"
    using assms(1) by (intro card_subset_eq) (auto simp: distinct_card)
  then show ?thesis using inv(3) assms(2) by auto
qed

section \<open>Properties\<close>

text \<open>C11 Typed queries. Bind a request made of source scans and relational operators over decoded parameters and
  execute the plan with scanned rows of the announced columns and a property source that answers what
  it is asked. The rows returned have the columns binding announced for the root and respect the row
  limit. Otherwise the query fails with an error of the property source, a failure to encode the
  result, the quota error, a division by zero, an integer overflow or a result that is not finite; with
  \<open>bound_type\<close> only where a nullable column or name is read as if it were not. No property value is ever
  found missing and no fetched batch is refused.\<close>

theorem queries_return_typed_rows:
  assumes "decode_parameters F R types params Map.empty = Inr P"
    and "bind_v2 F R has_table rq P = Some (Inr (nodes, root))"
    and "sources_typed sources nodes" "source_answers D A" "sorts_its_list C"
  shows "case execute_plan E D C encoded_size sources nodes root st of
      Inr (rows, st') \<Rightarrow> list_all (row_typed (bd_columns (nodes ! root))) rows \<and> of_nat (length rows) \<le> eb_rows (fst st')
    | Inl err \<Rightarrow> err \<in> A \<union> {failure ''result_encoding''} \<union> data_errors (list_all (node_null_safe nodes) nodes)"
proof -
  have "parameters_typed P" using decode_parameters_typed [OF assms(1)] by (simp add: parameters_typed_def)
  from bind_v2_ok [OF assms(2) this] show ?thesis by (intro execute_plan_ok assms(3-5))
qed

definition sample_source :: hydrate_ops where
  "sample_source = \<lparr>ho_size_word = 8, ho_size_field = 40, ho_size_record = 104, ho_size_group = 48,
     ho_hydrate = (\<lambda>records fs st. Inr (\<lparr>xb_columns = map field_column fs,
       xb_rows = map (\<lambda>_. map (\<lambda>f. if fi_has_property f then VBool True else VNull) fs) records, xb_row_keys = records\<rparr>, st))\<rparr>"

lemma own_columns_aligned:
  "list_all (\<lambda>f. fi_name f \<noteq> None) fs \<Longrightarrow> distinct (seen @ map fi_index fs) \<Longrightarrow> length before = length seen
     \<Longrightarrow> fields_aligned fs seen (before @ map field_column fs)"
proof (induction fs arbitrary: seen before)
  case (Cons f fs)
  have "fields_aligned fs (seen @ [fi_index f]) ((before @ [field_column f]) @ map field_column fs)"
    using Cons.prems by (intro Cons.IH) simp_all
  then show ?case using Cons.prems by (simp add: nth_append)
qed simp

lemma sample_source_answers: "source_answers sample_source A"
proof -
  have accepts: "\<not> list_ex (\<lambda>(v, f). \<not> field_accepts f v) (zip (map (\<lambda>f. if fi_has_property f then VBool True else VNull) fs) fs)" for fs
    by (induction fs) (auto simp: field_accepts_def)
  have rows: "for_each (\<lambda>((vs, key), rec). guard_err (length vs \<noteq> length fs \<or> key \<noteq> rec \<or> list_ex (\<lambda>(v, f). \<not> field_accepts f v) (zip vs fs)) misaligned)
      (zip (zip (map (\<lambda>_. map (\<lambda>f. if fi_has_property f then VBool True else VNull) fs) records) records) records) = Inr ()"
    for records fs
    by (induction records) (use accepts in \<open>auto simp: guard_err_def\<close>)
  have "batch_validate \<lparr>xb_columns = map field_column fs, xb_rows = map (\<lambda>_. map (\<lambda>f. if fi_has_property f then VBool True else VNull) fs) records,
      xb_row_keys = records\<rparr> records fs = Inr ()" if "named_slots fs" for records fs
    unfolding batch_validate_def exec_batch.simps rows using that own_columns_aligned [of fs "[]" "[]"] by (simp add: named_slots_def)
  then show ?thesis by (simp add: source_answers_def sample_source_def)
qed

definition sample_plan :: "bound_node list" where
  "sample_plan =
     [\<lparr>bd_id = ''s'', bd_op = NodeScan, bd_inputs = [], bd_columns = [\<lparr>col_name = ''n'', col_ty = TEntity\<rparr>], bd_kernel = KSourceScan (SourceNode None)\<rparr>,
      \<lparr>bd_id = ''f'', bd_op = Filter, bd_inputs = [0], bd_columns = [\<lparr>col_name = ''n'', col_ty = TEntity\<rparr>],
       bd_kernel = KFilter (Bound TBool (XProperty (Bound TEntity (XField 0)) (Bound TUtf8 (XLiteral (VUtf8 ''a''))) True sample_field))\<rparr>]"

definition sample_query :: logical_request where
  "sample_query = \<lparr>lr_nodes =
     [\<lparr>ln_id = ''s'', ln_op = NodeScan, ln_inputs = [], ln_config = CNodeScan ''n'' None\<rparr>,
      \<lparr>ln_id = ''f'', ln_op = Filter, ln_inputs = [''s''],
       ln_config = CFilter (ECall ''has_prop'' [EField \<lparr>fr_alias = ''n'', fr_path = []\<rparr>, ELiteral (JString ''a'') ''Utf8''])\<rparr>],
     lr_root = ''f'', lr_parameter_types = [], lr_from_hql = False\<rparr>"

lemma sample_query_binds:
  "bind_v2 \<lparr>as_f64 = (\<lambda>_. None), through_f32 = id\<rparr> (\<lambda>_. Inl (invalid [])) (\<lambda>_. False) sample_query Map.empty = Some (Inr (sample_plan, 1))"
proof -
  have utf8: "parse_type ''Utf8'' = Inr TUtf8"
    by (simp add: parse_type_def parse_inner.simps atom_type_def)
  show ?thesis
    by (simp add: bind_v2_def check_reached_def sample_query_def sample_plan_def check_parameter_types_def guard_err_def bind_node_def push_node_def binder_start_def
        bind_scan_def scan_of_def bind_relational_def node_columns_def bind_expr_is_recursive
        bind_recursive.simps bind_depth_def bind_build_def bind_field_def bind_literal_def utf8
        bind_property_def issue_field_def boolean_type_def sample_field_def checked_add_def Let_def)
qed

theorem queries_return_typed_rows_witness:
  "case execute_plan sample_env sample_source sample_kernel_ops (\<lambda>_. Some 7) [''s'' \<mapsto> [[VEntity sample_ref]]] sample_plan 1 (sample_budget, 0) of
      Inr (rows, st') \<Rightarrow> list_all (row_typed [\<lparr>col_name = ''n'', col_ty = TEntity\<rparr>]) rows \<and> of_nat (length rows) \<le> eb_rows (fst st')
    | Inl err \<Rightarrow> err \<in> {failure ''result_encoding'', quota, failure ''division_by_zero'', failure ''integer_overflow'', failure ''nonfinite_result''}"
proof -
  have 1: "decode_parameters \<lparr>as_f64 = (\<lambda>_. None), through_f32 = id\<rparr> (\<lambda>_. Inl (invalid [])) None [] Map.empty = Inr Map.empty" by simp
  have 3: "sources_typed [''s'' \<mapsto> [[VEntity sample_ref]]] sample_plan"
    by (simp add: sources_typed_def sample_plan_def row_typed_def)
  have "list_all (node_null_safe sample_plan) sample_plan"
    by (simp add: sample_plan_def node_null_safe_def kernel_null_safe_def kernel_expression_roots_def kernel_scope_def node_columns_def)
  moreover have "bd_columns (sample_plan ! 1) = [\<lparr>col_name = ''n'', col_ty = TEntity\<rparr>]" by (simp add: sample_plan_def)
  ultimately show ?thesis
    using queries_return_typed_rows [OF 1 sample_query_binds 3 sample_source_answers [of "{}"] sample_sorts, of sample_env "\<lambda>_. Some 7" "(sample_budget, 0)"]
    by (auto simp: data_errors_def split: sum.splits)
qed

text \<open>C14 Plans are ordered and connected. In a plan that binding accepts, every node reads only nodes before
  it, as many as its kernel takes, so the execution loop never reads an output that is not there; the
  root is a node of the plan and every node is reached from it.\<close>

theorem bound_plans_are_ordered:
  assumes "decode_parameters F R types params Map.empty = Inr P"
    and "bind_v2 F R has_table rq P = Some (Inr (nodes, root))"
  shows "root < length nodes
    \<and> list_all (\<lambda>i. list_all (\<lambda>j. j < i) (bd_inputs (nodes ! i)) \<and> length (bd_inputs (nodes ! i)) = kernel_arity (bd_kernel (nodes ! i))) [0..<length nodes]
    \<and> list_all (\<lambda>i. (root, i) \<in> (reads nodes)\<^sup>*) [0..<length nodes]"
proof -
  have "parameters_typed P" using decode_parameters_typed [OF assms(1)] by (simp add: parameters_typed_def)
  note ok = bind_v2_ok [OF assms(2) this]
  have "list_all (\<lambda>j. j < i) (bd_inputs (nodes ! i)) \<and> length (bd_inputs (nodes ! i)) = kernel_arity (bd_kernel (nodes ! i))"
    if "i < length nodes" for i
    using ok(1) that by (auto simp: nodes_ok_def node_ok_def list_all_iff)
  then show ?thesis using ok(2) reach_all [OF ok(3)] by (simp add: list_all_length)
qed

theorem bound_plans_are_ordered_witness:
  "(1, 0) \<in> (reads sample_plan)\<^sup>* \<and> list_all (\<lambda>j. j < 1) (bd_inputs (sample_plan ! 1))"
proof -
  have 1: "decode_parameters \<lparr>as_f64 = (\<lambda>_. None), through_f32 = id\<rparr> (\<lambda>_. Inl (invalid [])) None [] Map.empty = Inr Map.empty" by simp
  have "length sample_plan = Suc 1" by (simp add: sample_plan_def)
  then show ?thesis using bound_plans_are_ordered [OF 1 sample_query_binds] by (simp add: list_all_iff)
qed

end
