(* ===== verification/GB_Paths.thy ===== *)
theory GB_Paths
  imports GB_Sorting
begin

text \<open>
  Path expansion over a graph snapshot (\<open>src/src/query/hql2/exec.rs\<close>, functions \<open>compact_expand_paths\<close> and
  \<open>compare_record_refs\<close>, and the kernels \<open>MatchCompact\<close> and \<open>Expand\<close>): a depth-first search with an explicit
  stack of paths, which finds exactly the paths the pattern describes, the shorter ones first.
\<close>

section \<open>Snapshots and patterns\<close>

record graph_edge = ge_edge :: record_ref  ge_source :: record_ref  ge_target :: record_ref  ge_relation :: string

text \<open>The maps of a snapshot are lists in key order.\<close>

record graph_snapshot =
  gs_nodes :: "(string \<times> record_ref) list"
  gs_node_labels :: "(string \<times> string list) list"
  gs_edges :: "graph_edge list"

type_synonym compact_path = "record_ref list \<times> record_ref list"

definition edge_step :: "direction \<Rightarrow> graph_edge \<Rightarrow> record_ref \<Rightarrow> record_ref option" where
  "edge_step direction e current =
     (case direction of
        DirOut \<Rightarrow> if ge_source e = current then Some (ge_target e) else None
      | DirIn \<Rightarrow> if ge_target e = current then Some (ge_source e) else None
      | DirBoth \<Rightarrow> if ge_source e = current then Some (ge_target e) else if ge_target e = current then Some (ge_source e) else None)"

text \<open>The path that an edge adds to a path, if the pattern admits it.\<close>

definition path_child :: "compact_pattern \<Rightarrow> compact_path \<Rightarrow> graph_edge \<Rightarrow> compact_path option" where
  "path_child pattern p e =
     (case p of (vertices, edges) \<Rightarrow>
        if pc_relations pattern \<noteq> [] \<and> \<not> list_ex (\<lambda>r. r = ge_relation e) (pc_relations pattern) then None
        else
          case edge_step (pc_direction pattern) e (last vertices) of
            None \<Rightarrow> None
          | Some nxt \<Rightarrow>
              if pc_mode pattern = PathTrail \<and> list_ex (\<lambda>used. rr_id used = rr_id (ge_edge e)) edges then None
              else if pc_mode pattern = PathSimple \<and> list_ex (\<lambda>used. rr_id used = rr_id nxt) vertices then None
              else Some (vertices @ [nxt], edges @ [ge_edge e]))"

section \<open>The search\<close>

definition nodes_now :: "eval_env \<Rightarrow> u64 \<Rightarrow> metered \<Rightarrow> (query_error, metered) result" where
  "nodes_now E n st = (case st of (b, k) \<Rightarrow> rbind (reserve_expanded_nodes (xe_clock E k) n b) (\<lambda>b'. Inr (b', Suc k)))"

definition edges_now :: "eval_env \<Rightarrow> u64 \<Rightarrow> metered \<Rightarrow> (query_error, metered) result" where
  "edges_now E n st = (case st of (b, k) \<Rightarrow> rbind (reserve_expanded_edges (xe_clock E k) n b) (\<lambda>b'. Inr (b', Suc k)))"

definition path_charge :: "eval_env \<Rightarrow> nat \<Rightarrow> nat \<Rightarrow> u64" where
  "path_charge E vertices edges =
     saturating_add (saturating_mul (of_nat vertices) (xo_size_ref (xe_ops E))) (saturating_mul (of_nat edges) (xo_size_ref (xe_ops E)))"

definition endpoint_matches :: "exec_row \<Rightarrow> nat option \<Rightarrow> record_ref \<Rightarrow> bool" where
  "endpoint_matches vs end_index current =
     (case end_index of Some i \<Rightarrow> i < length vs \<and> vs ! i = VEntity current | None \<Rightarrow> True)"

definition expand_edge ::
  "eval_env \<Rightarrow> compact_pattern \<Rightarrow> compact_path \<Rightarrow> graph_edge \<Rightarrow> compact_path list \<Rightarrow> metered
     \<Rightarrow> (query_error, compact_path list \<times> metered) result" where
  "expand_edge E pattern p e pending st =
     rbind (edges_now E 1 st) (\<lambda>st1.
     case path_child pattern p e of
       None \<Rightarrow> Inr (pending, st1)
     | Some q \<Rightarrow> rbind (reserve_now E (path_charge E (length (fst p) + 1) (length (snd p) + 1)) st1) (\<lambda>st2. Inr (q # pending, st2)))"

definition record_match ::
  "eval_env \<Rightarrow> exec_row \<Rightarrow> nat option \<Rightarrow> compact_pattern \<Rightarrow> compact_path \<Rightarrow> compact_path list \<Rightarrow> metered
     \<Rightarrow> (query_error, compact_path list \<times> metered) result" where
  "record_match E vs end_index pattern p found st =
     (if unat (pc_min_hops pattern) \<le> length (snd p) \<and> endpoint_matches vs end_index (last (fst p)) then
        rbind (reserve_now E (path_charge E (length (fst p)) (length (snd p))) st) (\<lambda>st1. Inr (found @ [p], st1))
      else Inr (found, st))"

definition children :: "compact_pattern \<Rightarrow> graph_edge list \<Rightarrow> compact_path \<Rightarrow> compact_path list" where
  "children pattern es p = List.map_filter (path_child pattern p) es"

lemma expand_edges_Inr:
  "fold_st (expand_edge E pattern p) es pending st = Inr (pending', st') \<Longrightarrow> pending' = rev (children pattern es p) @ pending"
proof (induction es arbitrary: pending st)
  case (Cons e es)
  then obtain mid st1 where step: "expand_edge E pattern p e pending st = Inr (mid, st1)" "fold_st (expand_edge E pattern p) es mid st1 = Inr (pending', st')"
    by auto
  have "mid = (case path_child pattern p e of None \<Rightarrow> pending | Some q \<Rightarrow> q # pending)"
    using step(1) by (auto simp: expand_edge_def split: option.splits)
  then show ?case using Cons.IH [OF step(2)] by (auto simp: children_def List.map_filter_simps split: option.splits)
qed (simp add: children_def List.map_filter_simps)

text \<open>The weight of the paths still to visit.\<close>

definition path_weight :: "nat \<Rightarrow> nat \<Rightarrow> compact_path \<Rightarrow> nat" where
  "path_weight n limit p = Suc n ^ (Suc limit - length (snd p))"

lemma path_child_iff:
  "path_child pattern p e = Some q \<longleftrightarrow>
     (\<exists>nxt. edge_step (pc_direction pattern) e (last (fst p)) = Some nxt \<and> q = (fst p @ [nxt], snd p @ [ge_edge e])
       \<and> (pc_relations pattern = [] \<or> ge_relation e \<in> set (pc_relations pattern))
       \<and> (pc_mode pattern = PathTrail \<longrightarrow> rr_id (ge_edge e) \<notin> rr_id ` set (snd p))
       \<and> (pc_mode pattern = PathSimple \<longrightarrow> rr_id nxt \<notin> rr_id ` set (fst p)))"
proof -
  have used: "list_ex (\<lambda>u. rr_id u = x) us \<longleftrightarrow> x \<in> rr_id ` set us" for us :: "record_ref list" and x by (auto simp: list_ex_iff)
  have listed: "list_ex (\<lambda>r. r = x) rs \<longleftrightarrow> x \<in> set rs" for rs and x :: string by (auto simp: list_ex_iff)
  show ?thesis
    unfolding path_child_def used listed by (cases p; cases "edge_step (pc_direction pattern) e (last (fst p))") auto
qed

lemma children_iff: "q \<in> set (children pattern es p) \<longleftrightarrow> (\<exists>e\<in>set es. path_child pattern p e = Some q)"
  by (force simp: children_def List.map_filter_def)

lemma child_edges: "q \<in> set (children pattern es p) \<Longrightarrow> length (snd q) = Suc (length (snd p))"
  by (auto simp: children_iff path_child_iff)

lemma children_light:
  assumes "length (snd p) < limit"
  shows "(\<Sum>q\<leftarrow>children pattern es p. path_weight (length es) limit q) < path_weight (length es) limit p"
proof -
  let ?n = "length es" and ?k = "limit - length (snd p)"
  have "(\<Sum>q\<leftarrow>children pattern es p. path_weight ?n limit q) = (\<Sum>q\<leftarrow>children pattern es p. Suc ?n ^ ?k)"
    using child_edges assms by (intro arg_cong [where f = sum_list] map_cong) (auto simp: path_weight_def)
  also have "\<dots> = length (children pattern es p) * Suc ?n ^ ?k" by (simp add: sum_list_triv)
  also have "\<dots> \<le> ?n * Suc ?n ^ ?k" by (intro mult_right_mono) (simp_all add: children_def List.map_filter_def)
  also have "\<dots> < Suc ?n * Suc ?n ^ ?k" by simp
  also have "\<dots> = path_weight ?n limit p" using assms by (simp add: path_weight_def Suc_diff_le)
  finally show ?thesis .
qed

function expand_loop ::
  "eval_env \<Rightarrow> graph_snapshot \<Rightarrow> exec_row \<Rightarrow> nat option \<Rightarrow> compact_pattern \<Rightarrow> compact_path list \<Rightarrow> compact_path list \<Rightarrow> metered
     \<Rightarrow> (query_error, compact_path list \<times> metered) result" where
  "expand_loop E G vs end_index pattern [] found st = Inr (found, st)"
| "expand_loop E G vs end_index pattern (p # pending) found st =
     rbind (nodes_now E 1 st) (\<lambda>st1.
     if fst p = [] then Inl (failure ''expand_path'')
     else
       rbind (record_match E vs end_index pattern p found st1) (\<lambda>(found', st2).
       if unat (pc_max_hops pattern) \<le> length (snd p) then expand_loop E G vs end_index pattern pending found' st2
       else
         rbind (fold_st (expand_edge E pattern p) (gs_edges G) pending st2) (\<lambda>(pending', st3).
         expand_loop E G vs end_index pattern pending' found' st3)))"
  by pat_completeness auto
termination
proof (relation "measure (\<lambda>(E, G, vs, end_index, pattern, pending, found, st).
    \<Sum>p\<leftarrow>pending. path_weight (length (gs_edges G)) (unat (pc_max_hops pattern)) p)", goal_cases)
  case (2 E G vs end_index pattern p pending found st st1 fst2 found' st2)
  then show ?case by (simp add: path_weight_def)
next
  case (3 E G vs end_index pattern p pending found st st1 fst2 found' st2 ps3 pending' st3)
  then have "pending' = rev (children pattern (gs_edges G) p) @ pending" using expand_edges_Inr by blast
  then show ?case
    using children_light [where p = p and limit = "unat (pc_max_hops pattern)" and pattern = pattern and es = "gs_edges G"] 3
    by (simp add: rev_map [symmetric] sum_list_rev)
qed simp

definition compare_record_ref :: "record_ref \<Rightarrow> record_ref \<Rightarrow> ordering" where
  "compare_record_ref a b =
     (if rr_database_id a \<noteq> rr_database_id b then cmp (rr_database_id a) (rr_database_id b)
      else if rr_namespace a \<noteq> rr_namespace b then cmp (rr_namespace a) (rr_namespace b)
      else if rr_id a \<noteq> rr_id b then cmp (rr_id a) (rr_id b)
      else cmp (rr_revision a) (rr_revision b))"

fun compare_record_refs :: "record_ref list \<Rightarrow> record_ref list \<Rightarrow> ordering" where
  "compare_record_refs (a # left) (b # right) =
     (if compare_record_ref a b \<noteq> OEqual then compare_record_ref a b else compare_record_refs left right)"
| "compare_record_refs left right = cmp (length left) (length right)"

definition compare_paths :: "compact_path \<Rightarrow> compact_path \<Rightarrow> ordering" where
  "compare_paths left right =
     (if length (snd left) \<noteq> length (snd right) then cmp (length (snd left)) (length (snd right))
      else if compare_record_refs (snd left) (snd right) \<noteq> OEqual then compare_record_refs (snd left) (snd right)
      else compare_record_refs (fst left) (fst right))"

definition compact_expand_paths ::
  "eval_env \<Rightarrow> graph_snapshot \<Rightarrow> exec_row \<Rightarrow> nat \<Rightarrow> nat option \<Rightarrow> compact_pattern \<Rightarrow> metered
     \<Rightarrow> (query_error, compact_path list \<times> metered) result" where
  "compact_expand_paths E G vs start_index end_index pattern st =
     (if start_index < length vs then
        (case vs ! start_index of
           VEntity r \<Rightarrow>
             if map_of (gs_nodes G) (rr_id r) = Some r then
               rbind (expand_loop E G vs end_index pattern [([r], [])] [] st) (\<lambda>(found, st1). Inr (sort_by compare_paths found, st1))
             else Inr ([], st)
         | VNull \<Rightarrow> Inr ([], st)
         | _ \<Rightarrow> Inl (failure ''bound_type''))
      else Inl (failure ''bound_type''))"

section \<open>The search without budgets\<close>

lemma expanded_Inl: "nodes_now E n st = Inl err \<Longrightarrow> err = quota" "edges_now E n st = Inl err \<Longrightarrow> err = quota"
  by (auto simp: nodes_now_def edges_now_def reserve_expanded_nodes_def reserve_expanded_edges_def eb_check_def rbind_Inl_iff
      guard_err_def ok_or_def split: prod.splits option.splits if_splits)

lemma expand_edges_Inl: "fold_st (expand_edge E pattern p) es pending st = Inl err \<Longrightarrow> err = quota"
proof (induction es arbitrary: pending st)
  case (Cons e es)
  have "expand_edge E pattern p e pending st = Inl err \<Longrightarrow> err = quota"
    by (auto simp: expand_edge_def rbind_Inl_iff split: option.splits dest: expanded_Inl reserve_Inl)
  then show ?case using Cons by (auto simp: rbind_Inl_iff)
qed simp

lemma record_match_cases:
  "record_match E vs end_index pattern p found st = Inl err \<Longrightarrow> err = quota"
  "record_match E vs end_index pattern p found st = Inr (found', st') \<Longrightarrow>
     found' = found @ (if unat (pc_min_hops pattern) \<le> length (snd p) \<and> endpoint_matches vs end_index (last (fst p)) then [p] else [])"
  by (auto simp: record_match_def rbind_Inl_iff split: if_splits dest: reserve_Inl)

section \<open>What a path is\<close>

text \<open>The specification: a chain of edges of the graph from the start, each of an admitted relation and in the
  direction of the pattern, with no edge (trail) or no node (simple path) twice.\<close>

definition valid_path :: "graph_edge list \<Rightarrow> compact_pattern \<Rightarrow> record_ref \<Rightarrow> compact_path \<Rightarrow> bool" where
  "valid_path es pattern start p \<longleftrightarrow>
     length (fst p) = Suc (length (snd p)) \<and> fst p ! 0 = start \<and> length (snd p) \<le> unat (pc_max_hops pattern)
     \<and> (\<forall>i<length (snd p). \<exists>e\<in>set es. ge_edge e = snd p ! i
          \<and> (pc_relations pattern = [] \<or> ge_relation e \<in> set (pc_relations pattern))
          \<and> edge_step (pc_direction pattern) e (fst p ! i) = Some (fst p ! Suc i))
     \<and> (pc_mode pattern = PathTrail \<longrightarrow> distinct (map rr_id (snd p)))
     \<and> (pc_mode pattern = PathSimple \<longrightarrow> distinct (map rr_id (fst p)))"

lemma valid_start [simp]: "valid_path es pattern start ([start], [])"
  by (simp add: valid_path_def)

lemma valid_path_last: "valid_path es pattern start p \<Longrightarrow> fst p \<noteq> [] \<and> last (fst p) = fst p ! length (snd p)"
proof -
  assume "valid_path es pattern start p"
  then have "length (fst p) = Suc (length (snd p))" by (simp add: valid_path_def)
  then show ?thesis by (metis diff_Suc_1 last_conv_nth length_0_conv nat.distinct(1))
qed

lemma valid_path_child:
  assumes "valid_path es pattern start p" "length (snd p) < unat (pc_max_hops pattern)" "q \<in> set (children pattern es p)"
  shows "valid_path es pattern start q"
proof -
  obtain e nxt where e: "e \<in> set es" "edge_step (pc_direction pattern) e (last (fst p)) = Some nxt" "q = (fst p @ [nxt], snd p @ [ge_edge e])"
    "pc_relations pattern = [] \<or> ge_relation e \<in> set (pc_relations pattern)"
    "pc_mode pattern = PathTrail \<longrightarrow> rr_id (ge_edge e) \<notin> rr_id ` set (snd p)" "pc_mode pattern = PathSimple \<longrightarrow> rr_id nxt \<notin> rr_id ` set (fst p)"
    using assms(3) by (auto simp: children_iff path_child_iff)
  have len: "length (fst p) = Suc (length (snd p))" using assms(1) by (simp add: valid_path_def)
  have "\<exists>e\<in>set es. ge_edge e = snd q ! i \<and> (pc_relations pattern = [] \<or> ge_relation e \<in> set (pc_relations pattern))
      \<and> edge_step (pc_direction pattern) e (fst q ! i) = Some (fst q ! Suc i)" if "i < length (snd q)" for i
  proof (cases "i < length (snd p)")
    case True
    then show ?thesis using assms(1) len by (auto simp: valid_path_def e(3) nth_append)
  next
    case False
    then have "i = length (snd p)" using that by (simp add: e(3))
    then show ?thesis using e valid_path_last [OF assms(1)] len by (auto simp: nth_append)
  qed
  then show ?thesis using assms(1,2) e(5,6) len by (auto simp: valid_path_def e(3) nth_append)
qed

lemma valid_path_parent:
  assumes "valid_path es pattern start (vs @ [v], xs @ [x])"
  shows "valid_path es pattern start (vs, xs)" "(vs @ [v], xs @ [x]) \<in> set (children pattern es (vs, xs))"
proof -
  have len: "length vs = Suc (length xs)" using assms by (simp add: valid_path_def)
  have step: "\<exists>e\<in>set es. ge_edge e = (xs @ [x]) ! i \<and> (pc_relations pattern = [] \<or> ge_relation e \<in> set (pc_relations pattern))
      \<and> edge_step (pc_direction pattern) e ((vs @ [v]) ! i) = Some ((vs @ [v]) ! Suc i)" if "i \<le> length xs" for i
    using assms that by (simp add: valid_path_def)
  have "\<exists>e\<in>set es. ge_edge e = xs ! i \<and> (pc_relations pattern = [] \<or> ge_relation e \<in> set (pc_relations pattern))
      \<and> edge_step (pc_direction pattern) e (vs ! i) = Some (vs ! Suc i)" if "i < length xs" for i
    using step [of i] that len by (auto simp: nth_append)
  then show "valid_path es pattern start (vs, xs)"
    using assms len by (auto simp: valid_path_def nth_append)
  obtain e where "e \<in> set es" "ge_edge e = x" "pc_relations pattern = [] \<or> ge_relation e \<in> set (pc_relations pattern)"
    "edge_step (pc_direction pattern) e (last vs) = Some v"
    using step [of "length xs"] len by (cases vs rule: rev_cases) (auto simp: nth_append)
  then show "(vs @ [v], xs @ [x]) \<in> set (children pattern es (vs, xs))"
    using assms by (auto simp: children_iff path_child_iff valid_path_def)
qed

text \<open>What the search visits from a path on.\<close>

definition path_step :: "graph_edge list \<Rightarrow> compact_pattern \<Rightarrow> compact_path \<Rightarrow> compact_path \<Rightarrow> bool" where
  "path_step es pattern p q \<longleftrightarrow> length (snd p) < unat (pc_max_hops pattern) \<and> q \<in> set (children pattern es p)"

lemma path_step_valid: "(path_step es pattern)\<^sup>*\<^sup>* p q \<Longrightarrow> valid_path es pattern start p \<Longrightarrow> valid_path es pattern start q"
  by (induction rule: rtranclp_induct) (auto simp: path_step_def intro: valid_path_child)

lemma valid_path_steps: "valid_path es pattern start q \<Longrightarrow> (path_step es pattern)\<^sup>*\<^sup>* ([start], []) q"
proof (induction "length (snd q)" arbitrary: q)
  case 0
  then have "q = ([start], [])" by (cases q) (auto simp: valid_path_def length_Suc_conv)
  then show ?case by simp
next
  case (Suc n)
  have "length (fst q) = Suc (Suc n)" using Suc.prems Suc.hyps(2) by (simp add: valid_path_def)
  then obtain vs v xs x where q: "q = (vs @ [v], xs @ [x])"
    using Suc.hyps(2) by (cases q; cases "fst q" rule: rev_cases; cases "snd q" rule: rev_cases) auto
  note parent = valid_path_parent [OF Suc.prems [unfolded q]]
  have "(path_step es pattern)\<^sup>*\<^sup>* ([start], []) (vs, xs)" using Suc.hyps parent(1) by (simp add: q)
  moreover have "path_step es pattern (vs, xs) q" using parent(2) Suc.prems by (simp add: path_step_def q valid_path_def)
  ultimately show ?case by simp
qed

definition path_wanted :: "exec_row \<Rightarrow> nat option \<Rightarrow> compact_pattern \<Rightarrow> compact_path \<Rightarrow> bool" where
  "path_wanted vs end_index pattern p \<longleftrightarrow>
     unat (pc_min_hops pattern) \<le> length (snd p) \<and> endpoint_matches vs end_index (last (fst p))"

definition wanted_below :: "graph_edge list \<Rightarrow> exec_row \<Rightarrow> nat option \<Rightarrow> compact_pattern \<Rightarrow> compact_path \<Rightarrow> compact_path set" where
  "wanted_below es vs end_index pattern p = {q. (path_step es pattern)\<^sup>*\<^sup>* p q \<and> path_wanted vs end_index pattern q}"

lemma wanted_below_step:
  "wanted_below es vs end_index pattern p =
     (if path_wanted vs end_index pattern p then {p} else {})
     \<union> (if length (snd p) < unat (pc_max_hops pattern) then \<Union> (wanted_below es vs end_index pattern ` set (children pattern es p)) else {})"
proof -
  have unroll: "(path_step es pattern)\<^sup>*\<^sup>* p q \<longleftrightarrow> q = p \<or> (\<exists>c. path_step es pattern p c \<and> (path_step es pattern)\<^sup>*\<^sup>* c q)" for q
    by (metis converse_rtranclpE converse_rtranclp_into_rtranclp rtranclp.rtrancl_refl)
  have "{q. (path_step es pattern)\<^sup>*\<^sup>* p q \<and> path_wanted vs end_index pattern q}
    = {q. (q = p \<or> (\<exists>c. path_step es pattern p c \<and> (path_step es pattern)\<^sup>*\<^sup>* c q)) \<and> path_wanted vs end_index pattern q}"
    by (rule Collect_cong) (simp only: unroll)
  then show ?thesis by (auto simp: wanted_below_def path_step_def)
qed

lemma expand_loop_finds:
  "expand_loop E G vs end_index pattern pending found st = Inr (found', st') \<Longrightarrow>
     set found' = set found \<union> \<Union> (wanted_below (gs_edges G) vs end_index pattern ` set pending)"
proof (induction E G vs end_index pattern pending found st rule: expand_loop.induct)
  case (2 E G vs end_index pattern p pending found st)
  let ?B = "wanted_below (gs_edges G) vs end_index pattern"
  obtain st1 mid st2 where step: "nodes_now E 1 st = Inr st1" "fst p \<noteq> []" "record_match E vs end_index pattern p found st1 = Inr (mid, st2)"
    using "2.prems" by (auto split: if_splits)
  have mid: "set mid = set found \<union> (if path_wanted vs end_index pattern p then {p} else {})"
    using record_match_cases(2) [OF step(3)] by (auto simp: path_wanted_def)
  show ?case
  proof (cases "unat (pc_max_hops pattern) \<le> length (snd p)")
    case True
    then have "expand_loop E G vs end_index pattern pending mid st2 = Inr (found', st')" using "2.prems" step by simp
    then have "set found' = set mid \<union> \<Union> (?B ` set pending)" by (rule "2.IH"(1) [OF step refl True])
    moreover have "?B p = (if path_wanted vs end_index pattern p then {p} else {})"
      using True by (subst wanted_below_step) simp
    ultimately show ?thesis by (simp only: mid list.set image_insert Union_insert Un_assoc)
  next
    case False
    then obtain pending' st3 where rest: "fold_st (expand_edge E pattern p) (gs_edges G) pending st2 = Inr (pending', st3)"
      "expand_loop E G vs end_index pattern pending' mid st3 = Inr (found', st')"
      using "2.prems" step by auto
    have "set found' = set mid \<union> \<Union> (?B ` set pending')" by (rule "2.IH"(2) [OF step refl False rest(1) refl rest(2)])
    moreover have "?B p = (if path_wanted vs end_index pattern p then {p} else {}) \<union> \<Union> (?B ` set (children pattern (gs_edges G) p))"
      using False by (subst wanted_below_step) simp
    ultimately show ?thesis
      by (simp only: mid expand_edges_Inr [OF rest(1)] list.set image_insert Union_insert set_append set_rev image_Un Union_Un_distrib Un_assoc)
  qed
qed simp

lemma expand_loop_Inl:
  "expand_loop E G vs end_index pattern pending found st = Inl err \<Longrightarrow> \<forall>p\<in>set pending. fst p \<noteq> [] \<Longrightarrow> err = quota"
proof (induction E G vs end_index pattern pending found st rule: expand_loop.induct)
  case (2 E G vs end_index pattern p pending found st)
  have grown: "fst q \<noteq> []" if "fold_st (expand_edge E pattern p) (gs_edges G) pending st2 = Inr (pending', st3)" "q \<in> set pending'" for st2 pending' st3 q
    using expand_edges_Inr [OF that(1)] that(2) "2.prems"(2) by (auto simp: children_iff path_child_iff)
  have p: "fst p \<noteq> []" using "2.prems"(2) by simp
  note run = "2.prems"(1) [unfolded expand_loop.simps if_not_P [OF p]]
  show ?case
  proof (cases "nodes_now E 1 st")
    case (Inl e)
    then show ?thesis using run expanded_Inl(1) [OF Inl] by simp
  next
    case nodes: (Inr st1)
    show ?thesis
    proof (cases "record_match E vs end_index pattern p found st1")
      case (Inl e)
      then show ?thesis using run nodes record_match_cases(1) [OF Inl] by simp
    next
      case (Inr r)
      obtain mid st2 where found: "record_match E vs end_index pattern p found st1 = Inr (mid, st2)" using Inr by (cases r) simp
      note run' = run [unfolded nodes rbind.simps found prod.case]
      show ?thesis
      proof (cases "unat (pc_max_hops pattern) \<le> length (snd p)")
        case True
        then have "expand_loop E G vs end_index pattern pending mid st2 = Inl err" using run' by simp
        then show ?thesis using "2.IH"(1) [OF nodes p found refl True] "2.prems"(2) by simp
      next
        case False
        note run'' = run' [unfolded if_not_P [OF False]]
        show ?thesis
        proof (cases "fold_st (expand_edge E pattern p) (gs_edges G) pending st2")
          case (Inl e)
          then show ?thesis using run'' expand_edges_Inl [OF Inl] by simp
        next
          case (Inr r)
          obtain pending' st3 where edges: "fold_st (expand_edge E pattern p) (gs_edges G) pending st2 = Inr (pending', st3)"
            using Inr by (cases r) simp
          have "expand_loop E G vs end_index pattern pending' mid st3 = Inl err" using run'' edges by simp
          then show ?thesis using "2.IH"(2) [OF nodes p found refl False edges refl] grown [OF edges] by blast
        qed
      qed
    qed
  qed
qed simp

section \<open>The order of the answers\<close>

lemma record_ref_ordering: "ordering_on UNIV compare_record_ref"
proof -
  have c: "ordering_on UNIV (cmp :: string \<Rightarrow> string \<Rightarrow> ordering)" by (rule ordering_on_cmp [where f = id]) simp
  show ?thesis
    by (rule ordering_on_image [OF ordering_on_lex [OF c ordering_on_lex [OF c ordering_on_lex [OF c c]]],
          where h = "\<lambda>r. (rr_database_id r, rr_namespace r, rr_id r, rr_revision r)"])
      (auto simp: compare_record_ref_def cmp_def)
qed

interpretation record_ref: ordering_on UNIV compare_record_ref
  by (rule record_ref_ordering)

lemma record_refs_flip: "compare_record_refs b a = reverse_ordering (compare_record_refs a b)"
proof (induction a b rule: compare_record_refs.induct)
  case (1 x xs y ys)
  then show ?case using record_ref.flip [of x y] by auto
qed (simp_all add: cmp_flip [symmetric])

lemma record_refs_trans:
  "compare_record_refs a b \<noteq> OGreater \<Longrightarrow> compare_record_refs b c \<noteq> OGreater \<Longrightarrow> compare_record_refs a c \<noteq> OGreater"
proof (induction a arbitrary: b c)
  case Nil
  then show ?case by (cases c) (auto simp: cmp_def)
next
  case (Cons x xs)
  then obtain y ys z zs where b: "b = y # ys" and c: "c = z # zs"
    by (cases b; cases c) (auto simp: cmp_def)
  have le: "compare_record_ref x y \<noteq> OGreater" "compare_record_ref y z \<noteq> OGreater"
    using Cons.prems by (auto simp: b c split: if_splits)
  show ?case
  proof (cases "compare_record_ref x y = OEqual \<and> compare_record_ref y z = OEqual")
    case True
    then show ?thesis using record_ref.equal_trans [of x y z] Cons by (simp add: b c)
  next
    case False
    then have "compare_record_ref x y = OLess \<or> compare_record_ref y z = OLess" using le by (metis ordering.exhaust)
    then have "compare_record_ref x z = OLess"
      using record_ref.less_le_trans [of x y z] record_ref.le_less_trans [of x y z] le by auto
    then show ?thesis by (simp add: c)
  qed
qed

interpretation paths: ordering_on UNIV compare_paths
proof -
  have n: "ordering_on UNIV (cmp :: nat \<Rightarrow> nat \<Rightarrow> ordering)" by (rule ordering_on_cmp [where f = id]) simp
  have r: "ordering_on UNIV compare_record_refs" using record_refs_flip record_refs_trans by unfold_locales blast+
  show "ordering_on UNIV compare_paths"
    by (rule ordering_on_image [OF ordering_on_lex [OF n ordering_on_lex [OF r r]], where h = "\<lambda>p. (length (snd p), snd p, fst p)"])
      (auto simp: compare_paths_def cmp_def)
qed

lemma paths_sorted_by_length: "sorted (map (length \<circ> snd) (sort_by compare_paths ps))"
proof -
  have "length (snd a) \<le> length (snd b)" if "compare_paths a b \<noteq> OGreater" for a b
    using that by (auto simp: compare_paths_def cmp_def split: if_splits)
  then show ?thesis
    unfolding sorted_map using sorted_wrt_mono_rel [OF _ paths.sort_by_sorted [of ps]] by simp
qed

section \<open>All paths of an expansion\<close>

definition found_paths :: "graph_snapshot \<Rightarrow> exec_row \<Rightarrow> nat option \<Rightarrow> compact_pattern \<Rightarrow> record_ref \<Rightarrow> compact_path list \<Rightarrow> bool" where
  "found_paths G vs end_index pattern start ps \<longleftrightarrow>
     set ps = {p. valid_path (gs_edges G) pattern start p \<and> path_wanted vs end_index pattern p}
     \<and> sorted (map (length \<circ> snd) ps)"

lemma expand_paths_found:
  assumes "start_index < length vs" "vs ! start_index = VEntity r" "map_of (gs_nodes G) (rr_id r) = Some r"
  shows "case compact_expand_paths E G vs start_index end_index pattern st of
      Inl err \<Rightarrow> err = quota
    | Inr (paths, st') \<Rightarrow> found_paths G vs end_index pattern r paths"
proof (cases "expand_loop E G vs end_index pattern [([r], [])] [] st")
  case (Inl err)
  then show ?thesis using expand_loop_Inl [OF Inl] assms by (simp add: compact_expand_paths_def Inl del: expand_loop.simps)
next
  case (Inr found)
  obtain ps st' where found: "expand_loop E G vs end_index pattern [([r], [])] [] st = Inr (ps, st')" using Inr by (cases found) simp
  have "set ps = {p. valid_path (gs_edges G) pattern r p \<and> path_wanted vs end_index pattern p}"
    using expand_loop_finds [OF found] path_step_valid [of "gs_edges G" pattern "([r], [])" _ r] valid_path_steps
    by (auto simp: wanted_below_def)
  then show ?thesis using assms paths_sorted_by_length [of ps] by (simp add: compact_expand_paths_def found found_paths_def del: expand_loop.simps)
qed

end
