(* ===== verification/GB_Match.thy ===== *)
theory GB_Match
  imports GB_Paths
begin

text \<open>
  Graph patterns in queries: the operators \<open>Expand\<close> and \<open>Match\<close> with a compact pattern, their binding
  (\<open>src/src/query/hql2/bind.rs\<close>) and their kernels (\<open>src/src/query/hql2/exec.rs\<close>). Patterns given as a sequence of
  steps are outside this model.
\<close>

section \<open>Binding\<close>

definition single_hop :: "compact_pattern \<Rightarrow> bool" where
  "single_hop pattern \<longleftrightarrow> pc_min_hops pattern = 1 \<and> pc_max_hops pattern = 1"

definition edge_columns :: "compact_pattern \<Rightarrow> bool \<Rightarrow> column list" where
  "edge_columns pattern optional =
     (case pc_edge_alias pattern of
        Some nm \<Rightarrow> [\<lparr>col_name = nm, col_ty = nullable_if (if single_hop pattern then TEntity else TList TEntity) optional\<rparr>]
      | None \<Rightarrow> [])"

definition path_columns :: "compact_pattern \<Rightarrow> bool \<Rightarrow> column list" where
  "path_columns pattern optional =
     (case pc_path_alias pattern of Some nm \<Rightarrow> [\<lparr>col_name = nm, col_ty = nullable_if TPath optional\<rparr>] | None \<Rightarrow> [])"

record expand_kernel =
  ek_start_index :: nat
  ek_end_index :: "nat option"
  ek_pattern :: compact_pattern
  ek_optional :: bool

definition bind_expand :: "column list \<Rightarrow> compact_pattern \<Rightarrow> bool \<Rightarrow> (query_error, column list \<times> expand_kernel) result" where
  "bind_expand scope pattern optional =
     rbind (ok_or (bind_error ''expand_start'') (find_column scope (pc_start_alias pattern))) (\<lambda>(start_index, start).
     if base_type (col_ty start) \<noteq> TEntity then Inl (bind_error ''expand_start_type'')
     else
       let end_index = map_option fst (find_column scope (pc_end_alias pattern)) in
       if (case end_index of Some i \<Rightarrow> base_type (col_ty (scope ! i)) \<noteq> TEntity | None \<Rightarrow> False) then Inl (bind_error ''expand_end_type'')
       else
         let columns = scope
               @ (if end_index = None then [\<lparr>col_name = pc_end_alias pattern, col_ty = nullable_if TEntity optional\<rparr>] else [])
               @ edge_columns pattern optional @ path_columns pattern optional in
         rbind (unique_columns columns) (\<lambda>_.
         Inr (columns, \<lparr>ek_start_index = start_index, ek_end_index = end_index, ek_pattern = pattern, ek_optional = optional\<rparr>)))"

record match_kernel =
  mk_pattern :: compact_pattern
  mk_shortest :: bool
  mk_anchors :: "(nat \<times> record_ref) list"

definition anchor_record :: "bind_env \<Rightarrow> expr \<Rightarrow> (query_error, record_ref) result" where
  "anchor_record B e =
     (case e of
        ELiteral lit tn \<Rightarrow>
          rbind (parse_type tn) (\<lambda>ty.
          if ty \<noteq> TEntity then Inl (bind_error ''match_anchor_type'')
          else rbind (decode_value (bn_floats B) (bn_refs B) TEntity lit) (\<lambda>v.
            case v of VEntity r \<Rightarrow> Inr r | _ \<Rightarrow> Inl (bind_error ''match_anchor_type'')))
      | EParam nm \<Rightarrow>
          rbind (get_parameter (bn_params B) nm) (\<lambda>(ty, v).
          if ty \<noteq> TEntity then Inl (bind_error ''match_anchor_type'')
          else (case v of VEntity r \<Rightarrow> Inr r | _ \<Rightarrow> Inl (bind_error ''match_anchor_type'')))
      | _ \<Rightarrow> Inl (bind_error ''match_anchor_expression''))"

definition bind_anchor :: "bind_env \<Rightarrow> compact_pattern \<Rightarrow> column list \<Rightarrow> string \<times> expr \<Rightarrow> (query_error, nat \<times> record_ref) result" where
  "bind_anchor B pattern columns anchor =
     (case anchor of (nm, e) \<Rightarrow>
        if nm \<noteq> pc_start_alias pattern \<and> nm \<noteq> pc_end_alias pattern then Inl (bind_error ''match_anchor_alias'')
        else
          rbind (anchor_record B e) (\<lambda>r.
          rbind (ok_or (bind_error ''match_anchor_alias'') (find_column columns nm)) (\<lambda>(i, _). Inr (i, r))))"

definition match_columns :: "compact_pattern \<Rightarrow> column list" where
  "match_columns pattern =
     \<lparr>col_name = pc_start_alias pattern, col_ty = TEntity\<rparr>
     # (if pc_end_alias pattern \<noteq> pc_start_alias pattern then [\<lparr>col_name = pc_end_alias pattern, col_ty = TEntity\<rparr>] else [])
     @ edge_columns pattern False @ path_columns pattern False"

definition bind_match ::
  "bind_env \<Rightarrow> compact_pattern \<Rightarrow> expr btree_map \<Rightarrow> bool \<Rightarrow> (query_error, column list \<times> match_kernel) result" where
  "bind_match B pattern anchors shortest =
     rbind (unique_columns (match_columns pattern)) (\<lambda>_.
     rbind (collect_results (map (bind_anchor B pattern (match_columns pattern)) anchors)) (\<lambda>bound.
     Inr (match_columns pattern, \<lparr>mk_pattern = pattern, mk_shortest = shortest, mk_anchors = bound\<rparr>)))"

section \<open>Cells of a path\<close>

definition graph_unavailable :: query_error where
  "graph_unavailable = query_error_new ''CAPABILITY_UNSUPPORTED'' ''execute'' ''graph_source_unavailable''"

definition edge_cells :: "string \<Rightarrow> compact_pattern \<Rightarrow> compact_path \<Rightarrow> (query_error, exec_row) result" where
  "edge_cells what pattern p =
     (if pc_edge_alias pattern = None then Inr []
      else if single_hop pattern then (case snd p of [] \<Rightarrow> Inl (failure what) | e # _ \<Rightarrow> Inr [VEntity e])
      else Inr [VList (map VEntity (snd p))])"

fun value_mode :: "wire_path_mode \<Rightarrow> path_mode" where
  "value_mode PathTrail = Trail"
| "value_mode PathSimple = Simple"
| "value_mode PathWalk = Walk"

definition path_cells :: "compact_pattern \<Rightarrow> compact_path \<Rightarrow> exec_row" where
  "path_cells pattern p =
     (if pc_path_alias pattern = None then []
      else [VPath \<lparr>pv_vertices = fst p, pv_edges = snd p, pv_mode = value_mode (pc_mode pattern)\<rparr>])"

section \<open>Expand\<close>

definition absent_row :: "expand_kernel \<Rightarrow> exec_row \<Rightarrow> exec_row" where
  "absent_row k vs = vs @ (if ek_end_index k = None then [VNull] else [])
     @ (if pc_edge_alias (ek_pattern k) \<noteq> None then [VNull] else []) @ (if pc_path_alias (ek_pattern k) \<noteq> None then [VNull] else [])"

definition expand_row ::
  "eval_env \<Rightarrow> expand_kernel \<Rightarrow> exec_row \<Rightarrow> compact_path \<Rightarrow> exec_row list \<Rightarrow> metered \<Rightarrow> (query_error, exec_row list \<times> metered) result" where
  "expand_row E k vs p out st =
     (if fst p = [] then Inl (failure ''expand_path'')
      else
        rbind (edge_cells ''expand_edge'' (ek_pattern k) p) (\<lambda>cells.
        let expanded = vs @ (if ek_end_index k = None then [VEntity (last (fst p))] else []) @ cells @ path_cells (ek_pattern k) p in
        rbind (reserve_now E (row_bytes (xe_ops E) expanded) st) (\<lambda>st1. Inr (out @ [expanded], st1))))"

definition expand_input ::
  "eval_env \<Rightarrow> graph_snapshot \<Rightarrow> expand_kernel \<Rightarrow> exec_row \<Rightarrow> exec_row list \<Rightarrow> metered \<Rightarrow> (query_error, exec_row list \<times> metered) result" where
  "expand_input E G k vs out st =
     rbind (check_now E st) (\<lambda>st1.
     rbind (compact_expand_paths E G vs (ek_start_index k) (ek_end_index k) (ek_pattern k) st1) (\<lambda>(paths, st2).
     if paths = [] then
       (if ek_optional k then
          rbind (reserve_now E (row_bytes (xe_ops E) (absent_row k vs)) st2) (\<lambda>st3. Inr (out @ [absent_row k vs], st3))
        else Inr (out, st2))
     else fold_st (expand_row E k vs) paths out st2))"

definition run_expand ::
  "eval_env \<Rightarrow> graph_snapshot option \<Rightarrow> expand_kernel \<Rightarrow> exec_row list \<Rightarrow> metered \<Rightarrow> (query_error, exec_row list \<times> metered) result" where
  "run_expand E graph k input st = rbind (ok_or graph_unavailable graph) (\<lambda>G. fold_st (expand_input E G k) input [] st)"

section \<open>Match\<close>

fun matches_compact_match_anchors ::
  "record_ref \<Rightarrow> record_ref \<Rightarrow> bool \<Rightarrow> (nat \<times> record_ref) list \<Rightarrow> (query_error, bool) result" where
  "matches_compact_match_anchors start endpoint single_node_alias [] = Inr True"
| "matches_compact_match_anchors start endpoint single_node_alias ((i, r) # anchors) =
     rbind (if i = 0 then Inr start else if i = 1 \<and> \<not> single_node_alias then Inr endpoint else Inl (failure ''match_anchor_binding'')) (\<lambda>rec.
     if rec \<noteq> r then Inr False else matches_compact_match_anchors start endpoint single_node_alias anchors)"

definition single_alias :: "compact_pattern \<Rightarrow> bool" where
  "single_alias pattern \<longleftrightarrow> pc_start_alias pattern = pc_end_alias pattern"

type_synonym match_acc = "(record_key \<times> record_key) list \<times> exec_row list"

text \<open>One path of a start: \<open>width\<close> is the number of columns of the node.\<close>

definition match_path ::
  "eval_env \<Rightarrow> match_kernel \<Rightarrow> nat \<Rightarrow> record_ref \<Rightarrow> compact_path \<Rightarrow> match_acc \<Rightarrow> metered \<Rightarrow> (query_error, match_acc \<times> metered) result" where
  "match_path E k width start p acc st =
     (if fst p = [] then Inl (failure ''match_path'')
      else
        let endpoint = last (fst p); pattern = mk_pattern k in
        rbind (matches_compact_match_anchors start endpoint (single_alias pattern) (mk_anchors k)) (\<lambda>anchored.
        if \<not> anchored then Inr (acc, st)
        else
          rbind (edge_cells ''match_edge'' pattern p) (\<lambda>cells.
          let matched = VEntity start # (if single_alias pattern then [] else [VEntity endpoint]) @ cells @ path_cells pattern p;
              pair = (record_key start, record_key endpoint) in
          if length matched \<noteq> width then Inl (failure ''match_binding'')
          else if mk_shortest k \<and> pair \<in> set (fst acc) then Inr (acc, st)
          else
            rbind (reserve_now E (row_bytes (xe_ops E) matched) st) (\<lambda>st1.
            Inr (((if mk_shortest k then pair # fst acc else fst acc), snd acc @ [matched]), st1)))))"

definition match_start ::
  "eval_env \<Rightarrow> graph_snapshot \<Rightarrow> match_kernel \<Rightarrow> nat \<Rightarrow> record_ref \<Rightarrow> match_acc \<Rightarrow> metered \<Rightarrow> (query_error, match_acc \<times> metered) result" where
  "match_start E G k width start acc st =
     rbind (reserve_now E (value_bytes (xe_ops E) (VEntity start)) st) (\<lambda>st1.
     rbind (compact_expand_paths E G [VEntity start] 0 (if single_alias (mk_pattern k) then Some 0 else None) (mk_pattern k) st1) (\<lambda>(paths, st2).
     fold_st (match_path E k width start) paths acc st2))"

definition run_match ::
  "eval_env \<Rightarrow> graph_snapshot option \<Rightarrow> match_kernel \<Rightarrow> nat \<Rightarrow> metered \<Rightarrow> (query_error, exec_row list \<times> metered) result" where
  "run_match E graph k width st =
     rbind (ok_or graph_unavailable graph) (\<lambda>G.
     rbind (fold_st (match_start E G k width) (map snd (gs_nodes G)) ([], []) st) (\<lambda>(acc, st1). Inr (snd acc, st1)))"

section \<open>Expanded rows\<close>

definition edge_cell :: "compact_pattern \<Rightarrow> compact_path \<Rightarrow> exec_row" where
  "edge_cell pattern p =
     (if pc_edge_alias pattern = None then [] else if single_hop pattern then [VEntity (hd (snd p))] else [VList (map VEntity (snd p))])"

lemma edge_cells_wanted: "path_wanted vs end_index pattern p \<Longrightarrow> edge_cells what pattern p = Inr (edge_cell pattern p)"
  by (cases "snd p") (auto simp: edge_cells_def edge_cell_def path_wanted_def single_hop_def)

lemma edge_cell_typed:
  "list_all2 (\<lambda>c v. value_of_type (col_ty c) v) (edge_columns pattern optional @ path_columns pattern optional) (edge_cell pattern p @ path_cells pattern p)"
  by (auto simp: edge_columns_def path_columns_def edge_cell_def path_cells_def nullable_if_def list_all_iff as_nullable_def split: option.splits)

definition expanded_row :: "expand_kernel \<Rightarrow> exec_row \<Rightarrow> compact_path \<Rightarrow> exec_row" where
  "expanded_row k vs p = vs @ (if ek_end_index k = None then [VEntity (last (fst p))] else []) @ edge_cell (ek_pattern k) p @ path_cells (ek_pattern k) p"

definition row_paths :: "graph_snapshot \<Rightarrow> expand_kernel \<Rightarrow> exec_row \<Rightarrow> compact_path list \<Rightarrow> bool" where
  "row_paths G k vs ps \<longleftrightarrow>
     (case vs ! ek_start_index k of
        VEntity r \<Rightarrow> if map_of (gs_nodes G) (rr_id r) = Some r then found_paths G vs (ek_end_index k) (ek_pattern k) r ps else ps = []
      | _ \<Rightarrow> ps = [])"

definition rows_of :: "expand_kernel \<Rightarrow> exec_row \<Rightarrow> compact_path list \<Rightarrow> exec_row list" where
  "rows_of k vs ps = (if ps = [] then (if ek_optional k then [absent_row k vs] else []) else map (expanded_row k vs) ps)"

lemma expand_paths_of_row:
  assumes "ek_start_index k < length vs" "vs ! ek_start_index k = VNull \<or> (\<exists>r. vs ! ek_start_index k = VEntity r)"
  shows "case compact_expand_paths E G vs (ek_start_index k) (ek_end_index k) (ek_pattern k) st of
      Inl err \<Rightarrow> err = quota | Inr (ps, _) \<Rightarrow> row_paths G k vs ps"
proof (cases "\<exists>r. vs ! ek_start_index k = VEntity r \<and> map_of (gs_nodes G) (rr_id r) = Some r")
  case True
  then obtain r where r: "vs ! ek_start_index k = VEntity r" "map_of (gs_nodes G) (rr_id r) = Some r" by blast
  show ?thesis
    using expand_paths_found [OF assms(1) r, where E = E and end_index = "ek_end_index k" and pattern = "ek_pattern k" and st = st] r
    by (simp add: row_paths_def split: sum.splits prod.splits)
next
  case False
  then show ?thesis using assms by (auto simp: compact_expand_paths_def row_paths_def)
qed

lemma row_paths_valid:
  assumes "row_paths G k vs ps" "p \<in> set ps"
  shows "fst p \<noteq> []" "path_wanted vs (ek_end_index k) (ek_pattern k) p"
proof -
  obtain r where "valid_path (gs_edges G) (ek_pattern k) r p \<and> path_wanted vs (ek_end_index k) (ek_pattern k) p"
    using assms by (auto simp: row_paths_def found_paths_def split: query_value.splits if_splits)
  then show "fst p \<noteq> []" "path_wanted vs (ek_end_index k) (ek_pattern k) p" using valid_path_last by blast+
qed

lemma expand_row_fold:
  assumes "\<forall>p\<in>set ps. fst p \<noteq> [] \<and> path_wanted vs (ek_end_index k) (ek_pattern k) p"
  shows "case fold_st (expand_row E k vs) ps out st of Inl err \<Rightarrow> err = quota | Inr (out', _) \<Rightarrow> out' = out @ map (expanded_row k vs) ps"
  using assms
proof (induction ps arbitrary: out st)
  case (Cons p ps)
  have step: "expand_row E k vs p out st =
      rbind (reserve_now E (row_bytes (xe_ops E) (expanded_row k vs p)) st) (\<lambda>st1. Inr (out @ [expanded_row k vs p], st1))"
    using Cons.prems edge_cells_wanted [of vs "ek_end_index k" "ek_pattern k" p "''expand_edge''"]
    by (simp add: expand_row_def expanded_row_def Let_def)
  show ?case
  proof (cases "reserve_now E (row_bytes (xe_ops E) (expanded_row k vs p)) st")
    case (Inl err)
    then show ?thesis using reserve_Inl(1) [OF Inl] by (simp add: step)
  next
    case (Inr st1)
    then show ?thesis using Cons.IH [of "out @ [expanded_row k vs p]" st1] Cons.prems by (simp add: step split: sum.splits prod.splits)
  qed
qed simp

lemma expand_input_rows:
  assumes "ek_start_index k < length vs" "vs ! ek_start_index k = VNull \<or> (\<exists>r. vs ! ek_start_index k = VEntity r)"
  shows "case expand_input E G k vs out st of Inl err \<Rightarrow> err = quota | Inr (out', _) \<Rightarrow> \<exists>ps. row_paths G k vs ps \<and> out' = out @ rows_of k vs ps"
proof (cases "check_now E st")
  case (Inl err)
  then show ?thesis using reserve_Inl(2) [OF Inl] by (simp add: expand_input_def)
next
  case (Inr st1)
  note found = expand_paths_of_row [OF assms, where E = E and G = G and st = st1]
  show ?thesis
  proof (cases "compact_expand_paths E G vs (ek_start_index k) (ek_end_index k) (ek_pattern k) st1")
    case (Inl err)
    then show ?thesis using found by (simp add: expand_input_def Inr)
  next
    case paths: (Inr r)
    obtain ps st2 where r: "r = (ps, st2)" by (cases r)
    have ok: "row_paths G k vs ps" using found by (simp add: paths r)
    show ?thesis
    proof (cases "ps = []")
      case True
      then show ?thesis
        using ok reserve_Inl(1) [where E = E and n = "row_bytes (xe_ops E) (absent_row k vs)" and st = st2]
        by (cases "reserve_now E (row_bytes (xe_ops E) (absent_row k vs)) st2") (auto simp: expand_input_def Inr paths r rows_of_def)
    next
      case False
      then show ?thesis
        using ok expand_row_fold [where ps = ps and vs = vs and k = k and E = E and out = out and st = st2] row_paths_valid [OF ok]
        by (auto simp: expand_input_def Inr paths r rows_of_def split: sum.splits)
    qed
  qed
qed

text \<open>A loop whose steps append rows appends the rows of all steps.\<close>

lemma fold_st_appends:
  assumes "\<And>x out st. x \<in> set xs \<Longrightarrow> case f x out st of Inl err \<Rightarrow> P err | Inr (out', _) \<Rightarrow> \<exists>w. R x w \<and> out' = out @ g x w"
  shows "case fold_st f xs out st of Inl err \<Rightarrow> P err | Inr (out', _) \<Rightarrow> \<exists>ws. list_all2 R xs ws \<and> out' = out @ concat (map2 g xs ws)"
  using assms
proof (induction xs arbitrary: out st)
  case (Cons x xs)
  show ?case
  proof (cases "f x out st")
    case (Inl err)
    then show ?thesis using Cons.prems [of x out st] by simp
  next
    case (Inr r)
    obtain out1 st1 where r: "f x out st = Inr (out1, st1)" using Inr by (cases r) simp
    obtain w where w: "R x w" "out1 = out @ g x w" using Cons.prems [of x out st] by (auto simp: r)
    have rest: "case fold_st f xs out1 st1 of Inl err \<Rightarrow> P err | Inr (out', _) \<Rightarrow> \<exists>ws. list_all2 R xs ws \<and> out' = out1 @ concat (map2 g xs ws)"
      using Cons.prems by (intro Cons.IH) simp
    have "\<exists>ws. list_all2 R (x # xs) ws \<and> out' = out @ concat (map2 g (x # xs) ws)"
      if "list_all2 R xs ws" "out' = out1 @ concat (map2 g xs ws)" for ws out'
      using that w by (intro exI [of _ "w # ws"]) simp
    then show ?thesis using rest by (auto simp: r split: sum.splits)
  qed
qed simp

lemma run_expand_rows:
  assumes "\<forall>vs\<in>set input. ek_start_index k < length vs \<and> (vs ! ek_start_index k = VNull \<or> (\<exists>r. vs ! ek_start_index k = VEntity r))"
  shows "case run_expand E (Some G) k input st of
      Inl err \<Rightarrow> err = quota
    | Inr (rows, _) \<Rightarrow> \<exists>pss. list_all2 (row_paths G k) input pss \<and> rows = concat (map2 (rows_of k) input pss)"
  unfolding run_expand_def ok_or_def option.case rbind.simps
  using assms by (intro fold_st_appends [where out = "[]", unfolded append_Nil] expand_input_rows) blast+

lemma bind_expand_Inr:
  assumes "bind_expand scope pattern optional = Inr (columns, k)"
  shows "ek_pattern k = pattern" "ek_optional k = optional" "ek_start_index k < length scope"
    "base_type (col_ty (scope ! ek_start_index k)) = TEntity"
    "columns = scope @ (if ek_end_index k = None then [\<lparr>col_name = pc_end_alias pattern, col_ty = nullable_if TEntity optional\<rparr>] else [])
       @ edge_columns pattern optional @ path_columns pattern optional"
  using assms by (auto simp: bind_expand_def Let_def ok_or_def split: option.splits if_splits dest: find_column_Some)

lemma rows_of_typed:
  assumes "bind_expand scope pattern optional = Inr (columns, k)" "row_typed scope vs"
  shows "list_all (row_typed columns) (rows_of k vs ps)"
proof -
  note k = bind_expand_Inr [OF assms(1)]
  have cells: "row_typed (edge_columns pattern optional @ path_columns pattern optional) (edge_cell pattern p @ path_cells pattern p)" for p
    using edge_cell_typed by (simp add: row_typed_def)
  have endpoint: "row_typed (if ek_end_index k = None then [\<lparr>col_name = pc_end_alias pattern, col_ty = nullable_if TEntity optional\<rparr>] else [])
      (if ek_end_index k = None then [VEntity r] else [])" for r
    by (simp add: row_typed_def nullable_if_def as_nullable_def)
  have "row_typed columns (expanded_row k vs p)" for p
    unfolding k(5) expanded_row_def k(1) by (intro row_typed_append assms(2) endpoint cells)
  moreover have "row_typed columns (absent_row k vs)" if "optional"
    unfolding k(5) absent_row_def k(1)
    by (intro row_typed_append assms(2))
      (auto simp: that row_typed_def edge_columns_def path_columns_def nullable_if_def null_value split: option.splits)
  ultimately show ?thesis by (auto simp: rows_of_def k(2) list_all_iff)
qed

section \<open>Matched rows\<close>

definition match_ends :: "record_ref \<times> compact_path \<Rightarrow> record_ref \<times> record_ref" where
  "match_ends c = (fst c, last (fst (snd c)))"

definition match_row :: "compact_pattern \<Rightarrow> record_ref \<times> compact_path \<Rightarrow> exec_row" where
  "match_row pattern c =
     VEntity (fst c) # (if single_alias pattern then [] else [VEntity (snd (match_ends c))]) @ edge_cell pattern (snd c) @ path_cells pattern (snd c)"

definition anchored :: "match_kernel \<Rightarrow> record_ref \<times> compact_path \<Rightarrow> bool" where
  "anchored k c \<longleftrightarrow> list_all (\<lambda>(i, r). (if i = 0 then fst (match_ends c) else snd (match_ends c)) = r) (mk_anchors k)"

fun kept :: "('a \<Rightarrow> 'b) \<Rightarrow> 'b set \<Rightarrow> 'a list \<Rightarrow> 'a list" where
  "kept key seen [] = []"
| "kept key seen (c # cs) = (if key c \<in> seen then kept key seen cs else c # kept key (insert (key c) seen) cs)"

lemma kept_append: "kept key seen (xs @ ys) = kept key seen xs @ kept key (seen \<union> key ` set xs) ys"
  by (induction xs arbitrary: seen) (auto simp: insert_absorb)

lemma kept_fresh: "c \<in> set (kept key seen cs) \<Longrightarrow> key c \<notin> seen"
  by (induction cs arbitrary: seen) (auto split: if_splits)

lemma kept_distinct: "distinct (map key (kept key seen cs))"
proof (induction cs arbitrary: seen)
  case (Cons c cs)
  have "key c \<notin> key ` set (kept key (insert (key c) seen) cs)" using kept_fresh by fastforce
  then show ?case using Cons.IH by simp
qed simp

lemma kept_subset: "set (kept key seen cs) \<subseteq> set cs"
  by (induction cs arbitrary: seen) auto

text \<open>If later members of a class weigh no less than earlier ones, the kept member of a class is a lightest one.\<close>

lemma kept_lightest:
  "c \<in> set cs \<Longrightarrow> key c \<notin> seen \<Longrightarrow> sorted_wrt (\<lambda>a b. key a = key b \<longrightarrow> (w a :: nat) \<le> w b) cs
     \<Longrightarrow> \<exists>d\<in>set (kept key seen cs). key d = key c \<and> w d \<le> w c"
proof (induction cs arbitrary: seen)
  case (Cons x cs)
  show ?case
  proof (cases "key x = key c")
    case True
    then show ?thesis using Cons.prems by auto
  next
    case False
    then have c: "c \<in> set cs" using Cons.prems(1) by auto
    show ?thesis using Cons.IH [OF c, of seen] Cons.IH [OF c, of "insert (key x) seen"] Cons.prems False by auto
  qed
qed simp

lemma record_key_inject [simp]: "record_key a = record_key b \<longleftrightarrow> a = b"
proof -
  have "record_kind_name x = record_kind_name y \<longleftrightarrow> x = y" for x y by (cases x; cases y) simp_all
  then show ?thesis by (cases a; cases b) (auto simp: record_key_def)
qed

lemma anchors_anchored:
  assumes "list_all (\<lambda>(i, r). i = 0 \<or> i = 1 \<and> \<not> single_alias (mk_pattern k)) anchors"
  shows "matches_compact_match_anchors start endpoint (single_alias (mk_pattern k)) anchors
    = Inr (list_all (\<lambda>(i, r). (if i = 0 then start else endpoint) = r) anchors)"
  using assms by (induction anchors) auto

definition match_ok :: "match_kernel \<Rightarrow> nat \<Rightarrow> bool" where
  "match_ok k width \<longleftrightarrow> list_all (\<lambda>(i, r). i = 0 \<or> i = 1 \<and> \<not> single_alias (mk_pattern k)) (mk_anchors k)
     \<and> width = length (match_columns (mk_pattern k))"

lemma match_row_typed: "row_typed (match_columns pattern) (match_row pattern c)"
proof -
  have "row_typed (edge_columns pattern False @ path_columns pattern False) (edge_cell pattern (snd c) @ path_cells pattern (snd c))"
    using edge_cell_typed by (simp add: row_typed_def)
  then show ?thesis by (simp add: match_columns_def match_row_def row_typed_def single_alias_def)
qed

lemma match_row_length [simp]: "length (match_row pattern c) = length (match_columns pattern)"
  using match_row_typed [of pattern c] by (auto simp: row_typed_def dest: list_all2_lengthD)

lemma match_path_step:
  assumes "match_ok k width" "fst p \<noteq> []" "path_wanted vs end_index (mk_pattern k) p"
  shows "match_path E k width start p acc st =
    (if \<not> anchored k (start, p) then Inr (acc, st)
     else if mk_shortest k \<and> map_prod record_key record_key (match_ends (start, p)) \<in> set (fst acc) then Inr (acc, st)
     else rbind (reserve_now E (row_bytes (xe_ops E) (match_row (mk_pattern k) (start, p))) st) (\<lambda>st1.
       Inr (((if mk_shortest k then map_prod record_key record_key (match_ends (start, p)) # fst acc else fst acc),
             snd acc @ [match_row (mk_pattern k) (start, p)]), st1)))"
proof -
  have row: "VEntity start # (if single_alias (mk_pattern k) then [] else [VEntity (last (fst p))])
      @ edge_cell (mk_pattern k) p @ path_cells (mk_pattern k) p = match_row (mk_pattern k) (start, p)"
    by (simp add: match_row_def match_ends_def)
  have ok: "matches_compact_match_anchors start (last (fst p)) (single_alias (mk_pattern k)) (mk_anchors k) = Inr (anchored k (start, p))"
    using assms(1) by (simp only: match_ok_def anchored_def match_ends_def fst_conv snd_conv anchors_anchored)
  show ?thesis
    unfolding match_path_def Let_def ok rbind.simps edge_cells_wanted [OF assms(3)] row match_row_length
    using assms(1,2) by (simp add: match_ok_def match_ends_def)
qed

definition end_keys :: "record_ref \<times> record_ref \<Rightarrow> record_key \<times> record_key" where
  "end_keys = map_prod record_key record_key"

lemma end_keys_inject [simp]: "end_keys a = end_keys b \<longleftrightarrow> a = b" "end_keys a \<in> end_keys ` S \<longleftrightarrow> a \<in> S"
proof -
  show inject: "end_keys a = end_keys b \<longleftrightarrow> a = b" for a b by (cases a; cases b) (simp add: end_keys_def)
  show "end_keys a \<in> end_keys ` S \<longleftrightarrow> a \<in> S" by (auto simp: inject image_iff)
qed

definition selected :: "match_kernel \<Rightarrow> (record_ref \<times> record_ref) set \<Rightarrow> (record_ref \<times> compact_path) list \<Rightarrow> (record_ref \<times> compact_path) list" where
  "selected k seen cs = (if mk_shortest k then kept match_ends seen cs else cs)"

definition seen_after :: "match_kernel \<Rightarrow> (record_ref \<times> record_ref) set \<Rightarrow> (record_ref \<times> compact_path) list \<Rightarrow> (record_ref \<times> record_ref) set" where
  "seen_after k seen cs = (if mk_shortest k then seen \<union> match_ends ` set cs else seen)"

lemma selected_Nil [simp]: "selected k seen [] = []" "seen_after k seen [] = seen"
  by (simp_all add: selected_def seen_after_def)

lemma selected_append:
  "selected k seen (xs @ ys) = selected k seen xs @ selected k (seen_after k seen xs) ys"
  "seen_after k seen (xs @ ys) = seen_after k (seen_after k seen xs) ys"
  by (auto simp: selected_def seen_after_def kept_append)

definition match_acc_ok :: "(record_ref \<times> record_ref) set \<Rightarrow> match_acc \<Rightarrow> bool" where
  "match_acc_ok seen acc \<longleftrightarrow> set (fst acc) = end_keys ` seen"

text \<open>What a run over candidates adds.\<close>

definition match_adds ::
  "match_kernel \<Rightarrow> (record_ref \<times> record_ref) set \<Rightarrow> exec_row list \<Rightarrow> (record_ref \<times> compact_path) list \<Rightarrow> match_acc \<Rightarrow> bool" where
  "match_adds k seen out cs acc \<longleftrightarrow> match_acc_ok (seen_after k seen cs) acc \<and> snd acc = out @ map (match_row (mk_pattern k)) (selected k seen cs)"

lemma match_adds_append:
  "match_adds k seen out xs acc1 \<Longrightarrow> match_adds k (seen_after k seen xs) (snd acc1) ys acc2 \<Longrightarrow> match_adds k seen out (xs @ ys) acc2"
  by (simp add: match_adds_def selected_append)

lemma match_path_adds:
  assumes "match_ok k width" "fst p \<noteq> []" "path_wanted vs end_index (mk_pattern k) p" "match_acc_ok seen acc"
  shows "case match_path E k width start p acc st of
      Inl err \<Rightarrow> err = quota | Inr (acc', _) \<Rightarrow> match_adds k seen (snd acc) (filter (anchored k) [(start, p)]) acc'"
proof -
  have "map_prod record_key record_key (match_ends (start, p)) \<in> set (fst acc) \<longleftrightarrow> match_ends (start, p) \<in> seen"
    using assms(4) by (simp add: match_acc_ok_def flip: end_keys_def)
  then show ?thesis
    unfolding match_path_step [OF assms(1-3)]
    using assms(4) reserve_Inl(1) [where E = E and n = "row_bytes (xe_ops E) (match_row (mk_pattern k) (start, p))" and st = st]
    by (cases "reserve_now E (row_bytes (xe_ops E) (match_row (mk_pattern k) (start, p))) st")
      (auto simp: match_adds_def selected_def seen_after_def match_acc_ok_def end_keys_def)
qed

lemma match_fold_adds:
  assumes step: "\<And>x acc st seen. x \<in> set xs \<Longrightarrow> match_acc_ok seen acc \<Longrightarrow>
      case f x acc st of Inl err \<Rightarrow> err = quota | Inr (acc', _) \<Rightarrow> \<exists>cs. R x cs \<and> match_adds k seen (snd acc) cs acc'"
    and "match_acc_ok seen acc"
  shows "case fold_st f xs acc st of
      Inl err \<Rightarrow> err = quota | Inr (acc', _) \<Rightarrow> \<exists>css. list_all2 R xs css \<and> match_adds k seen (snd acc) (concat css) acc'"
  using assms
proof (induction xs arbitrary: acc st seen)
  case Nil
  then show ?case by (simp add: match_adds_def)
next
  case (Cons x xs)
  show ?case
  proof (cases "f x acc st")
    case (Inl err)
    then show ?thesis using Cons.prems(1) [of x seen acc st] Cons.prems(2) by simp
  next
    case (Inr r)
    obtain acc1 st1 where r: "f x acc st = Inr (acc1, st1)" using Inr by (cases r) simp
    obtain cs where cs: "R x cs" "match_adds k seen (snd acc) cs acc1" using Cons.prems(1) [of x seen acc st] Cons.prems(2) by (auto simp: r)
    have ok: "match_acc_ok (seen_after k seen cs) acc1" using cs(2) by (simp add: match_adds_def)
    have rest: "case fold_st f xs acc1 st1 of Inl err \<Rightarrow> err = quota
      | Inr (acc', _) \<Rightarrow> \<exists>css. list_all2 R xs css \<and> match_adds k (seen_after k seen cs) (snd acc1) (concat css) acc'"
      using Cons.prems(1) by (intro Cons.IH ok) simp
    have "\<exists>css. list_all2 R (x # xs) css \<and> match_adds k seen (snd acc) (concat css) acc'"
      if "list_all2 R xs css" "match_adds k (seen_after k seen cs) (snd acc1) (concat css) acc'" for css acc'
      using that cs match_adds_append [OF cs(2) that(2)] by (intro exI [of _ "cs # css"]) simp
    then show ?thesis using rest by (auto simp: r split: sum.splits)
  qed
qed

definition match_end :: "compact_pattern \<Rightarrow> nat option" where
  "match_end pattern = (if single_alias pattern then Some 0 else None)"

definition start_matches :: "graph_snapshot \<Rightarrow> match_kernel \<Rightarrow> record_ref \<Rightarrow> (record_ref \<times> compact_path) list \<Rightarrow> bool" where
  "start_matches G k start cs \<longleftrightarrow>
     (\<exists>ps. found_paths G [VEntity start] (match_end (mk_pattern k)) (mk_pattern k) start ps \<and> cs = filter (anchored k) (map (Pair start) ps))"

lemma match_start_adds:
  assumes "match_ok k width" "map_of (gs_nodes G) (rr_id start) = Some start" "match_acc_ok seen acc"
  shows "case match_start E G k width start acc st of
      Inl err \<Rightarrow> err = quota | Inr (acc', _) \<Rightarrow> \<exists>cs. start_matches G k start cs \<and> match_adds k seen (snd acc) cs acc'"
proof (cases "reserve_now E (value_bytes (xe_ops E) (VEntity start)) st")
  case (Inl err)
  then show ?thesis using reserve_Inl(1) [OF Inl] by (simp add: match_start_def)
next
  case charged: (Inr st1)
  note found = expand_paths_found [where start_index = 0 and vs = "[VEntity start]" and r = start and G = G and E = E
      and end_index = "match_end (mk_pattern k)" and pattern = "mk_pattern k" and st = st1, simplified, OF assms(2)]
  show ?thesis
  proof (cases "compact_expand_paths E G [VEntity start] 0 (match_end (mk_pattern k)) (mk_pattern k) st1")
    case (Inl err)
    then show ?thesis using found unfolding match_start_def charged rbind.simps match_end_def [symmetric] by simp
  next
    case (Inr r)
    obtain ps st2 where r: "r = (ps, st2)" by (cases r)
    have ps: "found_paths G [VEntity start] (match_end (mk_pattern k)) (mk_pattern k) start ps" using found by (simp add: Inr r)
    have "case fold_st (match_path E k width start) ps acc st2 of Inl err \<Rightarrow> err = quota
      | Inr (acc', _) \<Rightarrow> \<exists>css. list_all2 (\<lambda>p cs. cs = filter (anchored k) [(start, p)]) ps css \<and> match_adds k seen (snd acc) (concat css) acc'"
    proof (rule match_fold_adds [OF _ assms(3)])
      fix p acc st seen assume p: "p \<in> set ps" and ok: "match_acc_ok seen acc"
      have "fst p \<noteq> []" "path_wanted [VEntity start] (match_end (mk_pattern k)) (mk_pattern k) p"
        using ps p valid_path_last unfolding found_paths_def by blast+
      from match_path_adds [OF assms(1) this ok, where E = E and start = start and st = st]
      show "case match_path E k width start p acc st of Inl err \<Rightarrow> err = quota
        | Inr (acc', _) \<Rightarrow> \<exists>cs. cs = filter (anchored k) [(start, p)] \<and> match_adds k seen (snd acc) cs acc'"
        by (auto split: sum.splits)
    qed
    moreover have "concat css = filter (anchored k) (map (Pair start) ps)" if "list_all2 (\<lambda>p cs. cs = filter (anchored k) [(start, p)]) ps css" for css
      using that by (induction rule: list_all2_induct) auto
    ultimately show ?thesis
      using ps unfolding match_start_def charged rbind.simps match_end_def [symmetric] Inr r prod.case start_matches_def
      by (fastforce split: sum.splits)
  qed
qed

definition snapshot_keyed :: "graph_snapshot \<Rightarrow> bool" where
  "snapshot_keyed G \<longleftrightarrow> distinct (map fst (gs_nodes G)) \<and> list_all (\<lambda>(i, r). rr_id r = i) (gs_nodes G)"

lemma snapshot_get: "snapshot_keyed G \<Longrightarrow> r \<in> set (map snd (gs_nodes G)) \<Longrightarrow> map_of (gs_nodes G) (rr_id r) = Some r"
  by (auto simp: snapshot_keyed_def list_all_iff)

lemma snapshot_distinct: "snapshot_keyed G \<Longrightarrow> distinct (map snd (gs_nodes G))"
proof -
  assume "snapshot_keyed G"
  then have "map fst (gs_nodes G) = map rr_id (map snd (gs_nodes G))" "distinct (map fst (gs_nodes G))"
    by (auto simp: snapshot_keyed_def list_all_iff)
  then show ?thesis by (metis distinct_map)
qed

definition is_match :: "graph_snapshot \<Rightarrow> match_kernel \<Rightarrow> record_ref \<times> compact_path \<Rightarrow> bool" where
  "is_match G k c \<longleftrightarrow> valid_path (gs_edges G) (mk_pattern k) (fst c) (snd c)
     \<and> path_wanted [VEntity (fst c)] (match_end (mk_pattern k)) (mk_pattern k) (snd c) \<and> anchored k c"

definition graph_matches :: "graph_snapshot \<Rightarrow> match_kernel \<Rightarrow> (record_ref \<times> compact_path) set" where
  "graph_matches G k = {c. fst c \<in> set (map snd (gs_nodes G)) \<and> is_match G k c}"

abbreviation hops :: "record_ref \<times> compact_path \<Rightarrow> nat" where
  "hops c \<equiv> length (snd (snd c))"

lemma start_matches_all:
  assumes "list_all2 (start_matches G k) starts css" "distinct starts"
  shows "set (concat css) = {c. fst c \<in> set starts \<and> is_match G k c}
    \<and> sorted_wrt (\<lambda>a b. match_ends a = match_ends b \<longrightarrow> hops a \<le> hops b) (concat css)"
  using assms
proof (induction rule: list_all2_induct)
  case (Cons start starts cs css)
  from Cons.hyps(1) obtain ps where ps: "set ps = {p. valid_path (gs_edges G) (mk_pattern k) start p \<and> path_wanted [VEntity start] (match_end (mk_pattern k)) (mk_pattern k) p}"
    "sorted (map (length \<circ> snd) ps)" "cs = filter (anchored k) (map (Pair start) ps)"
    by (auto simp: start_matches_def found_paths_def)
  have rest: "set (concat css) = {c. fst c \<in> set starts \<and> is_match G k c}"
    "sorted_wrt (\<lambda>a b. match_ends a = match_ends b \<longrightarrow> hops a \<le> hops b) (concat css)"
    using Cons.IH Cons.prems by (simp_all del: set_concat)
  have "sorted_wrt (\<lambda>a b. hops a \<le> hops b) (map (Pair start) ps)" using ps(2) by (simp add: sorted_wrt_map sorted_map)
  then have sorted: "sorted_wrt (\<lambda>a b. match_ends a = match_ends b \<longrightarrow> hops a \<le> hops b) cs"
    unfolding ps(3) by (intro sorted_wrt_filter) (auto elim: sorted_wrt_mono_rel [rotated])
  have cs: "set cs = {c. fst c = start \<and> is_match G k c}" by (auto simp: ps(1,3) is_match_def)
  have "match_ends a \<noteq> match_ends b" if "a \<in> set cs" "b \<in> set (concat css)" for a b
    using that Cons.prems unfolding cs rest(1) by (auto simp: match_ends_def)
  then have "sorted_wrt (\<lambda>a b. match_ends a = match_ends b \<longrightarrow> hops a \<le> hops b) (concat (cs # css))"
    using sorted rest(2) by (simp only: concat.simps sorted_wrt_append) blast
  moreover have "set (concat (cs # css)) = {c. fst c \<in> set (start # starts) \<and> is_match G k c}"
    using cs rest(1) by (simp only: concat.simps set_append) auto
  ultimately show ?case by blast
qed simp

lemma run_match_selects:
  assumes "match_ok k width" "snapshot_keyed G"
  shows "case run_match E (Some G) k width st of
      Inl err \<Rightarrow> err = quota
    | Inr (rows, _) \<Rightarrow> \<exists>cs. rows = map (match_row (mk_pattern k)) (selected k {} cs) \<and> set cs = graph_matches G k
        \<and> sorted_wrt (\<lambda>a b. match_ends a = match_ends b \<longrightarrow> hops a \<le> hops b) cs"
proof -
  have "case fold_st (match_start E G k width) (map snd (gs_nodes G)) ([], []) st of Inl err \<Rightarrow> err = quota
    | Inr (acc', _) \<Rightarrow> \<exists>css. list_all2 (start_matches G k) (map snd (gs_nodes G)) css \<and> match_adds k {} [] (concat css) acc'"
  proof (rule match_fold_adds [where acc = "([], [])", unfolded snd_conv])
    fix start acc st seen assume "start \<in> set (map snd (gs_nodes G))" "match_acc_ok seen acc"
    then show "case match_start E G k width start acc st of Inl err \<Rightarrow> err = quota
      | Inr (acc', _) \<Rightarrow> \<exists>cs. start_matches G k start cs \<and> match_adds k seen (snd acc) cs acc'"
      using match_start_adds [OF assms(1) snapshot_get [OF assms(2)]] by blast
  qed (simp add: match_acc_ok_def)
  moreover have "\<exists>cs. snd acc = map (match_row (mk_pattern k)) (selected k {} cs) \<and> set cs = graph_matches G k
      \<and> sorted_wrt (\<lambda>a b. match_ends a = match_ends b \<longrightarrow> hops a \<le> hops b) cs"
    if "list_all2 (start_matches G k) (map snd (gs_nodes G)) css" "match_adds k {} [] (concat css) acc" for css acc
    using start_matches_all [OF that(1) snapshot_distinct [OF assms(2)]] that(2)
    by (intro exI [of _ "concat css"]) (simp only: graph_matches_def match_adds_def append_Nil)
  ultimately show ?thesis
    by (cases "fold_st (match_start E G k width) (map snd (gs_nodes G)) ([], []) st") (auto simp: run_match_def ok_or_def)
qed

lemma source_of_result: "collect_results (map f xs) = Inr ys \<Longrightarrow> y \<in> set ys \<Longrightarrow> \<exists>x. f x = Inr y"
  by (induction xs arbitrary: ys) auto

lemma bind_match_ok:
  assumes "bind_match B pattern anchors shortest = Inr (columns, k)"
  shows "mk_pattern k = pattern" "mk_shortest k = shortest" "columns = match_columns pattern" "match_ok k (length columns)"
proof -
  obtain bound where bound: "collect_results (map (bind_anchor B pattern (match_columns pattern)) anchors) = Inr bound"
    and k: "columns = match_columns pattern" "k = \<lparr>mk_pattern = pattern, mk_shortest = shortest, mk_anchors = bound\<rparr>"
    using assms by (auto simp: bind_match_def)
  have "i = 0 \<or> i = 1 \<and> \<not> single_alias pattern" if "bind_anchor B pattern (match_columns pattern) a = Inr (i, r)" for a i r
    using that by (auto simp: bind_anchor_def match_columns_def single_alias_def ok_or_def split: if_splits option.splits prod.splits)
  moreover have "\<exists>a. bind_anchor B pattern (match_columns pattern) a = Inr b" if "b \<in> set bound" for b
    by (rule source_of_result [OF bound that])
  ultimately have "list_all (\<lambda>(i, r). i = 0 \<or> i = 1 \<and> \<not> single_alias pattern) bound" unfolding list_all_iff by blast
  then show "mk_pattern k = pattern" "mk_shortest k = shortest" "columns = match_columns pattern" "match_ok k (length columns)"
    by (simp_all add: k match_ok_def)
qed

section \<open>Properties\<close>

text \<open>C13 Expanded rows. Bind an expansion over a scope and run it on rows of that scope. The answer is made of the rows of
  each input in turn: the input with the endpoint, the edges and the path of each of its paths, shorter
  paths first; for an input without paths the input with nulls if the expansion is optional and nothing
  if not. The paths are all chains of edges from the start node that the pattern describes. Every row has
  the columns binding announced, and only the quota error can occur.\<close>

theorem expansions_return_all_paths:
  assumes "bind_expand scope pattern optional = Inr (columns, k)" "list_all (row_typed scope) input"
  shows "case run_expand E (Some G) k input st of
      Inl err \<Rightarrow> err = quota
    | Inr (rows, _) \<Rightarrow> list_all (row_typed columns) rows
        \<and> (\<exists>pss. list_all2 (row_paths G k) input pss \<and> rows = concat (map2 (rows_of k) input pss))"
proof -
  note k = bind_expand_Inr [OF assms(1)]
  have "ek_start_index k < length vs \<and> (vs ! ek_start_index k = VNull \<or> (\<exists>r. vs ! ek_start_index k = VEntity r))" if "vs \<in> set input" for vs
    using assms(2) that k(3) base_cases(6) [OF _ k(4) refl, of "vs ! ek_start_index k"]
    by (auto simp: list_all_iff row_typed_def list_all2_conv_all_nth)
  then have run: "case run_expand E (Some G) k input st of
      Inl err \<Rightarrow> err = quota
    | Inr (rows, _) \<Rightarrow> \<exists>pss. list_all2 (row_paths G k) input pss \<and> rows = concat (map2 (rows_of k) input pss)"
    by (intro run_expand_rows) blast
  have "list_all (row_typed columns) (concat (map2 (rows_of k) input pss))" for pss
    using rows_of_typed [OF assms(1)] assms(2) by (fastforce simp: list_all_iff dest: set_zip_leftD)
  then show ?thesis using run by (auto split: sum.splits)
qed

definition sample_pattern :: compact_pattern where
  "sample_pattern = \<lparr>pc_start_alias = ''n'', pc_end_alias = ''m'', pc_edge_alias = Some ''e'', pc_relations = [''knows''], pc_direction = DirOut,
     pc_min_hops = 1, pc_max_hops = 3, pc_mode = PathTrail, pc_path_alias = Some ''p''\<rparr>"

definition sample_graph :: graph_snapshot where
  "sample_graph = \<lparr>gs_nodes = [(''x'', sample_ref), (''y'', sample_ref\<lparr>rr_id := ''y''\<rparr>)], gs_node_labels = [],
     gs_edges = [\<lparr>ge_edge = sample_ref\<lparr>rr_kind := KindEdge, rr_id := ''k''\<rparr>, ge_source = sample_ref, ge_target = sample_ref\<lparr>rr_id := ''y''\<rparr>, ge_relation = ''knows''\<rparr>]\<rparr>"

theorem expansions_return_all_paths_witness:
  "case run_expand sample_env (Some sample_graph) \<lparr>ek_start_index = 0, ek_end_index = None, ek_pattern = sample_pattern, ek_optional = True\<rparr>
      [[VEntity sample_ref]] (sample_budget, 0) of
    Inl err \<Rightarrow> err = quota
  | Inr (rows, _) \<Rightarrow> list_all (row_typed [\<lparr>col_name = ''n'', col_ty = TEntity\<rparr>, \<lparr>col_name = ''m'', col_ty = TNullable TEntity\<rparr>,
      \<lparr>col_name = ''e'', col_ty = TNullable (TList TEntity)\<rparr>, \<lparr>col_name = ''p'', col_ty = TNullable TPath\<rparr>]) rows"
proof -
  have 1: "bind_expand [\<lparr>col_name = ''n'', col_ty = TEntity\<rparr>] sample_pattern True =
      Inr ([\<lparr>col_name = ''n'', col_ty = TEntity\<rparr>, \<lparr>col_name = ''m'', col_ty = TNullable TEntity\<rparr>,
        \<lparr>col_name = ''e'', col_ty = TNullable (TList TEntity)\<rparr>, \<lparr>col_name = ''p'', col_ty = TNullable TPath\<rparr>],
        \<lparr>ek_start_index = 0, ek_end_index = None, ek_pattern = sample_pattern, ek_optional = True\<rparr>)"
    by (simp add: bind_expand_def sample_pattern_def ok_or_def edge_columns_def path_columns_def single_hop_def nullable_if_def as_nullable_def
        unique_columns_def guard_err_def)
  have "list_all (row_typed [\<lparr>col_name = ''n'', col_ty = TEntity\<rparr>]) [[VEntity sample_ref]]" by (simp add: row_typed_def)
  from expansions_return_all_paths [OF 1 this, where E = sample_env and G = sample_graph and st = "(sample_budget, 0)"] show ?thesis by (auto split: sum.splits)
qed

text \<open>C12 Matches. Bind a match of a pattern with anchors and run it on a snapshot keyed by node id. The rows are those of
  the paths from any node of the graph that the pattern and the anchors describe: all of them, or with
  SHORTEST one for each pair of a start and an endpoint, no longer than any path between the two. Every row has the columns
  binding announced, and only the quota error can occur.\<close>

theorem matches_return_all_or_shortest_paths:
  assumes "bind_match B pattern anchors shortest = Inr (columns, k)" "snapshot_keyed G"
  shows "case run_match E (Some G) k (length columns) st of
      Inl err \<Rightarrow> err = quota
    | Inr (rows, _) \<Rightarrow> list_all (row_typed columns) rows
        \<and> (\<exists>cs. rows = map (match_row pattern) cs
            \<and> (if shortest then set cs \<subseteq> graph_matches G k \<and> distinct (map match_ends cs)
                 \<and> graph_matches G k \<subseteq> {c. list_ex (\<lambda>d. match_ends d = match_ends c \<and> hops d \<le> hops c) cs}
               else set cs = graph_matches G k))"
proof -
  note k = bind_match_ok [OF assms(1)]
  have rows: "list_all (row_typed columns) (map (match_row pattern) cs)" for cs
    using match_row_typed by (simp add: k(3) list_all_iff)
  have "\<exists>ds. map (match_row pattern) (selected k {} cs) = map (match_row pattern) ds
      \<and> (if shortest then set ds \<subseteq> graph_matches G k \<and> distinct (map match_ends ds)
           \<and> graph_matches G k \<subseteq> {c. list_ex (\<lambda>d. match_ends d = match_ends c \<and> hops d \<le> hops c) ds}
         else set ds = graph_matches G k)"
    if "set cs = graph_matches G k" "sorted_wrt (\<lambda>a b. match_ends a = match_ends b \<longrightarrow> hops a \<le> hops b) cs" for cs
    using that kept_distinct [of match_ends "{}" cs] kept_subset [of match_ends "{}" cs] kept_lightest [of _ cs match_ends "{}" hops]
    by (intro exI [of _ "selected k {} cs"]) (auto simp: selected_def k(2) list_ex_iff)
  then show ?thesis using run_match_selects [OF k(4) assms(2), of E st] rows by (fastforce simp: k(1) split: sum.splits)
qed

theorem matches_return_all_or_shortest_paths_witness:
  "case run_match sample_env (Some sample_graph) \<lparr>mk_pattern = sample_pattern, mk_shortest = True, mk_anchors = []\<rparr> 4 (sample_budget, 0) of
    Inl err \<Rightarrow> err = quota
  | Inr (rows, _) \<Rightarrow> list_all (row_typed (match_columns sample_pattern)) rows"
proof -
  have 1: "bind_match B sample_pattern [] True = Inr (match_columns sample_pattern, \<lparr>mk_pattern = sample_pattern, mk_shortest = True, mk_anchors = []\<rparr>)" for B
    by (simp add: bind_match_def sample_pattern_def match_columns_def edge_columns_def path_columns_def unique_columns_def guard_err_def)
  have "snapshot_keyed sample_graph" by (simp add: snapshot_keyed_def sample_graph_def sample_ref_def)
  moreover have "length (match_columns sample_pattern) = 4" by (simp add: match_columns_def sample_pattern_def edge_columns_def path_columns_def)
  ultimately show ?thesis
    using matches_return_all_or_shortest_paths [OF 1, of sample_graph sample_env "(sample_budget, 0)"] by (auto split: sum.splits)
qed

end
