(* ===== verification/Spec2Isabelle.thy ===== *)
theory Spec2Isabelle
  imports GB_Writer_Loop GB_Retention GB_Base64 GB_Leases GB_Key_Codec GB_Wire_Dag GB_Graph_Writes GB_Executor GB_Match
begin

text \<open>
  GenesisBlockDB: a verification library.

  \<^bold>\<open>The program.\<close> GenesisBlockDB (\<open>src/src/\<close>) is an embedded graph database. A commit appends a signed event to a journal
  through one writer thread and then changes the graph in memory; opening the database replays the journal. Events of
  other replicas are applied the same way, so the graph is a last-writer-wins structure over logical clocks. Reads go
  through access policies and leases on published generations. The second query engine (\<open>src/src/query/hql2/\<close>) takes a
  graph of operators as JSON, checks and decodes it, binds it to typed columns, and executes it under a budget.

  \<^bold>\<open>Style.\<close> Rust functions are HOL functions. \<open>Result\<close> is \<open>('e, 'a) result\<close>, an error on the left, and \<open>rbind\<close> is the question
  mark. Mutable state is a record that is passed on. Integers are words of their width; floats are their 64 bits. Strings
  are lists of the characters of their bytes. A \<open>BTreeMap\<close> that is iterated is a list in key order, one that is only asked is a map. What the
  environment decides (outcomes of writes, flushes and removals, clock readings, acknowledgements) is an argument. Code outside the
  repository is a record of functions whose documented laws are named hypotheses: the checksum, digest and block
  compressor (\<open>codec_ops\<close> with \<open>codec_laws\<close>), serializers (\<open>ser_bounded\<close>, \<open>ser_decodes\<close>), the
  uuid crate, decoders derived by serde, float conversions and arithmetic, Unicode lower case, the sizes of compiled types, the property
  source (\<open>source_answers\<close>) and the comparisons a sort makes (\<open>sorts_its_list\<close>).

  \<^bold>\<open>Foundations.\<close> \<open>GB_Prelude\<close>: machine types, results, checked and saturating arithmetic, byte order, UTF-8, decimal numbers.
  Interfaces are locales, each interpreted on the code's own operations:
  \<^item> \<open>meter\<close> (\<open>GB_Budget\<close>): a counter with a limit; nine interpretations, one per counter of the two budgets.
  \<^item> \<open>worklist\<close> (\<open>GB_Kahn\<close>): the collection Kahn's algorithm pops from, as a vector and as an ordered set; \<open>numbering\<close> (\<open>GB_Wire_Dag\<close>)
    carries it over to numbered nodes by a sublocale.
  \<^item> \<open>postorder\<close> (\<open>GB_Postorder\<close>): walks with an explicit stack, for binding and for evaluation.
  \<^item> \<open>ordering_on\<close> (\<open>GB_Sorting\<close>): comparators that are total preorders, for sort keys, record references and paths.
  \<^item> \<open>partial_equivalence\<close> (\<open>GB_Grouping\<close>): equality of floats, numbers, JSON, values and rows.
  \<^item> the library's \<open>comp_fun_idem\<close> (\<open>GB_Graph_Inv\<close>): retiring edges in any order.

  \<^bold>\<open>Journal\<close> (\<open>src/src/lib.rs\<close>). \<open>GB_Journal_Format\<close>: frames, headers, sealed segments, the frame walker (\<open>walk_frames\<close>). \<open>GB_Journal_Store\<close>: the
  directory, recovery (\<open>journal_recover\<close>), sealing, folding and migration as lists of file operations, and the scan at open
  (\<open>scan_journal\<close>). \<open>GB_Journal_Rotation\<close>: a crash after any of these operations loses nothing; three
  theorems show inputs where the code does lose data. \<open>GB_Journal_Writer\<close>: the turns of the writer thread; what it
  acknowledges is recovered. \<open>GB_Writer_Loop\<close>: its receive loop; every request is answered once. \<open>GB_Retention\<close>: the retention profile.
  \<open>GB_Base64\<close>: signature text.

  \<^bold>\<open>Graph\<close> (\<open>src/src/lib.rs\<close>). \<open>GB_Graph_Data\<close>: nodes, edges, events and the temporal view. \<open>GB_Graph_State\<close>: the live graph and \<open>apply_event\<close>
  with a case for each event. \<open>GB_Graph_Inv\<close>: its invariant. \<open>GB_Graph_LWW\<close>: refinement of last-writer-wins registers and convergence of
  replicas. \<open>GB_Graph_Writes\<close>: local writes, which change the graph as replay of their event does.

  \<^bold>\<open>Policies and budgets.\<close> \<open>GB_Access\<close>, \<open>GB_Leases\<close> (\<open>src/src/lib.rs\<close>): policies, generations and leases as a step relation.
  \<open>GB_Budget\<close>: the budgets of both query engines. \<open>GB_Contracts\<close> (\<open>src/src/uee_v2.rs\<close>): the wire contracts.

  \<^bold>\<open>Query engine\<close> (\<open>src/src/query/hql2/\<close>). \<open>GB_Query_Error\<close>, \<open>GB_Query_Types\<close>, \<open>GB_Key_Codec\<close>: \<open>error.rs\<close>, \<open>value.rs\<close>, \<open>key_codec.rs\<close>. \<open>GB_Wire\<close>,
  \<open>GB_Wire_Dag\<close>: \<open>wire.rs\<close>. \<open>GB_Bind\<close>: expressions in \<open>bind.rs\<close>. \<open>GB_Eval\<close>, \<open>GB_Eval_Pure\<close>, \<open>GB_Eval_Sound\<close>: evaluation in \<open>exec.rs\<close>; the
  budget only adds the quota error, and bound expressions evaluate to their type. \<open>GB_Kernels\<close>, \<open>GB_Kernel_Types\<close>: the relational
  operators and their binding. \<open>GB_Algebra\<close>: the relational algebra the kernels refine; \<open>GB_Sorting\<close>, \<open>GB_Grouping\<close>, \<open>GB_Relational\<close>: what its
  operators mean. \<open>GB_Hydration\<close>, \<open>GB_Hydrated\<close>, \<open>GB_Hydration_Sound\<close>: fetching property values; none is missing when a kernel runs.
  \<open>GB_Operator\<close>, \<open>GB_Binder\<close>, \<open>GB_Executor\<close>: an operator, \<open>bind_v2\<close>, and the execution loop, with the theorem that a bound query returns rows
  of its columns. \<open>GB_Paths\<close>, \<open>GB_Match\<close>: path search and the graph operators, which return all paths or shortest ones.

  \<^bold>\<open>Termination and fuel.\<close> Loops are total functions with a measure, except the loops of the topological sorts (\<open>GB_Kahn\<close> and its two uses), whose fuel is the number of nodes plus one; the
  validators are proved to decide, so the fuel is enough. A number of turns in \<open>drain\<close> is what the clock and the channel allow, not a bound on the
  model. The path search ends because a path is weighed by the number of edges to the power of the hops that are left.

  \<^bold>\<open>Not modelled.\<close> Pattern sequences, vector, lexical, context and annotation operators, whose rankings rest on float distances and text
  profiles; \<open>bind_v2\<close> has no value here on a request with one of them, and expansions and matches are modelled as single operators beside it. The
  concrete syntax of HQL2 and the older language HQL1; the catalog beyond its table names; counters for EXPLAIN. The SQL projection, the
  vector index and its files, the network protocols, backup and one-time migrations of old stores: they
  run mostly in third-party code. The HTTP router, the foreign interfaces and the clients only convert values around these calls.
  Threads other than the writer are not modelled: operations run one at a time, as they do under the code's locks.
\<close>

end
